(* ===== verification/Prelude.thy ===== *)
theory Prelude
  imports Complex_Main "HOL-Library.Word" "HOL-Library.Multiset" "HOL-Library.Monad_Syntax"
begin

unbundle bit_operations_syntax

text \<open>
  What every component of the development shares: the machine words of the C code, the
  pointer tricks of the decision-diagram package on words, a few list, map and multiset
  lemmas, and the two collections of simplification rules that the component theories extend.

  The package is modelled in the configuration the headers of the repository select when no
  macro is given on the command line (\<open>SIZEOF_VOID_P\<close>, \<open>SIZEOF_INT\<close> and \<open>SIZEOF_LONG\<close> are 4, see
  \<open>include/SVF/CUDD/cudd.h\<close>): addresses and unsigned integers are 32-bit words,
  \<open>DdHalfWord\<close> is a 16-bit word.
\<close>

named_theorems ptr_simps \<open>rewriting complemented and regular pointers\<close>
named_theorems frame_simps \<open>what an update of the manager leaves unchanged\<close>

subsection \<open>Words\<close>

type_synonym ptr = "32 word"
type_synonym uint32 = "32 word"
type_synonym DdHalfWord = "16 word"

abbreviation NULL :: ptr where
  "NULL \<equiv> 0"

lemma unat_less_2_32: "unat (p :: 32 word) < 2 ^ 32"
  using unsigned_less [of p] by simp

lemma card_ptrs_less: "0 \<notin> A \<Longrightarrow> card (A :: ptr set) < 2 ^ 32"
proof -
  assume "0 \<notin> A"
  then have "A \<subset> (UNIV :: ptr set)" by blast
  then have "card A < card (UNIV :: ptr set)" by (rule psubset_card_mono [OF finite])
  then show ?thesis by (simp add: card_word)
qed

lemma of_nat_card_eq_iff:
  assumes "0 \<notin> A" "0 \<notin> B"
  shows "(of_nat (card (A :: ptr set)) :: 32 word) = of_nat (card (B :: ptr set)) \<longleftrightarrow> card A = card B"
proof -
  have "card A < 2 ^ 32" "card B < 2 ^ 32"
    using assms card_ptrs_less by blast+
  then have "unat (of_nat (card A) :: 32 word) = card A" "unat (of_nat (card B) :: 32 word) = card B"
    by (simp_all add: unat_of_nat)
  then show ?thesis by metis
qed

lemma of_nat_card_eq_0_iff:
  assumes "0 \<notin> A"
  shows "(of_nat (card (A :: ptr set)) :: 32 word) = 0 \<longleftrightarrow> A = {}"
  using of_nat_card_eq_iff [of A "{}"] assms by (simp add: card_eq_0_iff)

lemma drop_bit_32_less:
  assumes "s \<le> 32"
  shows "unat (drop_bit s (w :: 32 word)) < 2 ^ (32 - s)"
proof -
  have "unat (drop_bit s w) = unat w div 2 ^ s"
    by (simp only: unat_drop_bit_eq flip: drop_bit_eq_div)
  moreover have "unat w < 2 ^ s * 2 ^ (32 - s)"
    using unat_less_2_32 [of w] assms by (simp flip: power_add)
  ultimately show ?thesis
    by (simp add: less_mult_imp_div_less mult.commute)
qed

lemma sint_small: "unat (w :: 32 word) < 2147483648 \<Longrightarrow> sint w = int (unat w)"
proof -
  assume "unat w < 2147483648"
  then have u: "uint w < 2147483648" using uint_nat [of w] by linarith
  have "- (2 ^ 31) \<le> uint w" by (rule order_trans [of _ 0]) simp_all
  then have t: "signed_take_bit 31 (uint w) = uint w" using u by (intro signed_take_bit_int_eq_self) simp_all
  have "sint w = signed_take_bit 31 (uint w)" by (simp add: sint_uint)
  then show ?thesis unfolding t by (simp only: uint_nat)
qed

lemma drop_bit_pred:
  assumes "0 < s"
  shows "unat (drop_bit (s - 1) (w :: 32 word)) div 2 = unat (drop_bit s w)"
proof -
  obtain t where s: "s = Suc t" using assms by (cases s) auto
  show ?thesis
    by (simp only: s unat_drop_bit_eq diff_Suc_1 drop_bit_eq_div [where ?'a = nat] power_Suc2 div_mult2_eq)
qed

subsection \<open>Complemented pointers\<close>

text \<open>
  The least significant bit of a pointer to a node is the complement attribute of the edge
  (the macros of \<open>include/SVF/CUDD/cudd.h\<close>).
\<close>

definition Cudd_Not :: "ptr \<Rightarrow> ptr" where
  "Cudd_Not node = node XOR 1"

definition Cudd_NotCond :: "ptr \<Rightarrow> bool \<Rightarrow> ptr" where
  "Cudd_NotCond node c = node XOR (if c then 1 else 0)"

definition Cudd_Regular :: "ptr \<Rightarrow> ptr" where
  "Cudd_Regular node = node AND NOT 1"

definition Cudd_Complement :: "ptr \<Rightarrow> ptr" where
  "Cudd_Complement node = node OR 1"

definition Cudd_IsComplement :: "ptr \<Rightarrow> bool" where
  "Cudd_IsComplement node = (node AND 1 \<noteq> 0)"

lemma bit_0_iff_and_1: "(w :: ptr) AND 1 \<noteq> 0 \<longleftrightarrow> bit w 0"
  by (simp add: and_one_eq bit_0 even_iff_mod_2_eq_zero)

lemma IsComplement_bit: "Cudd_IsComplement p = bit p 0"
  by (simp only: Cudd_IsComplement_def bit_0_iff_and_1)

lemma bit_Cudd_Not: "bit (Cudd_Not p) n = (n < 32 \<and> (bit p n \<noteq> (n = 0)))"
  using bit_imp_le_length [of p n] by (auto simp add: Cudd_Not_def bit_xor_iff bit_1_iff)

lemma bit_Cudd_Regular: "bit (Cudd_Regular p) n = (bit p n \<and> n \<noteq> 0)"
proof -
  have "bit (NOT 1 :: ptr) n = (n < 32 \<and> n \<noteq> 0)"
    by (simp only: bit_not_iff bit_1_iff possible_bit_word) simp
  moreover have "bit p n \<Longrightarrow> n < 32"
    using bit_imp_le_length [of p n] by simp
  ultimately show ?thesis
    by (auto simp only: Cudd_Regular_def bit_and_iff)
qed

lemma Not_Not [simp, ptr_simps]: "Cudd_Not (Cudd_Not p) = p"
  by (rule bit_word_eqI) (auto simp add: bit_Cudd_Not)

lemma Regular_Not [simp, ptr_simps]: "Cudd_Regular (Cudd_Not p) = Cudd_Regular p"
  by (rule bit_word_eqI) (auto simp add: bit_Cudd_Not bit_Cudd_Regular)

lemma Regular_Regular [simp, ptr_simps]: "Cudd_Regular (Cudd_Regular p) = Cudd_Regular p"
  by (rule bit_word_eqI) (simp add: bit_Cudd_Regular)

lemma IsComplement_Not [simp, ptr_simps]: "Cudd_IsComplement (Cudd_Not p) = (\<not> Cudd_IsComplement p)"
  by (simp add: IsComplement_bit bit_Cudd_Not)

lemma IsComplement_Regular [simp, ptr_simps]: "\<not> Cudd_IsComplement (Cudd_Regular p)"
  by (simp add: IsComplement_bit bit_Cudd_Regular)

lemma Regular_id [simp, ptr_simps]: "\<not> Cudd_IsComplement p \<Longrightarrow> Cudd_Regular p = p"
proof -
  assume "\<not> Cudd_IsComplement p"
  then have nb: "\<not> bit p 0" by (simp add: IsComplement_bit)
  show ?thesis
    by (rule bit_word_eqI) (use nb in \<open>auto simp add: bit_Cudd_Regular intro: gr0I\<close>)
qed

lemma Regular_eq_self_iff [ptr_simps]: "Cudd_Regular p = p \<longleftrightarrow> \<not> Cudd_IsComplement p"
  using IsComplement_Regular [of p] Regular_id [of p] by metis

lemma Regular_complemented: "Cudd_IsComplement p \<Longrightarrow> Cudd_Regular p = Cudd_Not p"
  using Regular_id [of "Cudd_Not p"] by simp

lemma Not_neq [simp, ptr_simps]: "Cudd_Not p \<noteq> p" "p \<noteq> Cudd_Not p"
  using IsComplement_Not [of p] by metis+

lemma Not_eq_Not [simp, ptr_simps]: "Cudd_Not p = Cudd_Not q \<longleftrightarrow> p = q"
  by (metis Not_Not)

lemma Not_eq_swap: "Cudd_Not p = q \<longleftrightarrow> p = Cudd_Not q"
  by auto

lemma Regular_eq_iff: "Cudd_Regular p = Cudd_Regular q \<longleftrightarrow> p = q \<or> p = Cudd_Not q"
  by (metis Regular_Not Regular_complemented Regular_id Not_Not)

lemma NotCond_False [simp, ptr_simps]: "Cudd_NotCond p False = p"
  by (simp add: Cudd_NotCond_def)

lemma NotCond_True [simp, ptr_simps]: "Cudd_NotCond p True = Cudd_Not p"
  by (simp add: Cudd_NotCond_def Cudd_Not_def)

lemma Regular_NotCond [simp, ptr_simps]: "Cudd_Regular (Cudd_NotCond p c) = Cudd_Regular p"
  by (cases c) simp_all

lemma IsComplement_NotCond [simp, ptr_simps]:
  "Cudd_IsComplement (Cudd_NotCond p c) = (Cudd_IsComplement p \<noteq> c)"
  by (cases c) simp_all

lemma IsComplement_0 [simp]: "\<not> Cudd_IsComplement 0"
  by (simp add: IsComplement_bit)

lemma IsComplement_aligned: "p AND 15 = 0 \<Longrightarrow> \<not> Cudd_IsComplement p"
proof
  assume a: "p AND 15 = 0" and "Cudd_IsComplement p"
  then have "bit p 0" by (simp add: IsComplement_bit)
  moreover have "bit (15 :: ptr) 0" by simp
  ultimately have "bit (p AND 15) 0" by (simp only: bit_and_iff)
  then show False using a by simp
qed

lemma Regular_0 [simp]: "Cudd_Regular 0 = 0"
  by simp

text \<open>The four low bits of a pointer to an aligned node are free for tags.\<close>

lemma bit_consts:
  "bit (15 :: ptr) n \<longleftrightarrow> n < 4" "bit (14 :: ptr) n \<longleftrightarrow> n \<in> {1, 2, 3}"
  "bit (10 :: ptr) n \<longleftrightarrow> n \<in> {1, 3}" "bit (6 :: ptr) n \<longleftrightarrow> n \<in> {1, 2}"
  by (auto simp: bit_numeral_rec bit_1_iff split: nat.splits)
lemma aligned_bits: "p AND 15 = (0 :: ptr) \<Longrightarrow> n < 4 \<Longrightarrow> \<not> bit p n"
  using bit_and_iff [of p 15 n] bit_consts(1) [of n] by simp
lemma low_bits:
  assumes "p AND 15 = (0 :: ptr)"
  shows "(p OR 14) AND NOT 15 = p" "(p OR 10) AND NOT 15 = p" "(p OR 6) AND NOT 15 = p"
    "p AND NOT 15 = p" "Cudd_Not p AND NOT 15 = p"
    "p AND 14 = 0" "Cudd_Not p AND 14 = 0"
    "(p OR 14) AND 14 = 14" "(p OR 10) AND 14 = 10" 
proof -
  note n = aligned_bits [OF assms]
  have l: "bit p n \<Longrightarrow> n < 32" for n using bit_imp_le_length [of p n] by simp
  have m: "bit (NOT 15 :: ptr) n \<longleftrightarrow> 4 \<le> n \<and> n < 32" for n
    by (auto simp only: bit_not_iff bit_consts possible_bit_word len_num1 len_bit0 not_less)
  note b = bit_consts bit_and_iff bit_or_iff m bit_Cudd_Not bit_0_eq
  have c: "4 \<le> n \<longleftrightarrow> n \<noteq> 0 \<and> n \<noteq> 1 \<and> n \<noteq> 2 \<and> n \<noteq> (3 :: nat)" for n by auto
  have z: "\<not> bit p 0" "\<not> bit p 1" "\<not> bit p 2" "\<not> bit p 3" using n by simp_all
  show "(p OR 14) AND NOT 15 = p" "(p OR 10) AND NOT 15 = p" "(p OR 6) AND NOT 15 = p"
    "p AND NOT 15 = p" "Cudd_Not p AND NOT 15 = p" "p AND 14 = 0" "Cudd_Not p AND 14 = 0"
    "(p OR 14) AND 14 = 14" "(p OR 10) AND 14 = 10" 
    by (rule bit_word_eqI; simp only: b; use z l in \<open>auto simp: c intro: gr0I\<close>)+
qed

text \<open>An operand with a tag in bits 1 to 3, taken apart again.\<close>

lemma mask_split: "(w :: ptr) = (w AND 14) OR (w AND NOT 14)"
  by (simp flip: bit.conj_disj_distrib)

lemma tag_bits:
  assumes "(e :: ptr) AND 14 = 0" "t AND NOT 14 = 0"
  shows "(e OR t) AND NOT 14 = e" "(e OR t) AND 14 = t" "(e OR t) AND NOT 15 = e AND NOT 15"
proof -
  have e: "e AND NOT 14 = e" using mask_split [of e] unfolding assms(1) by simp
  have t: "t AND 14 = t" using mask_split [of t] unfolding assms(2) by simp
  show "(e OR t) AND NOT 14 = e" using e assms(2) unfolding bit.conj_disj_distrib2 by simp
  show "(e OR t) AND 14 = t" using t assms(1) unfolding bit.conj_disj_distrib2 by simp
  have "t AND NOT 15 = (t AND NOT 14) AND NOT 15" by (simp add: and.assoc)
  then have "t AND NOT 15 = 0" unfolding assms(2) by simp
  then show "(e OR t) AND NOT 15 = e AND NOT 15" unfolding bit.conj_disj_distrib2 by simp
qed

lemma tag_clear: "((t :: ptr) AND 14) AND NOT 14 = 0"
proof -
  have "(t AND 14) AND NOT 14 = t AND (14 AND NOT 14)" by (rule and.assoc)
  then show ?thesis by simp
qed

subsection \<open>Array accesses\<close>

text \<open>
  An access outside the bounds of an array is undefined behaviour in C: the model has no
  value for it.
\<close>

definition nth_opt :: "'a list \<Rightarrow> nat \<Rightarrow> 'a option" where
  "nth_opt xs i = (if i < length xs then Some (xs ! i) else None)"

definition upd_opt :: "'a list \<Rightarrow> nat \<Rightarrow> 'a \<Rightarrow> 'a list option" where
  "upd_opt xs i x = (if i < length xs then Some (xs[i := x]) else None)"

lemma nth_opt_Some [simp]: "i < length xs \<Longrightarrow> nth_opt xs i = Some (xs ! i)"
  by (simp add: nth_opt_def)

lemma upd_opt_Some [simp]: "i < length xs \<Longrightarrow> upd_opt xs i x = Some (xs[i := x])"
  by (simp add: upd_opt_def)

lemma nth_opt_eq_Some_iff: "nth_opt xs i = Some x \<longleftrightarrow> i < length xs \<and> xs ! i = x"
  by (auto simp: nth_opt_def)

lemma map_update_same: "f x = f (xs ! i) \<Longrightarrow> map f (xs[i := x]) = map f xs"
  by (metis list_update_beyond list_update_id map_update not_le_imp_less)

end
