(* ===== verification/CuddInt.thy ===== *)
theory CuddInt
  imports Prelude
begin

unbundle bit_operations_syntax

text \<open>
  The data of the decision-diagram package: the node, the unique subtables, the entries of
  the computed table and the manager of \<open>include/SVF/CUDD/cuddInt.h\<close> and \<open>cudd.h\<close>, with the
  macros on them.

  \<^item> Memory is the field \<open>heap\<close>, from addresses to nodes; reading an address that is not a
    node has no value (\<open>None\<close>), as the undefined behaviour it is.
  \<^item> The \<open>next\<close> pointer of a node threads it into a collision list or into the free list.
    Those lists are lists here: \<open>nodelist\<close> holds one list of addresses per bucket and
    \<open>nextFree\<close> is the free list. The end of a list stands for the sentinel, respectively for
    \<open>NULL\<close>.
  \<^item> Counters of the manager are 32-bit words and wrap as \<open>unsigned int\<close> does. The
    \<open>double\<close> parameters of the growth policy are rationals; statistics kept in \<open>double\<close>
    are integers.
  \<^item> The answers of the operating system are three streams: \<open>os_chunks\<close> are the addresses
    that the next allocations of node blocks return, \<open>os_allocs\<close> says whether the next
    allocations of arrays succeed, and \<open>os_clock\<close> are the next readings of the processor
    clock. An exhausted stream answers \<open>NULL\<close>, \<open>False\<close> and 0.
  \<^item> Not kept: the fields of variable grouping, reordering strategies, application hooks,
    local caches and output streams, which no modelled operation reads.
\<close>

subsection \<open>Constants\<close>

definition CUDD_CONST_INDEX :: DdHalfWord where
  "CUDD_CONST_INDEX = 65535"

definition DD_MAXREF :: DdHalfWord where
  "DD_MAXREF = 65535"

definition DD_MEM_CHUNK :: nat where
  "DD_MEM_CHUNK = 1022"

definition DD_MAX_SUBTABLE_DENSITY :: nat where
  "DD_MAX_SUBTABLE_DENSITY = 4"

definition DD_DEFAULT_RESIZE :: nat where
  "DD_DEFAULT_RESIZE = 10"

definition DD_GC_FRAC_LO :: rat where
  "DD_GC_FRAC_LO = 1"

definition DD_GC_FRAC_HI :: rat where
  "DD_GC_FRAC_HI = 4"

definition DD_GC_FRAC_MIN :: rat where
  "DD_GC_FRAC_MIN = 1 / 5"

definition DD_MAX_CACHE_TO_SLOTS_RATIO :: uint32 where
  "DD_MAX_CACHE_TO_SLOTS_RATIO = 4"

definition DD_P1 :: uint32 where
  "DD_P1 = 12582917"

definition DD_P2 :: uint32 where
  "DD_P2 = 4256249"

definition DD_NON_CONSTANT :: ptr where
  "DD_NON_CONSTANT = 1"

definition DD_BDD_AND_ABSTRACT_TAG :: ptr where
  "DD_BDD_AND_ABSTRACT_TAG = 0x06"

definition DD_BDD_XOR_EXIST_ABSTRACT_TAG :: ptr where
  "DD_BDD_XOR_EXIST_ABSTRACT_TAG = 0x0a"

definition DD_BDD_COMPOSE_RECUR_TAG :: ptr where
  "DD_BDD_COMPOSE_RECUR_TAG = 0x2e"

definition DD_BDD_ITE_TAG :: ptr where
  "DD_BDD_ITE_TAG = 0x0e"

definition DD_BDD_ITE_CONSTANT_TAG :: ptr where
  "DD_BDD_ITE_CONSTANT_TAG = 0x6a"

text \<open>\<open>sizeof(DdNode)\<close>, \<open>sizeof(DdNodePtr)\<close> and \<open>sizeof(DdCache)\<close> in this configuration.\<close>

definition sizeof_DdNode :: uint32 where
  "sizeof_DdNode = 16"

definition sizeof_DdNodePtr :: uint32 where
  "sizeof_DdNodePtr = 4"

definition sizeof_DdCache :: uint32 where
  "sizeof_DdCache = 16"

text \<open>
  The two-operand operators are told apart in the computed table by the address of their
  function. The addresses are the linker's; the model only needs them to be different.
\<close>

definition fp_Cudd_bddAnd :: ptr where
  "fp_Cudd_bddAnd = 0x08049010"

definition fp_Cudd_bddXor :: ptr where
  "fp_Cudd_bddXor = 0x08049020"

definition fp_Cudd_bddIntersect :: ptr where
  "fp_Cudd_bddIntersect = 0x08049030"

definition fp_Cudd_bddLeq :: ptr where
  "fp_Cudd_bddLeq = 0x08049040"

definition fp_Cudd_bddExistAbstract :: ptr where
  "fp_Cudd_bddExistAbstract = 0x08049050"

definition fp_cuddBddBooleanDiffRecur :: ptr where
  "fp_cuddBddBooleanDiffRecur = 0x08049060"

definition fp_Cudd_bddVarIsDependent :: ptr where
  "fp_Cudd_bddVarIsDependent = 0x08049070"

definition fp_Cudd_Cofactor :: ptr where
  "fp_Cudd_Cofactor = 0x08049080"

lemmas fp_defs = fp_Cudd_bddAnd_def fp_Cudd_bddXor_def fp_Cudd_bddIntersect_def fp_Cudd_bddLeq_def
  fp_Cudd_bddExistAbstract_def fp_cuddBddBooleanDiffRecur_def fp_Cudd_bddVarIsDependent_def fp_Cudd_Cofactor_def

lemmas tag_defs = DD_BDD_ITE_TAG_def DD_BDD_ITE_CONSTANT_TAG_def DD_BDD_AND_ABSTRACT_TAG_def
  DD_BDD_XOR_EXIST_ABSTRACT_TAG_def DD_BDD_COMPOSE_RECUR_TAG_def

text \<open>The tag of an operator of three operands is stored in the low bits of the first two.\<close>

definition pack_f :: "ptr \<Rightarrow> ptr \<Rightarrow> ptr" where
  "pack_f opr f = f OR (opr AND 0xe)"

definition pack_g :: "ptr \<Rightarrow> ptr \<Rightarrow> ptr" where
  "pack_g opr g = g OR drop_bit 4 opr"

text \<open>
  The slots of a memory block of nodes: the first is the first address above the block's start
  that is a multiple of the size of a node.
\<close>

definition chunk_base :: "ptr \<Rightarrow> ptr" where
  "chunk_base mem = mem + (sizeof_DdNode - (mem AND (sizeof_DdNode - 1)))"

definition chunk_slots :: "ptr \<Rightarrow> ptr list" where
  "chunk_slots mem = map (\<lambda>i. chunk_base mem + of_nat i * sizeof_DdNode) [0 ..< DD_MEM_CHUNK]"

subsection \<open>Nodes, subtables, computed-table entries\<close>

type_synonym CUDD_VALUE_TYPE = "64 word" \<comment> \<open>the bits of a \<open>double\<close>\<close>

datatype DdUnion = Value CUDD_VALUE_TYPE | Kids ptr ptr

record DdNode =
  index :: DdHalfWord
  ref :: DdHalfWord
  type :: DdUnion

record DdSubtable =
  nodelist :: "ptr list list"
  shift :: nat
  sub_slots :: nat
  sub_keys :: uint32
  sub_maxKeys :: uint32
  sub_dead :: uint32

record DdCache =
  c_f :: ptr
  c_g :: ptr
  c_h :: ptr
  c_data :: ptr

datatype Cudd_ErrorType =
    CUDD_NO_ERROR
  | CUDD_MEMORY_OUT
  | CUDD_TOO_MANY_NODES
  | CUDD_MAX_MEM_EXCEEDED
  | CUDD_TIMEOUT_EXPIRED
  | CUDD_INVALID_ARG
  | CUDD_INTERNAL_ERROR

subsection \<open>The manager\<close>

record DdManager =
  heap :: "ptr \<rightharpoonup> DdNode"
  DD_ONE :: ptr
  DD_ZERO :: ptr
  cache :: "DdCache list"
  cacheSlots :: uint32
  cacheShift :: nat
  cacheMisses :: nat
  cacheHits :: nat
  minHit :: rat
  cacheSlack :: int
  maxCacheHard :: uint32
  dsize :: nat
  dsizeZ :: nat
  maxSize :: nat
  maxSizeZ :: nat
  subtables :: "DdSubtable list"
  subtableZ :: "DdSubtable list"
  constants :: DdSubtable
  slots :: uint32
  keys :: uint32
  keysZ :: uint32
  dead :: uint32
  deadZ :: uint32
  maxLive :: uint32
  minDead :: uint32
  gcFrac :: rat
  gcEnabled :: bool
  looseUpTo :: uint32
  initSlots :: nat
  stackSize :: nat
  allocated :: int
  reclaimed :: int
  perm :: "nat list"
  invperm :: "nat list"
  permZ :: "nat list"
  vars :: "ptr list"
  memoryList :: "ptr list"
  nextFree :: "ptr list"
  stash :: bool
  deathRow :: "ptr list"
  nextDead :: nat
  deadMask :: nat
  reordered :: nat
  autoDyn :: bool
  autoDynZ :: bool
  nextDyn :: uint32
  countDead :: uint32
  maxReorderings :: uint32
  errorCode :: Cudd_ErrorType
  startTime :: uint32
  timeLimit :: uint32
  memused :: uint32
  maxmem :: uint32
  maxmemhard :: uint32
  garbageCollections :: nat
  totCachehits :: int
  totCacheMisses :: int
  cachecollisions :: int
  cacheinserts :: int
  cacheLastInserts :: int
  cachedeletions :: int
  peakLiveNodes :: uint32
  os_chunks :: "ptr list"
  os_allocs :: "bool list"
  os_clock :: "uint32 list"
  oom_called :: bool

text \<open>A function of the C code takes the manager and returns its result with the new manager.\<close>

type_synonym 'a result = "('a \<times> DdManager) option"

subsection \<open>Macros\<close>

definition ddMin :: "'a :: ord \<Rightarrow> 'a \<Rightarrow> 'a" where
  "ddMin x y = (if y < x then y else x)"

definition ddMax :: "'a :: ord \<Rightarrow> 'a \<Rightarrow> 'a" where
  "ddMax x y = (if y > x then y else x)"

definition cuddSatInc :: "DdHalfWord \<Rightarrow> DdHalfWord" where
  "cuddSatInc x = x + (if x \<noteq> DD_MAXREF then 1 else 0)"

definition cuddSatDec :: "DdHalfWord \<Rightarrow> DdHalfWord" where
  "cuddSatDec x = x - (if x \<noteq> DD_MAXREF then 1 else 0)"

definition cuddIsConstant :: "DdNode \<Rightarrow> bool" where
  "cuddIsConstant n = (index n = CUDD_CONST_INDEX)"

definition cuddT :: "DdNode \<Rightarrow> ptr option" where
  "cuddT n = (case type n of Kids T E \<Rightarrow> Some T | Value _ \<Rightarrow> None)"

definition cuddE :: "DdNode \<Rightarrow> ptr option" where
  "cuddE n = (case type n of Kids T E \<Rightarrow> Some E | Value _ \<Rightarrow> None)"

definition cuddI :: "DdManager \<Rightarrow> DdHalfWord \<Rightarrow> nat option" where
  "cuddI m i = (if i = CUDD_CONST_INDEX then Some (unat i) else nth_opt (perm m) (unat i))"

definition Cudd_IsConstant :: "DdManager \<Rightarrow> ptr \<Rightarrow> bool option" where
  "Cudd_IsConstant m p = map_option cuddIsConstant (heap m (Cudd_Regular p))"

definition ddHash :: "ptr \<Rightarrow> ptr \<Rightarrow> nat \<Rightarrow> nat" where
  "ddHash f g s = unat (drop_bit s ((f * DD_P1 + g) * DD_P2))"

definition ddCHash2 :: "ptr \<Rightarrow> ptr \<Rightarrow> ptr \<Rightarrow> nat \<Rightarrow> nat" where
  "ddCHash2 opr f g s = unat (drop_bit s (((f + opr) * DD_P1 + g) * DD_P2))"

definition cuddClean :: "ptr \<Rightarrow> ptr" where
  "cuddClean p = p AND NOT 15"

text \<open>Writing a node back, and the reference-count macros on the node of an edge.\<close>

definition put_node :: "ptr \<Rightarrow> DdNode \<Rightarrow> DdManager \<Rightarrow> DdManager" where
  "put_node p n m = m\<lparr>heap := (heap m)(p \<mapsto> n)\<rparr>"

definition cuddRef :: "ptr \<Rightarrow> DdManager \<Rightarrow> DdManager option" where
  "cuddRef p m = do {
     n \<leftarrow> heap m (Cudd_Regular p);
     Some (put_node (Cudd_Regular p) (n\<lparr>ref := cuddSatInc (ref n)\<rparr>) m) }"

definition cuddDeref :: "ptr \<Rightarrow> DdManager \<Rightarrow> DdManager option" where
  "cuddDeref p m = do {
     n \<leftarrow> heap m (Cudd_Regular p);
     Some (put_node (Cudd_Regular p) (n\<lparr>ref := cuddSatDec (ref n)\<rparr>) m) }"

text \<open>The counters of a subtable that the reference-count operations change.\<close>

definition upd_sub_dead :: "nat \<Rightarrow> (uint32 \<Rightarrow> uint32) \<Rightarrow> DdManager \<Rightarrow> DdManager option" where
  "upd_sub_dead l f m = do {
     st \<leftarrow> nth_opt (subtables m) l;
     Some (m\<lparr>subtables := (subtables m)[l := st\<lparr>sub_dead := f (sub_dead st)\<rparr>]\<rparr>) }"

text \<open>
  The operating system: an array allocation, the allocation of a block of nodes and a
  reading of the processor clock (\<open>util_cpu_time\<close>).
\<close>

definition os_alloc :: "DdManager \<Rightarrow> bool \<times> DdManager" where
  "os_alloc m = (case os_allocs m of [] \<Rightarrow> (False, m) | b # bs \<Rightarrow> (b, m\<lparr>os_allocs := bs\<rparr>))"

text \<open>
  \<open>ALLOC(type, num)\<close> multiplies \<open>(long) sizeof(type) * (long) num\<close> (\<open>util.h\<close>): the product must fit
  the 32-bit \<open>long\<close>, or the array is not what the caller takes it for.
\<close>

definition alloc_fits :: "uint32 \<Rightarrow> nat \<Rightarrow> bool" where
  "alloc_fits sz num \<longleftrightarrow> unat sz * num < 2 ^ 31"

text \<open>
  \<open>(*MMoutOfMemory)(size)\<close>, the handler of a failed allocation. Its default, \<open>MMout_of_memory\<close> of
  \<open>safe_mem.c\<close>, calls \<open>exit(1)\<close>: then the process has ended here. An application may install a handler
  that returns, as the library does around the allocations it can do without (\<open>Cudd_OutOfMem\<close>);
  what follows the call is what runs with such a handler. The ghost field
  \<open>oom_called\<close> records that the application's handler has been called: a state in which it holds is
  one that the program with the default handler does not reach, because it has ended before.
\<close>

definition MMoutOfMemory :: "DdManager \<Rightarrow> DdManager" where
  "MMoutOfMemory m = m\<lparr>oom_called := True\<rparr>"

definition os_chunk :: "DdManager \<Rightarrow> ptr \<times> DdManager" where
  "os_chunk m = (case os_chunks m of [] \<Rightarrow> (NULL, m) | p # ps \<Rightarrow> (p, m\<lparr>os_chunks := ps\<rparr>))"

definition util_cpu_time :: "DdManager \<Rightarrow> uint32 \<times> DdManager" where
  "util_cpu_time m = (case os_clock m of [] \<Rightarrow> (0, m) | t # ts \<Rightarrow> (t, m\<lparr>os_clock := ts\<rparr>))"

definition time_expired :: "DdManager \<Rightarrow> bool \<times> DdManager" where
  "time_expired m = (let (t, m) = util_cpu_time m in (t - startTime m > timeLimit m, m))"

text \<open>Conversion of a non-negative \<open>double\<close> product to \<open>unsigned\<close>.\<close>

definition frac_of_slots :: "rat \<Rightarrow> uint32 \<Rightarrow> uint32" where
  "frac_of_slots q s = of_int \<lfloor>q * of_nat (unat s)\<rfloor>"

end
