(* ===== verification/CuddStore.thy ===== *)
theory CuddStore
  imports CuddInt
begin

text \<open>
  The unique table seen as a graph: which nodes it holds, their level and children, what it
  means for the table to be well formed, the Boolean function of an edge, and the canonicity
  theorem: in a well-formed table two edges denote the same function only if they are the
  same pointer. Everything here depends on the contents of the nodes, the collision lists
  and the variable order only, not on reference counts or statistics.
\<close>

subsection \<open>Views of the manager\<close>

definition cont :: "DdManager \<Rightarrow> ptr \<Rightarrow> (DdHalfWord \<times> DdUnion) option" where
  "cont m p = map_option (\<lambda>n. (index n, type n)) (heap m p)"

definition refc :: "DdManager \<Rightarrow> ptr \<Rightarrow> nat" where
  "refc m p = (case heap m p of None \<Rightarrow> 0 | Some n \<Rightarrow> unat (ref n))"

definition trows :: "DdManager \<Rightarrow> ptr list list list" where
  "trows m = map nodelist (take (dsize m) (subtables m))"

definition tshifts :: "DdManager \<Rightarrow> nat list" where
  "tshifts m = map shift (take (dsize m) (subtables m))"

definition tabnodes :: "DdManager \<Rightarrow> ptr set" where
  "tabnodes m = (\<Union>r \<in> set (trows m). \<Union>c \<in> set r. set c)"

definition nodes :: "DdManager \<Rightarrow> ptr set" where
  "nodes m = insert (DD_ONE m) (tabnodes m)"

definition edges :: "DdManager \<Rightarrow> ptr set" where
  "edges m = {e. Cudd_Regular e \<in> nodes m}"

definition kT :: "DdManager \<Rightarrow> ptr \<Rightarrow> ptr" where
  "kT m p = (case cont m p of Some (_, Kids T E) \<Rightarrow> T | _ \<Rightarrow> NULL)"

definition kE :: "DdManager \<Rightarrow> ptr \<Rightarrow> ptr" where
  "kE m p = (case cont m p of Some (_, Kids T E) \<Rightarrow> E | _ \<Rightarrow> NULL)"

definition nidx :: "DdManager \<Rightarrow> ptr \<Rightarrow> nat" where
  "nidx m p = (case cont m p of Some (i, _) \<Rightarrow> unat i | None \<Rightarrow> 0)"

definition lev :: "DdManager \<Rightarrow> ptr \<Rightarrow> nat" where
  "lev m p = (if p = DD_ONE m then dsize m else perm m ! nidx m p)"

definition elev :: "DdManager \<Rightarrow> ptr \<Rightarrow> nat" where
  "elev m e = lev m (Cudd_Regular e)"

lemmas view_defs = trows_def tshifts_def tabnodes_def nodes_def kT_def kE_def nidx_def lev_def

subsection \<open>Well-formed tables\<close>

definition order_ok :: "DdManager \<Rightarrow> bool" where
  "order_ok m \<longleftrightarrow> dsize m \<le> length (subtables m) \<and> dsize m \<le> length (perm m) \<and>
     dsize m \<le> length (invperm m) \<and> dsize m < 65535 \<and> dsize m < stackSize m \<and>
     (\<forall>l < dsize m. invperm m ! l < dsize m \<and> perm m ! (invperm m ! l) = l) \<and>
     (\<forall>i < dsize m. perm m ! i < dsize m \<and> invperm m ! (perm m ! i) = i)"

definition chain_gt :: "DdManager \<Rightarrow> ptr \<Rightarrow> ptr \<Rightarrow> bool" where
  "chain_gt m p q \<longleftrightarrow> kT m q < kT m p \<or> (kT m p = kT m q \<and> kE m q < kE m p)"

definition chain_ok :: "DdManager \<Rightarrow> nat \<Rightarrow> nat \<Rightarrow> ptr list \<Rightarrow> bool" where
  "chain_ok m l j c \<longleftrightarrow> sorted_wrt (chain_gt m) c \<and>
     (\<forall>p \<in> set c. \<exists>T E. cont m p = Some (of_nat (invperm m ! l), Kids T E) \<and>
        ddHash T E (tshifts m ! l) = j)"

definition table_ok :: "DdManager \<Rightarrow> bool" where
  "table_ok m \<longleftrightarrow> (\<forall>l < dsize m. 0 < tshifts m ! l \<and> tshifts m ! l < 32 \<and>
     length (trows m ! l) = 2 ^ (32 - tshifts m ! l) \<and>
     (\<forall>j < length (trows m ! l). chain_ok m l j (trows m ! l ! j)))"

definition node_ok :: "DdManager \<Rightarrow> ptr \<Rightarrow> bool" where
  "node_ok m p \<longleftrightarrow> p AND 15 = 0 \<and> p \<noteq> NULL \<and>
     \<not> Cudd_IsComplement (kT m p) \<and> kT m p \<noteq> kE m p \<and>
     kT m p \<in> nodes m \<and> Cudd_Regular (kE m p) \<in> nodes m \<and>
     lev m p < lev m (kT m p) \<and> lev m p < lev m (Cudd_Regular (kE m p))"

definition one_ok :: "DdManager \<Rightarrow> bool" where
  "one_ok m \<longleftrightarrow> DD_ONE m AND 15 = 0 \<and> DD_ONE m \<noteq> NULL \<and>
     (\<exists>v. cont m (DD_ONE m) = Some (CUDD_CONST_INDEX, Value v))"

definition store_ok :: "DdManager \<Rightarrow> bool" where
  "store_ok m \<longleftrightarrow> order_ok m \<and> table_ok m \<and> one_ok m \<and> (\<forall>p \<in> tabnodes m. node_ok m p)"

text \<open>All of this is determined by the following tuple.\<close>

definition store :: "DdManager \<Rightarrow> (ptr \<Rightarrow> (DdHalfWord \<times> DdUnion) option) \<times>
    (ptr list list list \<times> nat list) \<times> (nat list \<times> nat list \<times> ptr list) \<times>
    nat \<times> nat \<times> nat \<times> ptr \<times> nat \<times> nat \<times> nat" where
  "store m = (cont m, (trows m, tshifts m), (perm m, invperm m, vars m),
     dsize m, length (subtables m), stackSize m, DD_ONE m, maxSize m, maxSizeZ m, initSlots m)"

lemma store_cong:
  assumes "store m' = store m"
  shows "cont m' = cont m" "trows m' = trows m" "tshifts m' = tshifts m" "perm m' = perm m"
    "invperm m' = invperm m" "dsize m' = dsize m" "DD_ONE m' = DD_ONE m"
    "stackSize m' = stackSize m" "length (subtables m') = length (subtables m)"
    "tabnodes m' = tabnodes m" "nodes m' = nodes m" "edges m' = edges m"
    "kT m' = kT m" "kE m' = kE m" "nidx m' = nidx m" "lev m' = lev m" "elev m' = elev m"
    "store_ok m' = store_ok m"
    "vars m' = vars m" "maxSize m' = maxSize m" "maxSizeZ m' = maxSizeZ m" "initSlots m' = initSlots m"
proof -
  show "vars m' = vars m" "maxSize m' = maxSize m" "maxSizeZ m' = maxSizeZ m" "initSlots m' = initSlots m"
    using assms by (simp_all add: store_def)
  show c: "cont m' = cont m" "trows m' = trows m" "tshifts m' = tshifts m" "perm m' = perm m"
    "invperm m' = invperm m" "dsize m' = dsize m" "DD_ONE m' = DD_ONE m"
    "stackSize m' = stackSize m" "length (subtables m') = length (subtables m)"
    using assms by (simp_all add: store_def)
  show t: "tabnodes m' = tabnodes m" "kT m' = kT m" "kE m' = kE m" "nidx m' = nidx m"
    by (simp_all add: tabnodes_def kT_def kE_def nidx_def c fun_eq_iff)
  show n: "nodes m' = nodes m" "lev m' = lev m"
    by (simp_all add: nodes_def lev_def c t fun_eq_iff)
  then show e: "elev m' = elev m" "edges m' = edges m"
    by (simp_all add: elev_def edges_def fun_eq_iff)
  have "chain_gt m' = chain_gt m" by (simp add: chain_gt_def t fun_eq_iff)
  then show "store_ok m' = store_ok m"
    by (simp add: store_ok_def order_ok_def table_ok_def chain_ok_def one_ok_def node_ok_def c t n)
qed

subsection \<open>Basic facts\<close>

lemma order_okD:
  assumes "store_ok m"
  shows "dsize m \<le> length (subtables m)" "dsize m \<le> length (perm m)" "dsize m \<le> length (invperm m)"
    "dsize m < 65535" "dsize m < stackSize m"
    "l < dsize m \<Longrightarrow> invperm m ! l < dsize m" "l < dsize m \<Longrightarrow> perm m ! (invperm m ! l) = l"
    "i < dsize m \<Longrightarrow> perm m ! i < dsize m" "i < dsize m \<Longrightarrow> invperm m ! (perm m ! i) = i"
  using assms by (auto simp: store_ok_def order_ok_def)

lemma table_okD:
  assumes "store_ok m" "l < dsize m"
  shows "0 < tshifts m ! l" "tshifts m ! l < 32" "length (trows m ! l) = 2 ^ (32 - tshifts m ! l)"
    "j < length (trows m ! l) \<Longrightarrow> chain_ok m l j (trows m ! l ! j)"
  using assms by (auto simp: store_ok_def table_ok_def)

lemma length_rows: "store_ok m \<Longrightarrow> length (trows m) = dsize m"
  and length_shifts: "store_ok m \<Longrightarrow> length (tshifts m) = dsize m"
  by (simp_all add: trows_def tshifts_def order_okD)

lemma rows_nth: "store_ok m \<Longrightarrow> l < dsize m \<Longrightarrow> trows m ! l = nodelist (subtables m ! l)"
  and shifts_nth: "store_ok m \<Longrightarrow> l < dsize m \<Longrightarrow> tshifts m ! l = shift (subtables m ! l)"
  using order_okD(1) [of m] by (simp_all add: trows_def tshifts_def)

lemma nodeD:
  assumes "store_ok m" "p \<in> tabnodes m"
  shows "p AND 15 = 0" "p \<noteq> NULL" "\<not> Cudd_IsComplement (kT m p)" "kT m p \<noteq> kE m p"
    "kT m p \<in> nodes m" "Cudd_Regular (kE m p) \<in> nodes m"
    "lev m p < lev m (kT m p)" "lev m p < lev m (Cudd_Regular (kE m p))"
    "\<not> Cudd_IsComplement p" "kT m p \<in> edges m" "kE m p \<in> edges m"
    "lev m p < elev m (kT m p)" "lev m p < elev m (kE m p)"
  using assms IsComplement_aligned
  by (auto simp: store_ok_def node_ok_def edges_def elev_def)

lemma oneD:
  assumes "store_ok m"
  shows "DD_ONE m AND 15 = 0" "DD_ONE m \<noteq> NULL" "\<not> Cudd_IsComplement (DD_ONE m)"
  using assms IsComplement_aligned by (auto simp: store_ok_def one_ok_def)

lemma chainE:
  assumes "store_ok m" "l < dsize m" "j < length (trows m ! l)" "p \<in> set (trows m ! l ! j)"
  shows "cont m p = Some (of_nat (invperm m ! l), Kids (kT m p) (kE m p))"
    "ddHash (kT m p) (kE m p) (tshifts m ! l) = j"
  using table_okD(4) [OF assms(1-3)] assms(4) by (auto simp: chain_ok_def kT_def kE_def)

lemma tabnodesE:
  assumes "store_ok m" "p \<in> tabnodes m"
  obtains l j where "l < dsize m" "j < length (trows m ! l)" "p \<in> set (trows m ! l ! j)"
proof -
  obtain r c where "r \<in> set (trows m)" "c \<in> set r" "p \<in> set c"
    using assms(2) by (auto simp: tabnodes_def)
  then show thesis
    using that length_rows [OF assms(1)] by (metis in_set_conv_nth)
qed

lemma tabnodesI:
  assumes "store_ok m" "l < dsize m" "j < length (trows m ! l)" "p \<in> set (trows m ! l ! j)"
  shows "p \<in> tabnodes m"
proof -
  have "trows m ! l \<in> set (trows m)" "trows m ! l ! j \<in> set (trows m ! l)"
    using assms length_rows [OF assms(1)] by simp_all
  then show ?thesis using assms(4) by (auto simp: tabnodes_def)
qed

lemma level_index:
  assumes "store_ok m" "l < dsize m"
  shows "unat (of_nat (invperm m ! l) :: DdHalfWord) = invperm m ! l"
    "(of_nat (invperm m ! l) :: DdHalfWord) \<noteq> CUDD_CONST_INDEX"
proof -
  have l: "invperm m ! l < 65535" using order_okD [OF assms(1)] assms(2) by (meson less_trans)
  then show u: "unat (of_nat (invperm m ! l) :: DdHalfWord) = invperm m ! l"
    by (simp add: unat_of_nat)
  have "unat CUDD_CONST_INDEX = 65535" by (simp add: CUDD_CONST_INDEX_def)
  then show "(of_nat (invperm m ! l) :: DdHalfWord) \<noteq> CUDD_CONST_INDEX"
    using u l by (metis less_irrefl)
qed

lemma tabnode:
  assumes "store_ok m" "p \<in> tabnodes m"
  shows "\<exists>i. cont m p = Some (i, Kids (kT m p) (kE m p)) \<and> i \<noteq> CUDD_CONST_INDEX \<and> unat i = nidx m p"
    "nidx m p < dsize m" "lev m p = perm m ! nidx m p" "lev m p < dsize m" "p \<noteq> DD_ONE m"
    "invperm m ! lev m p = nidx m p"
proof -
  obtain l j where l: "l < dsize m" "j < length (trows m ! l)" "p \<in> set (trows m ! l ! j)"
    using tabnodesE [OF assms] .
  note c = chainE [OF assms(1) l] and i = level_index [OF assms(1) l(1)]
  have x: "nidx m p = invperm m ! l" using c i by (simp add: nidx_def)
  show "\<exists>i. cont m p = Some (i, Kids (kT m p) (kE m p)) \<and> i \<noteq> CUDD_CONST_INDEX \<and> unat i = nidx m p"
    using c i x by simp
  show s: "nidx m p < dsize m" using x l order_okD [OF assms(1)] by simp
  show n: "p \<noteq> DD_ONE m"
    using c assms(1) by (auto simp: store_ok_def one_ok_def)
  then show "lev m p = perm m ! nidx m p" by (simp add: lev_def)
  then show "lev m p < dsize m" "invperm m ! lev m p = nidx m p"
    using s order_okD [OF assms(1)] by simp_all
qed

lemma chain_lev:
  assumes "store_ok m" "l < dsize m" "j < length (trows m ! l)" "p \<in> set (trows m ! l ! j)"
  shows "lev m p = l" "nidx m p = invperm m ! l"
proof -
  show i: "nidx m p = invperm m ! l"
    using chainE [OF assms] level_index [OF assms(1,2)] by (simp add: nidx_def)
  show "lev m p = l"
    using tabnode(3) [OF assms(1) tabnodesI [OF assms]] i order_okD(7) [OF assms(1,2)] by simp
qed

lemma one_not_tab: "store_ok m \<Longrightarrow> DD_ONE m \<notin> tabnodes m"
  using tabnode(5) by blast

lemma lev_one [simp]: "lev m (DD_ONE m) = dsize m"
  by (simp add: lev_def)

lemma lev_le: "store_ok m \<Longrightarrow> p \<in> nodes m \<Longrightarrow> lev m p \<le> dsize m"
  using tabnode(4) by (fastforce simp: nodes_def)

lemma lev_less_iff: "store_ok m \<Longrightarrow> p \<in> nodes m \<Longrightarrow> lev m p < dsize m \<longleftrightarrow> p \<in> tabnodes m"
  using tabnode(4) by (fastforce simp: nodes_def)

lemma nodes_regular: "store_ok m \<Longrightarrow> p \<in> nodes m \<Longrightarrow> \<not> Cudd_IsComplement p"
  using oneD nodeD by (auto simp: nodes_def)

lemma nodes_nonnull: "store_ok m \<Longrightarrow> p \<in> nodes m \<Longrightarrow> p \<noteq> NULL"
  using oneD(2) [of m] nodeD(2) [of m p] by (cases "p = DD_ONE m") (simp_all add: nodes_def)

lemma nodes_aligned: "store_ok m \<Longrightarrow> p \<in> nodes m \<Longrightarrow> p AND 15 = 0"
  using oneD nodeD by (auto simp: nodes_def)

lemma nodes_Regular [simp]: "store_ok m \<Longrightarrow> p \<in> nodes m \<Longrightarrow> Cudd_Regular p = p"
  by (simp add: nodes_regular)

lemma nodes_edges: "store_ok m \<Longrightarrow> p \<in> nodes m \<Longrightarrow> p \<in> edges m"
  by (simp add: edges_def)

lemma tab_nodes: "p \<in> tabnodes m \<Longrightarrow> p \<in> nodes m"
  by (simp add: nodes_def)

lemma one_nodes [simp]: "DD_ONE m \<in> nodes m"
  by (simp add: nodes_def)

lemma one_edges: "store_ok m \<Longrightarrow> DD_ONE m \<in> edges m"
  by (simp add: nodes_edges)

lemma edges_Not [simp]: "Cudd_Not e \<in> edges m \<longleftrightarrow> e \<in> edges m"
  by (simp add: edges_def)

lemma edges_NotCond [simp]: "Cudd_NotCond e c \<in> edges m \<longleftrightarrow> e \<in> edges m"
  by (cases c) simp_all

lemma elev_Not [simp]: "elev m (Cudd_Not e) = elev m e"
  by (simp add: elev_def)

lemma elev_NotCond [simp]: "elev m (Cudd_NotCond e c) = elev m e"
  by (cases c) simp_all

lemma edges_nonnull: "store_ok m \<Longrightarrow> e \<in> edges m \<Longrightarrow> e \<noteq> NULL"
  using nodes_nonnull [of m "Cudd_Regular e"] by (auto simp: edges_def)

lemma finite_tabnodes [simp]: "finite (tabnodes m)"
  by (simp add: tabnodes_def)

text \<open>The table holds at most one node for a variable and a pair of children.\<close>

lemma sorted_chain_unique:
  assumes "sorted_wrt (chain_gt m) c" "p \<in> set c" "q \<in> set c" "kT m p = kT m q" "kE m p = kE m q"
  shows "p = q"
proof (rule ccontr)
  assume "p \<noteq> q"
  then have "chain_gt m p q \<or> chain_gt m q p"
    using assms(1-3) by (induction c) auto
  then show False using assms(4,5) by (auto simp: chain_gt_def)
qed

lemma unique_node:
  assumes "store_ok m" "p \<in> tabnodes m" "q \<in> tabnodes m"
    "nidx m p = nidx m q" "kT m p = kT m q" "kE m p = kE m q"
  shows "p = q"
proof -
  obtain l j where p: "l < dsize m" "j < length (trows m ! l)" "p \<in> set (trows m ! l ! j)"
    using tabnodesE [OF assms(1,2)] .
  obtain l' j' where q: "l' < dsize m" "j' < length (trows m ! l')" "q \<in> set (trows m ! l' ! j')"
    using tabnodesE [OF assms(1,3)] .
  have "invperm m ! l = invperm m ! l'"
    using chain_lev(2) [OF assms(1) p] chain_lev(2) [OF assms(1) q] assms(4) by simp
  then have l: "l' = l" using order_okD(7) [OF assms(1)] p(1) q(1) by metis
  have j: "j' = j" using chainE(2) [OF assms(1) p] chainE(2) [OF assms(1) q] assms(5,6) l by simp
  have "sorted_wrt (chain_gt m) (trows m ! l ! j)"
    using table_okD(4) [OF assms(1) p(1,2)] by (simp add: chain_ok_def)
  then show ?thesis
    by (rule sorted_chain_unique) (use p q l j assms(5,6) in auto)
qed

subsection \<open>The function of an edge\<close>

fun eval :: "nat \<Rightarrow> DdManager \<Rightarrow> (nat \<Rightarrow> bool) \<Rightarrow> ptr \<Rightarrow> bool" where
  "eval 0 m env e = (\<not> Cudd_IsComplement e)"
| "eval (Suc k) m env e =
     (if Cudd_Regular e = DD_ONE m then \<not> Cudd_IsComplement e
      else eval k m env (if env (nidx m (Cudd_Regular e)) then kT m (Cudd_Regular e)
                                                         else kE m (Cudd_Regular e))
           \<noteq> Cudd_IsComplement e)"

definition sem :: "DdManager \<Rightarrow> (nat \<Rightarrow> bool) \<Rightarrow> ptr \<Rightarrow> bool" where
  "sem m env e = eval (dsize m) m env e"

lemma eval_fuel:
  assumes "store_ok m" "e \<in> edges m" "dsize m - elev m e \<le> k" "dsize m - elev m e \<le> k'"
  shows "eval k m env e = eval k' m env e"
  using assms(2-4)
proof (induction k arbitrary: k' e)
  case 0
  then have "elev m e = dsize m"
    using lev_le [OF assms(1), of "Cudd_Regular e"] by (simp add: edges_def elev_def)
  then have "Cudd_Regular e = DD_ONE m"
    using 0(1) lev_less_iff [OF assms(1)] by (fastforce simp: edges_def elev_def nodes_def)
  then show ?case by (cases k') simp_all
next
  case (Suc k)
  show ?case
  proof (cases "Cudd_Regular e = DD_ONE m")
    case True
    then show ?thesis by (cases k') simp_all
  next
    case False
    then have p: "Cudd_Regular e \<in> tabnodes m" using Suc.prems(1) by (auto simp: edges_def nodes_def)
    have l: "elev m e < dsize m" using tabnode(4) [OF assms(1) p] by (simp add: elev_def)
    then obtain k'' where k': "k' = Suc k''" using Suc.prems(3) by (cases k') auto
    have "eval k m env (kT m (Cudd_Regular e)) = eval k'' m env (kT m (Cudd_Regular e))"
      "eval k m env (kE m (Cudd_Regular e)) = eval k'' m env (kE m (Cudd_Regular e))"
      using Suc.prems(2,3) nodeD(10-13) [OF assms(1) p] l k'
      by (intro Suc.IH; simp add: elev_def)+
    with False k' show ?thesis by simp
  qed
qed

lemma eval_Not: "eval k m env (Cudd_Not e) = (\<not> eval k m env e)"
  by (cases k) auto

lemma sem_Not [simp]: "sem m env (Cudd_Not e) = (\<not> sem m env e)"
  by (simp add: sem_def eval_Not)

lemma sem_NotCond [simp]: "sem m env (Cudd_NotCond e c) = (sem m env e \<noteq> c)"
  by (cases c) simp_all

lemma sem_Regular: "sem m env e = (sem m env (Cudd_Regular e) \<noteq> Cudd_IsComplement e)"
  using Regular_complemented [of e] Regular_id [of e] by (cases "Cudd_IsComplement e") auto

lemma sem_one [simp]: "store_ok m \<Longrightarrow> sem m env (DD_ONE m)"
  using oneD(3) [of m] by (cases "dsize m") (simp_all add: sem_def)

lemma sem_node:
  assumes "store_ok m" "p \<in> tabnodes m"
  shows "sem m env p = (if env (nidx m p) then sem m env (kT m p) else sem m env (kE m p))"
proof -
  have l: "lev m p < dsize m" and r: "Cudd_Regular p = p" and c: "\<not> Cudd_IsComplement p"
    using tabnode(4) nodeD(9) assms by auto
  then obtain k where k: "dsize m = Suc k" by (cases "dsize m") auto
  have "eval k m env (kT m p) = sem m env (kT m p)" "eval k m env (kE m p) = sem m env (kE m p)"
    unfolding sem_def using nodeD(10-13) [OF assms] k by (intro eval_fuel assms(1); simp)+
  then show ?thesis
    using r c tabnode(5) [OF assms] by (simp add: sem_def k)
qed

lemma sem_cong_store: "store m' = store m \<Longrightarrow> sem m' = sem m"
proof -
  assume s: "store m' = store m"
  have "eval k m' env e = eval k m env e" for k env e
    by (induction k arbitrary: e) (simp_all add: store_cong [OF s])
  then show ?thesis by (simp add: sem_def fun_eq_iff store_cong [OF s])
qed

lemma node_cases [consumes 2, case_names one node]:
  assumes "store_ok m" "e \<in> edges m"
  obtains "Cudd_Regular e = DD_ONE m" | "Cudd_Regular e \<in> tabnodes m"
  using assms(2) by (auto simp: edges_def nodes_def)

lemma const_edges:
  assumes "Cudd_Regular e = DD_ONE m" "store_ok m"
  shows "e = DD_ONE m \<or> e = Cudd_Not (DD_ONE m)"
  using assms Regular_eq_iff [of e "DD_ONE m"] oneD(3) by simp

text \<open>Induction over the diagram below an edge: children are at greater levels.\<close>

lemma edge_induct [consumes 2, case_names edge]:
  assumes "store_ok m" "e \<in> edges m"
    and step: "\<And>e. e \<in> edges m \<Longrightarrow>
      (\<And>e'. e' \<in> edges m \<Longrightarrow> elev m e < elev m e' \<Longrightarrow> P e') \<Longrightarrow> P e"
  shows "P e"
  using assms(2)
proof (induction "dsize m - elev m e" arbitrary: e rule: less_induct)
  case less
  show ?case
  proof (rule step [OF less.prems])
    fix e'
    assume e': "e' \<in> edges m" "elev m e < elev m e'"
    then have "elev m e' \<le> dsize m" using lev_le [OF assms(1)] by (simp add: edges_def elev_def)
    then show "P e'" using e' by (intro less.hyps) auto
  qed
qed

lemma sem_indep:
  assumes "store_ok m" "e \<in> edges m" "i < dsize m" "perm m ! i < elev m e"
  shows "sem m (env(i := b)) e = sem m env e"
  using assms(1,2,4)
proof (induction rule: edge_induct)
  case (edge e)
  show ?case
  proof (cases "Cudd_Regular e = DD_ONE m")
    case True
    then show ?thesis using const_edges [OF True assms(1)] assms(1) by auto
  next
    case False
    let ?p = "Cudd_Regular e"
    have p: "?p \<in> tabnodes m" using False edge(1) by (auto simp: edges_def nodes_def)
    have "nidx m ?p \<noteq> i" using edge(3) tabnode(3) [OF assms(1) p] by (auto simp: elev_def)
    moreover have "sem m (env(i := b)) (kT m ?p) = sem m env (kT m ?p)"
      "sem m (env(i := b)) (kE m ?p) = sem m env (kE m ?p)"
      using edge(3) nodeD(10-13) [OF assms(1) p] by (intro edge(2); simp add: elev_def)+
    ultimately have "sem m (env(i := b)) ?p = sem m env ?p"
      by (simp add: sem_node [OF assms(1) p])
    then show ?thesis using sem_Regular by blast
  qed
qed

lemma sem_all_true:
  assumes "store_ok m" "e \<in> edges m"
  shows "sem m (\<lambda>_. True) e = (\<not> Cudd_IsComplement e)"
  using assms
proof (induction rule: edge_induct)
  case (edge e)
  show ?case
  proof (cases "Cudd_Regular e = DD_ONE m")
    case True
    then show ?thesis using const_edges [OF True assms(1)] assms(1) oneD(3) by auto
  next
    case False
    let ?p = "Cudd_Regular e"
    have p: "?p \<in> tabnodes m" using False edge(1) by (auto simp: edges_def nodes_def)
    have "sem m (\<lambda>_. True) (kT m ?p)"
      using nodeD(3,10,12) [OF assms(1) p] edge(2) by (auto simp: elev_def)
    then have "sem m (\<lambda>_. True) ?p" by (simp add: sem_node [OF assms(1) p])
    then show ?thesis using sem_Regular by blast
  qed
qed

text \<open>The cofactors of a node are its children.\<close>

lemma sem_cofactors:
  assumes "store_ok m" "p \<in> tabnodes m"
  shows "sem m (env(nidx m p := True)) p = sem m env (kT m p)"
    "sem m (env(nidx m p := False)) p = sem m env (kE m p)"
proof -
  have i: "nidx m p < dsize m" "perm m ! nidx m p = lev m p" using tabnode(2,3) [OF assms] by simp_all
  then have "sem m (env(nidx m p := b)) (kT m p) = sem m env (kT m p)"
    "sem m (env(nidx m p := b)) (kE m p) = sem m env (kE m p)" for b
    using nodeD(10-13) [OF assms] by (intro sem_indep [OF assms(1)]; simp)+
  then show "sem m (env(nidx m p := True)) p = sem m env (kT m p)"
    "sem m (env(nidx m p := False)) p = sem m env (kE m p)"
    by (simp_all add: sem_node [OF assms])
qed

lemma essential:
  assumes "store_ok m" "p \<in> tabnodes m"
    and "\<And>env b. sem m (env(nidx m p := b)) p = sem m env p"
  shows "sem m env (kT m p) = sem m env (kE m p)"
  using sem_cofactors [OF assms(1,2), of env] assms(3) by simp

text \<open>
  A node above another one cannot denote the same function, provided that its two children
  are told apart by their functions.
\<close>

lemma level_le_if_sem_eq:
  assumes "store_ok m" "p \<in> nodes m" "q \<in> nodes m" "\<And>env. sem m env p = sem m env q"
    and kids: "p \<in> tabnodes m \<Longrightarrow> (\<And>env. sem m env (kT m p) = sem m env (kE m p)) \<Longrightarrow> kT m p = kE m p"
  shows "lev m q \<le> lev m p"
proof (rule ccontr)
  assume "\<not> lev m q \<le> lev m p"
  then have lt: "lev m p < lev m q" by simp
  have p: "p \<in> tabnodes m"
    using lt lev_le [OF assms(1,3)] lev_less_iff [OF assms(1,2)] by simp
  have q: "q \<in> edges m" using nodes_edges [OF assms(1,3)] .
  have rq: "elev m q = lev m q" using assms(1,3) by (simp add: elev_def)
  have "sem m (env(nidx m p := b)) p = sem m env p" for env b
  proof -
    have "perm m ! nidx m p < elev m q" using lt rq tabnode(3) [OF assms(1) p] by simp
    then have "sem m (env(nidx m p := b)) q = sem m env q"
      using sem_indep [OF assms(1) q tabnode(2) [OF assms(1) p]] by blast
    then show ?thesis by (simp only: assms(4))
  qed
  then have "sem m env (kT m p) = sem m env (kE m p)" for env
    by (rule essential [OF assms(1) p])
  then have "kT m p = kE m p" by (rule kids [OF p])
  then show False using nodeD(4) [OF assms(1) p] by simp
qed

lemma canonical_regular:
  assumes "store_ok m" "p \<in> nodes m" "q \<in> nodes m" "\<And>env. sem m env p = sem m env q"
  shows "p = q"
  using assms(2-4)
proof (induction "dsize m - min (lev m p) (lev m q)" arbitrary: p q rule: less_induct)
  case less
  let ?l = "min (lev m p) (lev m q)"
  have edge: "e = e'" if e: "e \<in> edges m" "e' \<in> edges m" "\<And>env. sem m env e = sem m env e'"
    "?l < elev m e" "?l < elev m e'" for e e'
  proof -
    have c: "Cudd_IsComplement e = Cudd_IsComplement e'"
      using sem_all_true [OF assms(1) e(1)] sem_all_true [OF assms(1) e(2)] e(3) by simp
    have n: "Cudd_Regular e \<in> nodes m" "Cudd_Regular e' \<in> nodes m"
      using e(1,2) by (simp_all add: edges_def)
    have "dsize m - min (lev m (Cudd_Regular e)) (lev m (Cudd_Regular e')) < dsize m - ?l"
      using e(4,5) lev_le [OF assms(1) n(1)] lev_le [OF assms(1) n(2)] by (simp add: elev_def)
    moreover have "sem m env (Cudd_Regular e) = sem m env (Cudd_Regular e')" for env
      using e(3) [of env] c sem_Regular [of m env e] sem_Regular [of m env e'] by argo
    ultimately have "Cudd_Regular e = Cudd_Regular e'"
      using less.hyps n by blast
    then show ?thesis using c by (auto simp: Regular_eq_iff)
  qed
  have kids: "kT m r = kE m r" if "r \<in> tabnodes m" "?l \<le> lev m r"
    "\<And>env. sem m env (kT m r) = sem m env (kE m r)" for r
    using nodeD(10-13) [OF assms(1) that(1)] that(2) by (intro edge that(3)) simp_all
  have "lev m q \<le> lev m p"
    by (rule level_le_if_sem_eq [OF assms(1) less.prems]) (rule kids; simp)
  moreover have "lev m p \<le> lev m q"
    by (rule level_le_if_sem_eq [OF assms(1) less.prems(2,1) less.prems(3) [symmetric]])
      (rule kids; simp)
  ultimately have l: "lev m p = lev m q" by simp
  show ?case
  proof (cases "p \<in> tabnodes m")
    case False
    then have "q \<notin> tabnodes m"
      using l lev_less_iff [OF assms(1) less.prems(1)] lev_less_iff [OF assms(1) less.prems(2)] by simp
    with False less.prems(1,2) show ?thesis by (simp add: nodes_def)
  next
    case True
    then have q: "q \<in> tabnodes m"
      using l lev_less_iff [OF assms(1) less.prems(1)] lev_less_iff [OF assms(1) less.prems(2)] by simp
    have i: "nidx m p = nidx m q"
      using l tabnode(6) [OF assms(1) True] tabnode(6) [OF assms(1) q] by simp
    have s: "sem m env (kT m p) = sem m env (kT m q)" "sem m env (kE m p) = sem m env (kE m q)" for env
      using sem_cofactors [OF assms(1) True, of env] sem_cofactors [OF assms(1) q, of env]
      by (simp_all only: i less.prems(3))
    note kp = nodeD(10-13) [OF assms(1) True] and kq = nodeD(10-13) [OF assms(1) q]
    have "kT m p = kT m q" using kp(1,3) kq(1,3) l by (intro edge s(1)) simp_all
    moreover have "kE m p = kE m q" using kp(2,4) kq(2,4) l by (intro edge s(2)) simp_all
    ultimately show ?thesis by (rule unique_node [OF assms(1) True q i])
  qed
qed

lemma canonical:
  assumes "store_ok m" "e \<in> edges m" "e' \<in> edges m" "\<And>env. sem m env e = sem m env e'"
  shows "e = e'"
proof -
  have c: "Cudd_IsComplement e = Cudd_IsComplement e'"
    using sem_all_true [OF assms(1,2)] sem_all_true [OF assms(1,3)] assms(4) by simp
  have "Cudd_Regular e = Cudd_Regular e'"
  proof (rule canonical_regular [OF assms(1)])
    show "sem m env (Cudd_Regular e) = sem m env (Cudd_Regular e')" for env
      using assms(4) [of env] c sem_Regular [of m env e] sem_Regular [of m env e'] by argo
  qed (use assms(2,3) in \<open>simp_all add: edges_def\<close>)
  then show ?thesis using c by (auto simp: Regular_eq_iff)
qed

end
