(* ===== verification/CuddInv.thy ===== *)
theory CuddInv
  imports CuddStore
begin

text \<open>
  The invariant of the manager. On top of the well-formed store it says that the reference
  counts are exact up to saturation, that the counters of dead and of stored nodes are exact,
  that the blocks of memory, the free list and the table fit together, and that every entry of
  the computed table is a true statement about the diagrams it names.

  The reference counts are stated for a multiset \<open>A\<close> of references held from outside the
  table (by the caller, the death row or a loop that still has to give them back), a multiset
  \<open>B\<close> of references already promised but not yet counted (by the loop that reclaims a diagram)
  and a set \<open>F\<close> of floating nodes: nodes with count 0 that are not counted as dead, because
  they are a result that was just made.
\<close>

subsection \<open>Reference counts\<close>

definition kidcount :: "DdManager \<Rightarrow> ptr \<Rightarrow> ptr \<Rightarrow> nat" where
  "kidcount m p c = (if kT m p = c then 1 else 0) + (if Cudd_Regular (kE m p) = c then 1 else 0)"

definition dset :: "ptr set \<Rightarrow> DdManager \<Rightarrow> ptr set" where
  "dset F m = {p \<in> tabnodes m. refc m p = 0} - F"

definition live :: "ptr set \<Rightarrow> DdManager \<Rightarrow> ptr set" where
  "live F m = tabnodes m - dset F m"

definition par :: "ptr set \<Rightarrow> DdManager \<Rightarrow> ptr \<Rightarrow> nat" where
  "par F m c = (\<Sum>p \<in> live F m. kidcount m p c)"

definition refs_ok :: "ptr multiset \<Rightarrow> ptr multiset \<Rightarrow> ptr set \<Rightarrow> DdManager \<Rightarrow> bool" where
  "refs_ok A B F m \<longleftrightarrow> DD_ONE m \<in># A \<and> set_mset A \<subseteq> nodes m \<and> set_mset B \<subseteq> nodes m \<and>
     (\<forall>p \<in> nodes m. refc m p = 65535 \<or> refc m p + count B p = count A p + par F m p)"

definition on_level :: "DdManager \<Rightarrow> ptr set \<Rightarrow> nat \<Rightarrow> ptr set" where
  "on_level m D l = {p \<in> D. lev m p = l}"

definition deads_ok :: "ptr set \<Rightarrow> DdManager \<Rightarrow> bool" where
  "deads_ok F m \<longleftrightarrow> dead m = of_nat (card (dset F m)) \<and> sub_dead (constants m) = 0 \<and>
     (\<forall>l < dsize m. sub_dead (subtables m ! l) = of_nat (card (on_level m (dset F m) l)))"

definition keys_ok :: "DdManager \<Rightarrow> bool" where
  "keys_ok m \<longleftrightarrow> keys m = of_nat (card (tabnodes m)) + sub_keys (constants m) \<and>
     (\<forall>l < dsize m. sub_keys (subtables m ! l) = of_nat (card (on_level m (tabnodes m) l)))"

text \<open>
  The sizes of a subtable: the number of slots is a power of two and its limit of keys is at
  least four keys per slot, so that the number of aligned addresses bounds the growth.
\<close>

definition sizes_ok :: "DdManager \<Rightarrow> bool" where
  "sizes_ok m \<longleftrightarrow> (\<forall>l < dsize m. let st = subtables m ! l in
     5 \<le> shift st \<and> sub_slots st = 2 ^ (32 - shift st) \<and>
     4 * sub_slots st \<le> unat (sub_maxKeys st) \<and>
     (stash m \<longrightarrow> unat (sub_maxKeys st) = 4 * sub_slots st))"

subsection \<open>Memory\<close>

definition pool :: "DdManager \<Rightarrow> ptr list" where
  "pool m = concat (map chunk_slots (memoryList m))"

definition fresh_pool :: "DdManager \<Rightarrow> ptr list" where
  "fresh_pool m = concat (map chunk_slots (filter (\<lambda>c. c \<noteq> NULL) (os_chunks m)))"

text \<open>A block of \<open>DD_MEM_CHUNK + 1\<close> nodes at this address does not wrap around.\<close>

definition chunk_fits :: "ptr \<Rightarrow> bool" where
  "chunk_fits mem \<longleftrightarrow> unat mem + 16 * (DD_MEM_CHUNK + 1) \<le> 2 ^ 32"

definition cnodes :: "DdManager \<Rightarrow> ptr set" where
  "cnodes m = set (concat (nodelist (constants m)))"

definition mem_ok :: "DdManager \<Rightarrow> bool" where
  "mem_ok m \<longleftrightarrow> (\<forall>c \<in> set (memoryList m). chunk_fits c) \<and>
     (\<forall>c \<in> set (os_chunks m). c \<noteq> NULL \<longrightarrow> chunk_fits c) \<and>
     distinct (pool m) \<and> set (pool m) \<subseteq> dom (heap m) \<and>
     distinct (fresh_pool m) \<and> set (fresh_pool m) \<inter> dom (heap m) = {} \<and>
     tabnodes m \<union> cnodes m \<subseteq> set (pool m) \<and> DD_ONE m \<in> cnodes m \<and>
     cnodes m \<inter> tabnodes m = {} \<and>
     (\<forall>p \<in> cnodes m. 0 < refc m p) \<and>
     (\<forall>p \<in> set (pool m) - tabnodes m - cnodes m. refc m p = 0) \<and>
     distinct (nextFree m) \<and> set (nextFree m) \<subseteq> set (pool m) - tabnodes m - cnodes m"

subsection \<open>The computed table\<close>

text \<open>
  Each entry is a true statement about its diagrams. The operator of an entry is the address
  of its function, in the third field, or a tag in the low bits of the first two operands. A
  cube is the conjunction of a set of variables; a product of literals fixes the values of some.
\<close>

definition cube_of :: "DdManager \<Rightarrow> ptr \<Rightarrow> nat set \<Rightarrow> bool" where
  "cube_of m c S \<longleftrightarrow> (\<forall>env. sem m env c = (\<forall>i \<in> S. env i))"

definition quantify :: "nat set \<Rightarrow> ((nat \<Rightarrow> bool) \<Rightarrow> bool) \<Rightarrow> (nat \<Rightarrow> bool) \<Rightarrow> bool" where
  "quantify S P env \<longleftrightarrow> (\<exists>env'. (\<forall>i. i \<notin> S \<longrightarrow> env' i = env i) \<and> P env')"

definition literals :: "DdManager \<Rightarrow> ptr \<Rightarrow> (nat \<rightharpoonup> bool) \<Rightarrow> bool" where
  "literals m c A \<longleftrightarrow> (\<forall>env. sem m env c = (\<forall>i \<in> dom A. A i = Some (env i)))"

definition fixed :: "(nat \<rightharpoonup> bool) \<Rightarrow> (nat \<Rightarrow> bool) \<Rightarrow> nat \<Rightarrow> bool" where
  "fixed A env i = (case A i of Some b \<Rightarrow> b | None \<Rightarrow> env i)"

definition is_var :: "DdManager \<Rightarrow> ptr \<Rightarrow> nat \<Rightarrow> bool" where
  "is_var m v i \<longleftrightarrow> (\<forall>env. sem m env v = env i)"

text \<open>The operators of two operands.\<close>

definition entry2_ok :: "DdManager \<Rightarrow> DdCache \<Rightarrow> bool" where
  "entry2_ok m c \<longleftrightarrow> c_f c \<in> edges m \<and> c_g c \<in> edges m \<and> c_data c \<in> edges m \<and>
     (c_h c = fp_Cudd_bddAnd \<longrightarrow>
        (\<forall>env. sem m env (c_data c) = (sem m env (c_f c) \<and> sem m env (c_g c)))) \<and>
     (c_h c = fp_Cudd_bddXor \<longrightarrow>
        (\<forall>env. sem m env (c_data c) = (sem m env (c_f c) \<noteq> sem m env (c_g c)))) \<and>
     (c_h c = fp_Cudd_bddIntersect \<longrightarrow>
        min (elev m (c_f c)) (elev m (c_g c)) \<le> elev m (c_data c) \<and>
        (\<forall>env. sem m env (c_data c) \<longrightarrow> sem m env (c_f c) \<and> sem m env (c_g c)) \<and>
        ((\<exists>env. sem m env (c_f c) \<and> sem m env (c_g c)) \<longrightarrow> (\<exists>env. sem m env (c_data c)))) \<and>
     (c_h c = fp_Cudd_bddLeq \<longrightarrow>
        c_data c = Cudd_NotCond (DD_ONE m) (\<exists>env. sem m env (c_f c) \<and> \<not> sem m env (c_g c))) \<and>
     (c_h c = fp_Cudd_bddExistAbstract \<longrightarrow> (\<forall>S. cube_of m (c_g c) S \<longrightarrow>
        (\<forall>env. sem m env (c_data c) = quantify S (\<lambda>env. sem m env (c_f c)) env))) \<and>
     (c_h c = fp_cuddBddBooleanDiffRecur \<longrightarrow> (\<forall>i. is_var m (c_g c) i \<longrightarrow>
        (\<forall>env. sem m env (c_data c) =
           (sem m (env(i := True)) (c_f c) \<noteq> sem m (env(i := False)) (c_f c))))) \<and>
     (c_h c = fp_Cudd_bddVarIsDependent \<longrightarrow> (\<forall>i. is_var m (c_g c) i \<longrightarrow>
        c_data c = Cudd_NotCond (DD_ONE m)
          (\<exists>env. sem m (env(i := True)) (c_f c) \<and> sem m (env(i := False)) (c_f c)))) \<and>
     (c_h c = fp_Cudd_Cofactor \<longrightarrow> (\<forall>A. literals m (c_g c) A \<longrightarrow>
        (\<forall>env. sem m env (c_data c) = sem m (fixed A env) (c_f c))))"

text \<open>The operators of three operands.\<close>

definition ite_fun :: "DdManager \<Rightarrow> ptr \<Rightarrow> ptr \<Rightarrow> ptr \<Rightarrow> (nat \<Rightarrow> bool) \<Rightarrow> bool" where
  "ite_fun m f g h env = (if sem m env f then sem m env g else sem m env h)"

definition op3_tags :: "ptr set" where
  "op3_tags = {DD_BDD_ITE_TAG, DD_BDD_ITE_CONSTANT_TAG, DD_BDD_AND_ABSTRACT_TAG,
     DD_BDD_XOR_EXIST_ABSTRACT_TAG, DD_BDD_COMPOSE_RECUR_TAG}"

definition itec_data :: "DdManager \<Rightarrow> ptr \<Rightarrow> ptr \<Rightarrow> ptr \<Rightarrow> ptr \<Rightarrow> bool" where
  "itec_data m f g h r \<longleftrightarrow> r = DD_NON_CONSTANT \<and> (\<forall>b. \<exists>env. ite_fun m f g h env \<noteq> b) \<or>
     r \<in> {DD_ONE m, Cudd_Not (DD_ONE m)} \<and> (\<forall>env. ite_fun m f g h env = sem m env r)"

definition op3_ok :: "DdManager \<Rightarrow> ptr \<Rightarrow> ptr \<Rightarrow> ptr \<Rightarrow> ptr \<Rightarrow> ptr \<Rightarrow> bool" where
  "op3_ok m opr f g h r \<longleftrightarrow>
     (opr = DD_BDD_ITE_CONSTANT_TAG \<longrightarrow> itec_data m f g h r) \<and>
     (opr \<noteq> DD_BDD_ITE_CONSTANT_TAG \<longrightarrow> r \<in> edges m) \<and>
     (opr = DD_BDD_ITE_TAG \<longrightarrow> (\<forall>env. sem m env r = ite_fun m f g h env)) \<and>
     (opr = DD_BDD_AND_ABSTRACT_TAG \<longrightarrow> (\<forall>S. cube_of m h S \<longrightarrow>
        (\<forall>env. sem m env r = quantify S (\<lambda>env. sem m env f \<and> sem m env g) env))) \<and>
     (opr = DD_BDD_XOR_EXIST_ABSTRACT_TAG \<longrightarrow> (\<forall>S. cube_of m h S \<longrightarrow>
        (\<forall>env. sem m env r = quantify S (\<lambda>env. sem m env f \<noteq> sem m env g) env))) \<and>
     (opr = DD_BDD_COMPOSE_RECUR_TAG \<longrightarrow> (\<forall>i. is_var m h i \<longrightarrow>
        (\<forall>env. sem m env r = sem m (env(i := sem m env g)) f)))"

definition entry3_ok :: "DdManager \<Rightarrow> DdCache \<Rightarrow> bool" where
  "entry3_ok m c \<longleftrightarrow> c_h c \<in> edges m \<and> (\<exists>opr \<in> op3_tags. \<exists>f \<in> edges m. \<exists>g \<in> edges m.
     c_f c = pack_f opr f \<and> c_g c = pack_g opr g \<and> op3_ok m opr f g (c_h c) (c_data c))"

definition entry_ok :: "DdManager \<Rightarrow> DdCache \<Rightarrow> bool" where
  "entry_ok m c \<longleftrightarrow> c_data c = NULL \<or> entry2_ok m c \<or> entry3_ok m c"

definition cache_ok :: "DdManager \<Rightarrow> bool" where
  "cache_ok m \<longleftrightarrow> (\<forall>c \<in> set (cache m). entry_ok m c) \<and>
     6 \<le> cacheShift m \<and> cacheShift m \<le> 32 \<and> unat (cacheSlots m) = 2 ^ (32 - cacheShift m) \<and>
     length (cache m) = unat (cacheSlots m) \<and> unat (maxCacheHard m) < 2 ^ 27 \<and>
     cacheSlack m \<le> uint (maxCacheHard m) - 2 * uint (cacheSlots m)"

subsection \<open>The invariant\<close>

text \<open>
  ZDDs and dynamic reordering are off. The death row is filled from the front: the slots
  before some \<open>k\<close> are used, and the insertion point is not beyond \<open>k\<close>.
\<close>

definition dims_ok :: "DdManager \<Rightarrow> bool" where
  "dims_ok m \<longleftrightarrow> length (subtables m) = maxSize m \<and> length (perm m) = maxSize m \<and>
     length (invperm m) = maxSize m \<and> length (vars m) = maxSize m \<and>
     max (maxSize m) (maxSizeZ m) < stackSize m \<and>
     (\<exists>k. 3 \<le> k \<and> k \<le> 27 \<and> initSlots m = 2 ^ k)"

definition misc_ok :: "DdManager \<Rightarrow> bool" where
  "misc_ok m \<longleftrightarrow> dsizeZ m = 0 \<and> deadZ m = 0 \<and> \<not> autoDyn m \<and> dims_ok m"

lemma dims_cong: "store m' = store m \<Longrightarrow> dims_ok m' = dims_ok m"
  by (simp add: store_def dims_ok_def)

definition row_ok :: "DdManager \<Rightarrow> bool" where
  "row_ok m \<longleftrightarrow> deadMask m < length (deathRow m) \<and> nextDead m < length (deathRow m) \<and>
     (\<exists>k. nextDead m \<le> k \<and> (\<forall>i < length (deathRow m). deathRow m ! i \<noteq> NULL \<longleftrightarrow> i < k))"

definition drow :: "DdManager \<Rightarrow> ptr multiset" where
  "drow m = mset (filter (\<lambda>p. p \<noteq> NULL) (deathRow m))"

definition rest_ok :: "DdManager \<Rightarrow> bool" where
  "rest_ok m \<longleftrightarrow> keys_ok m \<and> sizes_ok m \<and> mem_ok m \<and> cache_ok m \<and> misc_ok m"

definition graph_ok :: "ptr multiset \<Rightarrow> ptr multiset \<Rightarrow> ptr set \<Rightarrow> DdManager \<Rightarrow> bool" where
  "graph_ok A B F m \<longleftrightarrow> store_ok m \<and> refs_ok A B F m \<and> deads_ok F m"

definition loose_ok :: "ptr multiset \<Rightarrow> ptr set \<Rightarrow> DdManager \<Rightarrow> bool" where
  "loose_ok ext F m \<longleftrightarrow> graph_ok (ext + drow m) {#} F m \<and> DD_ONE m \<in># ext \<and>
     set_mset (drow m) \<subseteq> tabnodes m \<and> rest_ok m"

definition mgr_ok :: "ptr multiset \<Rightarrow> ptr set \<Rightarrow> DdManager \<Rightarrow> bool" where
  "mgr_ok ext F m \<longleftrightarrow> loose_ok ext F m \<and> row_ok m"

subsection \<open>Counting references\<close>

lemma live_iff: "p \<in> live F m \<longleftrightarrow> p \<in> tabnodes m \<and> (0 < refc m p \<or> p \<in> F)"
  by (auto simp: live_def dset_def)

lemma dset_iff: "p \<in> dset F m \<longleftrightarrow> p \<in> tabnodes m \<and> refc m p = 0 \<and> p \<notin> F"
  by (auto simp: dset_def)

lemma finite_dset [simp]: "finite (dset F m)"
  by (simp add: dset_def)

lemma finite_live [simp]: "finite (live F m)"
  by (simp add: live_def)

lemma dset_tab: "dset F m \<subseteq> tabnodes m"
  by (auto simp: dset_iff)

lemma par_kidcount_le: "p \<in> live F m \<Longrightarrow> kidcount m p c \<le> par F m c"
  unfolding par_def by (rule member_le_sum) auto

lemma par_T: "p \<in> live F m \<Longrightarrow> 0 < par F m (kT m p)"
  using par_kidcount_le [of p F m "kT m p"] by (simp add: kidcount_def)

lemma par_E: "p \<in> live F m \<Longrightarrow> 0 < par F m (Cudd_Regular (kE m p))"
  using par_kidcount_le [of p F m "Cudd_Regular (kE m p)"] by (simp add: kidcount_def)

lemma refs_okD:
  assumes "refs_ok A B F m"
  shows "DD_ONE m \<in># A" "p \<in># A \<Longrightarrow> p \<in> nodes m" "p \<in># B \<Longrightarrow> p \<in> nodes m"
    "p \<in> nodes m \<Longrightarrow> refc m p = 65535 \<or> refc m p + count B p = count A p + par F m p"
  using assms by (auto simp: refs_ok_def)

lemma refs_ok_pos:
  assumes "refs_ok A {#} F m"
  shows "p \<in># A \<Longrightarrow> 0 < refc m p" "p \<in> nodes m \<Longrightarrow> 0 < par F m p \<Longrightarrow> 0 < refc m p"
proof -
  have r: "refc m p = 65535 \<or> refc m p = count A p + par F m p" if "p \<in> nodes m"
    using assms that by (auto simp: refs_ok_def)
  show "0 < refc m p" if "p \<in># A"
    using r refs_okD(2) [OF assms that] that by (fastforce simp flip: count_greater_zero_iff)
  show "0 < refc m p" if "p \<in> nodes m" "0 < par F m p"
    using r that by fastforce
qed

text \<open>The children of a live node are not dead.\<close>

lemma live_kids:
  assumes "store_ok m" "refs_ok A {#} F m" "p \<in> live F m"
  shows "0 < refc m (kT m p)" "0 < refc m (Cudd_Regular (kE m p))"
proof -
  have "p \<in> tabnodes m" using assms(3) by (simp add: live_iff)
  then have "kT m p \<in> nodes m" "Cudd_Regular (kE m p) \<in> nodes m"
    using nodeD [OF assms(1)] by simp_all
  then show "0 < refc m (kT m p)" "0 < refc m (Cudd_Regular (kE m p))"
    using refs_ok_pos(2) [OF assms(2)] par_T [OF assms(3)] par_E [OF assms(3)] by simp_all
qed

lemma one_live: "refs_ok A {#} F m \<Longrightarrow> 0 < refc m (DD_ONE m)"
  using refs_ok_pos(1) [of A F m "DD_ONE m"] refs_okD(1) [of A "{#}" F m] by simp

lemma par_cong:
  assumes "store m' = store m" "live F' m' = live F m"
  shows "par F' m' = par F m"
  by (simp add: fun_eq_iff par_def kidcount_def assms(2) store_cong [OF assms(1)])

lemma refs_cong:
  assumes "store m' = store m" "refc m' = refc m"
  shows "refs_ok A B F m' = refs_ok A B F m" "dset F m' = dset F m" "live F m' = live F m"
proof -
  show "dset F m' = dset F m" by (simp add: dset_def store_cong [OF assms(1)] assms(2))
  then show l: "live F m' = live F m" by (simp add: live_def store_cong [OF assms(1)])
  show "refs_ok A B F m' = refs_ok A B F m"
    by (simp add: refs_ok_def par_cong [OF assms(1) l] store_cong [OF assms(1)] assms(2))
qed

lemma refs_add_both:
  "p \<in> nodes m \<Longrightarrow> refs_ok (add_mset p A) (add_mset p B) F m \<longleftrightarrow> DD_ONE m \<in># add_mset p A \<and>
     set_mset A \<subseteq> nodes m \<and> set_mset B \<subseteq> nodes m \<and>
     (\<forall>p \<in> nodes m. refc m p = 65535 \<or> refc m p + count B p = count A p + par F m p)"
  by (auto simp: refs_ok_def)

lemma refs_promise: "refs_ok A B F m \<Longrightarrow> p \<in> nodes m \<Longrightarrow> refs_ok (add_mset p A) (add_mset p B) F m"
  by (simp add: refs_add_both refs_ok_def)

text \<open>A node that is referenced is not floating.\<close>

lemma dset_unfloat:
  assumes "0 < refc m p \<or> p \<notin> tabnodes m"
  shows "dset (insert p F) m = dset F m" "live (insert p F) m = live F m"
  using assms by (auto simp: dset_iff live_iff)

lemma refs_unfloat:
  assumes "0 < refc m p \<or> p \<notin> tabnodes m"
  shows "refs_ok A B (insert p F) m = refs_ok A B F m" "deads_ok (insert p F) m = deads_ok F m"
proof -
  have "par (insert p F) m = par F m" by (simp add: fun_eq_iff par_def dset_unfloat [OF assms])
  then show "refs_ok A B (insert p F) m = refs_ok A B F m"
    "deads_ok (insert p F) m = deads_ok F m"
    by (simp_all add: refs_ok_def deads_ok_def dset_unfloat [OF assms])
qed

text \<open>One step of each kind on a single count.\<close>

lemma refs_kill:
  assumes "store_ok m" "refs_ok (add_mset N A) {#} F m" "refc m N = 1" "DD_ONE m \<in># A"
    and "store m' = store m" "refc m' = (refc m)(N := 0)" "N \<notin> F"
  shows "N \<in> tabnodes m" "N \<in> live F m" "dset F m' = insert N (dset F m)"
    "live F m' = live F m - {N}"
    "refs_ok (add_mset (kT m N) (add_mset (Cudd_Regular (kE m N)) A)) {#} F m'"
proof -
  have N: "N \<in> nodes m" using refs_okD(2) [OF assms(2)] by simp
  have "refc m N = count (add_mset N A) N + par F m N"
    using refs_okD(4) [OF assms(2) N] assms(3) by simp
  then have z: "count A N = 0" "par F m N = 0" using assms(3) by simp_all
  then have "N \<noteq> DD_ONE m" using assms(4) by (auto simp: count_eq_zero_iff)
  then show t: "N \<in> tabnodes m" using N by (simp add: nodes_def)
  then show l: "N \<in> live F m" by (simp add: live_iff assms(3))
  show "dset F m' = insert N (dset F m)"
    using t assms(7) by (auto simp: dset_iff store_cong [OF assms(5)] assms(6) split: if_splits)
  show l': "live F m' = live F m - {N}"
    using t assms(7) by (auto simp: live_iff store_cong [OF assms(5)] assms(6) split: if_splits)
  have k: "kidcount m' = kidcount m" by (simp add: kidcount_def fun_eq_iff store_cong [OF assms(5)])
  have p: "par F m c = kidcount m N c + par F m' c" for c
    unfolding par_def l' k using l by (simp add: sum.remove)
  have "refc m' p = 65535 \<or> refc m' p = count (add_mset (kT m N) (add_mset (Cudd_Regular (kE m N)) A)) p
    + par F m' p" if "p \<in> nodes m" for p
  proof (cases "p = N")
    case True
    have "N \<noteq> kT m N" "N \<noteq> Cudd_Regular (kE m N)"
      using nodeD(7,8) [OF assms(1) t] by auto
    then show ?thesis using True z p [of N] by (simp add: assms(6) kidcount_def)
  next
    case False
    then show ?thesis
      using refs_okD(4) [OF assms(2) that] p [of p] by (auto simp: assms(6) kidcount_def)
  qed
  then show "refs_ok (add_mset (kT m N) (add_mset (Cudd_Regular (kE m N)) A)) {#} F m'"
    using assms(2,4) nodeD(5,6) [OF assms(1) t] by (auto simp: refs_ok_def store_cong [OF assms(5)])
qed

definition sat_dec :: "nat \<Rightarrow> nat" where
  "sat_dec r = (if r = 65535 then r else r - 1)"

definition sat_inc :: "nat \<Rightarrow> nat" where
  "sat_inc r = (if r = 65535 then r else r + 1)"

lemma refs_dec:
  assumes "refs_ok (add_mset N A) {#} F m" "DD_ONE m \<in># A"
    and "store m' = store m" "refc m' = (refc m)(N := sat_dec (refc m N))"
  shows "dset (insert N F) m' = dset F m" "live (insert N F) m' = live F m"
    "refs_ok A {#} (insert N F) m'"
proof -
  have N: "0 < refc m N" using refs_ok_pos(1) [OF assms(1)] by simp
  show d: "dset (insert N F) m' = dset F m"
    using N by (auto simp: dset_iff store_cong [OF assms(3)] assms(4) split: if_splits)
  then show l: "live (insert N F) m' = live F m" by (simp add: live_def store_cong [OF assms(3)])
  have "refc m' p = 65535 \<or> refc m' p = count A p + par F m p" if "p \<in> nodes m" for p
    using refs_okD(4) [OF assms(1) that] by (cases "p = N") (auto simp: assms(4) sat_dec_def)
  then show "refs_ok A {#} (insert N F) m'"
    using assms(1,2) par_cong [OF assms(3) l] by (auto simp: refs_ok_def store_cong [OF assms(3)])
qed

lemma refs_inc:
  assumes "refs_ok A (add_mset N B) F m" "N \<notin> dset F m"
    and "store m' = store m" "refc m' = (refc m)(N := sat_inc (refc m N))"
  shows "dset (F - {N}) m' = dset F m" "live (F - {N}) m' = live F m"
    "refs_ok A B (F - {N}) m'"
proof -
  have s: "0 < sat_inc (refc m N)" by (simp add: sat_inc_def)
  show d: "dset (F - {N}) m' = dset F m"
    using assms(2) s unfolding dset_def store_cong [OF assms(3)] assms(4) by auto
  then show l: "live (F - {N}) m' = live F m" by (simp add: live_def store_cong [OF assms(3)])
  have "refc m' p = 65535 \<or> refc m' p + count B p = count A p + par F m p" if "p \<in> nodes m" for p
    using refs_okD(4) [OF assms(1) that] by (cases "p = N") (auto simp: assms(4) sat_inc_def)
  then show "refs_ok A B (F - {N}) m'"
    using assms(1) par_cong [OF assms(3) l] by (auto simp: refs_ok_def store_cong [OF assms(3)])
qed

lemma refs_revive:
  assumes "store_ok m" "refs_ok A (add_mset N B) F m" "N \<in> dset F m"
    and "store m' = store m" "refc m' = (refc m)(N := 1)"
  shows "N \<in> tabnodes m" "dset F m' = dset F m - {N}" "live F m' = insert N (live F m)"
    "refs_ok A (add_mset (kT m N) (add_mset (Cudd_Regular (kE m N)) B)) F m'"
proof -
  show t: "N \<in> tabnodes m" using assms(3) by (simp add: dset_iff)
  show "dset F m' = dset F m - {N}"
    by (auto simp: dset_iff store_cong [OF assms(4)] assms(5) split: if_splits)
  show l': "live F m' = insert N (live F m)"
    using t by (auto simp: live_iff store_cong [OF assms(4)] assms(5) split: if_splits)
  have l: "N \<notin> live F m" using assms(3) by (simp add: live_def)
  have k: "kidcount m' = kidcount m" by (simp add: kidcount_def fun_eq_iff store_cong [OF assms(4)])
  have p: "par F m' c = kidcount m N c + par F m c" for c
    unfolding par_def l' k using l by simp
  have "refc m' p = 65535 \<or> refc m' p + count (add_mset (kT m N) (add_mset (Cudd_Regular (kE m N)) B)) p
    = count A p + par F m' p" if "p \<in> nodes m" for p
  proof (cases "p = N")
    case True
    have "N \<noteq> kT m N" "N \<noteq> Cudd_Regular (kE m N)"
      using nodeD(7,8) [OF assms(1) t] by auto
    then show ?thesis using True refs_okD(4) [OF assms(2) that] assms(3) p [of N]
      by (simp add: assms(5) kidcount_def dset_iff)
  next
    case False
    then show ?thesis
      using refs_okD(4) [OF assms(2) that] p [of p] by (auto simp: assms(5) kidcount_def)
  qed
  then show "refs_ok A (add_mset (kT m N) (add_mset (Cudd_Regular (kE m N)) B)) F m'"
    using assms(2) nodeD(5,6) [OF assms(1) t] by (auto simp: refs_ok_def store_cong [OF assms(4)])
qed

subsection \<open>The counters of dead nodes\<close>

lemma on_level_cong:
  assumes "store m' = store m"
  shows "on_level m' = on_level m"
  by (simp add: on_level_def fun_eq_iff store_cong [OF assms])

lemma card_on_level_insert:
  assumes "finite D" "N \<notin> D"
  shows "card (on_level m (insert N D) l) = (if lev m N = l then 1 else 0) + card (on_level m D l)"
proof -
  have "on_level m (insert N D) l = (if lev m N = l then insert N (on_level m D l) else on_level m D l)"
    by (auto simp: on_level_def)
  then show ?thesis using assms by (simp add: on_level_def)
qed

lemma deads_cong:
  assumes "store m' = store m" "dset F' m' = dset F m" "dead m' = dead m"
    "sub_dead (constants m') = sub_dead (constants m)"
    "\<And>l. l < dsize m \<Longrightarrow> sub_dead (subtables m' ! l) = sub_dead (subtables m ! l)"
  shows "deads_ok F' m' = deads_ok F m"
  by (simp add: deads_ok_def assms(2-5) store_cong [OF assms(1)] on_level_cong [OF assms(1)])

text \<open>A node dies, or comes back to life.\<close>

lemma deads_insert:
  assumes "store_ok m" "deads_ok F m" "N \<in> tabnodes m" "N \<notin> dset F m" "dset F' m' = insert N (dset F m)"
    and "store m' = store m" "dead m' = dead m + 1" "constants m' = constants m"
    and "subtables m' = (subtables m)[lev m N := st]"
    "sub_dead st = sub_dead (subtables m ! lev m N) + 1"
  shows "deads_ok F' m'"
proof -
  have l: "lev m N < length (subtables m)"
    using tabnode(4) [OF assms(1,3)] order_okD(1) [OF assms(1)] by simp
  then show ?thesis
    using assms(2,4) unfolding deads_ok_def assms(5) store_cong [OF assms(6)] on_level_cong [OF assms(6)] assms(7-9)
    by (auto simp: card_on_level_insert nth_list_update assms(10))
qed

lemma deads_remove:
  assumes "store_ok m" "deads_ok F m" "N \<in> dset F m" "dset F' m' = dset F m - {N}"
    and "store m' = store m" "dead m' = dead m - 1" "constants m' = constants m"
    and "subtables m' = (subtables m)[lev m N := st]"
    "sub_dead st = sub_dead (subtables m ! lev m N) - 1"
  shows "deads_ok F' m'"
proof -
  have t: "N \<in> tabnodes m" using assms(3) by (simp add: dset_iff)
  have l: "lev m N < length (subtables m)"
    using tabnode(4) [OF assms(1) t] order_okD(1) [OF assms(1)] by simp
  define D where "D = dset F m - {N}"
  have D: "dset F m = insert N D" "N \<notin> D" "finite D" "dset F' m' = D"
    using assms(3,4) by (auto simp: D_def)
  show ?thesis
    using assms(2) l unfolding deads_ok_def D(1,4) store_cong [OF assms(5)] on_level_cong [OF assms(5)] assms(6-8)
    by (auto simp: card_on_level_insert D(2,3) nth_list_update assms(9))
qed

subsection \<open>Operations that only move counts\<close>

definition no_dead :: "DdSubtable \<Rightarrow> DdSubtable" where
  "no_dead st = st\<lparr>sub_dead := 0\<rparr>"

definition counts_only :: "DdManager \<Rightarrow> DdManager \<Rightarrow> bool" where
  "counts_only m m' \<longleftrightarrow>
     (\<exists>h st d r p. m' = m\<lparr>heap := h, subtables := st, dead := d, reclaimed := r, peakLiveNodes := p\<rparr>) \<and>
     cont m' = cont m \<and> map no_dead (subtables m') = map no_dead (subtables m) \<and>
     (\<forall>p. p \<notin> nodes m \<longrightarrow> refc m' p = refc m p)"

lemma counts_onlyI:
  "m' = m\<lparr>heap := h, subtables := st, dead := d, reclaimed := r, peakLiveNodes := p\<rparr> \<Longrightarrow>
   cont m' = cont m \<Longrightarrow> map no_dead (subtables m') = map no_dead (subtables m) \<Longrightarrow>
   (\<And>q. q \<notin> nodes m \<Longrightarrow> refc m' q = refc m q) \<Longrightarrow> counts_only m m'"
  unfolding counts_only_def by blast

lemma no_dead_same:
  assumes "map no_dead xs = map no_dead ys"
  shows "length xs = length ys" "map nodelist xs = map nodelist ys" "map shift xs = map shift ys"
    "l < length ys \<Longrightarrow> no_dead (xs ! l) = no_dead (ys ! l)"
proof -
  have n: "nodelist = nodelist \<circ> no_dead" "shift = shift \<circ> no_dead"
    by (simp_all add: no_dead_def fun_eq_iff)
  show l: "length xs = length ys" using assms map_eq_imp_length_eq by blast
  show "map nodelist xs = map nodelist ys" "map shift xs = map shift ys"
    by (metis assms list.map_comp n(1)) (metis assms list.map_comp n(2))
  show "l < length ys \<Longrightarrow> no_dead (xs ! l) = no_dead (ys ! l)"
    using arg_cong [OF assms, of "\<lambda>xs. xs ! l"] l by simp
qed

lemma counts_only_store: "counts_only m m' \<Longrightarrow> store m' = store m"
proof -
  assume c: "counts_only m m'"
  then have n: "map no_dead (subtables m') = map no_dead (subtables m)" by (simp add: counts_only_def)
  have "dsize m' = dsize m" using c by (auto simp: counts_only_def)
  then show ?thesis
    using c no_dead_same [OF n]
    by (auto simp: store_def trows_def tshifts_def counts_only_def simp flip: take_map)
qed

lemma counts_only_refl [intro, simp]: "counts_only m m"
proof -
  have "m = m\<lparr>heap := heap m, subtables := subtables m, dead := dead m,
    reclaimed := reclaimed m, peakLiveNodes := peakLiveNodes m\<rparr>" by simp
  then show ?thesis unfolding counts_only_def by blast
qed

lemma counts_only_trans [trans]: "counts_only m m' \<Longrightarrow> counts_only m' m'' \<Longrightarrow> counts_only m m''"
proof -
  assume a: "counts_only m m'" and b: "counts_only m' m''"
  have "nodes m' = nodes m" using counts_only_store [OF a] store_cong(11) by blast
  then show ?thesis using a b unfolding counts_only_def by force
qed

text \<open>They keep the other parts of the invariant.\<close>

lemmas entry_defs = entry2_ok_def entry3_ok_def op3_ok_def itec_data_def cube_of_def literals_def is_var_def

lemma entry_ok_cong:
  assumes "store m' = store m"
  shows "entry2_ok m' = entry2_ok m" "entry3_ok m' = entry3_ok m" "entry_ok m' = entry_ok m"
proof -
  show "entry2_ok m' = entry2_ok m" "entry3_ok m' = entry3_ok m"
    by (simp_all add: fun_eq_iff entry_defs ite_fun_def store_cong [OF assms] sem_cong_store [OF assms])
  then show "entry_ok m' = entry_ok m" by (simp add: fun_eq_iff entry_ok_def)
qed

lemma cache_ok_cong:
  assumes "store m' = store m" "cache m' = cache m" "cacheShift m' = cacheShift m"
    "cacheSlots m' = cacheSlots m" "maxCacheHard m' = maxCacheHard m" "cacheSlack m' = cacheSlack m"
  shows "cache_ok m' = cache_ok m"
  by (simp add: cache_ok_def entry_ok_cong [OF assms(1)] assms(2-6))

lemma mem_ok_cong:
  assumes "store m' = store m" "memoryList m' = memoryList m" "os_chunks m' = os_chunks m"
    "nodelist (constants m') = nodelist (constants m)" "nextFree m' = nextFree m"
    "\<And>p. p \<notin> nodes m \<Longrightarrow> refc m' p = refc m p" "0 < refc m' (DD_ONE m)" "mem_ok m"
  shows "mem_ok m'"
proof -
  have "dom (heap m') = dom (heap m)"
    using arg_cong [OF store_cong(1) [OF assms(1)], of dom] by (simp add: cont_def dom_def fun_eq_iff)
  moreover have r: "refc m' p = refc m p" if "p \<notin> tabnodes m" "p \<noteq> DD_ONE m" for p
    using assms(6) [of p] that by (simp add: nodes_def)
  moreover have "\<forall>p \<in> cnodes m. 0 < refc m' p"
  proof
    fix p assume p: "p \<in> cnodes m"
    then have "p \<notin> tabnodes m" "0 < refc m p" using assms(8) by (auto simp: mem_ok_def)
    then show "0 < refc m' p" using assms(7) r [of p] by (cases "p = DD_ONE m") simp_all
  qed
  moreover have "\<forall>p \<in> set (pool m) - tabnodes m - cnodes m. refc m' p = 0"
  proof
    fix p assume "p \<in> set (pool m) - tabnodes m - cnodes m"
    then show "refc m' p = 0"
      using assms(8) r [of p] by (cases "p = DD_ONE m") (auto simp: mem_ok_def)
  qed
  moreover have "pool m' = pool m" "fresh_pool m' = fresh_pool m" "cnodes m' = cnodes m"
    by (simp_all add: pool_def fresh_pool_def cnodes_def assms(2-4))
  ultimately show ?thesis
    using assms(8) unfolding mem_ok_def by (simp add: store_cong [OF assms(1)] assms(2-5))
qed

lemma counts_only_fields:
  assumes "counts_only m m'"
  shows "constants m' = constants m" "keys m' = keys m" "stash m' = stash m" "dsizeZ m' = dsizeZ m"
    "deadZ m' = deadZ m" "autoDyn m' = autoDyn m" "deadMask m' = deadMask m"
    "nextDead m' = nextDead m" "deathRow m' = deathRow m" "memoryList m' = memoryList m"
    "os_chunks m' = os_chunks m" "nextFree m' = nextFree m" "cache m' = cache m"
    "cacheShift m' = cacheShift m" "cacheSlots m' = cacheSlots m" "maxCacheHard m' = maxCacheHard m"
    "cacheSlack m' = cacheSlack m" "reordered m' = reordered m" "drow m' = drow m"
    "gcFrac m' = gcFrac m" "looseUpTo m' = looseUpTo m" "keysZ m' = keysZ m"
  using assms by (auto simp: counts_only_def drow_def)

lemma rest_ok_counts:
  assumes "rest_ok m" "store_ok m" "counts_only m m'" "0 < refc m' (DD_ONE m)"
  shows "rest_ok m'"
proof -
  note s = counts_only_store [OF assms(3)]
  note f = counts_only_fields [OF assms(3)]
  have n: "no_dead (subtables m' ! l) = no_dead (subtables m ! l)" if "l < dsize m" for l
    using no_dead_same(4) [of "subtables m'" "subtables m"] assms(3) order_okD(1) [OF assms(2)] that
    by (simp add: counts_only_def)
  have n': "sub_keys (subtables m' ! l) = sub_keys (subtables m ! l)"
    "shift (subtables m' ! l) = shift (subtables m ! l)"
    "sub_slots (subtables m' ! l) = sub_slots (subtables m ! l)"
    "sub_maxKeys (subtables m' ! l) = sub_maxKeys (subtables m ! l)" if "l < dsize m" for l
    using n [OF that] by (cases "subtables m' ! l"; cases "subtables m ! l"; simp add: no_dead_def)+
  have "keys_ok m'"
    using assms(1) n' by (simp add: rest_ok_def keys_ok_def f store_cong [OF s] on_level_cong [OF s])
  moreover have "sizes_ok m'"
    using assms(1) n' by (auto simp: rest_ok_def sizes_ok_def f store_cong [OF s] Let_def)
  moreover have "mem_ok m'"
    using assms(1,3,4) by (intro mem_ok_cong [OF s]) (simp_all add: f rest_ok_def counts_only_def)
  moreover have "cache_ok m'"
    using assms(1) cache_ok_cong [OF s] by (simp add: f rest_ok_def)
  moreover have "misc_ok m'"
    using assms(1) by (simp add: f rest_ok_def misc_ok_def dims_cong [OF s])
  ultimately show ?thesis by (simp add: rest_ok_def)
qed

subsection \<open>What a caller can rely on\<close>

text \<open>
  The nodes below the references a caller holds. Every operation keeps their contents and
  the variable order; it may remove all other nodes.
\<close>

inductive_set reach :: "DdManager \<Rightarrow> ptr set \<Rightarrow> ptr set" for m X where
  base: "p \<in> X \<Longrightarrow> p \<in> reach m X"
| reach_T: "p \<in> reach m X \<Longrightarrow> p \<in> tabnodes m \<Longrightarrow> kT m p \<in> reach m X"
| reach_E: "p \<in> reach m X \<Longrightarrow> p \<in> tabnodes m \<Longrightarrow> Cudd_Regular (kE m p) \<in> reach m X"

definition order :: "DdManager \<Rightarrow> (nat list \<times> nat list) \<times> nat \<times> ptr \<times> ptr list" where
  "order m = ((perm m, invperm m), dsize m, DD_ONE m, vars m)"

definition keep :: "ptr set \<Rightarrow> DdManager \<Rightarrow> DdManager \<Rightarrow> bool" where
  "keep X m m' \<longleftrightarrow> (\<forall>p \<in> reach m X. p \<in> nodes m' \<and> cont m' p = cont m p) \<and>
     order m' = order m \<and> reordered m' = reordered m"

lemma reach_nodes:
  assumes "store_ok m" "X \<subseteq> nodes m" "p \<in> reach m X"
  shows "p \<in> nodes m"
  using assms(3) by (induction rule: reach.induct) (use assms(2) nodeD(5,6) [OF assms(1)] in auto)

lemma reach_mono: "p \<in> reach m X \<Longrightarrow> X \<subseteq> Y \<Longrightarrow> p \<in> reach m Y"
  by (induction rule: reach.induct) (auto intro: reach.intros)

lemma reach_ref:
  assumes "store_ok m" "refs_ok A {#} F m" "X \<subseteq> set_mset A" "p \<in> reach m X"
  shows "0 < refc m p"
  using assms(4)
proof (induction rule: reach.induct)
  case (base p)
  then show ?case using refs_ok_pos(1) [OF assms(2)] assms(3) by blast
next
  case (reach_T p)
  then show ?case using live_kids(1) [OF assms(1,2)] by (simp add: live_iff)
next
  case (reach_E p)
  then show ?case using live_kids(2) [OF assms(1,2)] by (simp add: live_iff)
qed

lemma orderD:
  assumes "order m' = order m"
  shows "perm m' = perm m" "invperm m' = invperm m" "dsize m' = dsize m" "DD_ONE m' = DD_ONE m" "vars m' = vars m"
  using assms by (simp_all add: order_def)

lemma keepD:
  assumes "keep X m m'"
  shows "p \<in> reach m X \<Longrightarrow> p \<in> nodes m'" "p \<in> reach m X \<Longrightarrow> cont m' p = cont m p"
    "order m' = order m" "reordered m' = reordered m"
    "p \<in> reach m X \<Longrightarrow> kT m' p = kT m p" "p \<in> reach m X \<Longrightarrow> kE m' p = kE m p"
    "p \<in> reach m X \<Longrightarrow> nidx m' p = nidx m p" "p \<in> reach m X \<Longrightarrow> lev m' p = lev m p"
  using assms by (auto simp: keep_def kT_def kE_def nidx_def lev_def order_def)

lemma keep_tab:
  assumes "keep X m m'" "p \<in> reach m X" "p \<in> tabnodes m" "store_ok m"
  shows "p \<in> tabnodes m'"
  using keepD(1) [OF assms(1,2)] one_not_tab [OF assms(4)] assms(3) orderD(4) [OF keepD(3) [OF assms(1)]]
  by (auto simp: nodes_def)

lemma keep_reach:
  assumes "keep X m m'" "store_ok m" "p \<in> reach m X"
  shows "p \<in> reach m' X"
  using assms(3)
proof (induction rule: reach.induct)
  case (base p)
  then show ?case by (rule reach.base)
next
  case (reach_T p)
  then show ?case
    using reach.reach_T [OF reach_T.IH keep_tab [OF assms(1) reach_T.hyps assms(2)]]
      keepD(5) [OF assms(1) reach_T.hyps(1)] by simp
next
  case (reach_E p)
  then show ?case
    using reach.reach_E [OF reach_E.IH keep_tab [OF assms(1) reach_E.hyps assms(2)]]
      keepD(6) [OF assms(1) reach_E.hyps(1)] by simp
qed

lemma keep_trans:
  assumes "keep X m m'" "keep X m' m''" "store_ok m"
  shows "keep X m m''"
  using assms keep_reach [OF assms(1,3)] by (auto simp: keep_def)

lemma keep_mono: "keep Y m m' \<Longrightarrow> X \<subseteq> Y \<Longrightarrow> keep X m m'"
  using reach_mono by (fastforce simp: keep_def)

lemma keep_store: "store m' = store m \<Longrightarrow> reordered m' = reordered m \<Longrightarrow> store_ok m \<Longrightarrow>
    X \<subseteq> nodes m \<Longrightarrow> keep X m m'"
  using store_cong [of m' m] reach_nodes by (auto simp: keep_def order_def)

text \<open>Diagrams keep their function when their nodes keep their contents.\<close>

lemma sem_agree:
  assumes "store_ok m" "store_ok m'" "order m' = order m"
    and closed: "\<And>p. p \<in> S \<Longrightarrow> p \<in> tabnodes m \<Longrightarrow> kT m p \<in> S \<and> Cudd_Regular (kE m p) \<in> S"
    and same: "\<And>p. p \<in> S \<Longrightarrow> p \<in> nodes m \<and> p \<in> nodes m' \<and> cont m' p = cont m p"
    and "Cudd_Regular e \<in> S"
  shows "sem m' env e = sem m env e"
proof -
  have "e \<in> edges m" using same assms(6) by (simp add: edges_def)
  with assms(1) show ?thesis using assms(6)
  proof (induction rule: edge_induct)
    case (edge e)
    let ?p = "Cudd_Regular e"
    show ?case
    proof (cases "?p = DD_ONE m")
      case True
      then show ?thesis
        using const_edges [OF True assms(1)] assms(1,2) orderD(4) [OF assms(3)] sem_one
        by (metis sem_Not)
    next
      case False
      then have p: "?p \<in> tabnodes m" "?p \<in> tabnodes m'"
        using same [OF edge(3)] orderD(4) [OF assms(3)] by (auto simp: nodes_def)
      have c: "kT m' ?p = kT m ?p" "kE m' ?p = kE m ?p" "nidx m' ?p = nidx m ?p"
        using same [OF edge(3)] by (simp_all add: kT_def kE_def nidx_def)
      have "sem m' env (kT m ?p) = sem m env (kT m ?p)" "sem m' env (kE m ?p) = sem m env (kE m ?p)"
        using nodeD(3,10-13) [OF assms(1) p(1)] closed [OF edge(3) p(1)]
        by (intro edge(2); simp add: elev_def)+
      then have "sem m' env ?p = sem m env ?p"
        by (simp add: sem_node [OF assms(1) p(1)] sem_node [OF assms(2) p(2)] c)
      then show ?thesis using sem_Regular by blast
    qed
  qed
qed

lemma keep_sem:
  assumes "keep X m m'" "store_ok m" "store_ok m'" "X \<subseteq> nodes m" "Cudd_Regular e \<in> reach m X"
  shows "sem m' env e = sem m env e" "elev m' e = elev m e" "e \<in> edges m'"
    "Cudd_Regular e \<in> reach m' X"
proof -
  show "sem m' env e = sem m env e"
    by (rule sem_agree [OF assms(2,3) keepD(3) [OF assms(1)] _ _ assms(5)])
      (use reach_nodes [OF assms(2,4)] keepD [OF assms(1)] in \<open>auto intro: reach.intros\<close>)
  show "elev m' e = elev m e" "e \<in> edges m'" "Cudd_Regular e \<in> reach m' X"
    using keepD(8) [OF assms(1,5)] keep_reach [OF assms(1,2,5)] keepD(1) [OF assms(1,5)]
    by (simp_all add: elev_def edges_def)
qed

text \<open>When no node below a live node is removed, the whole table agrees.\<close>

lemma sem_grow:
  assumes "store_ok m" "store_ok m'" "order m' = order m"
    and "\<And>p. p \<in> nodes m \<Longrightarrow> p \<in> nodes m' \<and> cont m' p = cont m p" and "e \<in> edges m"
  shows "sem m' env e = sem m env e"
  by (rule sem_agree [OF assms(1-3), where S = "nodes m"])
    (use assms(4,5) nodeD [OF assms(1)] in \<open>auto simp: edges_def\<close>)

subsection \<open>Fields outside the invariant\<close>

text \<open>
  Statistics, limits, the error code and the answers of the operating system are not read by
  the invariant; the fields of the computed table are read by its own part only.
\<close>

definition core :: "DdManager \<Rightarrow> ((ptr \<rightharpoonup> DdNode) \<times> ptr \<times> ptr list \<times> ptr list \<times> ptr list) \<times>
    (nat \<times> nat \<times> DdSubtable list \<times> DdSubtable \<times> uint32 \<times> uint32 \<times> uint32) \<times>
    (nat list \<times> nat list \<times> nat \<times> nat) \<times> (ptr list \<times> nat \<times> nat) \<times> bool \<times> bool \<times>
    (ptr list \<times> nat \<times> nat \<times> nat)" where
  "core m = ((heap m, DD_ONE m, memoryList m, nextFree m, os_chunks m),
     (dsize m, dsizeZ m, subtables m, constants m, keys m, dead m, deadZ m),
     (perm m, invperm m, stackSize m, reordered m),
     (deathRow m, nextDead m, deadMask m), stash m, autoDyn m,
     (vars m, maxSize m, maxSizeZ m, initSlots m))"

lemma core_fields:
  assumes "core m' = core m"
  shows "store m' = store m" "refc m' = refc m" "heap m' = heap m" "nextFree m' = nextFree m"
    "subtables m' = subtables m" "constants m' = constants m" "drow m' = drow m"
    "stash m' = stash m" "reordered m' = reordered m" "deadZ m' = deadZ m" "dsizeZ m' = dsizeZ m"
    "os_chunks m' = os_chunks m" "memoryList m' = memoryList m" "dead m' = dead m" "keys m' = keys m"
    "perm m' = perm m" "DD_ONE m' = DD_ONE m" "dsize m' = dsize m"
proof -
  have c: "cont m' = cont m" "trows m' = trows m" "tshifts m' = tshifts m"
    using assms by (simp_all add: core_def cont_def fun_eq_iff trows_def tshifts_def)
  then show "store m' = store m" using assms by (simp add: store_def core_def)
  show "refc m' = refc m" using assms by (simp add: core_def refc_def fun_eq_iff)
qed (use assms in \<open>simp_all add: core_def drow_def\<close>)

lemma core_ok:
  assumes "core m' = core m"
  shows "graph_ok A B F m' = graph_ok A B F m" "loose_ok ext F m \<Longrightarrow> cache_ok m' \<Longrightarrow> loose_ok ext F m'"
    "mgr_ok ext F m \<Longrightarrow> cache_ok m' \<Longrightarrow> mgr_ok ext F m'"
    "store_ok m \<Longrightarrow> X \<subseteq> nodes m \<Longrightarrow> keep X m m'"
proof -
  note c = core_fields [OF assms]
  note s = c(1)
  have gr: "graph_ok A B F m' = graph_ok A B F m" for A B F
    using refs_cong [OF c(1,2)] deads_cong [OF s refs_cong(2) [OF c(1,2)] c(14)] c(5,6)
    by (simp add: graph_ok_def store_cong(18) [OF s])
  then show "graph_ok A B F m' = graph_ok A B F m" .
  moreover have "keys_ok m' = keys_ok m" "sizes_ok m' = sizes_ok m" "misc_ok m' = misc_ok m"
    using assms
    by (simp_all add: keys_ok_def sizes_ok_def misc_ok_def dims_cong [OF s] c(15,5,6,8) store_cong [OF s]
        on_level_cong [OF s] core_def)
  moreover have "mem_ok m' = mem_ok m"
    by (simp add: mem_ok_def pool_def fresh_pool_def cnodes_def c store_cong [OF s])
  moreover have "row_ok m' = row_ok m" using assms by (simp add: row_ok_def core_def)
  ultimately show "loose_ok ext F m \<Longrightarrow> cache_ok m' \<Longrightarrow> loose_ok ext F m'"
    "mgr_ok ext F m \<Longrightarrow> cache_ok m' \<Longrightarrow> mgr_ok ext F m'"
    by (simp_all add: loose_ok_def mgr_ok_def rest_ok_def c(7) gr store_cong [OF s])
  show "store_ok m \<Longrightarrow> X \<subseteq> nodes m \<Longrightarrow> keep X m m'"
    by (rule keep_store [OF s c(9)])
qed

lemma core_cache_ok:
  assumes "core m' = core m" "cache m' = cache m" "cacheShift m' = cacheShift m"
    "cacheSlots m' = cacheSlots m" "maxCacheHard m' = maxCacheHard m" "cacheSlack m' = cacheSlack m"
  shows "cache_ok m' = cache_ok m"
  by (rule cache_ok_cong [OF core_fields(1) [OF assms(1)] assms(2-6)])

end
