(* ===== verification/CuddRef.thy ===== *)
theory CuddRef
  imports CuddInv
begin

text \<open>
  Reference counts: \<open>lib/SVF/CUDD/cuddRef.c\<close>. A node whose count drops to 0 is dead but stays
  in its unique subtable until the garbage collector removes it; \<open>cuddReclaim\<close> brings a dead
  node back. The iterative procedures walk the diagram with the manager's \<open>stack\<close> array: the
  model keeps its contents above slot 0 as a list, top first, so \<open>SP\<close> is one more than its
  length, and pushing beyond the array has no value.
\<close>

subsection \<open>Operations\<close>

definition Cudd_Ref :: "ptr \<Rightarrow> DdManager \<Rightarrow> DdManager option" where
  "Cudd_Ref n m = (let n = Cudd_Regular n in do {
     N \<leftarrow> heap m n;
     Some (put_node n (N\<lparr>ref := cuddSatInc (ref N)\<rparr>) m) })"

definition Cudd_Deref :: "ptr \<Rightarrow> DdManager \<Rightarrow> DdManager option" where
  "Cudd_Deref node m = (let node = Cudd_Regular node in do {
     N \<leftarrow> heap m node;
     Some (put_node node (N\<lparr>ref := cuddSatDec (ref N)\<rparr>) m) })"

definition update_peakLive :: "DdManager \<Rightarrow> DdManager" where
  "update_peakLive table = (let live = keys table - dead table in
     if live > peakLiveNodes table then table\<lparr>peakLiveNodes := live\<rparr> else table)"

definition push_ok :: "ptr list \<Rightarrow> DdManager \<Rightarrow> bool" where
  "push_ok stk m = (length stk + 1 < stackSize m)"

text \<open>The body shared by the loops: node \<open>N\<close> with count 1 dies, its else child is pushed.\<close>

partial_function (option) recursiveDeref_loop :: "ptr \<Rightarrow> ptr list \<Rightarrow> DdManager \<Rightarrow> DdManager option" where
  "recursiveDeref_loop N stk table = do {
     n \<leftarrow> heap table N;
     if ref n = 1 then do {
       let table = (put_node N (n\<lparr>ref := 0\<rparr>) table)\<lparr>dead := dead table + 1\<rparr>;
       if cuddIsConstant n then do {
         let table = table\<lparr>constants := (constants table)\<lparr>sub_dead := sub_dead (constants table) + 1\<rparr>\<rparr>;
         case stk of [] \<Rightarrow> Some table | N' # stk' \<Rightarrow> recursiveDeref_loop N' stk' table }
       else do {
         ord \<leftarrow> nth_opt (perm table) (unat (index n));
         E \<leftarrow> cuddE n;
         T \<leftarrow> cuddT n;
         if push_ok stk table then do {
           table \<leftarrow> upd_sub_dead ord (\<lambda>d. d + 1) table;
           recursiveDeref_loop T (Cudd_Regular E # stk) table }
         else None } }
     else do {
       let table = put_node N (n\<lparr>ref := cuddSatDec (ref n)\<rparr>) table;
       case stk of [] \<Rightarrow> Some table | N' # stk' \<Rightarrow> recursiveDeref_loop N' stk' table } }"

definition Cudd_RecursiveDeref :: "ptr \<Rightarrow> DdManager \<Rightarrow> DdManager option" where
  "Cudd_RecursiveDeref n table =
     recursiveDeref_loop (Cudd_Regular n) [] (update_peakLive table)"

partial_function (option) iterDeref_loop :: "ptr \<Rightarrow> ptr list \<Rightarrow> DdManager \<Rightarrow> DdManager option" where
  "iterDeref_loop N stk table = do {
     n \<leftarrow> heap table N;
     if ref n = 1 then do {
       let table = (put_node N (n\<lparr>ref := 0\<rparr>) table)\<lparr>dead := dead table + 1\<rparr>;
       ord \<leftarrow> nth_opt (perm table) (unat (index n));
       E \<leftarrow> cuddE n;
       T \<leftarrow> cuddT n;
       if push_ok stk table then do {
         table \<leftarrow> upd_sub_dead ord (\<lambda>d. d + 1) table;
         iterDeref_loop T (Cudd_Regular E # stk) table }
       else None }
     else do {
       let table = put_node N (n\<lparr>ref := cuddSatDec (ref n)\<rparr>) table;
       case stk of [] \<Rightarrow> Some table | N' # stk' \<Rightarrow> iterDeref_loop N' stk' table } }"

definition Cudd_IterDerefBdd :: "ptr \<Rightarrow> DdManager \<Rightarrow> DdManager option" where
  "Cudd_IterDerefBdd n table = iterDeref_loop (Cudd_Regular n) [] (update_peakLive table)"

definition Cudd_DelayedDerefBdd :: "ptr \<Rightarrow> DdManager \<Rightarrow> DdManager option" where
  "Cudd_DelayedDerefBdd n table = (
     let table = update_peakLive table; n = Cudd_Regular n in do {
       nd \<leftarrow> heap table n;
       if cuddIsConstant nd \<or> ref nd > 1 then
         Some (put_node n (nd\<lparr>ref := cuddSatDec (ref nd)\<rparr>) table)
       else do {
         N \<leftarrow> nth_opt (deathRow table) (nextDead table);
         table \<leftarrow> (if N \<noteq> NULL then iterDeref_loop N [] table else Some table);
         row \<leftarrow> upd_opt (deathRow table) (nextDead table) n;
         Some (table\<lparr>deathRow := row,
                     nextDead := (nextDead table + 1) AND deadMask table\<rparr>) } })"

partial_function (option) recursiveDerefZdd_loop :: "ptr \<Rightarrow> ptr list \<Rightarrow> DdManager \<Rightarrow> DdManager option" where
  "recursiveDerefZdd_loop N stk table = do {
     n \<leftarrow> heap table N;
     let n = n\<lparr>ref := cuddSatDec (ref n)\<rparr>;
     let table = put_node N n table;
     if ref n = 0 then do {
       let table = table\<lparr>deadZ := deadZ table + 1\<rparr>;
       ord \<leftarrow> nth_opt (permZ table) (unat (index n));
       E \<leftarrow> cuddE n;
       T \<leftarrow> cuddT n;
       st \<leftarrow> nth_opt (subtableZ table) ord;
       if push_ok stk table then
         recursiveDerefZdd_loop T (E # stk)
           (table\<lparr>subtableZ := (subtableZ table)[ord := st\<lparr>sub_dead := sub_dead st + 1\<rparr>]\<rparr>)
       else None }
     else (case stk of [] \<Rightarrow> Some table | N' # stk' \<Rightarrow> recursiveDerefZdd_loop N' stk' table) }"

definition Cudd_RecursiveDerefZdd :: "ptr \<Rightarrow> DdManager \<Rightarrow> DdManager option" where
  "Cudd_RecursiveDerefZdd n table = recursiveDerefZdd_loop n [] table"

partial_function (option) reclaim_loop :: "ptr \<Rightarrow> ptr list \<Rightarrow> DdManager \<Rightarrow> DdManager option" where
  "reclaim_loop N stk table = do {
     n \<leftarrow> heap table N;
     if ref n = 0 then do {
       let table = (put_node N (n\<lparr>ref := 1\<rparr>) table)\<lparr>dead := dead table - 1\<rparr>;
       if cuddIsConstant n then do {
         let table = table\<lparr>constants := (constants table)\<lparr>sub_dead := sub_dead (constants table) - 1\<rparr>\<rparr>;
         case stk of [] \<Rightarrow> Some table | N' # stk' \<Rightarrow> reclaim_loop N' stk' table }
       else do {
         ord \<leftarrow> nth_opt (perm table) (unat (index n));
         E \<leftarrow> cuddE n;
         T \<leftarrow> cuddT n;
         if push_ok stk table then do {
           table \<leftarrow> upd_sub_dead ord (\<lambda>d. d - 1) table;
           reclaim_loop T (Cudd_Regular E # stk) table }
         else None } }
     else do {
       let table = put_node N (n\<lparr>ref := cuddSatInc (ref n)\<rparr>) table;
       case stk of [] \<Rightarrow> Some table | N' # stk' \<Rightarrow> reclaim_loop N' stk' table } }"

definition cuddReclaim :: "ptr \<Rightarrow> DdManager \<Rightarrow> DdManager option" where
  "cuddReclaim n table = (let initialDead = dead table in do {
     table \<leftarrow> reclaim_loop (Cudd_Regular n) [] table;
     table \<leftarrow> cuddDeref n table;
     Some (table\<lparr>reclaimed := reclaimed table + (uint initialDead - uint (dead table))\<rparr>) })"

partial_function (option) reclaimZdd_loop :: "ptr \<Rightarrow> ptr list \<Rightarrow> DdManager \<Rightarrow> DdManager option" where
  "reclaimZdd_loop N stk table = do {
     n \<leftarrow> heap table N;
     let n = n\<lparr>ref := cuddSatInc (ref n)\<rparr>;
     let table = put_node N n table;
     if ref n = 1 then do {
       let table = table\<lparr>deadZ := deadZ table - 1, reclaimed := reclaimed table + 1\<rparr>;
       ord \<leftarrow> nth_opt (permZ table) (unat (index n));
       E \<leftarrow> cuddE n;
       T \<leftarrow> cuddT n;
       st \<leftarrow> nth_opt (subtableZ table) ord;
       if push_ok stk table then
         reclaimZdd_loop T (E # stk)
           (table\<lparr>subtableZ := (subtableZ table)[ord := st\<lparr>sub_dead := sub_dead st - 1\<rparr>]\<rparr>)
       else None }
     else (case stk of [] \<Rightarrow> Some table | N' # stk' \<Rightarrow> reclaimZdd_loop N' stk' table) }"

definition cuddReclaimZdd :: "ptr \<Rightarrow> DdManager \<Rightarrow> DdManager option" where
  "cuddReclaimZdd n table = do {
     table \<leftarrow> reclaimZdd_loop n [] table;
     nd \<leftarrow> heap table n;
     Some (put_node n (nd\<lparr>ref := cuddSatDec (ref nd)\<rparr>) table) }"

text \<open>
  The death row: \<open>clear_row\<close> is the loop over its slots \<open>i, i + 1, \<dots>\<close> that both procedures
  below run, up to the first empty slot. Shrinking ends with a \<open>REALLOC\<close> of the row to a quarter of
  its size, whose result the code does not check; the model takes it to succeed, as a request that
  needs no more memory than the block has.
\<close>

fun clear_row :: "nat list \<Rightarrow> DdManager \<Rightarrow> DdManager option" where
  "clear_row [] table = Some table"
| "clear_row (i # is) table = do {
     p \<leftarrow> nth_opt (deathRow table) i;
     if p = NULL then Some table
     else do {
       table \<leftarrow> Cudd_IterDerefBdd p table;
       clear_row is (table\<lparr>deathRow := (deathRow table)[i := NULL]\<rparr>) } }"

definition cuddShrinkDeathRow :: "DdManager \<Rightarrow> DdManager option" where
  "cuddShrinkDeathRow table = (let depth = length (deathRow table) in
     if depth > 3 then do {
       table \<leftarrow> clear_row [depth div 4 ..< depth] table;
       let depth = depth div 4;
       let table = table\<lparr>deadMask := depth - 1\<rparr>;
       let table = (if nextDead table > deadMask table then table\<lparr>nextDead := 0\<rparr> else table);
       Some (table\<lparr>deathRow := take depth (deathRow table)\<rparr>) }
     else Some table)"

definition cuddClearDeathRow :: "DdManager \<Rightarrow> DdManager option" where
  "cuddClearDeathRow table = do {
     table \<leftarrow> clear_row [0 ..< length (deathRow table)] table;
     Some (table\<lparr>nextDead := 0\<rparr>) }"

fun row_position :: "ptr \<Rightarrow> ptr list \<Rightarrow> int \<Rightarrow> int" where
  "row_position f [] i = -1"
| "row_position f (p # ps) i = (if f = p then i else row_position f ps (i + 1))"

definition cuddIsInDeathRow :: "DdManager \<Rightarrow> ptr \<Rightarrow> int" where
  "cuddIsInDeathRow dd f = row_position f (deathRow dd) 0"

definition cuddTimesInDeathRow :: "DdManager \<Rightarrow> ptr \<Rightarrow> nat" where
  "cuddTimesInDeathRow dd f = length (filter (\<lambda>p. f = p) (deathRow dd))"

subsection \<open>Writing one count\<close>

lemma unat_SatDec: "r \<noteq> 0 \<Longrightarrow> unat (cuddSatDec r) = sat_dec (unat r)"
proof -
  assume "r \<noteq> 0"
  then have "unat (r - 1) = unat r - 1" by (rule unat_minus_one)
  moreover have "r = 65535 \<longleftrightarrow> unat r = 65535" by (simp add: word_unat_eq_iff)
  ultimately show ?thesis by (auto simp: cuddSatDec_def sat_dec_def DD_MAXREF_def)
qed

lemma unat_SatInc: "unat (cuddSatInc r) = sat_inc (unat r)"
proof -
  have e: "r = 65535 \<longleftrightarrow> unat r = 65535" by (simp add: word_unat_eq_iff)
  have "unat (r + 1) = unat r + 1" if "r \<noteq> 65535"
    using that unsigned_less [of r, where ?'a = nat] e by (simp add: unat_word_ariths)
  then show ?thesis using e by (auto simp: cuddSatInc_def sat_inc_def DD_MAXREF_def)
qed

lemma nodes_heap:
  assumes "store_ok m" "p \<in> nodes m"
  obtains n where "heap m p = Some n"
proof -
  have "cont m p \<noteq> None"
  proof (cases "p = DD_ONE m")
    case True
    then show ?thesis using assms(1) by (auto simp: store_ok_def one_ok_def)
  next
    case False
    then show ?thesis using tabnode(1) [OF assms(1), of p] assms(2) by (auto simp: nodes_def)
  qed
  then show thesis using that by (auto simp: cont_def)
qed

lemma refc_heap: "heap m p = Some n \<Longrightarrow> refc m p = unat (ref n)"
  by (simp add: refc_def)

lemma tab_heap:
  assumes "store_ok m" "p \<in> tabnodes m" "heap m p = Some n"
  shows "type n = Kids (kT m p) (kE m p)" "unat (index n) = nidx m p" "\<not> cuddIsConstant n"
    "cuddT n = Some (kT m p)" "cuddE n = Some (kE m p)"
    "nth_opt (perm m) (unat (index n)) = Some (lev m p)"
proof -
  obtain i where i: "cont m p = Some (i, Kids (kT m p) (kE m p))" "i \<noteq> CUDD_CONST_INDEX"
    "unat i = nidx m p"
    using tabnode(1) [OF assms(1,2)] by blast
  then show t: "type n = Kids (kT m p) (kE m p)" "unat (index n) = nidx m p" "\<not> cuddIsConstant n"
    using assms(3) by (auto simp: cont_def cuddIsConstant_def)
  then show "cuddT n = Some (kT m p)" "cuddE n = Some (kE m p)"
    by (simp_all add: cuddT_def cuddE_def)
  have "nidx m p < length (perm m)"
    using tabnode(2) [OF assms(1,2)] order_okD(2) [OF assms(1)] by simp
  then show "nth_opt (perm m) (unat (index n)) = Some (lev m p)"
    using t tabnode(3) [OF assms(1,2)] by simp
qed

lemma put_ref:
  assumes "heap m N = Some n"
  shows "store (put_node N (n\<lparr>ref := r\<rparr>) m) = store m"
    "refc (put_node N (n\<lparr>ref := r\<rparr>) m) = (refc m)(N := unat r)"
    "N \<in> nodes m \<Longrightarrow> counts_only m (put_node N (n\<lparr>ref := r\<rparr>) m)"
proof -
  have c: "cont (put_node N (n\<lparr>ref := r\<rparr>) m) = cont m"
    using assms by (simp add: put_node_def cont_def fun_eq_iff)
  then show "store (put_node N (n\<lparr>ref := r\<rparr>) m) = store m"
    by (simp add: store_def trows_def tshifts_def put_node_def)
  show f: "refc (put_node N (n\<lparr>ref := r\<rparr>) m) = (refc m)(N := unat r)"
    by (simp add: put_node_def refc_def fun_eq_iff)
  show "counts_only m (put_node N (n\<lparr>ref := r\<rparr>) m)" if "N \<in> nodes m"
  proof -
    have "put_node N (n\<lparr>ref := r\<rparr>) m = m\<lparr>heap := (heap m)(N \<mapsto> n\<lparr>ref := r\<rparr>), subtables := subtables m,
      dead := dead m, reclaimed := reclaimed m, peakLiveNodes := peakLiveNodes m\<rparr>"
      by (simp add: put_node_def)
    then show ?thesis
      by (rule counts_onlyI) (use c f that in \<open>auto simp: put_node_def\<close>)
  qed
qed

lemma graph_okD:
  assumes "graph_ok A B F m"
  shows "store_ok m" "refs_ok A B F m" "deads_ok F m"
  using assms by (simp_all add: graph_ok_def)

lemma dec_step:
  assumes "graph_ok (add_mset N A) {#} F m" "DD_ONE m \<in># A" "heap m N = Some n"
  shows "graph_ok A {#} (insert N F) (put_node N (n\<lparr>ref := cuddSatDec (ref n)\<rparr>) m)"
    "counts_only m (put_node N (n\<lparr>ref := cuddSatDec (ref n)\<rparr>) m)"
proof -
  note g = graph_okD [OF assms(1)] and p = put_ref [OF assms(3), of "cuddSatDec (ref n)"]
  have N: "N \<in> nodes m" "0 < refc m N"
    using refs_okD(2) [OF g(2)] refs_ok_pos(1) [OF g(2)] by simp_all
  show "counts_only m (put_node N (n\<lparr>ref := cuddSatDec (ref n)\<rparr>) m)" by (rule p(3) [OF N(1)])
  have "refc (put_node N (n\<lparr>ref := cuddSatDec (ref n)\<rparr>) m) = (refc m)(N := sat_dec (refc m N))"
    using N(2) by (simp add: p(2) unat_SatDec refc_heap [OF assms(3)] unat_gt_0)
  note r = refs_dec [OF g(2) assms(2) p(1) this]
  have "deads_ok (insert N F) (put_node N (n\<lparr>ref := cuddSatDec (ref n)\<rparr>) m)"
    using deads_cong [OF p(1) r(1)] g(3) by (simp add: put_node_def)
  then show "graph_ok A {#} (insert N F) (put_node N (n\<lparr>ref := cuddSatDec (ref n)\<rparr>) m)"
    using r(3) g(1) store_cong(18) [OF p(1)] by (simp add: graph_ok_def)
qed

lemma inc_step:
  assumes "graph_ok A (add_mset N B) F m" "N \<notin> dset F m" "heap m N = Some n"
  shows "graph_ok A B (F - {N}) (put_node N (n\<lparr>ref := cuddSatInc (ref n)\<rparr>) m)"
    "counts_only m (put_node N (n\<lparr>ref := cuddSatInc (ref n)\<rparr>) m)"
proof -
  note g = graph_okD [OF assms(1)] and p = put_ref [OF assms(3), of "cuddSatInc (ref n)"]
  have N: "N \<in> nodes m" using refs_okD(3) [OF g(2)] by simp
  show "counts_only m (put_node N (n\<lparr>ref := cuddSatInc (ref n)\<rparr>) m)" by (rule p(3) [OF N(1)])
  have "refc (put_node N (n\<lparr>ref := cuddSatInc (ref n)\<rparr>) m) = (refc m)(N := sat_inc (refc m N))"
    by (simp add: p(2) unat_SatInc refc_heap [OF assms(3)])
  note r = refs_inc [OF g(2) assms(2) p(1) this]
  have "deads_ok (F - {N}) (put_node N (n\<lparr>ref := cuddSatInc (ref n)\<rparr>) m)"
    using deads_cong [OF p(1) r(1)] g(3) by (simp add: put_node_def)
  then show "graph_ok A B (F - {N}) (put_node N (n\<lparr>ref := cuddSatInc (ref n)\<rparr>) m)"
    using r(3) g(1) store_cong(18) [OF p(1)] by (simp add: graph_ok_def)
qed

lemma graph_unfloat:
  "0 < refc m p \<or> p \<notin> tabnodes m \<Longrightarrow> graph_ok A B (insert p F) m = graph_ok A B F m"
  by (simp add: graph_ok_def refs_unfloat)

text \<open>The death and the revival of a node, with the counters of its subtable.\<close>

definition move_dead :: "uint32 \<Rightarrow> DdHalfWord \<Rightarrow> ptr \<Rightarrow> DdNode \<Rightarrow> DdManager \<Rightarrow> DdManager" where
  "move_dead d r N n m = (let m' = (put_node N (n\<lparr>ref := r\<rparr>) m)\<lparr>dead := dead m + d\<rparr>; l = lev m N;
     st = subtables m ! l in m'\<lparr>subtables := (subtables m)[l := st\<lparr>sub_dead := sub_dead st + d\<rparr>]\<rparr>)"

lemma move_dead_frame:
  assumes "store_ok m" "N \<in> tabnodes m" "heap m N = Some n"
  shows "store (move_dead d r N n m) = store m"
    "refc (move_dead d r N n m) = (refc m)(N := unat r)"
    "counts_only m (move_dead d r N n m)"
    "upd_sub_dead (lev m N) (\<lambda>x. x + d) ((put_node N (n\<lparr>ref := r\<rparr>) m)\<lparr>dead := dead m + d\<rparr>)
       = Some (move_dead d r N n m)"
    "dead (move_dead d r N n m) = dead m + d" "constants (move_dead d r N n m) = constants m"
    "subtables (move_dead d r N n m) = (subtables m)[lev m N :=
       (subtables m ! lev m N)\<lparr>sub_dead := sub_dead (subtables m ! lev m N) + d\<rparr>]"
proof -
  have l: "lev m N < length (subtables m)"
    using tabnode(4) [OF assms(1,2)] order_okD(1) [OF assms(1)] by simp
  show f: "refc (move_dead d r N n m) = (refc m)(N := unat r)"
    using put_ref(2) [OF assms(3)] by (simp add: move_dead_def Let_def refc_def put_node_def fun_eq_iff)
  show "upd_sub_dead (lev m N) (\<lambda>x. x + d) ((put_node N (n\<lparr>ref := r\<rparr>) m)\<lparr>dead := dead m + d\<rparr>)
       = Some (move_dead d r N n m)"
    using l by (simp add: upd_sub_dead_def move_dead_def Let_def put_node_def)
  show "dead (move_dead d r N n m) = dead m + d" "constants (move_dead d r N n m) = constants m"
    and s: "subtables (move_dead d r N n m) = (subtables m)[lev m N :=
       (subtables m ! lev m N)\<lparr>sub_dead := sub_dead (subtables m ! lev m N) + d\<rparr>]"
    by (simp_all add: move_dead_def Let_def put_node_def)
  have c: "cont (move_dead d r N n m) = cont m"
    using assms(3) by (simp add: move_dead_def Let_def put_node_def cont_def fun_eq_iff)
  have "move_dead d r N n m = m\<lparr>heap := (heap m)(N \<mapsto> n\<lparr>ref := r\<rparr>),
      subtables := subtables (move_dead d r N n m), dead := dead m + d, reclaimed := reclaimed m,
      peakLiveNodes := peakLiveNodes m\<rparr>"
    by (simp add: move_dead_def Let_def put_node_def)
  then show "counts_only m (move_dead d r N n m)"
  proof (rule counts_onlyI [OF _ c])
    show "map no_dead (subtables (move_dead d r N n m)) = map no_dead (subtables m)"
      unfolding s using l by (intro map_update_same) (simp add: no_dead_def)
  qed (use f tab_nodes [OF assms(2)] in auto)
  then show "store (move_dead d r N n m) = store m" by (rule counts_only_store)
qed

lemma kill_step:
  assumes "graph_ok (add_mset N A) {#} {} m" "DD_ONE m \<in># A" "heap m N = Some n" "ref n = 1"
  shows "N \<in> tabnodes m" "N \<in> live {} m" "live {} (move_dead 1 0 N n m) = live {} m - {N}"
    "graph_ok (add_mset (kT m N) (add_mset (Cudd_Regular (kE m N)) A)) {#} {} (move_dead 1 0 N n m)"
proof -
  note g = graph_okD [OF assms(1)]
  have one: "refc m N = 1" by (simp add: refc_heap [OF assms(3)] assms(4))
  show t: "N \<in> tabnodes m" using refs_kill(1) [OF g(1,2) one assms(2), of "move_dead 1 0 N n m"]
    refs_kill(1) [OF g(1,2) one assms(2), of "put_node N (n\<lparr>ref := 0\<rparr>) m"] put_ref [OF assms(3)] by simp
  note f = move_dead_frame [OF g(1) t assms(3), of 1 0]
  note k = refs_kill(2-5) [OF g(1,2) one assms(2) f(1), simplified f(2)]
  show l: "N \<in> live {} m" "live {} (move_dead 1 0 N n m) = live {} m - {N}"
    using k(1,3) by simp_all
  have "deads_ok {} (move_dead 1 0 N n m)"
    by (rule deads_insert [OF g(1,3) t _ _ f(1,5,6,7)])
      (use k(2) one in \<open>simp_all add: dset_iff\<close>)
  then show "graph_ok (add_mset (kT m N) (add_mset (Cudd_Regular (kE m N)) A)) {#} {} (move_dead 1 0 N n m)"
    using k(4) g(1) store_cong(18) [OF f(1)] by (simp add: graph_ok_def)
qed

lemma revive_step:
  assumes "graph_ok A (add_mset N B) F m" "N \<in> dset F m" "heap m N = Some n"
  shows "N \<in> tabnodes m" "dset F (move_dead (- 1) 1 N n m) = dset F m - {N}"
    "graph_ok A (add_mset (kT m N) (add_mset (Cudd_Regular (kE m N)) B)) F (move_dead (- 1) 1 N n m)"
proof -
  note g = graph_okD [OF assms(1)]
  show t: "N \<in> tabnodes m" using assms(2) by (simp add: dset_iff)
  note f = move_dead_frame [OF g(1) t assms(3), of "- 1" 1]
  note k = refs_revive(2-4) [OF g(1,2) assms(2) f(1), simplified f(2)]
  show d: "dset F (move_dead (- 1) 1 N n m) = dset F m - {N}" using k(1) by simp
  have "deads_ok F (move_dead (- 1) 1 N n m)"
    by (rule deads_remove [OF g(1,3) assms(2) d f(1) _ f(6,7)]) (simp_all add: f(5))
  then show "graph_ok A (add_mset (kT m N) (add_mset (Cudd_Regular (kE m N)) B)) F (move_dead (- 1) 1 N n m)"
    using k(3) g(1) store_cong(18) [OF f(1)] by (simp add: graph_ok_def)
qed

subsection \<open>Giving a reference back\<close>

text \<open>
  The stack of the walk stays below the number of levels: the entry at height \<open>d\<close> is a node
  below level \<open>d\<close>.
\<close>

fun depth_ok :: "DdManager \<Rightarrow> ptr list \<Rightarrow> bool" where
  "depth_ok m [] = True"
| "depth_ok m (N # stk) = (length stk < lev m N \<and> depth_ok m stk)"

lemma depth_ok_cong: "store m' = store m \<Longrightarrow> depth_ok m' stk = depth_ok m stk"
  by (induction stk) (simp_all add: store_cong(16) [of m' m])

lemma push_step:
  assumes "store_ok m" "N \<in> tabnodes m" "depth_ok m stk" "length stk \<le> lev m N"
  shows "push_ok stk m" "depth_ok m (Cudd_Regular (kE m N) # stk)"
    "length (Cudd_Regular (kE m N) # stk) \<le> lev m (kT m N)"
  using assms(3,4) nodeD(7,8) [OF assms(1,2)] tabnode(4) [OF assms(1,2)] order_okD(5) [OF assms(1)]
  by (simp_all add: push_ok_def)

lemma push_ok_cong: "counts_only m m' \<Longrightarrow> push_ok stk m' = push_ok stk m"
  by (auto simp: push_ok_def counts_only_def)

lemma deref_loops:
  assumes "graph_ok (add_mset N (mset stk + A)) {#} {} m" "DD_ONE m \<in># A"
    and "depth_ok m stk" "length stk \<le> lev m N"
  shows "\<exists>m'. iterDeref_loop N stk m = Some m' \<and> recursiveDeref_loop N stk m = Some m' \<and>
    graph_ok A {#} {} m' \<and> counts_only m m'"
  using assms
proof (induction "2 * card (live {} m) + length stk" arbitrary: N stk m rule: less_induct)
  case less
  note g = graph_okD [OF less.prems(1)]
  have "N \<in> nodes m" using refs_okD(2) [OF g(2)] by simp
  then obtain n where n: "heap m N = Some n" by (rule nodes_heap [OF g(1)])
  have one: "DD_ONE m \<in># mset stk + A" using less.prems(2) by simp
  show ?case
  proof (cases "ref n = 1")
    case True
    note k = kill_step [OF less.prems(1) one n True]
    let ?m = "move_dead 1 0 N n m"
    let ?stk = "Cudd_Regular (kE m N) # stk"
    note f = move_dead_frame [OF g(1) k(1) n, of 1 0]
    note h = tab_heap [OF g(1) k(1) n]
    note p = push_step [OF g(1) k(1) less.prems(3,4)]
    have "card (live {} ?m) < card (live {} m)"
      unfolding k(3) using k(2) by (intro psubset_card_mono) auto
    moreover have "graph_ok (add_mset (kT m N) (mset ?stk + A)) {#} {} ?m"
      using k(4) by (simp add: ac_simps)
    ultimately obtain m' where m': "iterDeref_loop (kT m N) ?stk ?m = Some m'"
      "recursiveDeref_loop (kT m N) ?stk ?m = Some m'" "graph_ok A {#} {} m'" "counts_only ?m m'"
      using less.hyps [of ?m ?stk "kT m N"] p less.prems(2) depth_ok_cong [OF f(1), of ?stk]
      by (auto simp: store_cong(7,16) [OF f(1)])
    have "push_ok stk ((put_node N (n\<lparr>ref := 0\<rparr>) m)\<lparr>dead := dead m + 1\<rparr>)"
      using p(1) by (simp add: push_ok_def put_node_def)
    moreover have "perm ((put_node N (n\<lparr>ref := 0\<rparr>) m)\<lparr>dead := dead m + 1\<rparr>) = perm m"
      by (simp add: put_node_def)
    ultimately have "iterDeref_loop N stk m = Some m'" "recursiveDeref_loop N stk m = Some m'"
      using m'(1,2) n True h f(4)
      by (simp_all add: iterDeref_loop.simps [of N] recursiveDeref_loop.simps [of N] Let_def)
    then show ?thesis using m'(3) counts_only_trans [OF f(3) m'(4)] by blast
  next
    case False
    let ?m = "put_node N (n\<lparr>ref := cuddSatDec (ref n)\<rparr>) m"
    note d = dec_step [OF less.prems(1) one n]
    have s: "store ?m = store m" by (rule put_ref(1) [OF n])
    have pos: "0 < refc ?m N"
    proof -
      have z: "0 < refc m N" using refs_ok_pos(1) [OF g(2)] by simp
      then have "ref n \<noteq> 0" by (simp add: refc_heap [OF n] unat_gt_0)
      then have "refc ?m N = sat_dec (refc m N)"
        by (simp add: put_ref(2) [OF n] unat_SatDec refc_heap [OF n])
      moreover have "refc m N \<noteq> 1"
        using False word_unat_eq_iff [of "ref n" 1] by (simp add: refc_heap [OF n])
      ultimately show ?thesis using z by (auto simp: sat_dec_def)
    qed
    have gm: "graph_ok (mset stk + A) {#} {} ?m" using d(1) pos by (simp add: graph_unfloat)
    have l: "live {} ?m = live {} m"
      using pos refs_ok_pos(1) [OF g(2)]
      by (auto simp: live_iff store_cong [OF s] put_ref(2) [OF n] split: if_splits)
    show ?thesis
    proof (cases stk)
      case Nil
      then have "iterDeref_loop N stk m = Some ?m" "recursiveDeref_loop N stk m = Some ?m"
        using n False by (simp_all add: iterDeref_loop.simps [of N] recursiveDeref_loop.simps [of N])
      then show ?thesis using gm d(2) Nil by auto
    next
      case (Cons N' stk')
      then obtain m' where m': "iterDeref_loop N' stk' ?m = Some m'"
        "recursiveDeref_loop N' stk' ?m = Some m'" "graph_ok A {#} {} m'" "counts_only ?m m'"
        using less.hyps [of ?m stk' N'] gm less.prems(2,3) depth_ok_cong [OF s, of stk]
        by (auto simp: store_cong(7,16) [OF s] l)
      have "iterDeref_loop N stk m = Some m'" "recursiveDeref_loop N stk m = Some m'"
        using n False m'(1,2) Cons
        by (simp_all add: iterDeref_loop.simps [of N] recursiveDeref_loop.simps [of N])
      then show ?thesis using m'(3) counts_only_trans [OF d(2) m'(4)] by blast
    qed
  qed
qed

text \<open>The loop that takes references: the operands it still has to visit are promised.\<close>

lemma reclaim_loop_ok:
  assumes "graph_ok A (add_mset N (mset stk)) {} m" "0 < refc m (DD_ONE m)"
    and "depth_ok m stk" "length stk \<le> lev m N"
  shows "\<exists>m'. reclaim_loop N stk m = Some m' \<and> graph_ok A {#} {} m' \<and> counts_only m m' \<and>
    (\<forall>p. refc m p \<le> refc m' p) \<and> 0 < refc m' N"
  using assms
proof (induction "2 * card (dset {} m) + length stk" arbitrary: N stk m rule: less_induct)
  case less
  note g = graph_okD [OF less.prems(1)]
  have N: "N \<in> nodes m" using refs_okD(3) [OF g(2)] by simp
  then obtain n where n: "heap m N = Some n" by (rule nodes_heap [OF g(1)])
  show ?case
  proof (cases "ref n = 0")
    case True
    have D: "N \<in> dset {} m"
      using N less.prems(2) True refc_heap [OF n] by (auto simp: dset_iff nodes_def)
    note k = revive_step [OF less.prems(1) D n]
    let ?m = "move_dead (- 1) 1 N n m"
    let ?stk = "Cudd_Regular (kE m N) # stk"
    note f = move_dead_frame [OF g(1) k(1) n, of "- 1" 1]
    note h = tab_heap [OF g(1) k(1) n]
    note p = push_step [OF g(1) k(1) less.prems(3,4)]
    have r: "refc m q \<le> refc ?m q" for q
      using True refc_heap [OF n] by (simp add: f(2))
    have "card (dset {} ?m) < card (dset {} m)"
      unfolding k(2) using D by (intro psubset_card_mono) auto
    moreover have "graph_ok A (add_mset (kT m N) (mset ?stk)) {} ?m" using k(3) by simp
    moreover have "0 < refc ?m (DD_ONE ?m)"
      using less.prems(2) r [of "DD_ONE m"] by (simp add: store_cong(7) [OF f(1)])
    ultimately obtain m' where m': "reclaim_loop (kT m N) ?stk ?m = Some m'"
      "graph_ok A {#} {} m'" "counts_only ?m m'" "\<And>q. refc ?m q \<le> refc m' q"
      using less.hyps [of ?m ?stk "kT m N"] p depth_ok_cong [OF f(1), of ?stk]
      by (auto simp: store_cong(16) [OF f(1)])
    have "push_ok stk ((put_node N (n\<lparr>ref := 1\<rparr>) m)\<lparr>dead := dead m - 1\<rparr>)"
      using p(1) by (simp add: push_ok_def put_node_def)
    moreover have "perm ((put_node N (n\<lparr>ref := 1\<rparr>) m)\<lparr>dead := dead m - 1\<rparr>) = perm m"
      by (simp add: put_node_def)
    ultimately have "reclaim_loop N stk m = Some m'"
      using m'(1) n True h f(4) by (simp add: reclaim_loop.simps [of N] Let_def)
    moreover have "0 < refc m' N" using m'(4) [of N] by (simp add: f(2))
    moreover have "refc m q \<le> refc m' q" for q using r m'(4) le_trans by blast
    ultimately show ?thesis using m'(2) counts_only_trans [OF f(3) m'(3)] by blast
  next
    case False
    let ?m = "put_node N (n\<lparr>ref := cuddSatInc (ref n)\<rparr>) m"
    have D: "N \<notin> dset {} m"
      using False refc_heap [OF n] by (simp add: dset_iff unat_eq_0)
    note d = inc_step [OF less.prems(1) D n]
    note s = put_ref [OF n, of "cuddSatInc (ref n)"]
    have i: "refc ?m N = sat_inc (refc m N)" by (simp add: s(2) unat_SatInc refc_heap [OF n])
    have r: "refc m q \<le> refc ?m q" for q
      using i by (cases "q = N") (simp_all add: s(2) sat_inc_def)
    have pos: "0 < refc ?m N" using i by (simp add: sat_inc_def)
    have gm: "graph_ok A (mset stk) {} ?m" using d(1) by simp
    have l: "dset {} ?m = dset {} m"
      using pos D by (auto simp: dset_iff store_cong [OF s(1)] s(2) split: if_splits)
    show ?thesis
    proof (cases stk)
      case Nil
      then have "reclaim_loop N stk m = Some ?m"
        using n False by (simp add: reclaim_loop.simps [of N])
      then show ?thesis using gm d(2) Nil r pos by auto
    next
      case (Cons N' stk')
      have "0 < refc ?m (DD_ONE ?m)"
        using less.prems(2) r [of "DD_ONE m"] by (simp add: store_cong(7) [OF s(1)])
      then obtain m' where m': "reclaim_loop N' stk' ?m = Some m'"
        "graph_ok A {#} {} m'" "counts_only ?m m'" "\<And>q. refc ?m q \<le> refc m' q"
        using less.hyps [of ?m stk' N'] gm less.prems(3) depth_ok_cong [OF s(1), of stk] Cons
        by (auto simp: store_cong(16) [OF s(1)] l)
      have "reclaim_loop N stk m = Some m'"
        using n False m'(1) Cons by (simp add: reclaim_loop.simps [of N])
      moreover have "0 < refc m' N" using m'(4) [of N] pos by simp
      moreover have "refc m q \<le> refc m' q" for q using r m'(4) le_trans by blast
      ultimately show ?thesis using m'(2) counts_only_trans [OF d(2) m'(3)] by blast
    qed
  qed
qed

subsection \<open>The operations on the invariant\<close>

lemma loose_okD:
  assumes "loose_ok ext F m"
  shows "graph_ok (ext + drow m) {#} F m" "DD_ONE m \<in># ext" "set_mset (drow m) \<subseteq> tabnodes m"
    "rest_ok m" "store_ok m" "refs_ok (ext + drow m) {#} F m" "deads_ok F m"
    "set_mset ext \<subseteq> nodes m" "p \<in># ext \<Longrightarrow> 0 < refc m p"
proof -
  show g: "graph_ok (ext + drow m) {#} F m" "DD_ONE m \<in># ext" "rest_ok m"
    "set_mset (drow m) \<subseteq> tabnodes m"
    using assms by (simp_all add: loose_ok_def)
  show r: "store_ok m" "refs_ok (ext + drow m) {#} F m" "deads_ok F m"
    using graph_okD [OF g(1)] by simp_all
  show "set_mset ext \<subseteq> nodes m" using refs_okD(2) [OF r(2)] by auto
  show "p \<in># ext \<Longrightarrow> 0 < refc m p" using refs_ok_pos(1) [OF r(2)] by simp
qed

lemma mgr_loose: "mgr_ok ext F m \<Longrightarrow> loose_ok ext F m"
  by (simp add: mgr_ok_def)

lemmas mgr_okD = loose_okD [OF mgr_loose]

lemma loose_ok_counts:
  assumes "loose_ok ext F m" "counts_only m m'" "graph_ok (ext' + drow m) {#} F' m'" "DD_ONE m \<in># ext'"
  shows "loose_ok ext' F' m'" "X \<subseteq> nodes m \<Longrightarrow> keep X m m'"
proof -
  note g = loose_okD [OF assms(1)]
  note s = counts_only_store [OF assms(2)]
  have "DD_ONE m' = DD_ONE m" by (rule store_cong(7) [OF s])
  then have "0 < refc m' (DD_ONE m)"
    using one_live [OF graph_okD(2) [OF assms(3)]] by simp
  then have "rest_ok m'" by (rule rest_ok_counts [OF g(4,5) assms(2)])
  then show "loose_ok ext' F' m'"
    using assms(3,4) g(3) by (simp add: loose_ok_def counts_only_fields [OF assms(2)] store_cong [OF s])
  show "X \<subseteq> nodes m \<Longrightarrow> keep X m m'"
    by (rule keep_store [OF s _ g(5)]) (simp_all add: counts_only_fields [OF assms(2)])
qed

lemma mgr_ok_counts:
  assumes "mgr_ok ext F m" "counts_only m m'" "graph_ok (ext' + drow m) {#} F' m'" "DD_ONE m \<in># ext'"
  shows "mgr_ok ext' F' m'" "X \<subseteq> nodes m \<Longrightarrow> keep X m m'"
  using loose_ok_counts [OF mgr_loose [OF assms(1)] assms(2-4)] assms(1)
  by (simp_all add: mgr_ok_def row_ok_def counts_only_fields [OF assms(2)])

lemma graph_ok_view:
  assumes "store m' = store m" "refc m' = refc m" "dead m' = dead m" "constants m' = constants m"
    "subtables m' = subtables m"
  shows "graph_ok A B F m' = graph_ok A B F m"
  using refs_cong [OF assms(1,2)] deads_cong [OF assms(1) refs_cong(2) [OF assms(1,2)] assms(3)]
  by (simp add: graph_ok_def store_cong(18) [OF assms(1)] assms(4,5))

lemma update_peakLive_frame:
  "counts_only m (update_peakLive m)" "graph_ok A B F (update_peakLive m) = graph_ok A B F m"
  "lev (update_peakLive m) = lev m" "DD_ONE (update_peakLive m) = DD_ONE m"
proof -
  let ?m = "update_peakLive m"
  have e: "?m = m\<lparr>heap := heap m, subtables := subtables m, dead := dead m, reclaimed := reclaimed m,
    peakLiveNodes := peakLiveNodes ?m\<rparr>"
    by (simp add: update_peakLive_def Let_def)
  have f: "heap ?m = heap m" "dead ?m = dead m" "subtables ?m = subtables m" "constants ?m = constants m"
    by (simp_all add: update_peakLive_def Let_def)
  show c: "counts_only m ?m"
    by (rule counts_onlyI [OF e]) (simp_all add: cont_def f refc_def fun_eq_iff)
  note s = counts_only_store [OF c]
  show "graph_ok A B F ?m = graph_ok A B F m"
    by (rule graph_ok_view [OF s]) (simp_all add: f refc_def fun_eq_iff)
  show "lev ?m = lev m" "DD_ONE ?m = DD_ONE m" by (simp_all add: store_cong [OF s])
qed

lemma iterDeref_graph:
  assumes "graph_ok (add_mset (Cudd_Regular e) A) {#} {} m" "DD_ONE m \<in># A"
  shows "\<exists>m'. Cudd_IterDerefBdd e m = Some m' \<and> Cudd_RecursiveDeref e m = Some m' \<and>
    graph_ok A {#} {} m' \<and> counts_only m m'"
proof -
  note p = update_peakLive_frame [where m = m]
  obtain m' where "iterDeref_loop (Cudd_Regular e) [] (update_peakLive m) = Some m'"
    "recursiveDeref_loop (Cudd_Regular e) [] (update_peakLive m) = Some m'"
    "graph_ok A {#} {} m'" "counts_only (update_peakLive m) m'"
    using deref_loops [of "Cudd_Regular e" "[]" A "update_peakLive m"] assms by (auto simp: p)
  then show ?thesis
    using counts_only_trans [OF p(1)] by (auto simp: Cudd_IterDerefBdd_def Cudd_RecursiveDeref_def)
qed

lemma iterDeref_ok:
  assumes "mgr_ok (add_mset (Cudd_Regular e) ext) {} m" "DD_ONE m \<in># ext"
  shows "\<exists>m'. Cudd_IterDerefBdd e m = Some m' \<and> Cudd_RecursiveDeref e m = Some m' \<and>
    mgr_ok ext {} m' \<and> counts_only m m' \<and> keep (set_mset ext) m m'"
proof -
  have "graph_ok (add_mset (Cudd_Regular e) (ext + drow m)) {#} {} m"
    using mgr_okD(1) [OF assms(1)] by simp
  then obtain m' where m': "Cudd_IterDerefBdd e m = Some m'" "Cudd_RecursiveDeref e m = Some m'"
    "graph_ok (ext + drow m) {#} {} m'" "counts_only m m'"
    using iterDeref_graph [of e "ext + drow m" m] assms(2) by auto
  have "set_mset ext \<subseteq> nodes m" using mgr_okD(8) [OF assms(1)] by simp
  then show ?thesis using m' mgr_ok_counts [OF assms(1) m'(4,3) assms(2)] by blast
qed

lemma keep_refl: "mgr_ok ext F m \<Longrightarrow> keep (set_mset ext) m m"
  by (rule keep_store) (simp_all add: mgr_okD)

text \<open>Taking a reference to a node that is not dead; releasing one without killing it.\<close>

lemma cuddRef_ok:
  assumes "mgr_ok ext F m" "Cudd_Regular e \<in> nodes m" "Cudd_Regular e \<notin> dset F m"
  shows "\<exists>m'. cuddRef e m = Some m' \<and> mgr_ok (add_mset (Cudd_Regular e) ext) (F - {Cudd_Regular e}) m' \<and>
    counts_only m m' \<and> keep (set_mset ext) m m'"
proof -
  let ?N = "Cudd_Regular e"
  note g = mgr_okD [OF assms(1)]
  obtain n where n: "heap m ?N = Some n" using nodes_heap [OF g(5) assms(2)] .
  have "graph_ok (add_mset ?N (ext + drow m)) {#?N#} F m"
    using refs_promise [OF g(6) assms(2)] g(5,7) by (simp add: graph_ok_def)
  note i = inc_step [OF this assms(3) n]
  have "DD_ONE m \<in># add_mset ?N ext" using g(2) by simp
  from mgr_ok_counts [OF assms(1) i(2) _ this] i(1) g(8) show ?thesis
    by (simp add: cuddRef_def n i(2))
qed

lemma cuddDeref_ok:
  assumes "mgr_ok (add_mset (Cudd_Regular e) ext) F m" "DD_ONE m \<in># ext"
  shows "\<exists>m'. cuddDeref e m = Some m' \<and> mgr_ok ext (insert (Cudd_Regular e) F) m' \<and>
    counts_only m m' \<and> keep (set_mset ext) m m'"
proof -
  let ?N = "Cudd_Regular e"
  note g = mgr_okD [OF assms(1)]
  have "?N \<in> nodes m" using g(8) by simp
  then obtain n where n: "heap m ?N = Some n" using nodes_heap [OF g(5)] by blast
  have "graph_ok (add_mset ?N (ext + drow m)) {#} F m" using g(1) by simp
  note i = dec_step [OF this _ n]
  from mgr_ok_counts [OF assms(1) i(2) i(1) assms(2)] assms(2) g(8) i(2) show ?thesis
    by (simp add: cuddDeref_def n)
qed

lemma mgr_unfloat:
  "0 < refc m p \<or> p \<notin> tabnodes m \<Longrightarrow> mgr_ok ext (insert p F) m = mgr_ok ext F m"
  by (simp add: mgr_ok_def loose_ok_def graph_unfloat)

text \<open>A dead node is brought back, floating.\<close>

lemma cuddReclaim_ok:
  assumes "mgr_ok ext {} m" "Cudd_Regular e \<in> nodes m"
  shows "\<exists>m'. cuddReclaim e m = Some m' \<and> mgr_ok ext {Cudd_Regular e} m' \<and>
    counts_only m m' \<and> keep (set_mset ext) m m'"
proof -
  let ?N = "Cudd_Regular e"
  note g = mgr_okD [OF assms(1)]
  have "graph_ok (add_mset ?N (ext + drow m)) {#?N#} {} m"
    using refs_promise [OF g(6) assms(2)] g(5,7) by (simp add: graph_ok_def)
  then obtain m1 where m1: "reclaim_loop ?N [] m = Some m1"
    "graph_ok (add_mset ?N (ext + drow m)) {#} {} m1" "counts_only m m1" "0 < refc m1 ?N"
    using reclaim_loop_ok [of _ ?N "[]" m] one_live [OF g(6)] by auto
  have "mgr_ok (add_mset ?N ext) {} m1"
    using mgr_ok_counts(1) [OF assms(1) m1(3), of "add_mset ?N ext"] m1(2) g(2) by simp
  then obtain m2 where m2: "cuddDeref e m1 = Some m2" "mgr_ok ext {?N} m2" "counts_only m1 m2"
    using cuddDeref_ok [of e ext "{}" m1] g(2) store_cong(7) [OF counts_only_store [OF m1(3)]] by auto
  let ?m = "m2\<lparr>reclaimed := reclaimed m2 + (uint (dead m) - uint (dead m2))\<rparr>"
  have e: "?m = m2\<lparr>heap := heap m2, subtables := subtables m2, dead := dead m2,
    reclaimed := reclaimed m2 + (uint (dead m) - uint (dead m2)), peakLiveNodes := peakLiveNodes m2\<rparr>"
    by simp
  have c: "counts_only m2 ?m"
    by (rule counts_onlyI [OF e]) (simp_all add: cont_def refc_def fun_eq_iff)
  have "graph_ok A B F ?m = graph_ok A B F m2" for A B F
    by (rule graph_ok_view [OF counts_only_store [OF c]]) (simp_all add: refc_def fun_eq_iff)
  then have "mgr_ok ext {?N} ?m"
    using mgr_ok_counts(1) [OF m2(2) c, of ext "{?N}"] mgr_okD(1,2) [OF m2(2)] by simp
  moreover have "counts_only m ?m"
    using counts_only_trans [OF counts_only_trans [OF m1(3) m2(3)] c] .
  moreover have "cuddReclaim e m = Some ?m"
    by (simp add: cuddReclaim_def m1(1) m2(1) Let_def)
  moreover have "keep (set_mset ext) m ?m"
    using keep_store [OF counts_only_store [OF calculation(2)] _ g(5,8)]
      counts_only_fields [OF calculation(2)] by simp
  ultimately show ?thesis by blast
qed

subsection \<open>The death row\<close>

lemma drow_clear:
  assumes "i < length xs" "xs ! i \<noteq> NULL"
  shows "mset (filter (\<lambda>p. p \<noteq> NULL) xs) =
    add_mset (xs ! i) (mset (filter (\<lambda>p. p \<noteq> NULL) (xs[i := NULL])))"
proof -
  have "filter (\<lambda>p. p \<noteq> NULL) xs = filter (\<lambda>p. p \<noteq> NULL) (take i xs) @ xs ! i #
    filter (\<lambda>p. p \<noteq> NULL) (drop (Suc i) xs)"
    by (subst id_take_nth_drop [OF assms(1)]) (use assms(2) in simp)
  then show ?thesis by (simp add: upd_conv_take_nth_drop assms(1))
qed

text \<open>Fields that the invariant reads only through the death row.\<close>

lemma set_row_frame:
  "store (m\<lparr>deathRow := r\<rparr>) = store m" "graph_ok A B F (m\<lparr>deathRow := r\<rparr>) = graph_ok A B F m"
  "rest_ok (m\<lparr>deathRow := r\<rparr>) = rest_ok m"
proof -
  let ?m = "m\<lparr>deathRow := r\<rparr>"
  show s: "store ?m = store m" by (simp add: store_def cont_def trows_def tshifts_def fun_eq_iff)
  have f: "refc ?m = refc m" by (simp add: refc_def fun_eq_iff)
  show "graph_ok A B F ?m = graph_ok A B F m" by (rule graph_ok_view [OF s f]) simp_all
  show "rest_ok ?m = rest_ok m"
    by (simp add: rest_ok_def keys_ok_def sizes_ok_def mem_ok_def misc_ok_def dims_ok_def pool_def fresh_pool_def
        cnodes_def f store_cong [OF s] on_level_cong [OF s] cache_ok_cong [OF s])
qed

lemma counts_only_set_row:
  assumes "counts_only (m\<lparr>deathRow := r\<rparr>) m2"
  shows "counts_only m (m2\<lparr>deathRow := deathRow m\<rparr>)"
proof -
  obtain h st d rc p where e: "m2 = m\<lparr>deathRow := r\<rparr>\<lparr>heap := h, subtables := st, dead := d,
    reclaimed := rc, peakLiveNodes := p\<rparr>"
    using assms by (auto simp: counts_only_def)
  have "m2\<lparr>deathRow := deathRow m\<rparr> = m\<lparr>heap := h, subtables := st, dead := d, reclaimed := rc,
    peakLiveNodes := p\<rparr>" by (simp add: e)
  then show ?thesis
  proof (rule counts_onlyI)
    show "cont (m2\<lparr>deathRow := deathRow m\<rparr>) = cont m"
      "map no_dead (subtables (m2\<lparr>deathRow := deathRow m\<rparr>)) = map no_dead (subtables m)"
      using assms by (simp_all add: counts_only_def cont_def fun_eq_iff)
    show "refc (m2\<lparr>deathRow := deathRow m\<rparr>) q = refc m q" if "q \<notin> nodes m" for q
      using assms that store_cong(11) [OF set_row_frame(1)] by (simp add: counts_only_def refc_def)
  qed
qed

lemma clear_row_ok:
  assumes "loose_ok ext {} m" "i \<le> length (deathRow m)"
    and "\<forall>j < length (deathRow m). i \<le> j \<longrightarrow> (deathRow m ! j \<noteq> NULL \<longleftrightarrow> j < k)"
  shows "\<exists>m1. clear_row [i ..< length (deathRow m)] m = Some
      (m1\<lparr>deathRow := take i (deathRow m) @ replicate (length (deathRow m) - i) NULL\<rparr>) \<and>
    counts_only m m1 \<and>
    loose_ok ext {} (m1\<lparr>deathRow := take i (deathRow m) @ replicate (length (deathRow m) - i) NULL\<rparr>)"
  using assms
proof (induction "length (deathRow m) - i" arbitrary: i m)
  case 0
  have "m = m\<lparr>deathRow := deathRow m\<rparr>" by simp
  then show ?case using 0 by (auto intro!: exI [of _ m])
next
  case (Suc d)
  let ?r = "deathRow m"
  have i: "i < length ?r" and d: "d = length ?r - Suc i" using Suc.hyps(2) by simp_all
  have up: "[i ..< length ?r] = i # [Suc i ..< length ?r]" using i by (rule upt_conv_Cons)
  show ?case
  proof (cases "?r ! i = NULL")
    case True
    have "\<not> i < k" using Suc.prems(3) i True by blast
    then have "?r ! j = NULL" if "i \<le> j" "j < length ?r" for j
      using Suc.prems(3) that by (metis le_less_trans)
    then have "take i ?r @ replicate (length ?r - i) NULL = ?r"
      by (intro nth_equalityI) (auto simp: nth_append min_def)
    moreover have "clear_row [i ..< length ?r] m = Some m" using True i by (simp add: up)
    moreover have "m = m\<lparr>deathRow := deathRow m\<rparr>" by simp
    ultimately show ?thesis using Suc.prems(1) by (auto intro!: exI [of _ m])
  next
    case False
    let ?p = "?r ! i" and ?r' = "?r[i := NULL]"
    note l = loose_okD [OF Suc.prems(1)]
    have dr: "drow m = add_mset ?p (drow (m\<lparr>deathRow := ?r'\<rparr>))"
      using drow_clear [OF i False] by (simp add: drow_def)
    have "?p \<in> tabnodes m" using l(3) dr by auto
    then have reg: "Cudd_Regular ?p = ?p" using nodeD(9) [OF l(5)] by simp
    let ?A = "ext + drow (m\<lparr>deathRow := ?r'\<rparr>)"
    have "graph_ok (add_mset (Cudd_Regular ?p) ?A) {#} {} m" using l(1) dr reg by simp
    moreover have "DD_ONE m \<in># ?A" using l(2) by simp
    ultimately obtain m' where m': "Cudd_IterDerefBdd ?p m = Some m'" "graph_ok ?A {#} {} m'"
      "counts_only m m'"
      using iterDeref_graph [of ?p ?A m] by blast
    let ?m = "m'\<lparr>deathRow := ?r'\<rparr>"
    note s = counts_only_store [OF m'(3)]
    have rest: "rest_ok m'"
      using one_live [OF graph_okD(2) [OF m'(2)]] store_cong(7) [OF s]
      by (intro rest_ok_counts [OF l(4,5) m'(3)]) simp
    have "drow ?m = drow (m\<lparr>deathRow := ?r'\<rparr>)" by (simp add: drow_def)
    moreover have "set_mset (drow (m\<lparr>deathRow := ?r'\<rparr>)) \<subseteq> tabnodes m" using l(3) dr by simp
    ultimately have "loose_ok ext {} ?m"
      using m'(2) rest l(2) store_cong(7,10) [OF s]
      by (simp add: loose_ok_def set_row_frame store_cong(7,10) [OF set_row_frame(1)])
    moreover have "deathRow ?m = ?r'" by simp
    ultimately obtain m2 where m2:
      "clear_row [Suc i ..< length ?r'] ?m = Some
        (m2\<lparr>deathRow := take (Suc i) ?r' @ replicate (length ?r' - Suc i) NULL\<rparr>)"
      "counts_only ?m m2"
      "loose_ok ext {} (m2\<lparr>deathRow := take (Suc i) ?r' @ replicate (length ?r' - Suc i) NULL\<rparr>)"
      using Suc.hyps(1) [of ?m "Suc i"] Suc.prems(3) i d by (auto simp: nth_list_update)
    have t: "take (Suc i) ?r' @ replicate (length ?r - Suc i) NULL =
        take i ?r @ replicate (length ?r - i) NULL"
      using i by (intro nth_equalityI) (auto simp: nth_append min_def nth_list_update)
    let ?m2 = "m2\<lparr>deathRow := deathRow m\<rparr>"
    have "counts_only m' (m2\<lparr>deathRow := deathRow m'\<rparr>)" by (rule counts_only_set_row [OF m2(2)])
    then have "counts_only m ?m2"
      using counts_only_trans [OF m'(3)] counts_only_fields(9) [OF m'(3)] by simp
    moreover have "clear_row [i ..< length ?r] m = Some (?m2\<lparr>deathRow := take i ?r @ replicate (length ?r - i) NULL\<rparr>)"
      using m2(1) m'(1) False i counts_only_fields(9) [OF m'(3)] by (simp add: up t)
    ultimately show ?thesis using m2(3) by (intro exI [of _ ?m2]) (simp add: t)
  qed
qed

lemma and_le: "(a :: nat) AND b \<le> a" "a AND b \<le> b"
  by (simp_all add: and_nat_def AND_upper1 AND_upper2 nat_le_iff)

lemma set_dead_frame:
  fixes m :: DdManager and k i :: nat and r :: "ptr list"
  defines "m' \<equiv> m\<lparr>deadMask := k, nextDead := i, deathRow := r\<rparr>"
  shows "store m' = store m" "graph_ok A B F m' = graph_ok A B F m" "rest_ok m' = rest_ok m"
    "refc m' = refc m"
proof -
  show s: "store m' = store m" by (simp add: m'_def store_def cont_def trows_def tshifts_def fun_eq_iff)
  show f: "refc m' = refc m" by (simp add: m'_def refc_def fun_eq_iff)
  show "graph_ok A B F m' = graph_ok A B F m" by (rule graph_ok_view [OF s f]) (simp_all add: m'_def)
  have "mem_ok m' = mem_ok m" "keys_ok m' = keys_ok m"
    by (simp_all add: mem_ok_def keys_ok_def pool_def fresh_pool_def cnodes_def f
        store_cong [OF s] on_level_cong [OF s]) (simp_all add: m'_def)
  moreover have "sizes_ok m' = sizes_ok m" "misc_ok m' = misc_ok m" "cache_ok m' = cache_ok m"
    using cache_ok_cong [OF s] store_cong(6) [OF s] by (simp_all add: sizes_ok_def misc_ok_def dims_ok_def m'_def)
  ultimately show "rest_ok m' = rest_ok m" by (simp add: rest_ok_def)
qed

text \<open>What the operations on the death row change: counts and the row.\<close>

definition row_only :: "DdManager \<Rightarrow> DdManager \<Rightarrow> bool" where
  "row_only m m' \<longleftrightarrow> (\<exists>m1 k i r. counts_only m m1 \<and> m' = m1\<lparr>deadMask := k, nextDead := i, deathRow := r\<rparr>)"

lemma row_onlyI:
  "counts_only m m1 \<Longrightarrow> row_only m (m1\<lparr>deadMask := k, nextDead := i, deathRow := r\<rparr>)"
  unfolding row_only_def by blast

lemma row_only_fields:
  assumes "row_only m m'"
  shows "store m' = store m" "reordered m' = reordered m" "garbageCollections m' = garbageCollections m"
    "stash m' = stash m" "gcFrac m' = gcFrac m" "slots m' = slots m" "looseUpTo m' = looseUpTo m"
    "nextFree m' = nextFree m" "deadZ m' = deadZ m" "dsizeZ m' = dsizeZ m" "keysZ m' = keysZ m"
    "os_chunks m' = os_chunks m" "memoryList m' = memoryList m" "cache m' = cache m"
    "map no_dead (subtables m') = map no_dead (subtables m)"
proof -
  obtain m1 k i r where m1: "counts_only m m1" "m' = m1\<lparr>deadMask := k, nextDead := i, deathRow := r\<rparr>"
    using assms by (auto simp: row_only_def)
  show "store m' = store m"
    using set_dead_frame(1) counts_only_store [OF m1(1)] by (simp add: m1(2))
  show "reordered m' = reordered m" "garbageCollections m' = garbageCollections m"
    "stash m' = stash m" "gcFrac m' = gcFrac m" "slots m' = slots m" "looseUpTo m' = looseUpTo m"
    "nextFree m' = nextFree m" "deadZ m' = deadZ m" "dsizeZ m' = dsizeZ m" "keysZ m' = keysZ m"
    "os_chunks m' = os_chunks m" "memoryList m' = memoryList m" "cache m' = cache m"
    "map no_dead (subtables m') = map no_dead (subtables m)"
    using m1 by (auto simp: counts_only_def)
qed

lemma row_only_keep: "row_only m m' \<Longrightarrow> store_ok m \<Longrightarrow> X \<subseteq> nodes m \<Longrightarrow> keep X m m'"
  by (rule keep_store) (simp_all add: row_only_fields)

lemma row_okE:
  assumes "row_ok m"
  obtains k where "nextDead m \<le> k" "\<And>i. i < length (deathRow m) \<Longrightarrow> deathRow m ! i \<noteq> NULL \<longleftrightarrow> i < k"
    "nextDead m < length (deathRow m)" "deadMask m < length (deathRow m)"
  using assms by (auto simp: row_ok_def)

lemma cuddClearDeathRow_ok:
  assumes "mgr_ok ext {} m"
  shows "\<exists>m'. cuddClearDeathRow m = Some m' \<and> mgr_ok ext {} m' \<and> row_only m m' \<and>
    (\<forall>p \<in> set (deathRow m'). p = NULL)"
proof -
  let ?n = "length (deathRow m)"
  have ro: "row_ok m" using assms by (simp add: mgr_ok_def)
  obtain k where k: "\<And>i. i < ?n \<Longrightarrow> deathRow m ! i \<noteq> NULL \<longleftrightarrow> i < k"
    using row_okE [OF ro] by metis
  have "\<forall>j < ?n. 0 \<le> j \<longrightarrow> (deathRow m ! j \<noteq> NULL \<longleftrightarrow> j < k)" using k by blast
  from clear_row_ok [OF mgr_loose [OF assms] _ this] obtain m1 where
    m1: "clear_row [0 ..< ?n] m = Some (m1\<lparr>deathRow := replicate ?n NULL\<rparr>)" "counts_only m m1"
    "loose_ok ext {} (m1\<lparr>deathRow := replicate ?n NULL\<rparr>)" by auto
  let ?m = "m1\<lparr>deadMask := deadMask m1, nextDead := 0, deathRow := replicate ?n NULL\<rparr>"
  have e: "?m = (m1\<lparr>deathRow := replicate ?n NULL\<rparr>)\<lparr>nextDead := 0\<rparr>" by simp
  have "graph_ok A B F ?m = graph_ok A B F (m1\<lparr>deathRow := replicate ?n NULL\<rparr>)" for A B F
    by (rule trans [OF set_dead_frame(2) set_row_frame(2) [symmetric]])
  moreover have "rest_ok ?m = rest_ok (m1\<lparr>deathRow := replicate ?n NULL\<rparr>)"
    by (rule trans [OF set_dead_frame(3) set_row_frame(3) [symmetric]])
  ultimately have "loose_ok ext {} ?m"
    using m1(3) by (simp add: loose_ok_def drow_def)
  moreover have "row_ok ?m"
    using ro counts_only_fields [OF m1(2)] by (auto simp: row_ok_def)
  ultimately have "mgr_ok ext {} ?m" by (simp add: mgr_ok_def)
  moreover have "row_only m ?m" by (rule row_onlyI [OF m1(2)])
  moreover have "cuddClearDeathRow m = Some ?m"
    using m1(1) by (simp add: cuddClearDeathRow_def)
  ultimately show ?thesis by auto
qed

lemma cuddShrinkDeathRow_ok:
  assumes "mgr_ok ext {} m"
  shows "\<exists>m'. cuddShrinkDeathRow m = Some m' \<and> mgr_ok ext {} m' \<and> row_only m m'"
proof (cases "length (deathRow m) > 3")
  case False
  have "row_only m m"
    unfolding row_only_def
    by (rule exI [of _ m], rule exI [of _ "deadMask m"], rule exI [of _ "nextDead m"],
        rule exI [of _ "deathRow m"]) simp
  then show ?thesis using False assms by (simp add: cuddShrinkDeathRow_def Let_def)
next
  case True
  let ?n = "length (deathRow m)" and ?q = "length (deathRow m) div 4"
  have ro: "row_ok m" using assms by (simp add: mgr_ok_def)
  obtain k where k: "nextDead m \<le> k" "\<And>i. i < ?n \<Longrightarrow> deathRow m ! i \<noteq> NULL \<longleftrightarrow> i < k"
    using row_okE [OF ro] by metis
  let ?r = "take ?q (deathRow m) @ replicate (?n - ?q) NULL"
  have "\<forall>j < ?n. ?q \<le> j \<longrightarrow> (deathRow m ! j \<noteq> NULL \<longleftrightarrow> j < k)" using k by blast
  from clear_row_ok [OF mgr_loose [OF assms] _ this] obtain m1 where
    m1: "clear_row [?q ..< ?n] m = Some (m1\<lparr>deathRow := ?r\<rparr>)" "counts_only m m1"
    "loose_ok ext {} (m1\<lparr>deathRow := ?r\<rparr>)" by auto
  have q: "0 < ?q" "?q \<le> ?n" using True by auto
  let ?i = "if ?q - 1 < nextDead m then 0 else nextDead m"
  let ?m = "m1\<lparr>deadMask := ?q - 1, nextDead := ?i, deathRow := take ?q (deathRow m)\<rparr>"
  have "graph_ok A B F ?m = graph_ok A B F (m1\<lparr>deathRow := ?r\<rparr>)" for A B F
    by (rule trans [OF set_dead_frame(2) set_row_frame(2) [symmetric]])
  moreover have "rest_ok ?m = rest_ok (m1\<lparr>deathRow := ?r\<rparr>)"
    by (rule trans [OF set_dead_frame(3) set_row_frame(3) [symmetric]])
  moreover have "drow ?m = drow (m1\<lparr>deathRow := ?r\<rparr>)" by (simp add: drow_def)
  moreover have "tabnodes ?m = tabnodes (m1\<lparr>deathRow := ?r\<rparr>)" "DD_ONE ?m = DD_ONE (m1\<lparr>deathRow := ?r\<rparr>)"
    by (rule trans [OF store_cong(10) [OF set_dead_frame(1)] store_cong(10) [OF set_row_frame(1), symmetric]],
        rule trans [OF store_cong(7) [OF set_dead_frame(1)] store_cong(7) [OF set_row_frame(1), symmetric]])
  ultimately have "loose_ok ext {} ?m" using m1(3) by (simp add: loose_ok_def)
  moreover have "row_ok ?m"
    using q k unfolding row_ok_def by (auto intro!: exI [of _ k])
  ultimately have "mgr_ok ext {} ?m" by (simp add: mgr_ok_def)
  moreover have "row_only m ?m" by (rule row_onlyI [OF m1(2)])
  moreover have "cuddShrinkDeathRow m = Some ?m"
    using m1(1) True counts_only_fields(8) [OF m1(2)] q
    by (simp add: cuddShrinkDeathRow_def Let_def)
  ultimately show ?thesis by blast
qed

end
