(* ===== verification/CuddCache.thy ===== *)
theory CuddCache
  imports CuddRef
begin

unbundle bit_operations_syntax

text \<open>
  The computed table: \<open>lib/SVF/CUDD/cuddCache.c\<close>. It is a direct-mapped cache: an entry holds
  two operands \<open>c_f\<close> and \<open>c_g\<close>, a third operand or the address of the operator in \<open>c_h\<close>, and
  the result \<open>c_data\<close> (\<open>NULL\<close> for an invalid entry). The tag of a three-operand operator is
  stored in the low bits of the first two operands. A hit on a dead result reclaims it.
\<close>

subsection \<open>Operations\<close>

fun floorLog2_loop :: "nat \<Rightarrow> nat \<Rightarrow> nat" where
  "floorLog2_loop value floorLog =
     (if value > 1 then floorLog2_loop (value div 2) (floorLog + 1) else floorLog)"

declare floorLog2_loop.simps [simp del]

definition cuddComputeFloorLog2 :: "nat \<Rightarrow> nat" where
  "cuddComputeFloorLog2 value = floorLog2_loop value 0"

definition cache_put :: "nat \<Rightarrow> DdCache \<Rightarrow> DdManager \<Rightarrow> DdManager option" where
  "cache_put posn e table = do {
     entry \<leftarrow> nth_opt (cache table) posn;
     Some (table\<lparr>cachecollisions := cachecollisions table + (if c_data entry \<noteq> NULL then 1 else 0),
                 cacheinserts := cacheinserts table + 1,
                 cache := (cache table)[posn := e]\<rparr>) }"

definition cuddCacheInsert :: "ptr \<Rightarrow> ptr \<Rightarrow> ptr \<Rightarrow> ptr \<Rightarrow> ptr \<Rightarrow> DdManager \<Rightarrow> DdManager option" where
  "cuddCacheInsert opr f g h data table = (
     let uf = pack_f opr f; ug = pack_g opr g; uh = h;
         posn = ddCHash2 uh uf ug (cacheShift table)
     in cache_put posn \<lparr>c_f = uf, c_g = ug, c_h = uh, c_data = data\<rparr> table)"

definition cuddCacheInsert2 :: "ptr \<Rightarrow> ptr \<Rightarrow> ptr \<Rightarrow> ptr \<Rightarrow> DdManager \<Rightarrow> DdManager option" where
  "cuddCacheInsert2 opr f g data table = (
     let posn = ddCHash2 opr f g (cacheShift table)
     in cache_put posn \<lparr>c_f = f, c_g = g, c_h = opr, c_data = data\<rparr> table)"

definition cuddCacheInsert1 :: "ptr \<Rightarrow> ptr \<Rightarrow> ptr \<Rightarrow> DdManager \<Rightarrow> DdManager option" where
  "cuddCacheInsert1 opr f data table = (
     let posn = ddCHash2 opr f f (cacheShift table)
     in cache_put posn \<lparr>c_f = f, c_g = f, c_h = opr, c_data = data\<rparr> table)"

definition empty_entry :: DdCache where
  "empty_entry = \<lparr>c_f = NULL, c_g = NULL, c_h = 0, c_data = NULL\<rparr>"

fun move_entries :: "DdCache list \<Rightarrow> nat \<Rightarrow> DdCache list \<Rightarrow> nat \<Rightarrow> (DdCache list \<times> nat) option" where
  "move_entries [] shft new moved = Some (new, moved)"
| "move_entries (old # olds) shft new moved =
     (if c_data old \<noteq> NULL then do {
        new \<leftarrow> upd_opt new (ddCHash2 (c_h old) (c_f old) (c_g old) shft) old;
        move_entries olds shft new (moved + 1) }
      else move_entries olds shft new moved)"

definition cuddCacheResize :: "DdManager \<Rightarrow> DdManager option" where
  "cuddCacheResize table = (
     let oldcache = cache table; oldslots = cacheSlots table;
         slts = 2 * oldslots;
         (got, table) = os_alloc table
     in if \<not> got then
          Some (table\<lparr>maxCacheHard := oldslots - 1, cacheSlack := - (uint oldslots + 1)\<rparr>)
        else if \<not> alloc_fits sizeof_DdCache (unat slts + 1) \<or> cacheShift table = 0 then None
        else do {
          let shft = cacheShift table - 1;
          (new, moved) \<leftarrow> move_entries oldcache shft (replicate (unat slts) empty_entry) 0;
          let offset = nat \<lfloor>of_nat (unat slts) * minHit table + 1\<rfloor>;
          Some (table\<lparr>cacheSlots := slts, cacheShift := shft,
                      memused := memused table + (slts - oldslots) * sizeof_DdCache,
                      cacheSlack := cacheSlack table - uint slts,
                      cache := new,
                      totCacheMisses := totCacheMisses table + int (cacheMisses table) - int offset,
                      cacheMisses := offset,
                      totCachehits := totCachehits table + int (cacheHits table),
                      cacheHits := 0,
                      cacheLastInserts := cacheinserts table - int moved\<rparr>) })"

definition cache_miss :: "DdManager \<Rightarrow> ptr result" where
  "cache_miss table = (
     let table = table\<lparr>cacheMisses := cacheMisses table + 1\<rparr> in
     if cacheSlack table \<ge> 0 \<and>
        of_nat (cacheHits table) > (of_nat (cacheMisses table) * minHit table :: rat)
     then map_option (\<lambda>table. (NULL, table)) (cuddCacheResize table)
     else Some (NULL, table))"

text \<open>
  A hit: count it and, unless the caller only asks for a constant, reclaim a dead result.
\<close>

definition cache_hit :: "(ptr \<Rightarrow> DdManager \<Rightarrow> DdManager option) \<Rightarrow> ptr \<Rightarrow> DdManager \<Rightarrow> ptr result" where
  "cache_hit reclaim data table = (
     let table = table\<lparr>cacheHits := cacheHits table + 1\<rparr> in do {
       n \<leftarrow> heap table (Cudd_Regular data);
       table \<leftarrow> (if ref n = 0 then reclaim (Cudd_Regular data) table else Some table);
       Some (data, table) })"

definition cuddCacheLookup :: "ptr \<Rightarrow> ptr \<Rightarrow> ptr \<Rightarrow> ptr \<Rightarrow> DdManager \<Rightarrow> ptr result" where
  "cuddCacheLookup opr f g h table = (
     let uf = pack_f opr f; ug = pack_g opr g; uh = h in do {
       en \<leftarrow> nth_opt (cache table) (ddCHash2 uh uf ug (cacheShift table));
       if c_data en \<noteq> NULL \<and> c_f en = uf \<and> c_g en = ug \<and> c_h en = uh
       then cache_hit cuddReclaim (c_data en) table
       else cache_miss table })"

definition cuddCacheLookupZdd :: "ptr \<Rightarrow> ptr \<Rightarrow> ptr \<Rightarrow> ptr \<Rightarrow> DdManager \<Rightarrow> ptr result" where
  "cuddCacheLookupZdd opr f g h table = (
     let uf = pack_f opr f; ug = pack_g opr g; uh = h in do {
       en \<leftarrow> nth_opt (cache table) (ddCHash2 uh uf ug (cacheShift table));
       if c_data en \<noteq> NULL \<and> c_f en = uf \<and> c_g en = ug \<and> c_h en = uh
       then cache_hit cuddReclaimZdd (c_data en) table
       else cache_miss table })"

definition cuddCacheLookup2 :: "ptr \<Rightarrow> ptr \<Rightarrow> ptr \<Rightarrow> DdManager \<Rightarrow> ptr result" where
  "cuddCacheLookup2 opr f g table = do {
     en \<leftarrow> nth_opt (cache table) (ddCHash2 opr f g (cacheShift table));
     if c_data en \<noteq> NULL \<and> c_f en = f \<and> c_g en = g \<and> c_h en = opr
     then cache_hit cuddReclaim (c_data en) table
     else cache_miss table }"

definition cuddCacheLookup1 :: "ptr \<Rightarrow> ptr \<Rightarrow> DdManager \<Rightarrow> ptr result" where
  "cuddCacheLookup1 opr f table = do {
     en \<leftarrow> nth_opt (cache table) (ddCHash2 opr f f (cacheShift table));
     if c_data en \<noteq> NULL \<and> c_f en = f \<and> c_h en = opr
     then cache_hit cuddReclaim (c_data en) table
     else cache_miss table }"

definition cuddCacheLookup2Zdd :: "ptr \<Rightarrow> ptr \<Rightarrow> ptr \<Rightarrow> DdManager \<Rightarrow> ptr result" where
  "cuddCacheLookup2Zdd opr f g table = do {
     en \<leftarrow> nth_opt (cache table) (ddCHash2 opr f g (cacheShift table));
     if c_data en \<noteq> NULL \<and> c_f en = f \<and> c_g en = g \<and> c_h en = opr
     then cache_hit cuddReclaimZdd (c_data en) table
     else cache_miss table }"

definition cuddCacheLookup1Zdd :: "ptr \<Rightarrow> ptr \<Rightarrow> DdManager \<Rightarrow> ptr result" where
  "cuddCacheLookup1Zdd opr f table = do {
     en \<leftarrow> nth_opt (cache table) (ddCHash2 opr f f (cacheShift table));
     if c_data en \<noteq> NULL \<and> c_f en = f \<and> c_h en = opr
     then cache_hit cuddReclaimZdd (c_data en) table
     else cache_miss table }"

definition cuddConstantLookup :: "ptr \<Rightarrow> ptr \<Rightarrow> ptr \<Rightarrow> ptr \<Rightarrow> DdManager \<Rightarrow> ptr result" where
  "cuddConstantLookup opr f g h table = (
     let uf = pack_f opr f; ug = pack_g opr g; uh = h in do {
       en \<leftarrow> nth_opt (cache table) (ddCHash2 uh uf ug (cacheShift table));
       if c_data en \<noteq> NULL \<and> c_f en = uf \<and> c_g en = ug \<and> c_h en = uh
       then Some (c_data en, table\<lparr>cacheHits := cacheHits table + 1\<rparr>)
       else cache_miss table })"

definition cuddCacheFlush :: "DdManager \<Rightarrow> DdManager" where
  "cuddCacheFlush table = table
     \<lparr>cachedeletions := cachedeletions table
        + int (length (filter (\<lambda>c. c_data c \<noteq> NULL) (cache table))),
      cache := map (\<lambda>c. c\<lparr>c_data := NULL\<rparr>) (cache table),
      cacheLastInserts := cacheinserts table\<rparr>"

subsection \<open>The logarithm\<close>

lemma floorLog2_loop_bounds:
  "0 < v \<Longrightarrow> \<exists>k. floorLog2_loop v a = a + k \<and> 2 ^ k \<le> v \<and> v < 2 ^ Suc k"
proof (induction v a rule: floorLog2_loop.induct)
  case (1 v a)
  show ?case
  proof (cases "v > 1")
    case True
    then obtain k where k: "floorLog2_loop (v div 2) (a + 1) = a + 1 + k" "2 ^ k \<le> v div 2"
      "v div 2 < 2 ^ Suc k"
      using 1 by auto
    have "2 ^ Suc k \<le> v" "v < 2 ^ Suc (Suc k)" using k(2,3) by simp_all
    then show ?thesis using k(1) True by (intro exI [of _ "Suc k"]) (simp add: floorLog2_loop.simps [of v])
  next
    case False
    then have "v = 1" using 1 by simp
    then show ?thesis using floorLog2_loop.simps [of 1 a] by (intro exI [of _ 0]) simp
  qed
qed

subsection \<open>Positions and entries\<close>

lemma ddCHash2_less: "s \<le> 32 \<Longrightarrow> ddCHash2 h f g s < 2 ^ (32 - s)"
  by (simp add: ddCHash2_def drop_bit_32_less)

lemma cache_okD:
  assumes "cache_ok m"
  shows "ddCHash2 h f g (cacheShift m) < length (cache m)" "c \<in> set (cache m) \<Longrightarrow> entry_ok m c"
    "2 \<le> cacheShift m" "cacheShift m \<le> 32" "length (cache m) = 2 ^ (32 - cacheShift m)"
  using assms ddCHash2_less by (auto simp: cache_ok_def)

lemma cache_at: "cache_ok m \<Longrightarrow> entry_ok m (cache m ! ddCHash2 h f g (cacheShift m))"
  using cache_okD(1,2) nth_mem by blast

lemma edge_low: "store_ok m \<Longrightarrow> e \<in> edges m \<Longrightarrow> e AND 14 = 0 \<and> e AND NOT 15 = Cudd_Regular e"
proof -
  assume s: "store_ok m" and e: "e \<in> edges m"
  have a: "Cudd_Regular e AND 15 = 0" using nodes_aligned [OF s] e by (simp add: edges_def)
  show ?thesis
  proof (cases "Cudd_IsComplement e")
    case True
    then have "e = Cudd_Not (Cudd_Regular e)" by (simp add: Regular_complemented)
    then show ?thesis using low_bits(5,7) [OF a] by metis
  next
    case False
    then show ?thesis using low_bits(4,6) [OF a] by simp
  qed
qed

lemma pack_tags:
  "pack_f DD_BDD_ITE_TAG f = f OR 14" "pack_g DD_BDD_ITE_TAG g = g"
  "pack_f DD_BDD_ITE_CONSTANT_TAG f = f OR 10" "pack_g DD_BDD_ITE_CONSTANT_TAG g = g OR 6"
  "pack_f DD_BDD_AND_ABSTRACT_TAG f = f OR 6" "pack_g DD_BDD_AND_ABSTRACT_TAG g = g"
  "pack_f DD_BDD_XOR_EXIST_ABSTRACT_TAG f = f OR 10" "pack_g DD_BDD_XOR_EXIST_ABSTRACT_TAG g = g"
  "pack_f DD_BDD_COMPOSE_RECUR_TAG f = f OR 14" "pack_g DD_BDD_COMPOSE_RECUR_TAG g = g OR 2"
  by (simp_all add: pack_f_def pack_g_def tag_defs)

text \<open>The operator and the operands are read off the packed fields.\<close>

lemma pack_bits:
  assumes "opr \<in> op3_tags" "e AND 14 = (0 :: ptr)"
  shows "pack_f opr e AND NOT 14 = e" "pack_f opr e AND 14 = opr AND 14" "pack_f opr e AND NOT 15 = e AND NOT 15"
    "pack_g opr e AND NOT 14 = e" "pack_g opr e AND 14 = drop_bit 4 opr" "pack_g opr e AND NOT 15 = e AND NOT 15"
proof -
  note f = tag_bits [OF assms(2) tag_clear [of opr]]
  have "drop_bit 4 opr AND NOT 14 = 0" using assms(1) by (auto simp: op3_tags_def tag_defs)
  note g = tag_bits [OF assms(2) this]
  show "pack_f opr e AND NOT 14 = e" "pack_f opr e AND 14 = opr AND 14" "pack_f opr e AND NOT 15 = e AND NOT 15"
    using f by (simp_all add: pack_f_def)
  show "pack_g opr e AND NOT 14 = e" "pack_g opr e AND 14 = drop_bit 4 opr" "pack_g opr e AND NOT 15 = e AND NOT 15"
    using g by (simp_all add: pack_g_def)
qed

lemma op3_tag_eq:
  assumes "opr \<in> op3_tags" "opr' \<in> op3_tags" "opr AND 14 = opr' AND 14" "drop_bit 4 opr = drop_bit 4 opr'"
  shows "opr = opr'"
  using assms unfolding op3_tags_def tag_defs by auto

lemma op3_tag_low: "opr \<in> op3_tags \<Longrightarrow> opr AND 14 \<noteq> 0 \<and> (opr AND 14) AND 2 \<noteq> 0"
  by (auto simp: op3_tags_def tag_defs)

lemma entry2_only:
  assumes "store_ok m" "entry_ok m c" "c_data c \<noteq> NULL" "c_f c \<in> edges m"
  shows "entry2_ok m c"
proof -
  have "c_f c AND 14 = 0" using edge_low [OF assms(1,4)] by simp
  moreover have "c_f c AND 14 \<noteq> 0" if t: "entry3_ok m c"
  proof -
    from t obtain opr f where f: "opr \<in> op3_tags" "f \<in> edges m" "c_f c = pack_f opr f"
      by (auto simp: entry3_ok_def)
    then show ?thesis using pack_bits(2) [OF f(1)] edge_low [OF assms(1) f(2)] op3_tag_low [OF f(1)] by simp
  qed
  ultimately show ?thesis using assms(2,3) by (auto simp: entry_ok_def)
qed

lemma entry3_intro:
  assumes "opr \<in> op3_tags" "f \<in> edges m" "g \<in> edges m" "h \<in> edges m" "op3_ok m opr f g h r"
  shows "entry_ok m \<lparr>c_f = pack_f opr f, c_g = pack_g opr g, c_h = h, c_data = r\<rparr>"
proof -
  have "entry3_ok m \<lparr>c_f = pack_f opr f, c_g = pack_g opr g, c_h = h, c_data = r\<rparr>"
    unfolding entry3_ok_def DdCache.select_convs using assms by blast
  then show ?thesis by (simp add: entry_ok_def)
qed

lemma entry3_only:
  assumes "store_ok m" "entry_ok m c" "c_data c \<noteq> NULL" "opr \<in> op3_tags" "f \<in> edges m" "g \<in> edges m"
    and "c_f c = pack_f opr f" "c_g c = pack_g opr g"
  shows "op3_ok m opr f g (c_h c) (c_data c)"
proof -
  note lo = edge_low [OF assms(1), THEN conjunct1]
  note b = pack_bits [OF assms(4) lo [OF assms(5)]] pack_bits [OF assms(4) lo [OF assms(6)]]
  have "c_f c AND 14 \<noteq> 0" using b(2) op3_tag_low [OF assms(4)] assms(7) by simp
  then have "\<not> entry2_ok m c" using lo [of "c_f c"] by (auto simp: entry2_ok_def)
  then obtain opr' f' g' where e: "opr' \<in> op3_tags" "f' \<in> edges m" "g' \<in> edges m" "c_f c = pack_f opr' f'"
    "c_g c = pack_g opr' g'" "op3_ok m opr' f' g' (c_h c) (c_data c)"
    using assms(2,3) by (auto simp: entry_ok_def entry3_ok_def)
  note b' = pack_bits [OF e(1) lo [OF e(2)]] pack_bits [OF e(1) lo [OF e(3)]]
  have "opr = opr'" by (rule op3_tag_eq [OF assms(4) e(1)]) (use b b' assms(7,8) e(4,5) in metis)+
  moreover have "f = f'" "g = g'" using b b' assms(7,8) e(4,5) by metis+
  ultimately show ?thesis using e(6) by simp
qed

subsection \<open>Insertion, growth and flushing\<close>

lemma cache_put_ok:
  assumes "cache_ok m" "entry_ok m e" "posn < length (cache m)"
  shows "\<exists>m'. cache_put posn e m = Some m' \<and> core m' = core m \<and> cache_ok m' \<and>
    cache m' = (cache m)[posn := e] \<and> cacheShift m' = cacheShift m"
proof -
  let ?m = "m\<lparr>cachecollisions := cachecollisions m + (if c_data (cache m ! posn) \<noteq> NULL then 1 else 0),
    cacheinserts := cacheinserts m + 1, cache := (cache m)[posn := e]\<rparr>"
  have c: "core ?m = core m" by (simp add: core_def)
  have "set ((cache m)[posn := e]) \<subseteq> insert e (set (cache m))" by (rule set_update_subset_insert)
  then have "cache_ok ?m"
    using assms(1,2) unfolding cache_ok_def entry_ok_cong(3) [OF core_fields(1) [OF c]] by auto
  then show ?thesis using c assms(3) by (simp add: cache_put_def)
qed

lemma cuddCacheInsert2_ok:
  assumes "mgr_ok ext F m" "entry_ok m \<lparr>c_f = f, c_g = g, c_h = opr, c_data = r\<rparr>"
  shows "\<exists>m'. cuddCacheInsert2 opr f g r m = Some m' \<and> core m' = core m \<and> mgr_ok ext F m'"
proof -
  have c: "cache_ok m" using mgr_okD(4) [OF assms(1)] by (simp add: rest_ok_def)
  from cache_put_ok [OF c assms(2) cache_okD(1) [OF c]] show ?thesis
    using core_ok(3) [OF _ assms(1)] by (fastforce simp: cuddCacheInsert2_def Let_def)
qed

lemma cuddCacheInsert_ok:
  assumes "mgr_ok ext F m" "entry_ok m \<lparr>c_f = pack_f opr f, c_g = pack_g opr g, c_h = h, c_data = r\<rparr>"
  shows "\<exists>m'. cuddCacheInsert opr f g h r m = Some m' \<and> core m' = core m \<and> mgr_ok ext F m'"
proof -
  have c: "cache_ok m" using mgr_okD(4) [OF assms(1)] by (simp add: rest_ok_def)
  from cache_put_ok [OF c assms(2) cache_okD(1) [OF c]] show ?thesis
    using core_ok(3) [OF _ assms(1)] by (fastforce simp: cuddCacheInsert_def Let_def)
qed

lemma move_entries_ok:
  assumes "s \<le> 32" "length new = 2 ^ (32 - s)"
  shows "\<exists>new' k. move_entries old s new n = Some (new', k) \<and> length new' = length new \<and>
    set new' \<subseteq> set old \<union> set new"
  using assms(2)
proof (induction old arbitrary: new n)
  case Nil
  then show ?case by simp
next
  case (Cons e old)
  show ?case
  proof (cases "c_data e = NULL")
    case True
    then show ?thesis using Cons.IH [OF Cons.prems, of n] by auto
  next
    case False
    let ?i = "ddCHash2 (c_h e) (c_f e) (c_g e) s"
    have i: "?i < length new" using ddCHash2_less [OF assms(1)] Cons.prems by simp
    have "set (new[?i := e]) \<subseteq> insert e (set new)" by (rule set_update_subset_insert)
    then show ?thesis using Cons.IH [of "new[?i := e]" "n + 1"] Cons.prems False i by auto
  qed
qed

lemma entry_ok_empty [simp]: "entry_ok m empty_entry"
  by (simp add: entry_ok_def empty_entry_def)

lemma os_alloc_core: "os_alloc m = (got, m') \<Longrightarrow> core m' = core m \<and> cache_ok m' = cache_ok m \<and>
    garbageCollections m' = garbageCollections m \<and> cache m' = cache m \<and> cacheShift m' = cacheShift m \<and>
    cacheSlots m' = cacheSlots m \<and> maxCacheHard m' = maxCacheHard m \<and> cacheSlack m' = cacheSlack m"
proof -
  assume "os_alloc m = (got, m')"
  then have f: "core m' = core m" "cache m' = cache m" "cacheShift m' = cacheShift m"
    "cacheSlots m' = cacheSlots m" "maxCacheHard m' = maxCacheHard m" "cacheSlack m' = cacheSlack m"
    "garbageCollections m' = garbageCollections m"
    by (auto simp: os_alloc_def core_def split: list.splits)
  then show ?thesis using core_cache_ok [OF f(1-6)] by simp
qed

text \<open>The geometry of the computed table, without its contents, is what resizing needs.\<close>

definition cache_geo :: "DdManager \<Rightarrow> bool" where
  "cache_geo m \<longleftrightarrow> 6 \<le> cacheShift m \<and> cacheShift m \<le> 32 \<and> unat (cacheSlots m) = 2 ^ (32 - cacheShift m) \<and>
     length (cache m) = unat (cacheSlots m) \<and> unat (maxCacheHard m) < 2 ^ 27 \<and>
     cacheSlack m \<le> uint (maxCacheHard m) - 2 * uint (cacheSlots m)"

lemma cache_ok_geo: "cache_ok m \<longleftrightarrow> (\<forall>c \<in> set (cache m). entry_ok m c) \<and> cache_geo m"
  by (simp add: cache_ok_def cache_geo_def)

lemma cuddCacheResize_geo:
  assumes "cache_geo m" "0 \<le> cacheSlack m"
  shows "\<exists>m'. cuddCacheResize m = Some m' \<and> core m' = core m \<and> cache_geo m' \<and>
    set (cache m') \<subseteq> insert empty_entry (set (cache m)) \<and> garbageCollections m' = garbageCollections m"
proof -
  obtain got m1 where o1: "os_alloc m = (got, m1)" by force
  note c1 = os_alloc_core [OF o1]
  let ?s = "cacheSlots m" and ?h = "cacheShift m"
  have sl: "unat ?s = 2 ^ (32 - ?h)" "length (cache m) = unat ?s" "6 \<le> ?h" "?h \<le> 32"
    "unat (maxCacheHard m) < 2 ^ 27" "cacheSlack m \<le> uint (maxCacheHard m) - 2 * uint ?s"
    using assms(1) by (auto simp: cache_geo_def)
  note u = uint_nat [where ?'a = 32]
  have lt: "2 * unat ?s < 2 ^ 27"
    using sl(5,6) assms(2) u [of ?s] u [of "maxCacheHard m"] by linarith
  then have "(2 :: nat) ^ (32 - ?h) < 2 ^ 26" using sl(1) by simp
  then have "32 - ?h < 26" by (rule power_less_imp_less_exp [rotated]) simp
  then have h: "7 \<le> ?h" "?h - 1 \<le> 32" using sl(4) by simp_all
  have du: "unat (2 * ?s) = 2 * unat ?s" using lt by (simp add: unat_word_ariths)
  have "2 * unat ?s \<le> 2 ^ 26"
  proof -
    have "(2 :: nat) ^ (32 - ?h) \<le> 2 ^ 25" using h(1) by (intro power_increasing) simp_all
    then show ?thesis using sl(1) by simp
  qed
  then have af: "alloc_fits sizeof_DdCache (unat (2 * ?s) + 1)"
    by (simp add: alloc_fits_def sizeof_DdCache_def du)
  have pw: "(2 :: nat) ^ (32 - (?h - 1)) = 2 * unat ?s"
  proof -
    have "32 - (?h - 1) = Suc (32 - ?h)" using h sl(4) by simp
    then show ?thesis using sl(1) by simp
  qed
  show ?thesis
  proof (cases got)
    case False
    have pos: "0 < unat ?s" using sl(1) by simp
    then have ns: "?s \<noteq> 0" by auto
    have um: "unat (?s - 1) = unat ?s - 1" by (rule unat_minus_one [OF ns])
    let ?m = "m1\<lparr>maxCacheHard := cacheSlots m - 1, cacheSlack := - (uint (cacheSlots m) + 1)\<rparr>"
    have c: "core ?m = core m" using c1 by (simp add: core_def)
    have "- (uint ?s + 1) \<le> uint (?s - 1) - 2 * uint ?s"
      using um pos u [of ?s] u [of "?s - 1"] by linarith
    moreover have "unat (?s - 1) < 2 ^ 27" using um lt by linarith
    ultimately have "cache_geo ?m"
      using assms(1) c1 unfolding cache_geo_def by simp
    then show ?thesis using c c1 o1 False by (auto simp: cuddCacheResize_def Let_def)
  next
    case True
    obtain new k where mv: "move_entries (cache m) (?h - 1) (replicate (2 * unat ?s) empty_entry) 0 = Some (new, k)"
      "length new = 2 * unat ?s" "set new \<subseteq> set (cache m) \<union> {empty_entry}"
      using move_entries_ok [of "?h - 1" "replicate (2 * unat ?s) empty_entry" "cache m" 0] pw h by fastforce
    let ?offset = "nat \<lfloor>of_nat (unat (2 * ?s)) * minHit m1 + 1\<rfloor>"
    define m' where "m' = m1\<lparr>cacheSlots := 2 * ?s, cacheShift := ?h - 1,
      memused := memused m1 + (2 * ?s - ?s) * sizeof_DdCache, cacheSlack := cacheSlack m1 - uint (2 * ?s),
      cache := new, totCacheMisses := totCacheMisses m1 + int (cacheMisses m1) - int ?offset,
      cacheMisses := ?offset, totCachehits := totCachehits m1 + int (cacheHits m1), cacheHits := 0,
      cacheLastInserts := cacheinserts m1 - int k\<rparr>"
    have r: "cuddCacheResize m = Some m'"
    proof -
      have "move_entries (cache m) (cacheShift m1 - 1) (replicate (unat (2 * ?s)) empty_entry) 0 = Some (new, k)"
        using mv(1) c1 du by simp
      then show ?thesis
        unfolding cuddCacheResize_def Let_def m'_def using c1 o1 True h af by simp
    qed
    have m': "core m' = core m" "cache m' = new"
      "cacheSlots m' = 2 * ?s" "cacheShift m' = ?h - 1" "maxCacheHard m' = maxCacheHard m"
      "cacheSlack m' = cacheSlack m - uint (2 * ?s)" "garbageCollections m' = garbageCollections m"
      using c1 by (simp_all add: m'_def core_def)
    have "cacheSlack m - uint (2 * ?s) \<le> uint (maxCacheHard m) - 2 * uint (2 * ?s)"
      using sl(6) du u [of ?s] u [of "2 * ?s"] by linarith
    moreover have "6 \<le> ?h - 1" "?h - 1 \<le> 32" using h sl(4) by simp_all
    ultimately show ?thesis using r m' mv(2,3) sl(5) pw du by (auto simp: cache_geo_def)
  qed
qed

lemma cuddCacheResize_ok:
  assumes "cache_ok m" "0 \<le> cacheSlack m"
  shows "\<exists>m'. cuddCacheResize m = Some m' \<and> core m' = core m \<and> cache_ok m' \<and>
    garbageCollections m' = garbageCollections m"
proof -
  obtain m' where m': "cuddCacheResize m = Some m'" "core m' = core m" "cache_geo m'"
    "set (cache m') \<subseteq> insert empty_entry (set (cache m))" "garbageCollections m' = garbageCollections m"
    using cuddCacheResize_geo [of m] assms unfolding cache_ok_geo by blast
  then have "cache_ok m'"
    using assms(1) unfolding cache_ok_geo entry_ok_cong(3) [OF core_fields(1) [OF m'(2)]] by auto
  then show ?thesis using m' by blast
qed

lemma cache_miss_ok:
  assumes "cache_ok m"
  shows "\<exists>m'. cache_miss m = Some (NULL, m') \<and> core m' = core m \<and> cache_ok m'"
proof -
  let ?m = "m\<lparr>cacheMisses := cacheMisses m + 1\<rparr>"
  have c: "core ?m = core m" by (simp add: core_def)
  have k: "cache_ok ?m" using core_cache_ok [OF c] assms by simp
  show ?thesis
  proof (cases "cacheSlack ?m \<ge> 0 \<and>
      of_nat (cacheHits ?m) > (of_nat (cacheMisses ?m) * minHit ?m :: rat)")
    case True
    then obtain m' where "cuddCacheResize ?m = Some m'" "core m' = core ?m" "cache_ok m'"
      using cuddCacheResize_ok [OF k] by blast
    then show ?thesis using True c unfolding cache_miss_def Let_def by auto
  next
    case False
    then show ?thesis using c k unfolding cache_miss_def Let_def by auto
  qed
qed

lemma cuddCacheFlush_ok:
  assumes "mgr_ok ext F m"
  shows "mgr_ok ext F (cuddCacheFlush m)" "core (cuddCacheFlush m) = core m"
    "\<forall>c \<in> set (cache (cuddCacheFlush m)). c_data c = NULL"
proof -
  show c: "core (cuddCacheFlush m) = core m" by (simp add: cuddCacheFlush_def core_def)
  show e: "\<forall>c \<in> set (cache (cuddCacheFlush m)). c_data c = NULL" by (simp add: cuddCacheFlush_def)
  have k: "cache_ok m" using mgr_okD(4) [OF assms] by (simp add: rest_ok_def)
  have "length (cache (cuddCacheFlush m)) = length (cache m)" "cacheShift (cuddCacheFlush m) = cacheShift m"
    "cacheSlots (cuddCacheFlush m) = cacheSlots m" "maxCacheHard (cuddCacheFlush m) = maxCacheHard m"
    "cacheSlack (cuddCacheFlush m) = cacheSlack m"
    by (simp_all add: cuddCacheFlush_def)
  moreover have "\<forall>c \<in> set (cache (cuddCacheFlush m)). entry_ok (cuddCacheFlush m) c"
    using e by (simp add: entry_ok_def)
  ultimately have "cache_ok (cuddCacheFlush m)"
    using k unfolding cache_ok_def by simp
  then show "mgr_ok ext F (cuddCacheFlush m)" by (rule core_ok(3) [OF c assms])
qed

subsection \<open>Lookup\<close>

lemma cache_hit_ok:
  assumes "mgr_ok ext {} m" "r \<in> edges m"
  shows "\<exists>m'. cache_hit cuddReclaim r m = Some (r, m') \<and> mgr_ok ext {Cudd_Regular r} m' \<and>
    store m' = store m \<and> keep (set_mset ext) m m'"
proof -
  let ?N = "Cudd_Regular r"
  let ?m = "m\<lparr>cacheHits := cacheHits m + 1\<rparr>"
  have c: "core ?m = core m" by (simp add: core_def)
  note s = core_fields(1) [OF c]
  have k: "cache_ok ?m" using mgr_okD(4) [OF assms(1)] core_cache_ok [OF c] by (simp add: rest_ok_def)
  have m: "mgr_ok ext {} ?m" by (rule core_ok(3) [OF c assms(1) k])
  note g = mgr_okD [OF m]
  have N: "?N \<in> nodes ?m" using assms(2) store_cong(11) [OF s] by (simp add: edges_def)
  obtain n where n: "heap ?m ?N = Some n" using nodes_heap [OF g(5) N] .
  have kp: "keep (set_mset ext) m ?m" by (rule core_ok(4) [OF c mgr_okD(5,8) [OF assms(1)]])
  show ?thesis
  proof (cases "ref n = 0")
    case True
    then obtain m' where m': "cuddReclaim ?N ?m = Some m'" "mgr_ok ext {?N} m'" "counts_only ?m m'"
      "keep (set_mset ext) ?m m'"
      using cuddReclaim_ok [OF m, of ?N] N by auto
    then show ?thesis
      using n True s counts_only_store [OF m'(3)] keep_trans [OF kp m'(4) mgr_okD(5) [OF assms(1)]]
      unfolding cache_hit_def Let_def by simp
  next
    case False
    then have "mgr_ok ext {?N} ?m"
      using m n by (simp add: mgr_unfloat refc_heap unat_gt_0)
    then show ?thesis using n False s kp unfolding cache_hit_def Let_def by simp
  qed
qed

lemma miss_result:
  assumes "mgr_ok ext {} m"
  shows "\<exists>m'. cache_miss m = Some (NULL, m') \<and> mgr_ok ext {} m' \<and> store m' = store m \<and>
    keep (set_mset ext) m m'"
proof -
  have "cache_ok m" using mgr_okD(4) [OF assms] by (simp add: rest_ok_def)
  then obtain m' where m': "cache_miss m = Some (NULL, m')" "core m' = core m" "cache_ok m'"
    using cache_miss_ok by blast
  then show ?thesis
    using core_ok(3) [OF m'(2) assms m'(3)] core_fields(1) [OF m'(2)]
      core_ok(4) [OF m'(2) mgr_okD(5,8) [OF assms]] by blast
qed

text \<open>
  A lookup has a value. It is \<open>NULL\<close>, or a diagram that satisfies the entry's statement and
  that the caller may take a reference to.
\<close>

definition looked_up :: "ptr multiset \<Rightarrow> DdManager \<Rightarrow> (ptr \<Rightarrow> bool) \<Rightarrow> ptr result \<Rightarrow> bool" where
  "looked_up ext m good res \<longleftrightarrow> (\<exists>r m'. res = Some (r, m') \<and> store m' = store m \<and>
     keep (set_mset ext) m m' \<and>
     (r = NULL \<and> mgr_ok ext {} m' \<or> r \<in> edges m \<and> good r \<and> mgr_ok ext {Cudd_Regular r} m'))"

lemma cuddCacheLookup2_ok:
  assumes "mgr_ok ext {} m" "f \<in> edges m"
  shows "looked_up ext m (\<lambda>r. entry2_ok m \<lparr>c_f = f, c_g = g, c_h = opr, c_data = r\<rparr>)
    (cuddCacheLookup2 opr f g m)"
proof -
  have c: "cache_ok m" using mgr_okD(4) [OF assms(1)] by (simp add: rest_ok_def)
  let ?c = "cache m ! ddCHash2 opr f g (cacheShift m)"
  have lk: "nth_opt (cache m) (ddCHash2 opr f g (cacheShift m)) = Some ?c"
    using cache_okD(1) [OF c] by simp
  show ?thesis
  proof (cases "c_data ?c \<noteq> NULL \<and> c_f ?c = f \<and> c_g ?c = g \<and> c_h ?c = opr")
    case True
    have e: "entry2_ok m ?c"
      by (rule entry2_only [OF mgr_okD(5) [OF assms(1)] cache_at [OF c]]) (use True assms(2) in simp_all)
    have ec: "?c = \<lparr>c_f = f, c_g = g, c_h = opr, c_data = c_data ?c\<rparr>" using True by (cases ?c) simp
    have r: "c_data ?c \<in> edges m" using e by (simp add: entry2_ok_def)
    have "cuddCacheLookup2 opr f g m = cache_hit cuddReclaim (c_data ?c) m"
      using lk True by (simp add: cuddCacheLookup2_def)
    moreover have "entry2_ok m \<lparr>c_f = f, c_g = g, c_h = opr, c_data = c_data ?c\<rparr>"
      using e ec by metis
    ultimately show ?thesis using cache_hit_ok [OF assms(1) r] r unfolding looked_up_def by auto
  next
    case False
    then show ?thesis
      using miss_result [OF assms(1)] lk unfolding looked_up_def cuddCacheLookup2_def by auto
  qed
qed

lemma cuddCacheLookup_ok:
  assumes "mgr_ok ext {} m" "f \<in> edges m" "g \<in> edges m" "opr \<in> op3_tags" "opr \<noteq> DD_BDD_ITE_CONSTANT_TAG"
  shows "looked_up ext m (op3_ok m opr f g h) (cuddCacheLookup opr f g h m)"
proof -
  have c: "cache_ok m" using mgr_okD(4) [OF assms(1)] by (simp add: rest_ok_def)
  let ?i = "ddCHash2 h (pack_f opr f) (pack_g opr g) (cacheShift m)"
  let ?c = "cache m ! ?i"
  have lk: "nth_opt (cache m) ?i = Some ?c" using cache_okD(1) [OF c] by simp
  show ?thesis
  proof (cases "c_data ?c \<noteq> NULL \<and> c_f ?c = pack_f opr f \<and> c_g ?c = pack_g opr g \<and> c_h ?c = h")
    case True
    have r: "op3_ok m opr f g h (c_data ?c)"
      using entry3_only [OF mgr_okD(5) [OF assms(1)] cache_at [OF c] _ assms(4,2,3)] True by metis
    then have e: "c_data ?c \<in> edges m" using assms(5) by (simp add: op3_ok_def)
    have "cuddCacheLookup opr f g h m = cache_hit cuddReclaim (c_data ?c) m"
      using lk True by (simp add: cuddCacheLookup_def Let_def)
    then show ?thesis using cache_hit_ok [OF assms(1) e] e r unfolding looked_up_def by auto
  next
    case False
    then show ?thesis
      using miss_result [OF assms(1)] lk unfolding looked_up_def cuddCacheLookup_def Let_def by auto
  qed
qed

lemma looked_up_weaken: "looked_up ext m good res \<Longrightarrow> (\<And>r. good r \<Longrightarrow> good' r) \<Longrightarrow> looked_up ext m good' res"
  unfolding looked_up_def by blast

lemma cuddCacheLookup_ite_ok:
  assumes "mgr_ok ext {} m" "f \<in> nodes m" "g \<in> nodes m"
  shows "looked_up ext m
    (\<lambda>r. \<forall>env. sem m env r = ite_fun m f g h env)
    (cuddCacheLookup DD_BDD_ITE_TAG f g h m)"
proof -
  have "f \<in> edges m" "g \<in> edges m" using nodes_edges [OF mgr_okD(5) [OF assms(1)]] assms(2,3) by blast+
  from looked_up_weaken [OF cuddCacheLookup_ok [OF assms(1) this]] show ?thesis
    by (simp add: op3_tags_def op3_ok_def tag_defs)
qed

end
