(* ===== verification/CuddTable.thy ===== *)
theory CuddTable
  imports CuddCache
begin

unbundle bit_operations_syntax

text \<open>
  The unique table: \<open>lib/SVF/CUDD/cuddTable.c\<close>. There is one subtable per level of the variable
  order; a bucket of a subtable is a collision list sorted by decreasing children. The
  modelled operations are node allocation, garbage collection, lookup-or-insert
  (\<open>cuddUniqueInter\<close>), the growth of a subtable and of the number of variables.

  Free lists are rebuilt by the garbage collector from the memory blocks, as the code does
  when neither \<open>DD_UNSORTED_FREE_LIST\<close> nor \<open>DD_RED_BLACK_FREE_LIST\<close> is defined. No hooks are
  registered and no local caches exist. Where the code aborts (\<open>ddReportRefMess\<close>) or enters
  dynamic reordering (\<open>Cudd_ReduceHeap\<close>) the model has no value.
\<close>

subsection \<open>Limits\<close>

definition ddFixLimits :: "DdManager \<Rightarrow> DdManager option" where
  "ddFixLimits unique = (
     let unique = unique\<lparr>minDead := frac_of_slots (gcFrac unique) (slots unique),
           cacheSlack := sint (ddMin (maxCacheHard unique)
                                     (DD_MAX_CACHE_TO_SLOTS_RATIO * slots unique))
                         - 2 * sint (cacheSlots unique)\<rparr>
     in if cacheSlots unique < slots unique div 2 \<and> cacheSlack unique \<ge> 0
        then cuddCacheResize unique else Some unique)"

definition cuddSlowTableGrowth :: "DdManager \<Rightarrow> DdManager option" where
  "cuddSlowTableGrowth unique = (
     let unique = unique
       \<lparr>maxCacheHard := cacheSlots unique - 1,
        cacheSlack := - sint (cacheSlots unique + 1),
        subtables := map (\<lambda>st. st\<lparr>sub_maxKeys := push_bit 2 (sub_maxKeys st)\<rparr>)
                         (take (dsize unique) (subtables unique))
                     @ drop (dsize unique) (subtables unique),
        gcFrac := DD_GC_FRAC_MIN,
        minDead := frac_of_slots DD_GC_FRAC_MIN (slots unique)\<rparr>
     in cuddShrinkDeathRow unique)"

subsection \<open>Garbage collection\<close>

text \<open>
  An entry of the computed table is dropped when one of its operands or its result is dead.
  The operands are read in the order of the code's \<open>||\<close>.
\<close>

definition ref_is_0 :: "DdManager \<Rightarrow> ptr \<Rightarrow> bool option" where
  "ref_is_0 unique p = map_option (\<lambda>n. ref n = 0) (heap unique p)"

definition entry_dead :: "DdManager \<Rightarrow> DdCache \<Rightarrow> bool option" where
  "entry_dead unique c = do {
     df \<leftarrow> ref_is_0 unique (cuddClean (c_f c));
     if df then Some True else do {
       dg \<leftarrow> ref_is_0 unique (cuddClean (c_g c));
       if dg then Some True else do {
         dh \<leftarrow> (if c_f c AND 2 \<noteq> 0 then ref_is_0 unique (Cudd_Regular (c_h c)) else Some False);
         if dh then Some True
         else if c_data c \<noteq> DD_NON_CONSTANT then ref_is_0 unique (Cudd_Regular (c_data c))
         else Some False } } }"

fun clear_entries :: "DdManager \<Rightarrow> DdCache list \<Rightarrow> (DdCache list \<times> nat) option" where
  "clear_entries unique [] = Some ([], 0)"
| "clear_entries unique (c # cs) = do {
     (cs', n) \<leftarrow> clear_entries unique cs;
     if c_data c \<noteq> NULL then do {
       d \<leftarrow> entry_dead unique c;
       Some (if d then (c\<lparr>c_data := NULL\<rparr> # cs', n + 1) else (c # cs', n)) }
     else Some (c # cs', n) }"

fun sweep_chain :: "DdManager \<Rightarrow> ptr list \<Rightarrow> (ptr list \<times> nat) option" where
  "sweep_chain unique [] = Some ([], 0)"
| "sweep_chain unique (node # rest) = do {
     n \<leftarrow> heap unique node;
     (rest', deleted) \<leftarrow> sweep_chain unique rest;
     Some (if ref n = 0 then (rest', deleted + 1) else (node # rest', deleted)) }"

fun sweep_rows :: "DdManager \<Rightarrow> ptr list list \<Rightarrow> (ptr list list \<times> nat) option" where
  "sweep_rows unique [] = Some ([], 0)"
| "sweep_rows unique (row # rows) = do {
     (row', d) \<leftarrow> sweep_chain unique row;
     (rows', deleted) \<leftarrow> sweep_rows unique rows;
     Some (row' # rows', d + deleted) }"

text \<open>A mismatch between the deleted nodes and the counter of dead nodes aborts the process.\<close>

definition sweep_subtable :: "DdManager \<Rightarrow> DdSubtable \<Rightarrow> (DdSubtable \<times> nat) option" where
  "sweep_subtable unique st =
     (if sub_dead st = 0 then Some (st, 0)
      else do {
        (rows, deleted) \<leftarrow> sweep_rows unique (nodelist st);
        if of_nat deleted \<noteq> sub_dead st then None
        else Some (st\<lparr>nodelist := rows, sub_keys := sub_keys st - of_nat deleted, sub_dead := 0\<rparr>,
                   deleted) })"

fun sweep_subtables :: "DdManager \<Rightarrow> DdSubtable list \<Rightarrow> (DdSubtable list \<times> nat) option" where
  "sweep_subtables unique [] = Some ([], 0)"
| "sweep_subtables unique (st # sts) = do {
     (st', d) \<leftarrow> sweep_subtable unique st;
     (sts', total) \<leftarrow> sweep_subtables unique sts;
     Some (st' # sts', d + total) }"

fun free_slots :: "DdManager \<Rightarrow> ptr list \<Rightarrow> ptr list option" where
  "free_slots unique [] = Some []"
| "free_slots unique (a # as) = do {
     n \<leftarrow> heap unique a;
     fs \<leftarrow> free_slots unique as;
     Some (if ref n = 0 then a # fs else fs) }"

definition gc_clear_cache :: "DdManager \<Rightarrow> DdManager option" where
  "gc_clear_cache unique = do {
     (cs, n) \<leftarrow> clear_entries unique (cache unique);
     Some (unique\<lparr>cache := cs, cachedeletions := cachedeletions unique + int n\<rparr>) }"

definition gc_sweep :: "DdManager \<Rightarrow> nat result" where
  "gc_sweep unique = do {
     (sts, total) \<leftarrow> sweep_subtables unique (take (dsize unique) (subtables unique));
     (cst, dc) \<leftarrow> sweep_subtable unique (constants unique);
     let totalDeleted = total + dc;
     if of_nat totalDeleted \<noteq> dead unique then None
     else Some (totalDeleted,
        unique\<lparr>subtables := sts @ drop (dsize unique) (subtables unique),
               constants := cst,
               keys := keys unique - of_nat totalDeleted, dead := 0\<rparr>) }"

definition gc_sweepZ :: "DdManager \<Rightarrow> nat result" where
  "gc_sweepZ unique = do {
     (sts, total) \<leftarrow> sweep_subtables unique (take (dsizeZ unique) (subtableZ unique));
     if of_nat total \<noteq> deadZ unique then None
     else Some (total,
        unique\<lparr>subtableZ := sts @ drop (dsizeZ unique) (subtableZ unique),
               keysZ := keysZ unique - of_nat total, deadZ := 0\<rparr>) }"

definition gc_free_list :: "DdManager \<Rightarrow> DdManager option" where
  "gc_free_list unique = do {
     fs \<leftarrow> free_slots unique (concat (map chunk_slots (memoryList unique)));
     if fs = [] then None else Some (unique\<lparr>nextFree := fs\<rparr>) }"

definition cuddGarbageCollect :: "bool \<Rightarrow> DdManager \<Rightarrow> nat result" where
  "cuddGarbageCollect clearCache unique = do {
     unique \<leftarrow> cuddClearDeathRow unique;
     if dead unique + deadZ unique = 0 then Some (0, unique)
     else if clearCache \<and> gcFrac unique = DD_GC_FRAC_LO \<and>
             slots unique \<le> looseUpTo unique \<and> stash unique
     then Some (0, unique\<lparr>minDead := frac_of_slots DD_GC_FRAC_HI (slots unique),
                          gcFrac := DD_GC_FRAC_HI\<rparr>)
     else do {
       let unique = unique\<lparr>garbageCollections := garbageCollections unique + 1\<rparr>;
       unique \<leftarrow> (if clearCache then gc_clear_cache unique else Some unique);
       (totalDeleted, unique) \<leftarrow> gc_sweep unique;
       (totalDeletedZ, unique) \<leftarrow> gc_sweepZ unique;
       unique \<leftarrow> gc_free_list unique;
       Some (totalDeleted + totalDeletedZ, unique) } }"

subsection \<open>Allocation of a node\<close>

definition fresh_node :: DdNode where
  "fresh_node = \<lparr>index = 0, ref = 0, type = Kids NULL NULL\<rparr>"

definition slice_chunk :: "ptr \<Rightarrow> DdManager \<Rightarrow> DdManager" where
  "slice_chunk mem unique = unique
     \<lparr>memused := memused unique + (of_nat DD_MEM_CHUNK + 1) * sizeof_DdNode,
      memoryList := mem # memoryList unique,
      heap := (\<lambda>a. if a \<in> set (chunk_slots mem) then Some fresh_node else heap unique a),
      nextFree := chunk_slots mem\<rparr>"

text \<open>
  A new block: on failure garbage is collected, then the reserve is given back and the
  allocation tried again; when that fails too, the handler of the application is called.
\<close>

definition alloc_chunk :: "DdManager \<Rightarrow> bool result" where
  "alloc_chunk unique = (
     let (mem, unique) = os_chunk unique in
     if mem \<noteq> NULL then Some (True, slice_chunk mem unique)
     else do {
       (collected, unique) \<leftarrow> cuddGarbageCollect True unique;
       if collected \<noteq> 0 then Some (True, unique)
       else do {
         (mem, unique) \<leftarrow> (if stash unique then do {
              unique \<leftarrow> cuddSlowTableGrowth (unique\<lparr>stash := False\<rparr>);
              Some (os_chunk unique) }
            else Some (NULL, unique));
         if mem = NULL then Some (False, (MMoutOfMemory unique)\<lparr>errorCode := CUDD_MEMORY_OUT\<rparr>)
         else Some (True, slice_chunk mem unique) } })"

definition take_free :: "DdManager \<Rightarrow> ptr result" where
  "take_free unique = (case nextFree unique of
      [] \<Rightarrow> None
    | node # rest \<Rightarrow> Some (node, unique\<lparr>allocated := allocated unique + 1, nextFree := rest\<rparr>))"

definition cuddAllocNode :: "DdManager \<Rightarrow> ptr result" where
  "cuddAllocNode unique =
     (if nextFree unique \<noteq> [] then take_free unique
      else if (keys unique - dead unique) + (keysZ unique - deadZ unique) > maxLive unique
      then Some (NULL, unique\<lparr>errorCode := CUDD_TOO_MANY_NODES\<rparr>)
      else let (late, unique) = time_expired unique in
        if late then Some (NULL, unique\<lparr>errorCode := CUDD_TIMEOUT_EXPIRED\<rparr>)
        else do {
          unique \<leftarrow> (if \<not> stash unique \<or> memused unique > maxmemhard unique
                     then map_option snd (cuddGarbageCollect True unique) else Some unique);
          if nextFree unique \<noteq> [] then take_free unique
          else if memused unique > maxmemhard unique
          then Some (NULL, unique\<lparr>errorCode := CUDD_MAX_MEM_EXCEEDED\<rparr>)
          else do {
            (ok, unique) \<leftarrow> alloc_chunk unique;
            if ok then take_free unique else Some (NULL, unique) } })"

subsection \<open>Growth of a subtable\<close>

fun split_chain :: "DdManager \<Rightarrow> nat \<Rightarrow> ptr list \<Rightarrow> (ptr list \<times> ptr list) option" where
  "split_chain unique s [] = Some ([], [])"
| "split_chain unique s (node # rest) = do {
     n \<leftarrow> heap unique node;
     T \<leftarrow> cuddT n;
     E \<leftarrow> cuddE n;
     (evens, odds) \<leftarrow> split_chain unique s rest;
     Some (if odd (ddHash T E s) then (evens, node # odds) else (node # evens, odds)) }"

fun split_rows :: "DdManager \<Rightarrow> nat \<Rightarrow> ptr list list \<Rightarrow> ptr list list option" where
  "split_rows unique s [] = Some []"
| "split_rows unique s (row # rows) = do {
     (evens, odds) \<leftarrow> split_chain unique s row;
     rows' \<leftarrow> split_rows unique s rows;
     Some (evens # odds # rows') }"

definition rehash_limits :: "DdManager \<Rightarrow> DdManager" where
  "rehash_limits unique =
     (if gcFrac unique = DD_GC_FRAC_HI \<and> slots unique > looseUpTo unique
      then unique\<lparr>gcFrac := DD_GC_FRAC_LO, minDead := frac_of_slots DD_GC_FRAC_LO (slots unique)\<rparr>
      else unique)"

definition grow_subtable :: "nat \<Rightarrow> DdManager \<Rightarrow> DdManager option" where
  "grow_subtable i unique = do {
     st \<leftarrow> nth_opt (subtables unique) i;
     let oldslots = sub_slots st;
     let slts = 2 * oldslots;
     let (got, unique) = os_alloc unique;
     if \<not> got then do {
       (_, unique) \<leftarrow> cuddGarbageCollect True unique;
       if stash unique then cuddSlowTableGrowth (unique\<lparr>stash := False\<rparr>) else Some unique }
     else if shift st = 0 then None
     else do {
       rows \<leftarrow> split_rows unique (shift st - 1) (nodelist st);
       ddFixLimits (unique
         \<lparr>subtables := (subtables unique)[i := st
            \<lparr>nodelist := rows, sub_slots := slts, shift := shift st - 1,
             sub_maxKeys := of_nat (slts * DD_MAX_SUBTABLE_DENSITY)\<rparr>],
          memused := memused unique + of_nat (slts - oldslots) * sizeof_DdNodePtr,
          slots := slots unique + of_nat (slts - oldslots)\<rparr>) } }"

definition cuddRehash :: "nat \<Rightarrow> DdManager \<Rightarrow> DdManager option" where
  "cuddRehash i unique = (
     let unique = rehash_limits unique in
     if gcFrac unique \<noteq> DD_GC_FRAC_MIN \<and> memused unique > maxmem unique
     then do {
       unique \<leftarrow> cuddShrinkDeathRow (unique
         \<lparr>gcFrac := DD_GC_FRAC_MIN, minDead := frac_of_slots DD_GC_FRAC_MIN (slots unique)\<rparr>);
       (collected, unique) \<leftarrow> cuddGarbageCollect True unique;
       if collected > 0 then Some unique else grow_subtable i unique }
     else grow_subtable i unique)"

subsection \<open>Lookup or insert\<close>

text \<open>
  A collision list is sorted by decreasing then child and, for equal then children, by
  decreasing else child. The search is two loops: it skips the nodes with a greater then
  child, then those with the same then child and a greater else child. The result is the part
  of the list that was skipped and the rest, where the node is found or inserted.
\<close>

fun skip_T :: "DdManager \<Rightarrow> ptr \<Rightarrow> ptr list \<Rightarrow> (ptr list \<times> ptr list) option" where
  "skip_T unique T [] = Some ([], [])"
| "skip_T unique T (looking # rest) = do {
     n \<leftarrow> heap unique looking;
     t \<leftarrow> cuddT n;
     if T < t then do {
       (before, after) \<leftarrow> skip_T unique T rest;
       Some (looking # before, after) }
     else Some ([], looking # rest) }"

fun skip_E :: "DdManager \<Rightarrow> ptr \<Rightarrow> ptr \<Rightarrow> ptr list \<Rightarrow> (ptr list \<times> ptr list) option" where
  "skip_E unique T E [] = Some ([], [])"
| "skip_E unique T E (looking # rest) = do {
     n \<leftarrow> heap unique looking;
     t \<leftarrow> cuddT n;
     e \<leftarrow> cuddE n;
     if T = t \<and> E < e then do {
       (before, after) \<leftarrow> skip_E unique T E rest;
       Some (looking # before, after) }
     else Some ([], looking # rest) }"

definition chain_search :: "DdManager \<Rightarrow> ptr \<Rightarrow> ptr \<Rightarrow> ptr list \<Rightarrow> (ptr list \<times> ptr list) option" where
  "chain_search unique T E chain = do {
     (before1, after) \<leftarrow> skip_T unique T chain;
     (before2, after) \<leftarrow> skip_E unique T E after;
     Some (before1 @ before2, after) }"

definition chain_hit :: "DdManager \<Rightarrow> ptr \<Rightarrow> ptr \<Rightarrow> ptr list \<Rightarrow> bool option" where
  "chain_hit unique T E after = (case after of [] \<Rightarrow> Some False
    | looking # _ \<Rightarrow> do {
        n \<leftarrow> heap unique looking;
        t \<leftarrow> cuddT n;
        e \<leftarrow> cuddE n;
        Some (T = t \<and> E = e) })"

text \<open>The insertion point of a pair of children in the subtable of a level.\<close>

definition find_place :: "DdManager \<Rightarrow> nat \<Rightarrow> ptr \<Rightarrow> ptr \<Rightarrow> (nat \<times> ptr list \<times> ptr list) option" where
  "find_place unique level T E = do {
     st \<leftarrow> nth_opt (subtables unique) level;
     let pos = ddHash T E (shift st);
     chain \<leftarrow> nth_opt (nodelist st) pos;
     (before, after) \<leftarrow> chain_search unique T E chain;
     Some (pos, before, after) }"

definition link_node :: "nat \<Rightarrow> nat \<Rightarrow> ptr list \<Rightarrow> DdManager \<Rightarrow> DdManager option" where
  "link_node level pos chain unique = do {
     st \<leftarrow> nth_opt (subtables unique) level;
     rows \<leftarrow> upd_opt (nodelist st) pos chain;
     Some (unique\<lparr>subtables := (subtables unique)[level := st\<lparr>nodelist := rows\<rparr>]\<rparr>) }"

definition bump_keys :: "nat \<Rightarrow> DdManager \<Rightarrow> DdManager option" where
  "bump_keys level unique = do {
     st \<leftarrow> nth_opt (subtables unique) level;
     Some (unique\<lparr>keys := keys unique + 1,
       subtables := (subtables unique)[level := st\<lparr>sub_keys := sub_keys st + 1\<rparr>]\<rparr>) }"

text \<open>
  A subtable over its density is collected or doubled before the insertion.
\<close>

definition too_many_dead :: "DdManager \<Rightarrow> DdSubtable \<Rightarrow> bool" where
  "too_many_dead unique st \<longleftrightarrow> gcEnabled unique \<and>
     (dead unique > minDead unique \<or>
      (dead unique > minDead unique div 2 \<and>
       (of_nat (unat (sub_dead st)) :: rat) > of_nat (unat (sub_keys st)) * (95 / 100)))"

definition make_room :: "nat \<Rightarrow> DdManager \<Rightarrow> bool result" where
  "make_room level unique = do {
     st \<leftarrow> nth_opt (subtables unique) level;
     if sub_keys st > sub_maxKeys st then
       (if too_many_dead unique st then
          let (late, unique) = time_expired unique in
          if late then Some (False, unique\<lparr>errorCode := CUDD_TIMEOUT_EXPIRED\<rparr>)
          else map_option (\<lambda>(_, unique). (True, unique)) (cuddGarbageCollect True unique)
        else map_option (\<lambda>unique. (True, unique)) (cuddRehash level unique))
     else Some (True, unique) }"

text \<open>
  The insertion proper: the place of the pair is computed before the node is allocated, and
  again when the allocation collected garbage.
\<close>

definition insert_node :: "DdHalfWord \<Rightarrow> nat \<Rightarrow> ptr \<Rightarrow> ptr \<Rightarrow> DdManager \<Rightarrow> ptr result" where
  "insert_node idx level T E unique = do {
     place \<leftarrow> find_place unique level T E;
     let gcNumber = garbageCollections unique;
     (looking, unique) \<leftarrow> cuddAllocNode unique;
     if looking = NULL then Some (NULL, unique)
     else do {
       unique \<leftarrow> bump_keys level unique;
       (pos, before, after) \<leftarrow>
         (if gcNumber \<noteq> garbageCollections unique then find_place unique level T E
          else Some place);
       n \<leftarrow> heap unique looking;
       let unique = put_node looking (n\<lparr>index := idx, type := Kids T E\<rparr>) unique;
       unique \<leftarrow> link_node level pos (before @ looking # after) unique;
       unique \<leftarrow> cuddRef T unique;
       unique \<leftarrow> cuddRef E unique;
       Some (looking, unique) } }"

definition reorder_due :: "DdManager \<Rightarrow> bool" where
  "reorder_due unique \<longleftrightarrow> autoDyn unique \<and>
     keys unique - (dead unique AND countDead unique) \<ge> nextDyn unique \<and>
     maxReorderings unique > 0"

definition uniqueInter_at :: "DdHalfWord \<Rightarrow> ptr \<Rightarrow> ptr \<Rightarrow> DdManager \<Rightarrow> ptr result" where
  "uniqueInter_at idx T E unique = do {
     level \<leftarrow> nth_opt (perm unique) (unat idx);
     (pos, before, after) \<leftarrow> find_place unique level T E;
     hit \<leftarrow> chain_hit unique T E after;
     if hit then do {
       let looking = hd after;
       n \<leftarrow> heap unique looking;
       unique \<leftarrow> (if ref n = 0 then cuddReclaim looking unique else Some unique);
       Some (looking, unique) }
     else if reorder_due unique then None
     else do {
       (ok, unique) \<leftarrow> make_room level unique;
       if ok then insert_node idx level T E unique else Some (NULL, unique) } }"

definition late_check :: "DdManager \<Rightarrow> bool \<times> DdManager" where
  "late_check unique =
     (if (of_nat (cacheMisses unique) :: uint32) AND 0x1ffff = 0 then time_expired unique
      else (False, unique))"

text \<open>
  \<open>uniqueInter_known\<close> is the function on an existing variable; \<open>ddResizeTable\<close> calls it for the
  variables it has just added.
\<close>

definition uniqueInter_known :: "nat \<Rightarrow> ptr \<Rightarrow> ptr \<Rightarrow> DdManager \<Rightarrow> ptr result" where
  "uniqueInter_known idx T E unique = (
     let (late, unique) = late_check unique in
     if late then Some (NULL, unique\<lparr>errorCode := CUDD_TIMEOUT_EXPIRED\<rparr>)
     else uniqueInter_at (of_nat idx) T E unique)"

subsection \<open>New variables\<close>

definition new_subtable :: "nat \<Rightarrow> DdSubtable" where
  "new_subtable numSlots =
     \<lparr>nodelist = replicate numSlots [], shift = 32 - cuddComputeFloorLog2 numSlots,
      sub_slots = numSlots, sub_keys = 0,
      sub_maxKeys = of_nat (numSlots * DD_MAX_SUBTABLE_DENSITY), sub_dead = 0\<rparr>"

fun easy_resize :: "nat list \<Rightarrow> DdManager \<Rightarrow> bool result" where
  "easy_resize [] unique = Some (True, unique)"
| "easy_resize (i # is) unique = (
     let (got, unique) = os_alloc unique in do {
       sts \<leftarrow> upd_opt (subtables unique) i (new_subtable (initSlots unique));
       p \<leftarrow> upd_opt (perm unique) i i;
       q \<leftarrow> upd_opt (invperm unique) i i;
       let unique = unique\<lparr>subtables := sts, perm := p, invperm := q\<rparr>;
       if got then easy_resize is unique
       else Some (False, (MMoutOfMemory unique)\<lparr>errorCode := CUDD_MEMORY_OUT\<rparr>) })"

fun os_allocs_all :: "nat \<Rightarrow> DdManager \<Rightarrow> bool \<times> DdManager" where
  "os_allocs_all 0 m = (True, m)"
| "os_allocs_all (Suc n) m = (let (got, m) = os_alloc m in if got then os_allocs_all n m else (False, m))"

definition sizeof_DdSubtable :: uint32 where
  "sizeof_DdSubtable = 48"

text \<open>The stack of the sifting routines must hold one entry per variable of either kind.\<close>

definition realloc_stack :: "nat \<Rightarrow> DdManager \<Rightarrow> bool \<times> DdManager" where
  "realloc_stack newsize unique =
     (if newsize > maxSizeZ unique then
        let (got, unique) = os_alloc unique in
        if got then (True, unique\<lparr>stackSize := newsize + 1,
          memused := memused unique +
            (of_nat newsize - of_nat (max (maxSize unique) (maxSizeZ unique))) * sizeof_DdNodePtr\<rparr>)
        else (False, unique\<lparr>stackSize := 0\<rparr>)
      else (True, unique))"

text \<open>
  The tables are reallocated with \<open>newsize\<close> places and the old contents copied: \<open>newsize\<close>
  must not be below the number of variables, or the copy writes outside the new arrays.
\<close>

definition realloc_tables :: "nat \<Rightarrow> nat \<Rightarrow> nat list \<Rightarrow> DdManager \<Rightarrow> bool result" where
  "realloc_tables newsize newvars_upto new unique = (
     let (ok, unique) = os_allocs_all 4 unique in
     if \<not> ok then Some (False, (MMoutOfMemory unique)\<lparr>errorCode := CUDD_MEMORY_OUT\<rparr>)
     else let numSlots = initSlots unique;
              grown = of_nat newsize - of_nat (maxSize unique) :: uint32;
              (stackOk, unique) = realloc_stack newsize (unique\<lparr>memused := memused unique + grown *
                ((of_nat numSlots + 1) * sizeof_DdNodePtr + 8 + sizeof_DdSubtable)\<rparr>)
          in if \<not> stackOk then Some (False, (MMoutOfMemory unique)\<lparr>errorCode := CUDD_MEMORY_OUT\<rparr>)
          else if newsize < newvars_upto then None
          else let (ok, unique) = os_allocs_all (length new) unique in
          if \<not> ok then Some (False, (MMoutOfMemory unique)\<lparr>errorCode := CUDD_MEMORY_OUT\<rparr>)
          else let n = dsize unique; pad = newsize - n - length new in
          Some (True, unique
            \<lparr>subtables := take n (subtables unique) @ map (\<lambda>_. new_subtable numSlots) new
               @ replicate pad (new_subtable 0),
             vars := take n (vars unique) @ replicate (newsize - n) NULL,
             perm := take n (perm unique) @ new @ replicate pad 0,
             invperm := take n (invperm unique) @ new @ replicate pad 0,
             maxSize := newsize\<rparr>))"

text \<open>The projection functions of the new variables, and the retreat when one fails.\<close>

fun drop_vars :: "nat list \<Rightarrow> DdManager \<Rightarrow> DdManager option" where
  "drop_vars [] unique = Some unique"
| "drop_vars (j # js) unique = do {
     v \<leftarrow> nth_opt (vars unique) j;
     unique \<leftarrow> Cudd_IterDerefBdd v unique;
     vs \<leftarrow> upd_opt (vars unique) j NULL;
     drop_vars js (unique\<lparr>nextFree := v # nextFree unique, vars := vs\<rparr>) }"

fun create_vars :: "nat list \<Rightarrow> DdManager \<Rightarrow> bool result" where
  "create_vars [] unique = Some (True, unique)"
| "create_vars (i # is) unique = do {
     (v, unique) \<leftarrow> uniqueInter_known i (DD_ONE unique) (Cudd_Not (DD_ONE unique)) unique;
     vs \<leftarrow> upd_opt (vars unique) i v;
     let unique = unique\<lparr>vars := vs\<rparr>;
     if v = NULL then Some (False, unique)
     else do {
       unique \<leftarrow> cuddRef v unique;
       create_vars is unique } }"

text \<open>The tail of \<open>ddResizeTable\<close>: the new size, the projection functions, and the retreat.\<close>

definition add_vars :: "nat list \<Rightarrow> nat \<Rightarrow> nat \<Rightarrow> DdManager \<Rightarrow> bool result" where
  "add_vars new oldsize numSlots unique = do {
     unique \<leftarrow> ddFixLimits (unique\<lparr>dsize := oldsize + length new,
       slots := slots unique + of_nat (length new * numSlots)\<rparr>);
     let reorderSave = autoDyn unique;
     (made, unique) \<leftarrow> create_vars new (unique\<lparr>autoDyn := False\<rparr>);
     let unique = unique\<lparr>autoDyn := reorderSave\<rparr>;
     if made then Some (True, unique)
     else do {
       unique \<leftarrow> drop_vars (takeWhile (\<lambda>j. vars unique ! j \<noteq> NULL) new) unique;
       unique \<leftarrow> ddFixLimits (unique\<lparr>dsize := oldsize,
         slots := slots unique - of_nat (length new * numSlots)\<rparr>);
       Some (False, unique) } }"

definition ddResizeTable :: "int \<Rightarrow> nat \<Rightarrow> DdManager \<Rightarrow> bool result" where
  "ddResizeTable idx amount unique = (
     let oldsize = dsize unique; numSlots = initSlots unique;
         new = (if idx \<ge> 0 then [oldsize ..< nat idx + 1] else []) in do {
       (ok, unique) \<leftarrow>
         (if idx \<ge> 0 \<and> nat idx < maxSize unique then easy_resize new unique
          else realloc_tables (if idx < 0 then amount else nat idx + amount)
                 (oldsize + length new) new unique);
       if \<not> ok then Some (False, unique)
       else if idx \<ge> 0 then add_vars new oldsize numSlots unique
       else Some (True, unique) })"

definition cuddUniqueInter :: "nat \<Rightarrow> ptr \<Rightarrow> ptr \<Rightarrow> DdManager \<Rightarrow> ptr result" where
  "cuddUniqueInter idx T E unique = (
     let (late, unique) = late_check unique in
     if late then Some (NULL, unique\<lparr>errorCode := CUDD_TIMEOUT_EXPIRED\<rparr>)
     else if idx \<ge> dsize unique then do {
       (ok, unique) \<leftarrow> ddResizeTable (int idx) (max DD_DEFAULT_RESIZE (dsize unique div 20)) unique;
       if ok then uniqueInter_at (of_nat idx) T E unique else Some (NULL, unique) }
     else uniqueInter_at (of_nat idx) T E unique)"

definition Cudd_Reserve :: "int \<Rightarrow> DdManager \<Rightarrow> bool result" where
  "Cudd_Reserve amount manager =
     (if amount < 0 then Some (False, manager)
      else if int (dsize manager) + amount \<ge> 2 ^ 31 then Some (False, manager)
      else if amount \<le> int (maxSize manager) - int (dsize manager) then Some (True, manager)
      else ddResizeTable (-1) (nat amount) manager)"

end
