(* ===== verification/CuddGC.thy ===== *)
theory CuddGC
  imports CuddTable
begin

unbundle bit_operations_syntax

text \<open>
  The garbage collector keeps the invariant: it never aborts, it removes exactly the dead nodes
  from the unique table, it drops the entries of the computed table that name one of them, and
  it leaves a free list of slots that no node uses.
\<close>

subsection \<open>The nodes of a level\<close>

lemma chain_distinct: "sorted_wrt (chain_gt m) c \<Longrightarrow> distinct c"
proof (induction c)
  case (Cons p c)
  have "\<not> chain_gt m p p" by (simp add: chain_gt_def)
  then show ?case using Cons by auto
qed simp

lemma distinct_concat_nth:
  assumes "\<And>j. j < length xss \<Longrightarrow> distinct (xss ! j)"
    and "\<And>i j p. i < length xss \<Longrightarrow> j < length xss \<Longrightarrow> p \<in> set (xss ! i) \<Longrightarrow> p \<in> set (xss ! j) \<Longrightarrow> i = j"
  shows "distinct (concat xss)"
  using assms
proof (induction xss)
  case (Cons xs xss)
  have "distinct (concat xss)"
  proof (rule Cons.IH)
    show "distinct (xss ! j)" if "j < length xss" for j
      using Cons.prems(1) [of "Suc j"] that by simp
    show "i = j" if "i < length xss" "j < length xss" "p \<in> set (xss ! i)" "p \<in> set (xss ! j)" for i j p
      using Cons.prems(2) [of "Suc i" "Suc j" p] that by simp
  qed
  moreover have "distinct xs" using Cons.prems(1) [of 0] by simp
  moreover have "set xs \<inter> set (concat xss) = {}"
  proof (rule ccontr)
    assume "set xs \<inter> set (concat xss) \<noteq> {}"
    then obtain p j where "p \<in> set xs" "j < length xss" "p \<in> set (xss ! j)"
      by (fastforce simp: in_set_conv_nth)
    then show False using Cons.prems(2) [of 0 "Suc j" p] by simp
  qed
  ultimately show ?case by simp
qed simp

lemma level_nodes:
  assumes "store_ok m" "l < dsize m"
  shows "set (concat (trows m ! l)) = on_level m (tabnodes m) l" "distinct (concat (trows m ! l))"
proof -
  have s: "set (concat (trows m ! l)) \<subseteq> on_level m (tabnodes m) l"
  proof
    fix p assume "p \<in> set (concat (trows m ! l))"
    then obtain c where "c \<in> set (trows m ! l)" "p \<in> set c" by auto
    then obtain j where j: "j < length (trows m ! l)" "p \<in> set (trows m ! l ! j)"
      by (metis in_set_conv_nth)
    then show "p \<in> on_level m (tabnodes m) l"
      using tabnodesI [OF assms j] chain_lev(1) [OF assms j] by (simp add: on_level_def)
  qed
  moreover have "on_level m (tabnodes m) l \<subseteq> set (concat (trows m ! l))"
  proof
    fix p assume "p \<in> on_level m (tabnodes m) l"
    then have p: "p \<in> tabnodes m" "lev m p = l" by (simp_all add: on_level_def)
    obtain l' j where j: "l' < dsize m" "j < length (trows m ! l')" "p \<in> set (trows m ! l' ! j)"
      using tabnodesE [OF assms(1) p(1)] .
    then have "l' = l" using chain_lev(1) [OF assms(1) j] p(2) by simp
    then show "p \<in> set (concat (trows m ! l))" using j(2,3) by (auto intro: nth_mem)
  qed
  ultimately show "set (concat (trows m ! l)) = on_level m (tabnodes m) l" by blast
  show "distinct (concat (trows m ! l))"
  proof (rule distinct_concat_nth)
    show "distinct (trows m ! l ! j)" if "j < length (trows m ! l)" for j
      using table_okD(4) [OF assms that] by (intro chain_distinct [of m]) (simp add: chain_ok_def)
    show "i = j" if "i < length (trows m ! l)" "j < length (trows m ! l)" "p \<in> set (trows m ! l ! i)"
      "p \<in> set (trows m ! l ! j)" for i j p
      using chainE(2) [OF assms that(1,3)] chainE(2) [OF assms that(2,4)] by simp
  qed
qed

lemma card_on_level:
  assumes "store_ok m" "l < dsize m" "D \<subseteq> tabnodes m"
  shows "card (on_level m D l) = length (filter (\<lambda>p. p \<in> D) (concat (trows m ! l)))"
proof -
  have "on_level m D l = set (filter (\<lambda>p. p \<in> D) (concat (trows m ! l)))"
    using level_nodes(1) [OF assms(1,2)] assms(3) by (auto simp: on_level_def)
  moreover have "distinct (filter (\<lambda>p. p \<in> D) (concat (trows m ! l)))"
    using level_nodes(2) [OF assms(1,2)] by (rule distinct_filter)
  ultimately show ?thesis by (simp only: distinct_card)
qed

lemma card_levels:
  assumes "store_ok m" "D \<subseteq> tabnodes m"
  shows "card D = (\<Sum>l < dsize m. card (on_level m D l))"
proof -
  have "D = (\<Union>l < dsize m. on_level m D l)"
    using tabnode(4) [OF assms(1)] assms(2) by (auto simp: on_level_def)
  also have "card \<dots> = (\<Sum>l < dsize m. card (on_level m D l))"
    using finite_subset [OF assms(2) finite_tabnodes]
    by (intro card_UN_disjoint) (auto simp: on_level_def)
  finally show ?thesis .
qed

subsection \<open>Sweeping\<close>

abbreviation alive :: "DdManager \<Rightarrow> ptr \<Rightarrow> bool" where
  "alive m p \<equiv> 0 < refc m p"

lemma sweep_chain_ok:
  assumes "\<forall>p \<in> set c. heap m p \<noteq> None"
  shows "sweep_chain m c = Some (filter (alive m) c, length (filter (\<lambda>p. \<not> alive m p) c))"
  using assms by (induction c) (auto simp: refc_def unat_gt_0 unat_eq_0)

lemma sweep_rows_ok:
  assumes "\<forall>p \<in> set (concat rs). heap m p \<noteq> None"
  shows "sweep_rows m rs = Some (map (filter (alive m)) rs, length (filter (\<lambda>p. \<not> alive m p) (concat rs)))"
  using assms by (induction rs) (auto simp: sweep_chain_ok)

definition swept :: "DdManager \<Rightarrow> DdSubtable \<Rightarrow> DdSubtable" where
  "swept m st = st\<lparr>nodelist := map (filter (alive m)) (nodelist st),
     sub_keys := sub_keys st - of_nat (length (filter (\<lambda>p. \<not> alive m p) (concat (nodelist st)))),
     sub_dead := 0\<rparr>"

lemma swept_cong: "refc m' = refc m \<Longrightarrow> swept m' = swept m"
  by (simp add: swept_def fun_eq_iff)

text \<open>
  The counter of a subtable decides whether it is swept; it is exact, so that either way the
  dead nodes are gone.
\<close>

lemma sweep_subtable_ok:
  assumes "\<forall>p \<in> set (concat (nodelist st)). heap m p \<noteq> None"
    and "sub_dead st = of_nat k" "k = length (filter (\<lambda>p. \<not> alive m p) (concat (nodelist st)))"
    and "k < 2 ^ 32"
  shows "sweep_subtable m st = Some (swept m st, k)"
proof (cases "k = 0")
  case True
  then have a: "\<forall>p \<in> set (concat (nodelist st)). alive m p"
    using assms(3) by (simp add: filter_empty_conv)
  then have "map (filter (alive m)) (nodelist st) = nodelist st"
    by (intro map_idI filter_True) auto
  then have "swept m st = st" using True assms(2,3) by (simp add: swept_def)
  then show ?thesis using True assms(2) by (simp add: sweep_subtable_def)
next
  case False
  have "unat (sub_dead st) = k" using assms(2,4) by (simp add: unat_of_nat)
  then have "sub_dead st \<noteq> 0" using False by auto
  then show ?thesis
    using assms by (simp add: sweep_subtable_def sweep_rows_ok swept_def)
qed

lemma sweep_subtables_ok:
  assumes "\<And>i. i < length sts \<Longrightarrow> sweep_subtable m (sts ! i) = Some (g (sts ! i), k i)"
  shows "sweep_subtables m sts = Some (map g sts, \<Sum>i < length sts. k i)"
  using assms
proof (induction sts arbitrary: k)
  case (Cons st sts)
  have "sweep_subtables m sts = Some (map g sts, \<Sum>i < length sts. k (Suc i))"
    by (rule Cons.IH) (use Cons.prems [of "Suc _"] in simp)
  then show ?case using Cons.prems [of 0] by (simp add: sum.lessThan_Suc_shift del: sum.lessThan_Suc)
qed simp

lemma dset_not_alive: "p \<in> tabnodes m \<Longrightarrow> p \<in> dset {} m \<longleftrightarrow> \<not> alive m p"
  by (simp add: dset_iff)

lemma null_not_tab: "store_ok m \<Longrightarrow> D \<subseteq> tabnodes m \<Longrightarrow> NULL \<notin> D"
  using nodeD(2) by blast

lemma dead_of_level:
  assumes "store_ok m" "l < dsize m"
  shows "card (on_level m (dset {} m) l) = length (filter (\<lambda>p. \<not> alive m p) (concat (trows m ! l)))"
    "card (on_level m (dset {} m) l) < 2 ^ 32"
proof -
  have "filter (\<lambda>p. p \<in> dset {} m) (concat (trows m ! l)) = filter (\<lambda>p. \<not> alive m p) (concat (trows m ! l))"
    using level_nodes(1) [OF assms] dset_not_alive
    by (intro filter_cong refl) (auto simp: on_level_def)
  then show "card (on_level m (dset {} m) l) = length (filter (\<lambda>p. \<not> alive m p) (concat (trows m ! l)))"
    using card_on_level [OF assms dset_tab, of "{}"] by simp
  show "card (on_level m (dset {} m) l) < 2 ^ 32"
    by (rule card_ptrs_less) (use null_not_tab [OF assms(1) dset_tab, of "{}"] in \<open>auto simp: on_level_def\<close>)
qed

lemma gc_sweep_ok:
  assumes "store_ok m" "deads_ok {} m"
  shows "gc_sweep m = Some (card (dset {} m),
    m\<lparr>subtables := map (swept m) (take (dsize m) (subtables m)) @ drop (dsize m) (subtables m),
      keys := keys m - of_nat (card (dset {} m)), dead := 0\<rparr>)"
proof -
  let ?sts = "take (dsize m) (subtables m)"
  have n: "dsize m \<le> length (subtables m)" using order_okD(1) [OF assms(1)] .
  have len: "length ?sts = dsize m" using n by simp
  have r: "nodelist (?sts ! l) = trows m ! l" if "l < dsize m" for l
    using rows_nth [OF assms(1) that] that by simp
  have heap: "heap m p \<noteq> None" if "p \<in> tabnodes m" for p
    using nodes_heap [OF assms(1) tab_nodes [OF that]] by blast
  have k: "sweep_subtable m (?sts ! l) = Some (swept m (?sts ! l), card (on_level m (dset {} m) l))"
    if l: "l < dsize m" for l
  proof (rule sweep_subtable_ok)
    show "\<forall>p \<in> set (concat (nodelist (?sts ! l))). heap m p \<noteq> None"
      using level_nodes(1) [OF assms(1) l] heap unfolding r [OF l] by (auto simp: on_level_def)
    show "sub_dead (?sts ! l) = of_nat (card (on_level m (dset {} m) l))"
      using assms(2) l by (simp add: deads_ok_def)
  qed (use dead_of_level [OF assms(1) l] r [OF l] in simp_all)
  have "sweep_subtables m ?sts = Some (map (swept m) ?sts, \<Sum>l < dsize m. card (on_level m (dset {} m) l))"
    using sweep_subtables_ok [of ?sts m "swept m" "\<lambda>l. card (on_level m (dset {} m) l)"] k
    unfolding len by blast
  then have "sweep_subtables m ?sts = Some (map (swept m) ?sts, card (dset {} m))"
    using card_levels [OF assms(1) dset_tab, of "{}"] by simp
  moreover have "sweep_subtable m (constants m) = Some (constants m, 0)"
    using assms(2) by (simp add: sweep_subtable_def deads_ok_def)
  moreover have "(of_nat (card (dset {} m)) :: uint32) = dead m"
    using assms(2) by (simp add: deads_ok_def)
  moreover have "constants m = constants (m\<lparr>subtables := s\<rparr>)" for s by simp
  ultimately show ?thesis by (simp add: gc_sweep_def Let_def)
qed

subsection \<open>The table after a sweep\<close>

text \<open>A table without its dead nodes is well formed: live nodes have live children.\<close>

definition sweeps :: "DdManager \<Rightarrow> DdManager \<Rightarrow> bool" where
  "sweeps m m' \<longleftrightarrow> cont m' = cont m \<and> trows m' = map (map (filter (alive m))) (trows m) \<and>
     tshifts m' = tshifts m \<and> order m' = order m \<and> stackSize m' = stackSize m \<and>
     length (subtables m') = length (subtables m)"

lemma sweep_store:
  assumes "store_ok m" "refs_ok A {#} {} m" "sweeps m m'"
  shows "tabnodes m' = live {} m" "store_ok m'"
    "p \<in> nodes m \<Longrightarrow> alive m p \<Longrightarrow> p \<in> nodes m'"
    "e \<in> edges m' \<Longrightarrow> sem m' env e = sem m env e"
    "lev m' = lev m" "kT m' = kT m" "kE m' = kE m" "nodes m' \<subseteq> nodes m" "DD_ONE m' = DD_ONE m"
proof -
  have sw: "cont m' = cont m" "trows m' = map (map (filter (alive m))) (trows m)" "tshifts m' = tshifts m"
    "order m' = order m" "stackSize m' = stackSize m" "length (subtables m') = length (subtables m)"
    using assms(3) by (simp_all add: sweeps_def)
  note o = orderD [OF sw(4)]
  show "DD_ONE m' = DD_ONE m" by (rule o(4))
  show t: "tabnodes m' = live {} m"
    unfolding live_iff set_eq_iff tabnodes_def sw(2) by (auto; blast)
  show k: "kT m' = kT m" "kE m' = kE m" and l: "lev m' = lev m"
    by (simp_all add: fun_eq_iff kT_def kE_def lev_def nidx_def sw(1) o)
  have sub: "tabnodes m' \<subseteq> tabnodes m" by (auto simp: t live_iff)
  then show n: "nodes m' \<subseteq> nodes m" by (auto simp: nodes_def o)
  show keep: "p \<in> nodes m \<Longrightarrow> alive m p \<Longrightarrow> p \<in> nodes m'" for p
    by (auto simp: nodes_def t live_iff o)
  have lr: "length (trows m) = dsize m" by (rule length_rows [OF assms(1)])
  have ord: "order_ok m'"
    using assms(1) by (simp add: store_ok_def order_ok_def o sw(5,6))
  have cg: "chain_gt m' = chain_gt m" by (simp add: fun_eq_iff chain_gt_def k)
  have "table_ok m'"
    unfolding table_ok_def
  proof (intro allI impI conjI)
    fix l assume "l < dsize m'"
    then have l: "l < dsize m" by (simp add: o)
    note tk = table_okD [OF assms(1) l]
    have r: "trows m' ! l = map (filter (alive m)) (trows m ! l)" using l lr by (simp add: sw(2))
    show "0 < tshifts m' ! l" "tshifts m' ! l < 32" using tk by (simp_all add: sw(3))
    show "length (trows m' ! l) = 2 ^ (32 - tshifts m' ! l)" using tk by (simp add: sw(3) r)
    show "chain_ok m' l j (trows m' ! l ! j)" if "j < length (trows m' ! l)" for j
      using tk(4) [of j] that unfolding chain_ok_def cg
      by (auto simp: r sw(1,3) o intro: sorted_wrt_filter)
  qed
  moreover have "one_ok m'" using assms(1) by (simp add: store_ok_def one_ok_def o sw(1))
  moreover have "node_ok m' p" if "p \<in> tabnodes m'" for p
  proof -
    have p: "p \<in> live {} m" using that by (simp add: t)
    then have p': "p \<in> tabnodes m" by (simp add: live_iff)
    have "node_ok m p" using assms(1) p' by (simp add: store_ok_def)
    then show ?thesis
      using keep live_kids [OF assms(1,2) p] by (simp add: node_ok_def k l)
  qed
  ultimately show so: "store_ok m'" using ord by (simp add: store_ok_def)
  show "sem m' env e = sem m env e" if "e \<in> edges m'"
    by (rule sym, rule sem_grow [OF so assms(1) _ _ that])
      (use n sw(1,4) in auto)
qed

text \<open>The computed table after the entries with dead nodes are dropped.\<close>

definition entry_in :: "ptr set \<Rightarrow> DdCache \<Rightarrow> bool" where
  "entry_in K c \<longleftrightarrow> cuddClean (c_f c) \<in> K \<and> cuddClean (c_g c) \<in> K \<and>
     (c_f c AND 2 \<noteq> 0 \<longrightarrow> Cudd_Regular (c_h c) \<in> K) \<and>
     (c_data c \<noteq> DD_NON_CONSTANT \<longrightarrow> Cudd_Regular (c_data c) \<in> K)"

abbreviation entry_alive :: "DdManager \<Rightarrow> DdCache \<Rightarrow> bool" where
  "entry_alive m \<equiv> entry_in {p. alive m p}"

lemma ref_is_0_ok: "store_ok m \<Longrightarrow> p \<in> nodes m \<Longrightarrow> ref_is_0 m p = Some (\<not> alive m p)"
  by (rule nodes_heap [of m p]) (auto simp: ref_is_0_def refc_def unat_gt_0 unat_eq_0)

lemma entry_dead_ok:
  assumes "store_ok m" "cuddClean (c_f c) \<in> nodes m" "cuddClean (c_g c) \<in> nodes m"
    and "c_f c AND 2 \<noteq> 0 \<Longrightarrow> Cudd_Regular (c_h c) \<in> nodes m"
    and "c_data c \<noteq> DD_NON_CONSTANT \<Longrightarrow> Cudd_Regular (c_data c) \<in> nodes m"
  shows "entry_dead m c = Some (\<not> entry_alive m c)"
  using assms ref_is_0_ok [OF assms(1)]
  by (cases "c_f c AND 2 = 0"; cases "c_data c = DD_NON_CONSTANT") (auto simp: entry_dead_def entry_in_def)

lemma edge_clean: "store_ok m \<Longrightarrow> e \<in> edges m \<Longrightarrow> cuddClean e = Cudd_Regular e \<and> cuddClean e \<in> nodes m"
  using edge_low [of m e] by (simp add: cuddClean_def edges_def)

lemma and_2_of_14: "(w :: ptr) AND 14 = 0 \<Longrightarrow> w AND 2 = 0"
proof -
  assume "w AND 14 = 0"
  then have "w AND (14 AND 2) = 0" by (simp only: flip: and.assoc) simp
  then show ?thesis by simp
qed

lemma const_not_edge: "store_ok m \<Longrightarrow> DD_NON_CONSTANT \<notin> edges m"
proof
  assume "store_ok m" "DD_NON_CONSTANT \<in> edges m"
  moreover have "Cudd_Regular 1 = 0" by (simp add: Cudd_Regular_def)
  ultimately show False using nodes_nonnull [of m 0] by (auto simp: edges_def DD_NON_CONSTANT_def)
qed

text \<open>The operands of an entry of three operands, read back from the packed fields.\<close>

lemma entry3_operands:
  assumes "store_ok m" "opr \<in> op3_tags" "f \<in> edges m" "g \<in> edges m" "op3_ok m opr f g h r"
  shows "cuddClean (pack_f opr f) = Cudd_Regular f" "cuddClean (pack_g opr g) = Cudd_Regular g"
    "pack_f opr f AND 2 \<noteq> 0" "r = DD_NON_CONSTANT \<or> r \<in> edges m"
proof -
  note lf = edge_low [OF assms(1,3)] and lg = edge_low [OF assms(1,4)]
  note b = pack_bits [OF assms(2) lf [THEN conjunct1]] pack_bits [OF assms(2) lg [THEN conjunct1]]
  show "cuddClean (pack_f opr f) = Cudd_Regular f" "cuddClean (pack_g opr g) = Cudd_Regular g"
    using b lf lg by (simp_all add: cuddClean_def)
  have "pack_f opr f AND 2 = (pack_f opr f AND 14) AND 2" by (simp only: and.assoc) simp
  then show "pack_f opr f AND 2 \<noteq> 0" using op3_tag_low [OF assms(2)] unfolding b(2) by simp
  show "r = DD_NON_CONSTANT \<or> r \<in> edges m"
    using assms(5) one_edges [OF assms(1)] by (auto simp: op3_ok_def itec_data_def)
qed

lemma entry_nodes:
  assumes "store_ok m" "entry_ok m c" "c_data c \<noteq> NULL"
  shows "entry_in (nodes m) c"
proof -
  consider "entry2_ok m c" | "entry3_ok m c" using assms(2,3) by (auto simp: entry_ok_def)
  then show ?thesis
  proof cases
    case 1
    then have e: "c_f c \<in> edges m" "c_g c \<in> edges m" "c_data c \<in> edges m" by (simp_all add: entry2_ok_def)
    then show ?thesis
      using edge_clean [OF assms(1)] edge_low [OF assms(1) e(1)] and_2_of_14
      by (simp add: entry_in_def edges_def)
  next
    case 2
    then obtain opr f g where e: "opr \<in> op3_tags" "f \<in> edges m" "g \<in> edges m" "c_f c = pack_f opr f"
      "c_g c = pack_g opr g" "op3_ok m opr f g (c_h c) (c_data c)" "c_h c \<in> edges m" by (auto simp: entry3_ok_def)
    then show ?thesis using entry3_operands [OF assms(1) e(1-3,6)] by (auto simp: entry_in_def edges_def)
  qed
qed

lemma clear_entries_ok:
  assumes "store_ok m" "\<forall>c \<in> set cs. entry_ok m c"
  shows "\<exists>cs' n. clear_entries m cs = Some (cs', n) \<and> length cs' = length cs \<and>
    (\<forall>c \<in> set cs'. c_data c \<noteq> NULL \<longrightarrow> entry_ok m c \<and> entry_alive m c)"
  using assms(2)
proof (induction cs)
  case Nil
  then show ?case by simp
next
  case (Cons c cs)
  then obtain cs' n where cs: "clear_entries m cs = Some (cs', n)" "length cs' = length cs"
    "\<forall>c \<in> set cs'. c_data c \<noteq> NULL \<longrightarrow> entry_ok m c \<and> entry_alive m c" by auto
  show ?case
  proof (cases "c_data c = NULL")
    case True
    then show ?thesis using cs by simp
  next
    case False
    have e: "entry_ok m c" using Cons.prems by simp
    have "entry_dead m c = Some (\<not> entry_alive m c)"
      by (rule entry_dead_ok [OF assms(1)])
        (use entry_nodes [OF assms(1) e False] in \<open>auto simp: entry_in_def\<close>)
    then show ?thesis using cs False e by auto
  qed
qed

text \<open>
  An entry stays true when its diagrams stay in the table with their functions. This is used
  for the nodes that survive a collection and for a table that grows.
\<close>

lemma entry_transfer:
  assumes "store_ok m" "store_ok m'" "DD_ONE m' = DD_ONE m"
    and kept: "\<And>e. e \<in> edges m \<Longrightarrow> Cudd_Regular e \<in> K \<Longrightarrow>
      e \<in> edges m' \<and> (\<forall>env. sem m' env e = sem m env e) \<and> elev m' e = elev m e"
    and "entry_ok m c" "c_data c \<noteq> NULL" "entry_in K c"
  shows "entry_ok m' c"
proof -
  have d: "c_data c \<in> edges m' \<and> (\<forall>env. sem m' env (c_data c) = sem m env (c_data c)) \<and>
      elev m' (c_data c) = elev m (c_data c)" if "c_data c \<in> edges m"
    using kept [OF that] const_not_edge [OF assms(1)] assms(7) that by (auto simp: entry_in_def)
  consider "entry2_ok m c" | "entry3_ok m c" using assms(5,6) by (auto simp: entry_ok_def)
  then show ?thesis
  proof cases
    case 1
    then have e: "c_f c \<in> edges m" "c_g c \<in> edges m" "c_data c \<in> edges m"
      by (simp_all add: entry2_ok_def)
    then have "Cudd_Regular (c_f c) \<in> K" "Cudd_Regular (c_g c) \<in> K"
      using assms(7) edge_clean [OF assms(1)] by (auto simp: entry_in_def)
    then have "entry2_ok m' c"
      using 1 d kept [OF e(1)] kept [OF e(2)] by (simp add: entry_defs assms(3))
    then show ?thesis by (simp add: entry_ok_def)
  next
    case 2
    then obtain opr f g where fg: "opr \<in> op3_tags" "f \<in> edges m" "g \<in> edges m" "c_f c = pack_f opr f"
      "c_g c = pack_g opr g" "op3_ok m opr f g (c_h c) (c_data c)" "c_h c \<in> edges m" by (auto simp: entry3_ok_def)
    note op = entry3_operands [OF assms(1) fg(1-3,6)]
    have "Cudd_Regular f \<in> K" "Cudd_Regular g \<in> K" "Cudd_Regular (c_h c) \<in> K"
      using assms(7) op(1-3) fg(4,5) by (auto simp: entry_in_def)
    note k = kept [OF fg(2) this(1)] kept [OF fg(3) this(2)] kept [OF fg(7) this(3)]
    have o: "DD_ONE m \<in> edges m" by (rule one_edges [OF assms(1)])
    have it: "ite_fun m' f g (c_h c) = ite_fun m f g (c_h c)" using k by (simp add: ite_fun_def fun_eq_iff)
    have "op3_ok m' opr f g (c_h c) (c_data c)"
    proof (cases "c_data c \<in> edges m")
      case True
      then show ?thesis using fg(6) k d [OF True] it by (simp add: entry_defs assms(3))
    next
      case False
      then have t: "opr = DD_BDD_ITE_CONSTANT_TAG" using fg(6) unfolding op3_ok_def by metis
      then have "itec_data m f g (c_h c) (c_data c)" using fg(6) unfolding op3_ok_def by metis
      then have "c_data c = DD_NON_CONSTANT \<and> (\<forall>b. \<exists>env. ite_fun m f g (c_h c) env \<noteq> b)"
        using False o unfolding itec_data_def by auto
      then have "itec_data m' f g (c_h c) (c_data c)" unfolding itec_data_def it by blast
      then show ?thesis unfolding op3_ok_def t by (simp add: tag_defs)
    qed
    moreover have "f \<in> edges m'" "g \<in> edges m'" "c_h c \<in> edges m'" using k by blast+
    ultimately have "entry3_ok m' c" unfolding entry3_ok_def using fg(1,4,5) by blast
    then show ?thesis by (simp add: entry_ok_def)
  qed
qed

lemma entry_sweep:
  assumes "store_ok m" "refs_ok A {#} {} m" "sweeps m m'"
    and "entry_ok m c" "c_data c \<noteq> NULL" "entry_alive m c"
  shows "entry_ok m' c"
proof -
  note sw = sweep_store [OF assms(1-3)]
  show ?thesis
  proof (rule entry_transfer [OF assms(1) sw(2,9) _ assms(4-6)])
    fix e assume "e \<in> edges m" "Cudd_Regular e \<in> {p. alive m p}"
    then have "e \<in> edges m'" using sw(3) by (simp add: edges_def)
    then show "e \<in> edges m' \<and> (\<forall>env. sem m' env e = sem m env e) \<and> elev m' e = elev m e"
      using sw(4) by (simp add: elev_def sw(5))
  qed
qed

lemma cache_ok_grow:
  assumes "store_ok m" "store_ok m'" "order m' = order m" "cache_ok m"
    and "\<And>p. p \<in> nodes m \<Longrightarrow> p \<in> nodes m' \<and> cont m' p = cont m p"
    and "cache m' = cache m" "cacheShift m' = cacheShift m" "cacheSlots m' = cacheSlots m"
      "maxCacheHard m' = maxCacheHard m" "cacheSlack m' = cacheSlack m"
  shows "cache_ok m'"
proof -
  have "entry_ok m' c" if c: "c \<in> set (cache m)" for c
  proof (cases "c_data c = NULL")
    case True
    then show ?thesis by (simp add: entry_ok_def)
  next
    case False
    have e: "entry_ok m c" using assms(4) c by (simp add: cache_ok_def)
    show ?thesis
    proof (rule entry_transfer [OF assms(1,2) orderD(4) [OF assms(3)] _ e False
          entry_nodes [OF assms(1) e False]])
      fix e' assume e': "e' \<in> edges m" "Cudd_Regular e' \<in> nodes m"
      show "e' \<in> edges m' \<and> (\<forall>env. sem m' env e' = sem m env e') \<and> elev m' e' = elev m e'"
        using assms(5) [OF e'(2)] sem_grow [OF assms(1-3) assms(5) e'(1)] orderD [OF assms(3)]
        by (simp add: edges_def elev_def lev_def nidx_def)
    qed
  qed
  then show ?thesis using assms(4,6-10) by (simp add: cache_ok_def)
qed

subsection \<open>The collector\<close>

lemma free_slots_ok:
  "set as \<subseteq> dom (heap m) \<Longrightarrow> free_slots m as = Some (filter (\<lambda>a. \<not> alive m a) as)"
  by (induction as) (auto simp: refc_def unat_gt_0 unat_eq_0)

lemma swept_fields [simp]:
  "shift (swept m st) = shift st" "sub_slots (swept m st) = sub_slots st"
  "sub_maxKeys (swept m st) = sub_maxKeys st" "sub_dead (swept m st) = 0"
  "nodelist (swept m st) = map (filter (alive m)) (nodelist st)"
  by (simp_all add: swept_def)

text \<open>The manager after a collection that found dead nodes.\<close>

definition collected :: "DdCache list \<Rightarrow> nat \<Rightarrow> DdManager \<Rightarrow> DdManager" where
  "collected cs n m = m\<lparr>garbageCollections := garbageCollections m + 1, cache := cs,
     cachedeletions := cachedeletions m + int n,
     subtables := map (swept m) (take (dsize m) (subtables m)) @ drop (dsize m) (subtables m),
     keys := keys m - of_nat (card (dset {} m)), dead := 0, subtableZ := subtableZ m,
     keysZ := keysZ m, deadZ := 0, nextFree := filter (\<lambda>a. \<not> alive m a) (pool m)\<rparr>"

lemma collected_sweeps:
  assumes "store_ok m"
  shows "sweeps m (collected cs n m)"
proof -
  let ?sts = "take (dsize m) (subtables m)"
  have n: "dsize m \<le> length (subtables m)" using order_okD(1) [OF assms] .
  have "take (dsize m) (subtables (collected cs n m)) = map (swept m) ?sts"
    using n by (simp add: collected_def)
  moreover have "dsize (collected cs n m) = dsize m" by (simp add: collected_def)
  ultimately have "trows (collected cs n m) = map (map (filter (alive m))) (trows m)"
    "tshifts (collected cs n m) = tshifts m"
    by (simp_all add: trows_def tshifts_def)
  then show ?thesis
    using n by (simp add: sweeps_def order_def) (simp add: collected_def cont_def fun_eq_iff)
qed

lemma collected_ok:
  assumes "mgr_ok ext {} m" "length cs = length (cache m)"
    and "\<forall>c \<in> set cs. c_data c \<noteq> NULL \<longrightarrow> entry_ok m c \<and> entry_alive m c"
  shows "mgr_ok ext {} (collected cs n m)" "keep (set_mset ext) m (collected cs n m)"
    "tabnodes (collected cs n m) = live {} m" "dset {} (collected cs n m) = {}"
proof -
  let ?m = "collected cs n m"
  note g = mgr_okD [OF assms(1)]
  have rest: "keys_ok m" "sizes_ok m" "mem_ok m" "cache_ok m" "misc_ok m"
    using g(4) by (simp_all add: rest_ok_def)
  note sweeps = collected_sweeps [OF g(5), of cs n]
  note sw = sweep_store [OF g(5,6) sweeps]
  show t: "tabnodes ?m = live {} m" by (rule sw(1))
  have ord: "order ?m = order m" using sweeps by (simp add: sweeps_def)
  have ds: "dsize ?m = dsize m" by (rule orderD(3) [OF ord])
  have n: "dsize m \<le> length (subtables m)" using order_okD(1) [OF g(5)] .
  have f: "refc ?m = refc m" "heap ?m = heap m" "constants ?m = constants m" "dead ?m = 0"
    "keys ?m = keys m - of_nat (card (dset {} m))" "stash ?m = stash m" "memoryList ?m = memoryList m"
    "os_chunks ?m = os_chunks m" "nextFree ?m = filter (\<lambda>a. \<not> alive m a) (pool m)"
    "deathRow ?m = deathRow m" "drow ?m = drow m" "reordered ?m = reordered m"
    by (simp_all add: collected_def refc_def fun_eq_iff drow_def)
  have sub: "subtables ?m ! l = swept m (subtables m ! l)" if "l < dsize m" for l
    using that n by (simp add: collected_def nth_append)
  show d: "dset {} ?m = {}" by (auto simp: dset_iff t live_iff f)
  have l: "live {} ?m = live {} m" by (auto simp: live_iff t f)
  have p: "par {} ?m = par {} m" by (simp add: fun_eq_iff par_def l kidcount_def sw(6,7))
  have A: "set_mset (ext + drow m) \<subseteq> nodes ?m"
    using sw(3) refs_okD(2) [OF g(6)] refs_ok_pos(1) [OF g(6)] by blast
  have "refs_ok (ext + drow ?m) {#} {} ?m"
    using g(6) A sw(8) unfolding refs_ok_def by (auto simp: p f(1,11) sw(9))
  moreover have "deads_ok {} ?m"
    using g(7) by (simp add: deads_ok_def d f(3,4) ds sub on_level_def)
  ultimately have "graph_ok (ext + drow ?m) {#} {} ?m" using sw(2) by (simp add: graph_ok_def)
  moreover have "set_mset (drow ?m) \<subseteq> tabnodes ?m"
    using g(3) refs_ok_pos(1) [OF g(6)] by (auto simp: f(11) t live_iff)
  moreover have "rest_ok ?m"
  proof -
    have cl: "card (tabnodes m) = card (dset {} m) + card (live {} m)"
      using card_Un_disjoint [of "dset {} m" "live {} m"] dset_tab [of "{}" m]
      by (simp add: live_def Un_absorb1)
    have "card (on_level m (tabnodes m) l) = length (filter (\<lambda>p. \<not> alive m p) (concat (trows m ! l))) +
        card (on_level m (live {} m) l)" if l: "l < dsize m" for l
    proof -
      have "on_level m (tabnodes m) l = on_level m (dset {} m) l \<union> on_level m (live {} m) l"
        "on_level m (dset {} m) l \<inter> on_level m (live {} m) l = {}"
        using dset_tab [of "{}" m] by (auto simp: on_level_def live_def)
      then show ?thesis
        using card_Un_disjoint [of "on_level m (dset {} m) l" "on_level m (live {} m) l"]
          dead_of_level(1) [OF g(5) l] by (simp add: on_level_def)
    qed
    moreover have "on_level ?m = on_level m" by (simp add: fun_eq_iff on_level_def sw(5))
    ultimately have "keys_ok ?m"
      using rest(1) cl rows_nth [OF g(5)] by (simp add: keys_ok_def t f(3,5) ds sub swept_def)
    moreover have "sizes_ok ?m" using rest(2) by (auto simp: sizes_ok_def ds sub f(6) Let_def)
    moreover have "mem_ok ?m"
    proof -
      have pl: "pool ?m = pool m" "fresh_pool ?m = fresh_pool m" "cnodes ?m = cnodes m"
        by (simp_all add: pool_def fresh_pool_def cnodes_def f)
      have "live {} m \<subseteq> tabnodes m" by (auto simp: live_iff)
      then show ?thesis
        using rest(3) unfolding mem_ok_def pl t f(1,2,7-9) sw(9)
        by (auto simp: live_iff)
    qed
    moreover have "cache_ok ?m"
    proof -
      have "entry_ok ?m c" if "c \<in> set cs" for c
        using assms(3) that entry_sweep [OF g(5,6) sweeps] by (cases "c_data c = NULL") (auto simp: entry_ok_def)
      moreover have "cache ?m = cs" "cacheShift ?m = cacheShift m" "cacheSlots ?m = cacheSlots m"
        "maxCacheHard ?m = maxCacheHard m" "cacheSlack ?m = cacheSlack m"
        by (simp_all add: collected_def)
      ultimately show ?thesis using rest(4) assms(2) by (simp add: cache_ok_def)
    qed
    moreover have "misc_ok ?m" using rest(5) by (simp add: misc_ok_def dims_ok_def collected_def)
    ultimately show ?thesis by (simp add: rest_ok_def)
  qed
  ultimately have "loose_ok ext {} ?m" using g(2) by (simp add: loose_ok_def sw(9))
  moreover have "row_ok ?m" using assms(1) by (simp add: mgr_ok_def row_ok_def collected_def)
  ultimately show "mgr_ok ext {} ?m" by (simp add: mgr_ok_def)
  have "p \<in> nodes ?m" if "p \<in> reach m (set_mset ext)" for p
    using sw(3) reach_nodes [OF g(5,8) that] reach_ref [OF g(5,6) _ that] by simp
  moreover have "cont ?m = cont m" using sweeps by (simp add: sweeps_def)
  ultimately show "keep (set_mset ext) m ?m" by (simp add: keep_def ord f(12))
qed

text \<open>
  What a collection guarantees. When it counts itself, no dead node is left; when it does not,
  the table is as before.
\<close>

definition gc_result :: "ptr multiset \<Rightarrow> DdManager \<Rightarrow> DdManager \<Rightarrow> bool" where
  "gc_result ext m m' \<longleftrightarrow> mgr_ok ext {} m' \<and> keep (set_mset ext) m m' \<and>
     garbageCollections m \<le> garbageCollections m' \<and> dsize m' = dsize m \<and>
     (garbageCollections m' = garbageCollections m \<longrightarrow> store m' = store m) \<and>
     (garbageCollections m' \<noteq> garbageCollections m \<longrightarrow> dset {} m' = {}) \<and>
     tabnodes m' \<subseteq> tabnodes m \<and> cont m' = cont m \<and> tshifts m' = tshifts m"

lemma cuddGarbageCollect_ok:
  assumes "mgr_ok ext {} m"
  shows "\<exists>k m'. cuddGarbageCollect True m = Some (k, m') \<and> gc_result ext m m' \<and>
    (k \<noteq> 0 \<longrightarrow> nextFree m' \<noteq> []) \<and>
    (k = 0 \<longrightarrow> map no_dead (subtables m') = map no_dead (subtables m))"
proof -
  obtain m0 where m0: "cuddClearDeathRow m = Some m0" "mgr_ok ext {} m0" "row_only m m0"
    using cuddClearDeathRow_ok [OF assms] by blast
  note r = row_only_fields [OF m0(3)]
  note g = mgr_okD [OF m0(2)]
  have kp: "keep (set_mset ext) m m0"
    by (rule row_only_keep [OF m0(3) mgr_okD(5,8) [OF assms]])
  have same: "gc_result ext m m0"
    using m0(2) kp r(3) store_cong [OF r(1)] r(1) by (simp add: gc_result_def)
  have dz: "deadZ m0 = 0" "dsizeZ m0 = 0" using g(4) by (simp_all add: rest_ok_def misc_ok_def)
  show ?thesis
  proof (cases "dead m0 = 0")
    case True
    then show ?thesis using m0(1) same dz r(15) by (simp add: cuddGarbageCollect_def)
  next
    case False
    show ?thesis
    proof (cases "gcFrac m0 = DD_GC_FRAC_LO \<and> slots m0 \<le> looseUpTo m0 \<and> stash m0")
      case True
      let ?m = "m0\<lparr>minDead := frac_of_slots DD_GC_FRAC_HI (slots m0), gcFrac := DD_GC_FRAC_HI\<rparr>"
      have c: "core ?m = core m0" by (simp add: core_def)
      have "cache_ok ?m" using g(4) core_cache_ok [OF c] by (simp add: rest_ok_def)
      then have "mgr_ok ext {} ?m" by (rule core_ok(3) [OF c m0(2)])
      moreover have "keep (set_mset ext) m ?m"
        by (rule keep_trans [OF kp core_ok(4) [OF c g(5,8)] mgr_okD(5) [OF assms]])
      moreover have s: "store ?m = store m" using core_fields(1) [OF c] r(1) by simp
      ultimately have "gc_result ext m ?m"
        using r(3) store_cong [OF s] s by (simp add: gc_result_def)
      then show ?thesis using m0(1) False True dz r(15) by (simp add: cuddGarbageCollect_def)
    next
      case lazy: False
      have co: "cache_ok m0" using g(4) by (simp add: rest_ok_def)
      obtain cs n where cs: "clear_entries m0 (cache m0) = Some (cs, n)" "length cs = length (cache m0)"
        "\<forall>c \<in> set cs. c_data c \<noteq> NULL \<longrightarrow> entry_ok m0 c \<and> entry_alive m0 c"
        using clear_entries_ok [OF g(5), of "cache m0"] cache_okD(2) [OF co] by blast
      note c = collected_ok [OF m0(2) cs(2,3), of n]
      let ?m1 = "m0\<lparr>garbageCollections := garbageCollections m0 + 1\<rparr>"
      let ?m2 = "?m1\<lparr>cache := cs, cachedeletions := cachedeletions m0 + int n\<rparr>"
      have "ref_is_0 ?m1 = ref_is_0 m0" by (simp add: fun_eq_iff ref_is_0_def)
      then have "entry_dead ?m1 = entry_dead m0" by (simp only: fun_eq_iff entry_dead_def) simp
      then have ce: "clear_entries ?m1 cs' = clear_entries m0 cs'" for cs'
        by (induction cs') (simp_all only: clear_entries.simps)
      then have "gc_clear_cache ?m1 = Some ?m2" using cs(1) by (simp add: gc_clear_cache_def)
      moreover have c2: "store ?m2 = store m0" "refc ?m2 = refc m0"
        by (simp_all add: store_def cont_def trows_def tshifts_def refc_def fun_eq_iff)
      have d2: "deads_ok {} ?m2"
        using deads_cong [OF c2(1) refs_cong(2) [OF c2]] g(7) by simp
      have sw: "swept ?m2 = swept m0" by (rule swept_cong [OF c2(2)])
      let ?m3 = "?m2\<lparr>subtables := map (swept m0) (take (dsize m0) (subtables m0)) @ drop (dsize m0) (subtables m0),
        keys := keys m0 - of_nat (card (dset {} m0)), dead := 0\<rparr>"
      have "store_ok ?m2" using g(5) store_cong(18) [OF c2(1)] by simp
      from gc_sweep_ok [OF this d2] have "gc_sweep ?m2 = Some (card (dset {} m0), ?m3)"
        unfolding refs_cong(2) [OF c2] sw by simp
      moreover let ?m4 = "?m3\<lparr>subtableZ := subtableZ m0, keysZ := keysZ m0, deadZ := 0\<rparr>"
      have "gc_sweepZ ?m3 = Some (0, ?m4)" using dz by (simp add: gc_sweepZ_def)
      moreover have "gc_free_list ?m4 = Some (collected cs n m0)"
      proof -
        have sub: "set (pool m0) \<subseteq> dom (heap m0)" "tabnodes m0 \<subseteq> set (pool m0)"
          using g(4) by (auto simp: rest_ok_def mem_ok_def)
        have h: "heap ?m4 = heap m0" "memoryList ?m4 = memoryList m0" by simp_all
        then have "refc ?m4 = refc m0" by (simp add: refc_def fun_eq_iff)
        then have fs: "free_slots ?m4 (pool m0) = Some (filter (\<lambda>a. \<not> alive m0 a) (pool m0))"
          using free_slots_ok [of "pool m0" ?m4] sub(1) unfolding h by simp
        have "dset {} m0 \<noteq> {}"
          using False g(7) by (auto simp: deads_ok_def)
        then obtain p where "p \<in> tabnodes m0" "\<not> alive m0 p" by (auto simp: dset_iff)
        then have "filter (\<lambda>a. \<not> alive m0 a) (pool m0) \<noteq> []"
          using sub(2) by (auto simp: filter_empty_conv)
        moreover have "collected cs n m0 = ?m4\<lparr>nextFree := filter (\<lambda>a. \<not> alive m0 a) (pool m0)\<rparr>"
          by (simp add: collected_def)
        ultimately show ?thesis using fs unfolding gc_free_list_def h pool_def by simp
      qed
      ultimately have run: "cuddGarbageCollect True m = Some (card (dset {} m0), collected cs n m0)"
        using m0(1) False lazy dz by (auto simp: cuddGarbageCollect_def)
      have "tabnodes (collected cs n m0) \<subseteq> tabnodes m"
        using c(3) store_cong(10) [OF r(1)] by (auto simp: live_iff)
      moreover have "sweeps m0 (collected cs n m0)" by (rule collected_sweeps [OF g(5)])
      moreover have "garbageCollections (collected cs n m0) = garbageCollections m0 + 1"
        "dsize (collected cs n m0) = dsize m0"
        by (simp_all add: collected_def)
      ultimately have "gc_result ext m (collected cs n m0)"
        using c(1,4) keep_trans [OF kp c(2) mgr_okD(5) [OF assms]] r(3) store_cong(1,3,6) [OF r(1)]
        by (simp add: gc_result_def sweeps_def)
      moreover have nz: "card (dset {} m0) \<noteq> 0"
        using False g(7) by (auto simp: deads_ok_def)
      moreover have "nextFree (collected cs n m0) \<noteq> []"
      proof -
        have "dset {} m0 \<noteq> {}" using nz by auto
        then obtain p where "p \<in> tabnodes m0" "\<not> alive m0 p" by (auto simp: dset_iff)
        moreover have "tabnodes m0 \<subseteq> set (pool m0)" using g(4) by (auto simp: rest_ok_def mem_ok_def)
        ultimately show ?thesis by (auto simp: collected_def filter_empty_conv)
      qed
      ultimately show ?thesis using run by metis
    qed
  qed
qed

end
