(* ===== verification/CuddGrow.thy ===== *)
theory CuddGrow
  imports CuddGC
begin

unbundle bit_operations_syntax

text \<open>
  Allocation of a node and growth of a subtable keep the invariant. Both may collect garbage,
  so that all a caller can rely on is that the nodes below its references are kept
  (\<open>shrinks\<close>); when no collection was counted the table is as before.
\<close>

subsection \<open>Slots of a block\<close>

lemma unat_and_15: "unat (w AND 15 :: ptr) = unat w mod 16"
proof -
  have "w AND 15 = take_bit 4 w" by (simp add: take_bit_eq_mask mask_eq_exp_minus_1)
  then show ?thesis by (simp add: take_bit_eq_mod unat_mod)
qed

lemma slot_unat:
  assumes "chunk_fits mem" "i < DD_MEM_CHUNK"
  shows "unat (chunk_base mem + of_nat i * sizeof_DdNode) = 16 * (unat mem div 16 + 1 + i)"
proof -
  let ?q = "unat mem div 16" and ?r = "unat mem mod 16"
  have i: "i < 1022" using assms(2) by (simp add: DD_MEM_CHUNK_def)
  have m: "unat mem = 16 * ?q + ?r" "?r < 16" by simp_all
  have f: "unat mem + 16 * 1023 \<le> 2 ^ 32"
    using assms(1) by (simp add: chunk_fits_def DD_MEM_CHUNK_def)
  have d: "unat (16 - (mem AND 15) :: ptr) = 16 - ?r"
  proof -
    have "(mem AND 15 :: ptr) \<le> 16" using m(2) unat_and_15 [of mem] by (simp add: word_le_nat_alt)
    then show ?thesis by (simp add: unat_sub unat_and_15)
  qed
  have b: "unat (chunk_base mem) = 16 * ?q + 16"
  proof -
    have "unat mem + (16 - ?r) < 2 ^ 32" using f m(2) by linarith
    then have "unat (chunk_base mem) = unat mem + (16 - ?r)"
      by (simp add: chunk_base_def sizeof_DdNode_def unat_word_ariths d)
    then show ?thesis using m by linarith
  qed
  have s: "unat (of_nat i * sizeof_DdNode :: ptr) = i * 16"
    using i by (simp add: sizeof_DdNode_def unat_word_ariths unat_of_nat)
  have "16 * ?q + 16 + i * 16 < 2 ^ 32" using f m i by linarith
  then have "unat (chunk_base mem + of_nat i * sizeof_DdNode) = 16 * ?q + 16 + i * 16"
    by (simp only: unat_word_ariths(1) b s) simp
  then show ?thesis by simp
qed

lemma slotE:
  assumes "chunk_fits mem" "p \<in> set (chunk_slots mem)"
  shows "p AND 15 = 0" "p \<noteq> NULL"
proof -
  obtain i where i: "i < DD_MEM_CHUNK" "p = chunk_base mem + of_nat i * sizeof_DdNode"
    using assms(2) by (auto simp: chunk_slots_def)
  have u: "unat p = 16 * (unat mem div 16 + 1 + i)" using slot_unat [OF assms(1) i(1)] i(2) by simp
  then have "unat (p AND 15) = 0" by (simp add: unat_and_15)
  then show "p AND 15 = 0" by (simp only: unat_eq_0)
  show "p \<noteq> NULL" using u by auto
qed

lemma chunk_slots_distinct:
  assumes "chunk_fits mem"
  shows "distinct (chunk_slots mem)"
proof -
  have "inj_on (\<lambda>i. chunk_base mem + of_nat i * sizeof_DdNode) {0 ..< DD_MEM_CHUNK}"
  proof (rule inj_onI)
    fix i j assume ij: "i \<in> {0 ..< DD_MEM_CHUNK}" "j \<in> {0 ..< DD_MEM_CHUNK}"
      "chunk_base mem + of_nat i * sizeof_DdNode = chunk_base mem + of_nat j * sizeof_DdNode"
    then have "16 * (unat mem div 16 + 1 + i) = 16 * (unat mem div 16 + 1 + j)"
      using slot_unat [OF assms, of i] slot_unat [OF assms, of j] by (metis atLeastLessThan_iff)
    then show "i = j" by simp
  qed
  then show ?thesis by (simp add: chunk_slots_def distinct_map)
qed

lemma mem_okD:
  assumes "mem_ok m"
  shows "p \<in> set (pool m) \<Longrightarrow> p AND 15 = 0" "p \<in> set (pool m) \<Longrightarrow> p \<noteq> NULL"
    "set (pool m) \<subseteq> dom (heap m)" "distinct (nextFree m)"
    "set (nextFree m) \<subseteq> set (pool m) - tabnodes m - cnodes m"
    "p \<in> set (pool m) \<Longrightarrow> p \<notin> tabnodes m \<Longrightarrow> p \<notin> cnodes m \<Longrightarrow> refc m p = 0"
    "tabnodes m \<union> cnodes m \<subseteq> set (pool m)" "DD_ONE m \<in> cnodes m" "cnodes m \<inter> tabnodes m = {}"
proof -
  have p: "\<exists>c \<in> set (memoryList m). chunk_fits c \<and> p \<in> set (chunk_slots c)" if "p \<in> set (pool m)"
    using assms that by (auto simp: mem_ok_def pool_def)
  show "p \<in> set (pool m) \<Longrightarrow> p AND 15 = 0" "p \<in> set (pool m) \<Longrightarrow> p \<noteq> NULL"
    using p slotE by blast+
qed (use assms in \<open>auto simp: mem_ok_def\<close>)

subsection \<open>Results that may lose nodes\<close>

text \<open>
  What allocation and growth may do to the table: remove nodes that are not below the caller's
  references, and nothing else.
\<close>

definition shrinks :: "ptr multiset \<Rightarrow> DdManager \<Rightarrow> DdManager \<Rightarrow> bool" where
  "shrinks ext m m' \<longleftrightarrow> mgr_ok ext {} m' \<and> keep (set_mset ext) m m' \<and> tabnodes m' \<subseteq> tabnodes m \<and>
     (\<forall>p \<in> nodes m'. cont m' p = cont m p)"

lemma shrinks_gc: "gc_result ext m m' \<Longrightarrow> shrinks ext m m'"
  by (auto simp: gc_result_def shrinks_def)

lemma shrinks_trans:
  "shrinks ext m m' \<Longrightarrow> shrinks ext m' m'' \<Longrightarrow> mgr_ok ext {} m \<Longrightarrow> shrinks ext m m''"
  using keep_trans [of "set_mset ext" m m' m''] mgr_okD(5) [of ext "{}" m]
  unfolding shrinks_def keep_def nodes_def order_def by auto

lemma shrinks_refl: "mgr_ok ext {} m \<Longrightarrow> shrinks ext m m"
  using mgr_okD(5,8) [of ext "{}" m] by (auto simp: shrinks_def intro: keep_store)

lemma shrinks_core:
  "shrinks ext m m' \<Longrightarrow> core m'' = core m' \<Longrightarrow> cache_ok m'' \<Longrightarrow> shrinks ext m m''"
proof -
  assume s: "shrinks ext m m'" and c: "core m'' = core m'" and k: "cache_ok m''"
  then have "mgr_ok ext {} m''" using core_ok(3) [OF c] by (simp add: shrinks_def)
  then show ?thesis
    using s store_cong(1,10,11) [OF core_fields(1) [OF c]] core_fields(9,16-18) [OF c]
      store_cong(4-7,19) [OF core_fields(1) [OF c]]
    by (simp add: shrinks_def keep_def order_def)
qed

lemma mgr_cache: "mgr_ok ext F m \<Longrightarrow> cache_ok m"
  and mgr_mem: "mgr_ok ext F m \<Longrightarrow> mem_ok m"
  and mgr_keys: "mgr_ok ext F m \<Longrightarrow> keys_ok m"
  and mgr_sizes: "mgr_ok ext F m \<Longrightarrow> sizes_ok m"
  and mgr_misc: "mgr_ok ext F m \<Longrightarrow> misc_ok m"
  using mgr_okD(4) by (auto simp: rest_ok_def)

lemma shrinks_fields:
  assumes "shrinks ext m m'" "core m'' = core m'" "cache m'' = cache m'" "cacheShift m'' = cacheShift m'"
    "cacheSlots m'' = cacheSlots m'" "maxCacheHard m'' = maxCacheHard m'" "cacheSlack m'' = cacheSlack m'"
  shows "shrinks ext m m''"
proof (rule shrinks_core [OF assms(1,2)])
  have "cache_ok m'" using assms(1) mgr_cache by (auto simp: shrinks_def)
  then show "cache_ok m''" using core_cache_ok [OF assms(2-7)] by simp
qed

text \<open>A change of the arrangement of the table that keeps its nodes and their contents.\<close>

lemma graph_regraph:
  assumes "store_ok m'" "tabnodes m' = tabnodes m" "order m' = order m" "dead m' = dead m"
    and "\<And>p. p \<in> nodes m \<Longrightarrow> cont m' p = cont m p" "\<And>p. p \<in> nodes m \<Longrightarrow> refc m' p = refc m p"
    and "sub_dead (constants m') = sub_dead (constants m)"
    "\<And>l. l < dsize m \<Longrightarrow> sub_dead (subtables m' ! l) = sub_dead (subtables m ! l)"
    and "graph_ok A B F m"
  shows "graph_ok A B F m'" "\<And>D l. D \<subseteq> tabnodes m \<Longrightarrow> on_level m' D l = on_level m D l"
proof -
  note o = orderD [OF assms(3)]
  note g = graph_okD [OF assms(9)]
  have n: "nodes m' = nodes m" by (simp add: nodes_def assms(2) o)
  have t: "p \<in> nodes m" if "p \<in> tabnodes m" for p using that by (rule tab_nodes)
  have d: "dset F m' = dset F m" and l: "live F m' = live F m"
    using t assms(6) by (auto simp: dset_iff live_iff assms(2))
  have k: "kidcount m' p c = kidcount m p c" if "p \<in> nodes m" for p c
    using assms(5) [OF that] by (simp add: kidcount_def kT_def kE_def)
  have p: "par F m' = par F m"
    using k t by (auto simp: fun_eq_iff par_def l live_iff intro!: sum.cong)
  have r: "refs_ok A B F m'" using g(2) assms(6) by (auto simp: refs_ok_def p n o)
  have lv: "lev m' p = lev m p" if "p \<in> nodes m" for p
    using assms(5) [OF that] by (simp add: lev_def nidx_def o)
  then show ol: "on_level m' D l = on_level m D l" if "D \<subseteq> tabnodes m" for D l
    using that t by (auto simp: on_level_def)
  have "deads_ok F m'"
    using g(3) by (simp add: deads_ok_def d o assms(4,7,8) ol dset_tab)
  then show "graph_ok A B F m'" using assms(1) r by (simp add: graph_ok_def)
qed

subsection \<open>Allocation\<close>

lemma set_free_ok:
  assumes "mgr_ok ext {} m" "nextFree m = p # fs"
  defines "m' \<equiv> m\<lparr>allocated := allocated m + 1, nextFree := fs\<rparr>"
  shows "shrinks ext m m'" "store m' = store m" "refc m' = refc m"
proof -
  show s: "store m' = store m" by (simp add: m'_def store_def cont_def trows_def tshifts_def fun_eq_iff)
  show f: "refc m' = refc m" by (simp add: m'_def refc_def fun_eq_iff)
  note g = mgr_okD [OF assms(1)]
  have gr: "graph_ok A B F m' = graph_ok A B F m" for A B F
    by (rule graph_ok_view [OF s f]) (simp_all add: m'_def)
  have "mem_ok m'"
    using mgr_mem [OF assms(1)] assms(2)
    by (simp add: mem_ok_def pool_def fresh_pool_def cnodes_def f store_cong [OF s]) (simp add: m'_def)
  moreover have "keys_ok m'" "sizes_ok m'" "misc_ok m'" "cache_ok m'"
    using mgr_keys [OF assms(1)] mgr_sizes [OF assms(1)] mgr_misc [OF assms(1)] mgr_cache [OF assms(1)]
      cache_ok_cong [OF s]
    by (simp_all add: keys_ok_def sizes_ok_def misc_ok_def dims_cong [OF s] store_cong [OF s] on_level_cong [OF s])
      (simp_all add: m'_def)
  ultimately have r: "rest_ok m'" by (simp add: rest_ok_def)
  have e: "drow m' = drow m" "deathRow m' = deathRow m" "nextDead m' = nextDead m" "deadMask m' = deadMask m"
    "reordered m' = reordered m"
    by (simp_all add: m'_def drow_def)
  have "mgr_ok ext {} m'"
    using g(1-3) r assms(1) by (simp add: mgr_ok_def loose_ok_def gr e store_cong [OF s] row_ok_def)
  then show "shrinks ext m m'"
    using keep_store [OF s e(5) g(5,8)] by (simp add: shrinks_def store_cong [OF s])
qed

text \<open>A node handed out: it is in no list and its count is 0.\<close>

definition fresh_in :: "ptr \<Rightarrow> DdManager \<Rightarrow> bool" where
  "fresh_in r m \<longleftrightarrow> r \<in> set (pool m) \<and> r \<notin> tabnodes m \<and> r \<notin> cnodes m \<and> r \<notin> set (nextFree m)"

text \<open>The library reports why it returns \<open>NULL\<close>: the limit on nodes, memory, or time.\<close>

abbreviation failed :: "DdManager \<Rightarrow> bool" where
  "failed m \<equiv> errorCode m \<noteq> CUDD_NO_ERROR"

definition alloc_result :: "ptr multiset \<Rightarrow> DdManager \<Rightarrow> ptr result \<Rightarrow> bool" where
  "alloc_result ext m res \<longleftrightarrow> (\<exists>r m'. res = Some (r, m') \<and> shrinks ext m m' \<and>
     (r = NULL \<and> failed m' \<or> fresh_in r m') \<and> garbageCollections m \<le> garbageCollections m' \<and>
     (garbageCollections m' = garbageCollections m \<longrightarrow> trows m' = trows m \<and> tshifts m' = tshifts m))"

lemma take_free_ok:
  assumes "mgr_ok ext {} m" "nextFree m \<noteq> []"
  shows "alloc_result ext m (take_free m)"
proof -
  obtain p fs where fs: "nextFree m = p # fs" using assms(2) by (cases "nextFree m") auto
  note s = set_free_ok [OF assms(1) fs]
  let ?m = "m\<lparr>allocated := allocated m + 1, nextFree := fs\<rparr>"
  note mem = mem_okD [OF mgr_mem [OF assms(1)]]
  have pl: "pool ?m = pool m" "cnodes ?m = cnodes m" by (simp_all add: pool_def cnodes_def)
  have "fresh_in p ?m"
    using mem(4,5) fs store_cong(10) [OF s(2)] by (simp add: fresh_in_def pl)
  then show ?thesis
    using s(1) store_cong(2,3) [OF s(2)] unfolding alloc_result_def take_free_def fs by simp
qed

lemma alloc_result_step:
  assumes "shrinks ext m m1" "alloc_result ext m1 res" "mgr_ok ext {} m"
    and "garbageCollections m \<le> garbageCollections m1"
    "garbageCollections m1 = garbageCollections m \<longrightarrow> trows m1 = trows m \<and> tshifts m1 = tshifts m"
  shows "alloc_result ext m res"
proof -
  obtain r m' where m': "res = Some (r, m')" "shrinks ext m1 m'" "r = NULL \<and> failed m' \<or> fresh_in r m'"
    "garbageCollections m1 \<le> garbageCollections m'"
    "garbageCollections m' = garbageCollections m1 \<longrightarrow> trows m' = trows m1 \<and> tshifts m' = tshifts m1"
    using assms(2) by (auto simp: alloc_result_def)
  have "shrinks ext m m'" by (rule shrinks_trans [OF assms(1) m'(2) assms(3)])
  moreover have "garbageCollections m' = garbageCollections m \<longrightarrow> trows m' = trows m \<and> tshifts m' = tshifts m"
    using assms(4,5) m'(4,5) by auto
  ultimately show ?thesis using m' assms(4) by (auto simp: alloc_result_def)
qed

lemma gc_result_step:
  assumes "gc_result ext m m1" "alloc_result ext m1 res" "mgr_ok ext {} m"
  shows "alloc_result ext m res"
proof (rule alloc_result_step [OF shrinks_gc [OF assms(1)] assms(2,3)])
  show "garbageCollections m \<le> garbageCollections m1" using assms(1) by (simp add: gc_result_def)
  show "garbageCollections m1 = garbageCollections m \<longrightarrow> trows m1 = trows m \<and> tshifts m1 = tshifts m"
    using assms(1) store_cong(2,3) [of m1 m] unfolding gc_result_def by blast
qed

lemma alloc_null:
  "shrinks ext m m1 \<Longrightarrow> garbageCollections m \<le> garbageCollections m1 \<Longrightarrow>
   garbageCollections m1 = garbageCollections m \<longrightarrow> trows m1 = trows m \<and> tshifts m1 = tshifts m \<Longrightarrow>
   failed m1 \<Longrightarrow> alloc_result ext m (Some (NULL, m1))"
  by (auto simp: alloc_result_def)

text \<open>A new block adds slots and touches no node.\<close>

lemma store_agree:
  assumes "store_ok m" "trows m' = trows m" "tshifts m' = tshifts m" "order m' = order m"
    "stackSize m' = stackSize m" "length (subtables m') = length (subtables m)"
    and "\<And>p. p \<in> nodes m \<Longrightarrow> cont m' p = cont m p"
  shows "store_ok m'" "tabnodes m' = tabnodes m"
proof -
  note o = orderD [OF assms(4)]
  show t: "tabnodes m' = tabnodes m" by (simp add: tabnodes_def assms(2))
  then have n: "nodes m' = nodes m" by (simp add: nodes_def o)
  have k: "kT m' p = kT m p" "kE m' p = kE m p" "lev m' p = lev m p" if "p \<in> nodes m" for p
    using assms(7) [OF that] by (simp_all add: kT_def kE_def lev_def nidx_def o)
  have "order_ok m'" using assms(1) by (simp add: store_ok_def order_ok_def o assms(5,6))
  moreover have "table_ok m'"
    unfolding table_ok_def assms(2,3) o
  proof (intro allI impI conjI)
    fix l assume l: "l < dsize m"
    note tk = table_okD [OF assms(1) l]
    show "0 < tshifts m ! l" "tshifts m ! l < 32" "length (trows m ! l) = 2 ^ (32 - tshifts m ! l)"
      using tk by simp_all
    fix j assume j: "j < length (trows m ! l)"
    have p: "p \<in> nodes m" if "p \<in> set (trows m ! l ! j)" for p
      using tabnodesI [OF assms(1) l j that] by (rule tab_nodes)
    have "sorted_wrt (chain_gt m') (trows m ! l ! j)"
      by (rule sorted_wrt_mono_rel [of _ "chain_gt m"])
        (use tk(4) [OF j] p k in \<open>auto simp: chain_ok_def chain_gt_def\<close>)
    then show "chain_ok m' l j (trows m ! l ! j)"
      using tk(4) [OF j] assms(7) p by (simp add: chain_ok_def o assms(3))
  qed
  moreover have "one_ok m'" using assms(1,7) by (simp add: store_ok_def one_ok_def o)
  moreover have "node_ok m' p" if "p \<in> tabnodes m" for p
  proof -
    have "node_ok m p" using assms(1) that by (simp add: store_ok_def)
    then show ?thesis
      using k [OF tab_nodes [OF that]] k(3) nodeD(5,6) [OF assms(1) that] by (simp add: node_ok_def n)
  qed
  ultimately show "store_ok m'" by (simp add: store_ok_def t)
qed

lemma slice_chunk_ok:
  assumes "mgr_ok ext {} m" "os_chunks m = mem # rest" "mem \<noteq> NULL"
  defines "m' \<equiv> slice_chunk mem (m\<lparr>os_chunks := rest\<rparr>)"
  shows "shrinks ext m m'" "nextFree m' \<noteq> []" "trows m' = trows m" "tshifts m' = tshifts m"
    "garbageCollections m' = garbageCollections m"
proof -
  note g = mgr_okD [OF assms(1)]
  note mem = mgr_mem [OF assms(1)]
  let ?S = "set (chunk_slots mem)"
  have f: "subtables m' = subtables m" "constants m' = constants m" "dead m' = dead m" "keys m' = keys m"
    "nextFree m' = chunk_slots mem" "memoryList m' = mem # memoryList m" "os_chunks m' = rest"
    "stackSize m' = stackSize m" "deathRow m' = deathRow m" "nextDead m' = nextDead m"
    "deadMask m' = deadMask m" "dsizeZ m' = dsizeZ m" "deadZ m' = deadZ m" "autoDyn m' = autoDyn m"
    "stash m' = stash m" "reordered m' = reordered m" "cache m' = cache m" "cacheShift m' = cacheShift m"
    "cacheSlots m' = cacheSlots m" "maxCacheHard m' = maxCacheHard m" "cacheSlack m' = cacheSlack m"
    "garbageCollections m' = garbageCollections m" "dsize m' = dsize m"
    "perm m' = perm m" "invperm m' = invperm m" "vars m' = vars m" "maxSize m' = maxSize m"
    "maxSizeZ m' = maxSizeZ m" "initSlots m' = initSlots m"
    by (simp_all add: m'_def slice_chunk_def)
  show "garbageCollections m' = garbageCollections m" by (rule f(22))
  have h: "heap m' a = (if a \<in> ?S then Some fresh_node else heap m a)" for a
    by (simp add: m'_def slice_chunk_def)
  have ord: "order m' = order m" by (simp add: m'_def slice_chunk_def order_def)
  note o = orderD [OF ord]
  show tr: "trows m' = trows m" "tshifts m' = tshifts m" by (simp_all add: trows_def tshifts_def f)
  show "nextFree m' \<noteq> []" by (simp add: f chunk_slots_def DD_MEM_CHUNK_def)
  have fp: "fresh_pool m = chunk_slots mem @ fresh_pool m'"
    using assms(2,3) by (simp add: fresh_pool_def f)
  have disj: "?S \<inter> dom (heap m) = {}" using mem by (auto simp: mem_ok_def fp)
  have nd: "p \<in> dom (heap m)" if "p \<in> nodes m" for p
    using nodes_heap [OF g(5) that] by blast
  have same: "heap m' p = heap m p" if "p \<in> dom (heap m)" for p
    using disj that by (auto simp: h)
  have c: "cont m' p = cont m p" "refc m' p = refc m p" if "p \<in> dom (heap m)" for p
    using same [OF that] by (simp_all add: cont_def refc_def)
  have s: "store_ok m'" "tabnodes m' = tabnodes m"
    using store_agree [OF g(5) tr ord] c nd f by auto
  have n: "nodes m' = nodes m" by (simp add: nodes_def s o)
  have dr: "drow m' = drow m" by (simp add: drow_def f)
  have gr: "graph_ok (ext + drow m') {#} {} m'"
    and ol: "\<And>D l. D \<subseteq> tabnodes m \<Longrightarrow> on_level m' D l = on_level m D l"
    using graph_regraph [OF s ord f(3) _ _ _ _ g(1)] c nd unfolding dr f by auto
  have "rest_ok m'"
  proof -
    have "keys_ok m'" using mgr_keys [OF assms(1)] by (simp add: keys_ok_def s f o ol)
    moreover have "sizes_ok m'" using mgr_sizes [OF assms(1)] by (simp add: sizes_ok_def f)
    moreover have "misc_ok m'" using mgr_misc [OF assms(1)] by (simp add: misc_ok_def dims_ok_def f)
    moreover have "cache_ok m'"
      by (rule cache_ok_grow [OF g(5) s(1) ord mgr_cache [OF assms(1)]]) (use c nd n f in auto)
    moreover have "mem_ok m'"
    proof -
      have pl: "pool m' = chunk_slots mem @ pool m" "cnodes m' = cnodes m"
        by (simp_all add: pool_def cnodes_def f)
      have fit: "chunk_fits mem" using mem assms(2,3) by (simp add: mem_ok_def)
      have pd: "set (pool m) \<subseteq> dom (heap m)" "tabnodes m \<union> cnodes m \<subseteq> set (pool m)"
        using mem_okD [OF mem] by auto
      then have pc: "set (pool m) \<inter> ?S = {}" "tabnodes m \<inter> ?S = {}" "cnodes m \<inter> ?S = {}"
        using disj by blast+
      have dom: "dom (heap m') = dom (heap m) \<union> ?S" by (auto simp: h dom_def)
      have rS: "refc m' p = 0" if "p \<in> ?S" for p
        using that by (simp add: refc_def h fresh_node_def)
      have rp: "refc m' p = refc m p" if "p \<in> set (pool m)" for p
        using c(2) pd that by blast
      have ds: "distinct (chunk_slots mem)" using chunk_slots_distinct [OF fit] .
      show ?thesis
        using mem fit assms(2) pc ds rS rp pd fp unfolding mem_ok_def pl s f o dom
        by (auto simp: disjoint_iff)
    qed
    ultimately show ?thesis by (simp add: rest_ok_def)
  qed
  then have "mgr_ok ext {} m'"
    using gr g(2,3) assms(1) by (simp add: mgr_ok_def loose_ok_def dr s o row_ok_def f)
  moreover have "keep (set_mset ext) m m'"
    using reach_nodes [OF g(5,8)] c nd n by (auto simp: keep_def ord f)
  ultimately show "shrinks ext m m'" using c nd n s by (auto simp: shrinks_def)
qed

lemma os_chunk_null:
  assumes "mgr_ok ext {} m" "os_chunk m = (NULL, m1)"
  shows "shrinks ext m m1" "store m1 = store m" "garbageCollections m1 = garbageCollections m"
proof -
  obtain r where m1: "m1 = m\<lparr>os_chunks := r\<rparr>" "filter (\<lambda>c. c \<noteq> NULL) r = filter (\<lambda>c. c \<noteq> NULL) (os_chunks m)"
    "set r \<subseteq> set (os_chunks m)"
  proof (cases "os_chunks m")
    case Nil
    then show ?thesis using that [of "os_chunks m"] assms(2) by (auto simp: os_chunk_def)
  next
    case (Cons c cs)
    then show ?thesis using that [of cs] assms(2) by (auto simp: os_chunk_def)
  qed
  note g = mgr_okD [OF assms(1)]
  have s: "store m1 = store m" by (simp add: m1(1) store_def cont_def trows_def tshifts_def fun_eq_iff)
  have f: "refc m1 = refc m" by (simp add: m1(1) refc_def fun_eq_iff)
  have gr: "graph_ok A B F m1 = graph_ok A B F m" for A B F
    by (rule graph_ok_view [OF s f]) (simp_all add: m1(1))
  have pl: "pool m1 = pool m" "fresh_pool m1 = fresh_pool m" "cnodes m1 = cnodes m"
    by (simp_all add: pool_def fresh_pool_def cnodes_def m1)
  have fl: "memoryList m1 = memoryList m" "heap m1 = heap m" "nextFree m1 = nextFree m" "os_chunks m1 = r"
    by (simp_all add: m1(1))
  have "\<forall>c \<in> set r. c \<noteq> NULL \<longrightarrow> chunk_fits c"
    using mgr_mem [OF assms(1)] m1(3) by (auto simp: mem_ok_def)
  then have "mem_ok m1"
    using mgr_mem [OF assms(1)] unfolding mem_ok_def pl fl f store_cong [OF s] by simp
  moreover have "keys_ok m1" "sizes_ok m1" "misc_ok m1" "cache_ok m1"
    using mgr_keys [OF assms(1)] mgr_sizes [OF assms(1)] mgr_misc [OF assms(1)] mgr_cache [OF assms(1)]
      cache_ok_cong [OF s]
    by (simp_all add: keys_ok_def sizes_ok_def misc_ok_def dims_cong [OF s] store_cong [OF s] on_level_cong [OF s])
      (simp_all add: m1(1))
  ultimately have r: "rest_ok m1" by (simp add: rest_ok_def)
  have e: "drow m1 = drow m" "deathRow m1 = deathRow m" "nextDead m1 = nextDead m" "deadMask m1 = deadMask m"
    "reordered m1 = reordered m" "garbageCollections m1 = garbageCollections m"
    by (simp_all add: m1(1) drow_def)
  have "mgr_ok ext {} m1"
    using g(1-3) r assms(1) by (simp add: mgr_ok_def loose_ok_def gr e store_cong [OF s] row_ok_def)
  then show "shrinks ext m m1"
    using keep_store [OF s e(5) g(5,8)] by (simp add: shrinks_def store_cong [OF s])
  show "store m1 = store m" "garbageCollections m1 = garbageCollections m" by (fact s, fact e(6))
qed

text \<open>Giving up the reserve: the limits of the subtables are raised, once.\<close>

lemma more_keys:
  assumes "5 \<le> h" "n = 2 ^ (32 - h)" "unat (k :: uint32) = 4 * n"
  shows "unat (push_bit 2 k) = 16 * n"
proof -
  have "32 - h \<le> 27" using assms(1) by simp
  then have "n \<le> 2 ^ 27" unfolding assms(2) by (rule power_increasing) simp
  then have "unat k * 4 < 2 ^ 32" using assms(3) by simp
  then have "unat (k * 4) = unat k * 4" by (simp add: unat_word_ariths)
  then show ?thesis by (simp add: push_bit_eq_mult assms(3))
qed

definition slow_growth :: "DdManager \<Rightarrow> DdManager" where
  "slow_growth m = m\<lparr>stash := False, maxCacheHard := cacheSlots m - 1,
     cacheSlack := - sint (cacheSlots m + 1),
     subtables := map (\<lambda>st. st\<lparr>sub_maxKeys := push_bit 2 (sub_maxKeys st)\<rparr>) (take (dsize m) (subtables m))
       @ drop (dsize m) (subtables m),
     gcFrac := DD_GC_FRAC_MIN, minDead := frac_of_slots DD_GC_FRAC_MIN (slots m)\<rparr>"

lemma slow_growth_geo:
  assumes "cache_geo m"
  shows "cache_geo (slow_growth m)"
proof -
  have f: "cache (slow_growth m) = cache m" "cacheShift (slow_growth m) = cacheShift m"
    "cacheSlots (slow_growth m) = cacheSlots m" "maxCacheHard (slow_growth m) = cacheSlots m - 1"
    "cacheSlack (slow_growth m) = - sint (cacheSlots m + 1)" by (simp_all add: slow_growth_def)
  have c: "unat (cacheSlots m) = 2 ^ (32 - cacheShift m)" "6 \<le> cacheShift m"
    using assms by (simp_all add: cache_geo_def)
  have "(2 :: nat) ^ (32 - cacheShift m) \<le> 2 ^ 26" using c(2) by (intro power_increasing) simp_all
  then have le: "unat (cacheSlots m) \<le> 67108864" "0 < unat (cacheSlots m)" using c(1) by simp_all
  have nz: "cacheSlots m \<noteq> 0" using le(2) by auto
  have u1: "unat (cacheSlots m - 1) = unat (cacheSlots m) - 1" by (rule unat_minus_one [OF nz])
  have u2: "unat (cacheSlots m + 1) = unat (cacheSlots m) + 1"
    using le(1) by (simp add: unat_word_ariths)
  note un = uint_nat [of "cacheSlots m"] uint_nat [of "cacheSlots m + 1"] uint_nat [of "cacheSlots m - 1"]
  have "sint (cacheSlots m + 1) = int (unat (cacheSlots m + 1))"
    by (rule sint_small) (use u2 le(1) in simp)
  then have "- sint (cacheSlots m + 1) \<le> uint (cacheSlots m - 1) - 2 * uint (cacheSlots m)"
    using u1 u2 un le(2) by linarith
  moreover have "unat (cacheSlots m - 1) < 134217728" using u1 le(1) by linarith
  ultimately show ?thesis using assms by (simp add: cache_geo_def f)
qed

lemma slow_growth_ok:
  assumes "mgr_ok ext {} m" "stash m"
  shows "mgr_ok ext {} (slow_growth m)" "store (slow_growth m) = store m"
    "reordered (slow_growth m) = reordered m"
proof -
  let ?m = "slow_growth m"
  let ?f = "\<lambda>st. st\<lparr>sub_maxKeys := push_bit 2 (sub_maxKeys st)\<rparr>"
  note g = mgr_okD [OF assms(1)]
  have n: "dsize m \<le> length (subtables m)" using order_okD(1) [OF g(5)] .
  have sub: "subtables ?m ! l = ?f (subtables m ! l)" if "l < dsize m" for l
    using that n by (simp add: slow_growth_def nth_append)
  have st: "take (dsize m) (subtables ?m) = map ?f (take (dsize m) (subtables m))"
    "length (subtables ?m) = length (subtables m)"
    using n by (simp_all add: slow_growth_def)
  have f: "heap ?m = heap m" "dead ?m = dead m" "constants ?m = constants m" "keys ?m = keys m"
    "memoryList ?m = memoryList m" "os_chunks ?m = os_chunks m" "nextFree ?m = nextFree m"
    "drow ?m = drow m" "dsize ?m = dsize m" "perm ?m = perm m" "invperm ?m = invperm m"
    "DD_ONE ?m = DD_ONE m" "stackSize ?m = stackSize m" "deathRow ?m = deathRow m"
    "nextDead ?m = nextDead m" "deadMask ?m = deadMask m" "\<not> stash ?m" "dsizeZ ?m = dsizeZ m"
    "deadZ ?m = deadZ m" "autoDyn ?m = autoDyn m" "cache ?m = cache m" "cacheShift ?m = cacheShift m"
    "cacheSlots ?m = cacheSlots m" "maxCacheHard ?m = cacheSlots m - 1"
    "cacheSlack ?m = - sint (cacheSlots m + 1)" "vars ?m = vars m" "maxSize ?m = maxSize m"
    "maxSizeZ ?m = maxSizeZ m" "initSlots ?m = initSlots m"
    by (simp_all add: slow_growth_def drow_def)
  show "reordered ?m = reordered m" by (simp add: slow_growth_def)
  have "trows ?m = trows m" "tshifts ?m = tshifts m"
    by (simp_all add: trows_def tshifts_def f(9) st comp_def)
  then show s: "store ?m = store m"
    by (simp add: store_def cont_def f st fun_eq_iff)
  have rf: "refc ?m = refc m" by (simp add: refc_def f fun_eq_iff)
  note d = refs_cong [OF s rf]
  have "deads_ok {} ?m"
    using deads_cong [OF s d(2) f(2)] g(7) sub by (simp add: f(3))
  then have gr: "graph_ok (ext + drow ?m) {#} {} ?m"
    using g(5,6) d(1) by (simp add: graph_ok_def store_cong(18) [OF s] f(8))
  have "mem_ok ?m"
    using mgr_mem [OF assms(1)]
    by (simp add: mem_ok_def pool_def fresh_pool_def cnodes_def f rf store_cong [OF s])
  moreover have "keys_ok ?m"
    using mgr_keys [OF assms(1)] sub by (simp add: keys_ok_def f store_cong [OF s] on_level_cong [OF s])
  moreover have "sizes_ok ?m"
    unfolding sizes_ok_def Let_def f(9)
  proof (intro allI impI)
    fix l assume l: "l < dsize m"
    have z: "5 \<le> shift (subtables m ! l)" "sub_slots (subtables m ! l) = 2 ^ (32 - shift (subtables m ! l))"
      "unat (sub_maxKeys (subtables m ! l)) = 4 * sub_slots (subtables m ! l)"
      using mgr_sizes [OF assms(1)] l assms(2) by (auto simp: sizes_ok_def Let_def)
    show "5 \<le> shift (subtables ?m ! l) \<and>
       sub_slots (subtables ?m ! l) = 2 ^ (32 - shift (subtables ?m ! l)) \<and>
       4 * sub_slots (subtables ?m ! l) \<le> unat (sub_maxKeys (subtables ?m ! l)) \<and>
       (stash ?m \<longrightarrow> unat (sub_maxKeys (subtables ?m ! l)) = 4 * sub_slots (subtables ?m ! l))"
      using z more_keys [OF z] by (simp add: sub [OF l] f)
  qed
  moreover have "misc_ok ?m" using mgr_misc [OF assms(1)] by (simp add: misc_ok_def dims_ok_def f st)
  moreover have "cache_ok ?m"
    using mgr_cache [OF assms(1)] slow_growth_geo [of m]
    by (simp add: cache_ok_geo f entry_ok_cong(3) [OF s])
  ultimately have "rest_ok ?m" by (simp add: rest_ok_def)
  then show "mgr_ok ext {} ?m"
    using gr g(2,3) assms(1) by (simp add: mgr_ok_def loose_ok_def f store_cong [OF s] row_ok_def)
qed

text \<open>A change of the death row and the limits only: the table is the same.\<close>

definition same_table :: "ptr multiset \<Rightarrow> DdManager \<Rightarrow> DdManager \<Rightarrow> bool" where
  "same_table ext m m' \<longleftrightarrow> shrinks ext m m' \<and> store m' = store m \<and>
     garbageCollections m' = garbageCollections m"

lemma cuddSlowTableGrowth_ok:
  assumes "mgr_ok ext {} m" "stash m"
  shows "\<exists>m'. cuddSlowTableGrowth (m\<lparr>stash := False\<rparr>) = Some m' \<and> same_table ext m m' \<and>
    os_chunks m' = os_chunks m"
proof -
  note s = slow_growth_ok [OF assms]
  obtain m' where m': "cuddShrinkDeathRow (slow_growth m) = Some m'" "mgr_ok ext {} m'" "row_only (slow_growth m) m'"
    using cuddShrinkDeathRow_ok [OF s(1)] by blast
  note r = row_only_fields [OF m'(3)]
  have st: "store m' = store m" "reordered m' = reordered m" using r(1,2) s(2,3) by simp_all
  have "cuddSlowTableGrowth (m\<lparr>stash := False\<rparr>) = Some m'"
    using m'(1) by (simp add: cuddSlowTableGrowth_def slow_growth_def Let_def)
  moreover have "garbageCollections m' = garbageCollections m" "os_chunks m' = os_chunks m"
    using r(3,12) by (simp_all add: slow_growth_def)
  ultimately show ?thesis
    using m'(2) st keep_store [OF st mgr_okD(5,8) [OF assms(1)]] store_cong [OF st(1)]
    by (simp add: same_table_def shrinks_def)
qed

lemma same_table_trans:
  "same_table ext m m1 \<Longrightarrow> same_table ext m1 m2 \<Longrightarrow> mgr_ok ext {} m \<Longrightarrow> same_table ext m m2"
  unfolding same_table_def using shrinks_trans by metis

lemma same_table_grows:
  "same_table ext m m1 \<Longrightarrow> shrinks ext m m1 \<and> garbageCollections m \<le> garbageCollections m1 \<and>
    (garbageCollections m1 = garbageCollections m \<longrightarrow> trows m1 = trows m \<and> tshifts m1 = tshifts m)"
  using store_cong(2,3) [of m1 m] unfolding same_table_def by simp

lemma same_table_alloc:
  "same_table ext m m1 \<Longrightarrow> alloc_result ext m1 res \<Longrightarrow> mgr_ok ext {} m \<Longrightarrow> alloc_result ext m res"
  using alloc_result_step [of ext m m1 res] same_table_grows [of ext m m1] by blast

lemma same_table_core:
  assumes "mgr_ok ext {} m" "core m' = core m" "cache m' = cache m" "cacheShift m' = cacheShift m"
    "cacheSlots m' = cacheSlots m" "maxCacheHard m' = maxCacheHard m" "cacheSlack m' = cacheSlack m"
    "garbageCollections m' = garbageCollections m"
  shows "same_table ext m m'"
  using shrinks_fields [OF shrinks_refl [OF assms(1)] assms(2-7)] core_fields(1) [OF assms(2)] assms(8)
  by (simp add: same_table_def)

lemma time_expired_ok:
  assumes "mgr_ok ext {} m" "time_expired m = (late, m1)"
  shows "same_table ext m m1" "nextFree m1 = nextFree m"
proof -
  have "m1 = m \<or> (\<exists>ts. m1 = m\<lparr>os_clock := ts\<rparr>)"
    using assms(2) by (auto simp: time_expired_def util_cpu_time_def Let_def split: list.splits)
  then show "same_table ext m m1" "nextFree m1 = nextFree m"
    using assms(1) by (auto intro!: same_table_core [OF assms(1)] simp: core_def)
qed

lemma set_error_ok:
  assumes "mgr_ok ext {} m"
  shows "same_table ext m (m\<lparr>errorCode := e\<rparr>)"
  by (rule same_table_core [OF assms]) (simp_all add: core_def)

lemma handler_ok:
  assumes "mgr_ok ext {} m"
  shows "same_table ext m ((MMoutOfMemory m)\<lparr>errorCode := e\<rparr>)"
  by (rule same_table_core [OF assms]) (simp_all add: core_def MMoutOfMemory_def)

lemma same_table_null: "same_table ext m m1 \<Longrightarrow> failed m1 \<Longrightarrow> alloc_result ext m (Some (NULL, m1))"
  using store_cong(2,3) [of m1 m] by (auto simp: same_table_def alloc_result_def)

text \<open>The block allocation, with its two fallbacks.\<close>

definition chunk_result :: "ptr multiset \<Rightarrow> DdManager \<Rightarrow> bool result \<Rightarrow> bool" where
  "chunk_result ext m res \<longleftrightarrow> (\<exists>ok m'. res = Some (ok, m') \<and> shrinks ext m m' \<and>
     (if ok then nextFree m' \<noteq> [] else failed m') \<and> garbageCollections m \<le> garbageCollections m' \<and>
     (garbageCollections m' = garbageCollections m \<longrightarrow> trows m' = trows m \<and> tshifts m' = tshifts m))"

lemma chunk_resultI:
  "shrinks ext m m' \<Longrightarrow> (ok \<Longrightarrow> nextFree m' \<noteq> []) \<Longrightarrow> ok \<or> failed m' \<Longrightarrow> garbageCollections m \<le> garbageCollections m' \<Longrightarrow>
   (garbageCollections m' = garbageCollections m \<longrightarrow> trows m' = trows m \<and> tshifts m' = tshifts m) \<Longrightarrow>
   chunk_result ext m (Some (ok, m'))"
  unfolding chunk_result_def by (cases ok) auto

lemma try_chunk:
  assumes "mgr_ok ext {} m" "os_chunk m = (mem, m1)"
  shows "mem = NULL \<Longrightarrow> same_table ext m m1"
    "mem \<noteq> NULL \<Longrightarrow> chunk_result ext m (Some (True, slice_chunk mem m1))"
proof -
  show "mem = NULL \<Longrightarrow> same_table ext m m1"
    using os_chunk_null [OF assms(1)] assms(2) by (simp add: same_table_def)
  assume nn: "mem \<noteq> NULL"
  then obtain cs where "os_chunks m = mem # cs" "m1 = m\<lparr>os_chunks := cs\<rparr>"
    using assms(2) by (auto simp: os_chunk_def split: list.splits)
  then show "chunk_result ext m (Some (True, slice_chunk mem m1))"
    using slice_chunk_ok [OF assms(1) _ nn] by (simp add: chunk_resultI)
qed

lemma chunk_result_step:
  assumes "shrinks ext m m1" "chunk_result ext m1 res" "mgr_ok ext {} m"
    and "garbageCollections m \<le> garbageCollections m1"
    "garbageCollections m1 = garbageCollections m \<longrightarrow> trows m1 = trows m \<and> tshifts m1 = tshifts m"
  shows "chunk_result ext m res"
proof -
  obtain ok m' where m': "res = Some (ok, m')" "shrinks ext m1 m'" "if ok then nextFree m' \<noteq> [] else failed m'"
    "garbageCollections m1 \<le> garbageCollections m'"
    "garbageCollections m' = garbageCollections m1 \<longrightarrow> trows m' = trows m1 \<and> tshifts m' = tshifts m1"
    using assms(2) by (auto simp: chunk_result_def)
  have "shrinks ext m m'" by (rule shrinks_trans [OF assms(1) m'(2) assms(3)])
  then show ?thesis using m' assms(4,5) by (auto simp: chunk_result_def)
qed

lemma gc_grows:
  "gc_result ext m m1 \<Longrightarrow> garbageCollections m \<le> garbageCollections m1 \<and>
    (garbageCollections m1 = garbageCollections m \<longrightarrow> trows m1 = trows m \<and> tshifts m1 = tshifts m)"
  using store_cong(2,3) [of m1 m] unfolding gc_result_def by blast

lemma alloc_chunk_ok:
  assumes "mgr_ok ext {} m"
  shows "chunk_result ext m (alloc_chunk m)"
proof -
  obtain mem m1 where o1: "os_chunk m = (mem, m1)" by force
  show ?thesis
  proof (cases "mem = NULL")
    case False
    then show ?thesis using try_chunk(2) [OF assms o1] o1 by (simp add: alloc_chunk_def)
  next
    case True
    note s1 = same_table_grows [OF try_chunk(1) [OF assms o1 True]]
    then have k1: "mgr_ok ext {} m1" by (simp add: shrinks_def)
    obtain k m2 where gc: "cuddGarbageCollect True m1 = Some (k, m2)" "gc_result ext m1 m2"
      "k \<noteq> 0 \<longrightarrow> nextFree m2 \<noteq> []"
      using cuddGarbageCollect_ok [OF k1] by metis
    note s2 = shrinks_gc [OF gc(2)]
    then have k2: "mgr_ok ext {} m2" by (simp add: shrinks_def)
    have "chunk_result ext m2 (if k \<noteq> 0 then Some (True, m2)
      else do {
        (mem, m3) \<leftarrow> (if stash m2 then do {
             m3 \<leftarrow> cuddSlowTableGrowth (m2\<lparr>stash := False\<rparr>);
             Some (os_chunk m3) }
           else Some (NULL, m2));
        if mem = NULL then Some (False, (MMoutOfMemory m3)\<lparr>errorCode := CUDD_MEMORY_OUT\<rparr>)
        else Some (True, slice_chunk mem m3) })" (is "chunk_result ext m2 ?rest")
    proof (cases "k \<noteq> 0")
      case True
      then show ?thesis using gc(3) shrinks_refl [OF k2] by (simp add: chunk_resultI)
    next
      case k: False
      show ?thesis
      proof (cases "stash m2")
        case False
        then show ?thesis
          using k same_table_grows [OF handler_ok [OF k2]] by (simp add: chunk_resultI)
      next
        case st: True
        obtain m3 where m3: "cuddSlowTableGrowth (m2\<lparr>stash := False\<rparr>) = Some m3" "same_table ext m2 m3"
          using cuddSlowTableGrowth_ok [OF k2 st] by blast
        note s3 = same_table_grows [OF m3(2)]
        then have k3: "mgr_ok ext {} m3" by (simp add: shrinks_def)
        obtain mem' m4 where o4: "os_chunk m3 = (mem', m4)" by force
        have "chunk_result ext m3 (if mem' = NULL then Some (False, (MMoutOfMemory m4)\<lparr>errorCode := CUDD_MEMORY_OUT\<rparr>)
          else Some (True, slice_chunk mem' m4))"
        proof (cases "mem' = NULL")
          case True
          note t4 = try_chunk(1) [OF k3 o4 True]
          then have "mgr_ok ext {} m4" by (simp add: same_table_def shrinks_def)
          from same_table_grows [OF same_table_trans [OF t4 handler_ok [OF this] k3]]
          show ?thesis using True by (simp add: chunk_resultI)
        qed (use try_chunk(2) [OF k3 o4] in simp)
        then have "chunk_result ext m2 (if mem' = NULL then Some (False, (MMoutOfMemory m4)\<lparr>errorCode := CUDD_MEMORY_OUT\<rparr>)
          else Some (True, slice_chunk mem' m4))"
          using chunk_result_step [OF _ _ k2] s3 by blast
        then show ?thesis using k st m3(1) o4 by simp
      qed
    qed
    then have "chunk_result ext m1 ?rest"
      using chunk_result_step [OF s2 _ k1] gc_grows [OF gc(2)] by blast
    then have "chunk_result ext m ?rest" using chunk_result_step [OF _ _ assms] s1 by blast
    then show ?thesis using o1 True gc(1) by (simp add: alloc_chunk_def)
  qed
qed

lemma cuddAllocNode_ok:
  assumes "mgr_ok ext {} m"
  shows "alloc_result ext m (cuddAllocNode m)"
proof (cases "nextFree m = []")
  case False
  then show ?thesis using take_free_ok [OF assms] by (simp add: cuddAllocNode_def)
next
  case nf: True
  show ?thesis
  proof (cases "(keys m - dead m) + (keysZ m - deadZ m) > maxLive m")
    case True
    then show ?thesis
      using nf same_table_null [OF set_error_ok [OF assms]] by (simp add: cuddAllocNode_def)
  next
    case lim: False
    obtain late m1 where t1: "time_expired m = (late, m1)" by force
    note s1 = time_expired_ok [OF assms t1]
    then have k1: "mgr_ok ext {} m1" by (simp add: same_table_def shrinks_def)
    show ?thesis
    proof (cases late)
      case True
      then show ?thesis
        using nf lim t1 same_table_null [OF same_table_trans [OF s1(1) set_error_ok [OF k1] assms]]
        by (simp add: cuddAllocNode_def)
    next
      case late: False
      define rest where "rest = (\<lambda>m2. if nextFree m2 \<noteq> [] then take_free m2
          else if memused m2 > maxmemhard m2
          then Some (NULL, m2\<lparr>errorCode := CUDD_MAX_MEM_EXCEEDED\<rparr>)
          else do {
            (ok, m3) \<leftarrow> alloc_chunk m2;
            if ok then take_free m3 else Some (NULL, m3) })"
      have rest: "alloc_result ext m2 (rest m2)" if k2: "mgr_ok ext {} m2" for m2
      proof -
        obtain ok m3 where m3: "alloc_chunk m2 = Some (ok, m3)" "shrinks ext m2 m3" "if ok then nextFree m3 \<noteq> [] else failed m3"
          "garbageCollections m2 \<le> garbageCollections m3"
          "garbageCollections m3 = garbageCollections m2 \<longrightarrow> trows m3 = trows m2 \<and> tshifts m3 = tshifts m2"
          using alloc_chunk_ok [OF k2] by (auto simp: chunk_result_def)
        have "mgr_ok ext {} m3" using m3(2) by (simp add: shrinks_def)
        then have "ok \<Longrightarrow> alloc_result ext m2 (take_free m3)"
          using alloc_result_step [OF m3(2) take_free_ok k2 m3(4,5)] m3(3) by simp
        moreover have "\<not> ok \<Longrightarrow> alloc_result ext m2 (Some (NULL, m3))"
          using alloc_null [OF m3(2,4,5)] m3(3) by simp
        moreover have "alloc_result ext m2 (Some (NULL, m2\<lparr>errorCode := CUDD_MAX_MEM_EXCEEDED\<rparr>))"
          by (rule same_table_null [OF set_error_ok [OF k2]]) simp
        moreover have "nextFree m2 \<noteq> [] \<Longrightarrow> alloc_result ext m2 (take_free m2)" by (rule take_free_ok [OF k2])
        ultimately show ?thesis using m3(1) by (simp add: rest_def)
      qed
      have run: "cuddAllocNode m = (if \<not> stash m1 \<or> memused m1 > maxmemhard m1
          then map_option snd (cuddGarbageCollect True m1) else Some m1) \<bind> rest"
        using nf lim t1 late by (simp add: cuddAllocNode_def rest_def)
      have "alloc_result ext m1 (cuddAllocNode m)"
      proof (cases "\<not> stash m1 \<or> memused m1 > maxmemhard m1")
        case True
        obtain k m2 where gc: "cuddGarbageCollect True m1 = Some (k, m2)" "gc_result ext m1 m2"
          using cuddGarbageCollect_ok [OF k1] by metis
        have "mgr_ok ext {} m2" using gc(2) by (simp add: gc_result_def)
        from gc_result_step [OF gc(2) rest [OF this] k1] show ?thesis
          unfolding run using True gc(1) by simp
      next
        case False
        then show ?thesis unfolding run using rest [OF k1] by simp
      qed
      then show ?thesis by (rule same_table_alloc [OF s1(1) _ assms])
    qed
  qed
qed

subsection \<open>Growth of a subtable\<close>

lemma ddFixLimits_geo:
  assumes "cache_geo m"
  shows "\<exists>m'. ddFixLimits m = Some m' \<and> core m' = core m \<and> cache_geo m' \<and>
    set (cache m') \<subseteq> insert empty_entry (set (cache m))"
proof -
  let ?b = "DD_MAX_CACHE_TO_SLOTS_RATIO * slots m"
  let ?m = "m\<lparr>minDead := frac_of_slots (gcFrac m) (slots m),
    cacheSlack := sint (ddMin (maxCacheHard m) ?b) - 2 * sint (cacheSlots m)\<rparr>"
  have c: "core ?m = core m" by (simp add: core_def)
  have b: "unat (maxCacheHard m) < 134217728" "unat (cacheSlots m) = 2 ^ (32 - cacheShift m)" "6 \<le> cacheShift m"
    using assms by (simp_all add: cache_geo_def)
  have "(2 :: nat) ^ (32 - cacheShift m) \<le> 2 ^ 30" using b(3) by (intro power_increasing) simp_all
  then have s: "sint (cacheSlots m) = int (unat (cacheSlots m))" using b(2) by (intro sint_small) simp
  have le: "unat (ddMin (maxCacheHard m) ?b) \<le> unat (maxCacheHard m)"
    by (simp add: ddMin_def word_less_nat_alt)
  then have "sint (ddMin (maxCacheHard m) ?b) = int (unat (ddMin (maxCacheHard m) ?b))"
    using b(1) by (intro sint_small) linarith
  then have "sint (ddMin (maxCacheHard m) ?b) - 2 * sint (cacheSlots m)
      \<le> uint (maxCacheHard m) - 2 * uint (cacheSlots m)"
    using le s uint_nat [of "maxCacheHard m"] uint_nat [of "cacheSlots m"] by linarith
  then have k': "cache_geo ?m" using assms by (simp add: cache_geo_def)
  show ?thesis
  proof (cases "cacheSlots ?m < slots ?m div 2 \<and> cacheSlack ?m \<ge> 0")
    case True
    then obtain m' where "cuddCacheResize ?m = Some m'" "core m' = core ?m" "cache_geo m'"
      "set (cache m') \<subseteq> insert empty_entry (set (cache ?m))"
      using cuddCacheResize_geo [OF k'] by blast
    then show ?thesis using True c by (simp add: ddFixLimits_def Let_def)
  next
    case False
    then show ?thesis using c k' by (auto simp: ddFixLimits_def Let_def)
  qed
qed

lemma ddFixLimits_ok:
  assumes "mgr_ok ext {} m"
  shows "\<exists>m'. ddFixLimits m = Some m' \<and> core m' = core m \<and> mgr_ok ext {} m'"
proof -
  note k = mgr_cache [OF assms]
  obtain m' where m': "ddFixLimits m = Some m'" "core m' = core m" "cache_geo m'"
    "set (cache m') \<subseteq> insert empty_entry (set (cache m))"
    using ddFixLimits_geo [of m] k unfolding cache_ok_geo by blast
  then have "cache_ok m'"
    using k unfolding cache_ok_geo entry_ok_cong(3) [OF core_fields(1) [OF m'(2)]] by auto
  then show ?thesis using m'(1,2) core_ok(3) [OF m'(2) assms] by blast
qed

lemma split_chain_ok:
  assumes "store_ok m" "set c \<subseteq> tabnodes m"
  shows "split_chain m s c = Some (filter (\<lambda>p. even (ddHash (kT m p) (kE m p) s)) c,
    filter (\<lambda>p. odd (ddHash (kT m p) (kE m p) s)) c)"
  using assms(2)
proof (induction c)
  case (Cons p c)
  then have p: "p \<in> tabnodes m" by simp
  obtain n where n: "heap m p = Some n" using nodes_heap [OF assms(1) tab_nodes [OF p]] .
  show ?case using Cons tab_heap(4,5) [OF assms(1) p n] n by simp
qed simp

definition halves :: "DdManager \<Rightarrow> nat \<Rightarrow> ptr list list \<Rightarrow> ptr list list" where
  "halves m s rs = concat (map (\<lambda>c. [filter (\<lambda>p. even (ddHash (kT m p) (kE m p) s)) c,
     filter (\<lambda>p. odd (ddHash (kT m p) (kE m p) s)) c]) rs)"

lemma split_rows_ok:
  assumes "store_ok m" "set (concat rs) \<subseteq> tabnodes m"
  shows "split_rows m s rs = Some (halves m s rs)"
  using assms(2) by (induction rs) (simp_all add: halves_def split_chain_ok [OF assms(1)])

lemma length_halves: "length (halves m s rs) = 2 * length rs"
  by (induction rs) (simp_all add: halves_def)

lemma nth_halves:
  assumes "i < 2 * length rs"
  shows "halves m s rs ! i = filter (\<lambda>p. even (ddHash (kT m p) (kE m p) s) = even i) (rs ! (i div 2))"
  using assms
proof (induction rs arbitrary: i)
  case (Cons c rs)
  show ?case
  proof (cases "i < 2")
    case True
    then have "i = 0 \<or> i = 1" by auto
    then show ?thesis by (auto simp: halves_def)
  next
    case False
    then obtain j where j: "i = Suc (Suc j)" by (metis add_2_eq_Suc le_Suc_ex not_less)
    then have "halves m s (c # rs) ! i = halves m s rs ! j" by (simp add: halves_def)
    then show ?thesis using Cons.IH [of j] Cons.prems j by simp
  qed
qed simp

lemma set_halves: "set (concat (halves m s rs)) = set (concat rs)"
  by (induction rs) (auto simp: halves_def)

lemma ddHash_pred: "0 < s \<Longrightarrow> ddHash T E (s - 1) div 2 = ddHash T E s"
  by (simp only: ddHash_def drop_bit_pred)

text \<open>The number of aligned addresses bounds the number of keys.\<close>

lemma card_aligned:
  assumes "\<And>p. p \<in> A \<Longrightarrow> (p :: ptr) AND 15 = 0"
  shows "card A \<le> 2 ^ 28"
proof -
  have "inj_on (\<lambda>p. unat p div 16) A"
  proof (rule inj_onI)
    fix p q assume pq: "p \<in> A" "q \<in> A" "unat p div 16 = unat q div 16"
    have "unat p mod 16 = 0" "unat q mod 16 = 0"
      using assms [OF pq(1)] assms [OF pq(2)] unat_and_15 [of p] unat_and_15 [of q] by simp_all
    then have "unat p = unat q" using pq(3) by (metis mod_eq_self_iff_div_eq_0 mult_div_mod_eq)
    then show "p = q" by (simp only: word_unat_eq_iff)
  qed
  moreover have "(\<lambda>p. unat p div 16) ` A \<subseteq> {..< 2 ^ 28}"
  proof
    fix n assume "n \<in> (\<lambda>p. unat p div 16) ` A"
    then obtain p :: ptr where "n = unat p div 16" by auto
    moreover have "unat p < 2 ^ 32" by (rule unat_less_2_32)
    ultimately show "n \<in> {..< 2 ^ 28}" by (simp add: less_mult_imp_div_less)
  qed
  ultimately show ?thesis using card_inj_on_le [of _ A "{..< 2 ^ 28 :: nat}"] by auto
qed

lemma full_subtable:
  assumes "mgr_ok ext {} m" "l < dsize m" "sub_keys (subtables m ! l) > sub_maxKeys (subtables m ! l)"
  shows "7 \<le> shift (subtables m ! l)" "sub_slots (subtables m ! l) = 2 ^ (32 - shift (subtables m ! l))"
proof -
  let ?st = "subtables m ! l"
  note g = mgr_okD(5) [OF assms(1)]
  have z: "5 \<le> shift ?st" "sub_slots ?st = 2 ^ (32 - shift ?st)" "4 * sub_slots ?st \<le> unat (sub_maxKeys ?st)"
    using mgr_sizes [OF assms(1)] assms(2) by (auto simp: sizes_ok_def Let_def)
  have k: "sub_keys ?st = of_nat (card (on_level m (tabnodes m) l))"
    using mgr_keys [OF assms(1)] assms(2) by (simp add: keys_ok_def)
  have c: "card (on_level m (tabnodes m) l) \<le> 268435456"
    using card_aligned [of "on_level m (tabnodes m) l"] nodeD(1) [OF g] by (auto simp: on_level_def)
  then have "unat (sub_keys ?st) = card (on_level m (tabnodes m) l)"
    unfolding k by (simp add: unat_of_nat)
  then have "4 * sub_slots ?st < 268435456"
    using z(3) c assms(3) by (simp add: word_less_nat_alt)
  then have "(2 :: nat) ^ (32 - shift ?st) < 2 ^ 26" using z(2) by simp
  then have "32 - shift ?st < 26" by (rule power_less_imp_less_exp [rotated]) simp
  then show "7 \<le> shift ?st" by simp
  show "sub_slots ?st = 2 ^ (32 - shift ?st)" by (rule z(2))
qed

text \<open>Doubling: bucket \<open>j\<close> is split over the buckets \<open>2 j\<close> and \<open>2 j + 1\<close>.\<close>

definition doubled :: "nat \<Rightarrow> DdManager \<Rightarrow> DdManager" where
  "doubled l m = (let st = subtables m ! l; slts = 2 * sub_slots st in m
     \<lparr>subtables := (subtables m)[l := st\<lparr>nodelist := halves m (shift st - 1) (nodelist st),
        sub_slots := slts, shift := shift st - 1,
        sub_maxKeys := of_nat (slts * DD_MAX_SUBTABLE_DENSITY)\<rparr>],
      memused := memused m + of_nat (slts - sub_slots st) * sizeof_DdNodePtr,
      slots := slots m + of_nat (slts - sub_slots st)\<rparr>)"

lemma doubled_rows:
  assumes "store_ok m" "l < dsize m"
  shows "trows (doubled l m) = (trows m)[l := halves m (tshifts m ! l - 1) (trows m ! l)]"
    "tshifts (doubled l m) = (tshifts m)[l := tshifts m ! l - 1]"
    "length (subtables (doubled l m)) = length (subtables m)"
proof -
  have "l < length (subtables m)" using order_okD(1) [OF assms(1)] assms(2) by simp
  then show "trows (doubled l m) = (trows m)[l := halves m (tshifts m ! l - 1) (trows m ! l)]"
    "tshifts (doubled l m) = (tshifts m)[l := tshifts m ! l - 1]"
    "length (subtables (doubled l m)) = length (subtables m)"
    using rows_nth [OF assms] shifts_nth [OF assms]
    by (simp_all add: doubled_def trows_def tshifts_def Let_def take_update_swap map_update)
qed

lemma half_eq: "(a :: nat) div 2 = b div 2 \<Longrightarrow> even a = even b \<Longrightarrow> a = b"
  by presburger

lemma doubled_store:
  assumes "store_ok m" "l < dsize m" "2 \<le> tshifts m ! l"
  shows "store_ok (doubled l m)" "tabnodes (doubled l m) = tabnodes m"
proof -
  let ?m = "doubled l m"
  let ?s = "tshifts m ! l"
  note r = doubled_rows [OF assms(1,2)]
  have ll: "l < length (trows m)" "l < length (tshifts m)"
    using length_rows [OF assms(1)] length_shifts [OF assms(1)] assms(2) by simp_all
  have f: "cont ?m = cont m" "order ?m = order m" "stackSize ?m = stackSize m"
    by (simp_all add: doubled_def Let_def cont_def order_def fun_eq_iff)
  note o = orderD [OF f(2)]
  have k: "kT ?m = kT m" "kE ?m = kE m" "lev ?m = lev m"
    by (simp_all add: fun_eq_iff kT_def kE_def lev_def nidx_def f o)
  have un: "tabnodes m' = (\<Union>r \<in> set (trows m'). set (concat r))" for m'
    by (auto simp: tabnodes_def)
  show t: "tabnodes ?m = tabnodes m"
  proof -
    have "(\<lambda>r. set (concat r)) ` set (trows ?m) = (\<lambda>r. set (concat r)) ` set (trows m)"
    proof -
      have "map (\<lambda>r. set (concat r)) (trows ?m) = map (\<lambda>r. set (concat r)) (trows m)"
        unfolding r(1) by (rule map_update_same) (rule set_halves)
      then show ?thesis by (metis (no_types) set_map)
    qed
    then show ?thesis unfolding un by simp
  qed
  then have n: "nodes ?m = nodes m" by (simp add: nodes_def o)
  have "order_ok ?m" using assms(1) by (simp add: store_ok_def order_ok_def o r(3) f(3))
  moreover have "table_ok ?m"
    unfolding table_ok_def o
  proof (intro allI impI conjI)
    fix i assume i: "i < dsize m"
    note tk = table_okD [OF assms(1) i]
    have cg: "chain_gt ?m = chain_gt m" by (simp add: fun_eq_iff chain_gt_def k)
    show "0 < tshifts ?m ! i" "tshifts ?m ! i < 32"
      using tk(1,2) assms(3) ll by (auto simp: r nth_list_update)
    show "length (trows ?m ! i) = 2 ^ (32 - tshifts ?m ! i)"
    proof (cases "i = l")
      case True
      have "32 - (?s - 1) = Suc (32 - ?s)" using tk(2) True assms(3) by simp
      then show ?thesis using True tk(3) ll by (simp add: r length_halves)
    qed (use tk(3) in \<open>simp add: r\<close>)
    fix j assume j: "j < length (trows ?m ! i)"
    show "chain_ok ?m i j (trows ?m ! i ! j)"
    proof (cases "i = l")
      case False
      then show ?thesis using tk(4) j by (simp add: chain_ok_def r cg f o)
    next
      case True
      then have j': "j < 2 * length (trows m ! l)" using j ll by (simp add: r length_halves)
      have c: "trows ?m ! i ! j =
          filter (\<lambda>p. even (ddHash (kT m p) (kE m p) (?s - 1)) = even j) (trows m ! l ! (j div 2))"
        using True ll nth_halves [OF j'] by (simp add: r)
      have jd: "j div 2 < length (trows m ! l)" using j' by simp
      have hash: "ddHash (kT m p) (kE m p) (?s - 1) = j"
        if p: "p \<in> set (trows m ! l ! (j div 2))" "even (ddHash (kT m p) (kE m p) (?s - 1)) = even j" for p
      proof -
        have "ddHash (kT m p) (kE m p) (?s - 1) div 2 = j div 2"
          using chainE(2) [OF assms(1,2) jd p(1)] assms(3) ddHash_pred [of ?s "kT m p" "kE m p"] by simp
        then show ?thesis using p(2) by (rule half_eq)
      qed
      have "chain_ok m l (j div 2) (trows m ! l ! (j div 2))"
        by (rule table_okD(4) [OF assms(1,2) jd])
      then show ?thesis
        unfolding chain_ok_def c cg f o
        using True ll hash chainE(1) [OF assms(1,2) jd] by (auto simp: r(2) intro: sorted_wrt_filter)
    qed
  qed
  moreover have "one_ok ?m" using assms(1) by (simp add: store_ok_def one_ok_def o f(1))
  moreover have "node_ok ?m p" if "p \<in> tabnodes m" for p
  proof -
    have "node_ok m p" using assms(1) that by (simp add: store_ok_def)
    then show ?thesis unfolding node_ok_def n k .
  qed
  ultimately show "store_ok ?m" unfolding store_ok_def t by blast
qed

lemma doubled_ok:
  assumes "mgr_ok ext {} m" "l < dsize m" "sub_keys (subtables m ! l) > sub_maxKeys (subtables m ! l)"
  shows "shrinks ext m (doubled l m)"
proof -
  let ?m = "doubled l m" and ?st = "subtables m ! l"
  note g = mgr_okD [OF assms(1)]
  note full = full_subtable [OF assms]
  have s: "store_ok ?m" "tabnodes ?m = tabnodes m"
    using doubled_store [OF g(5) assms(2)] full(1) shifts_nth [OF g(5) assms(2)] by simp_all
  have l: "l < length (subtables m)" using order_okD(1) [OF g(5)] assms(2) by simp
  have f: "cont ?m = cont m" "order ?m = order m" "refc ?m = refc m" "heap ?m = heap m" "dead ?m = dead m"
    "constants ?m = constants m" "keys ?m = keys m" "memoryList ?m = memoryList m"
    "os_chunks ?m = os_chunks m" "nextFree ?m = nextFree m" "drow ?m = drow m" "deathRow ?m = deathRow m"
    "nextDead ?m = nextDead m" "deadMask ?m = deadMask m" "stash ?m = stash m" "dsizeZ ?m = dsizeZ m"
    "deadZ ?m = deadZ m" "autoDyn ?m = autoDyn m" "cache ?m = cache m" "cacheShift ?m = cacheShift m"
    "cacheSlots ?m = cacheSlots m" "maxCacheHard ?m = maxCacheHard m" "cacheSlack ?m = cacheSlack m"
    "reordered ?m = reordered m" "stackSize ?m = stackSize m" "length (subtables ?m) = length (subtables m)"
    "perm ?m = perm m" "invperm ?m = invperm m" "vars ?m = vars m" "maxSize ?m = maxSize m"
    "maxSizeZ ?m = maxSizeZ m" "initSlots ?m = initSlots m"
    by (simp_all add: doubled_def Let_def cont_def order_def refc_def drow_def fun_eq_iff)
  note o = orderD [OF f(2)]
  have n: "nodes ?m = nodes m" by (simp add: nodes_def s o)
  have sub: "sub_dead (subtables ?m ! i) = sub_dead (subtables m ! i)"
    "sub_keys (subtables ?m ! i) = sub_keys (subtables m ! i)" for i
    using l by (cases "i = l"; simp add: doubled_def Let_def)+
  have gr: "graph_ok (ext + drow ?m) {#} {} ?m"
    and ol: "\<And>D i. D \<subseteq> tabnodes m \<Longrightarrow> on_level ?m D i = on_level m D i"
    using graph_regraph [OF s f(2,5) _ _ _ _ g(1)] sub(1) by (simp_all add: f)
  have "keys_ok ?m" using mgr_keys [OF assms(1)] by (simp add: keys_ok_def s f o ol sub)
  moreover have "sizes_ok ?m"
    unfolding sizes_ok_def Let_def o
  proof (intro allI impI)
    fix i assume i: "i < dsize m"
    have z: "5 \<le> shift (subtables m ! i) \<and> sub_slots (subtables m ! i) = 2 ^ (32 - shift (subtables m ! i)) \<and>
       4 * sub_slots (subtables m ! i) \<le> unat (sub_maxKeys (subtables m ! i)) \<and>
       (stash m \<longrightarrow> unat (sub_maxKeys (subtables m ! i)) = 4 * sub_slots (subtables m ! i))"
      using mgr_sizes [OF assms(1)] i unfolding sizes_ok_def Let_def by blast
    show "5 \<le> shift (subtables ?m ! i) \<and> sub_slots (subtables ?m ! i) = 2 ^ (32 - shift (subtables ?m ! i)) \<and>
       4 * sub_slots (subtables ?m ! i) \<le> unat (sub_maxKeys (subtables ?m ! i)) \<and>
       (stash ?m \<longrightarrow> unat (sub_maxKeys (subtables ?m ! i)) = 4 * sub_slots (subtables ?m ! i))"
    proof (cases "i = l")
      case False
      then have "subtables ?m ! i = subtables m ! i" by (simp add: doubled_def Let_def)
      then show ?thesis using z by (simp add: f)
    next
      case True
      have st: "subtables ?m ! l = ?st\<lparr>nodelist := halves m (shift ?st - 1) (nodelist ?st),
        sub_slots := 2 * sub_slots ?st, shift := shift ?st - 1,
        sub_maxKeys := of_nat (2 * sub_slots ?st * DD_MAX_SUBTABLE_DENSITY)\<rparr>"
        using l by (simp add: doubled_def Let_def)
      have sh: "shift ?st \<le> 31"
        using table_okD(2) [OF g(5) assms(2)] shifts_nth [OF g(5) assms(2)] by simp
      have "32 - shift ?st \<le> 25" using full(1) by simp
      then have "(2 :: nat) ^ (32 - shift ?st) \<le> 2 ^ 25" by (intro power_increasing) simp_all
      then have "sub_slots ?st \<le> 33554432" using full(2) by simp
      then have "2 * sub_slots ?st * DD_MAX_SUBTABLE_DENSITY < 2 ^ LENGTH(32)"
        by (simp add: DD_MAX_SUBTABLE_DENSITY_def)
      then have "unat (of_nat (2 * sub_slots ?st * DD_MAX_SUBTABLE_DENSITY) :: uint32)
          = 2 * sub_slots ?st * DD_MAX_SUBTABLE_DENSITY"
        by (simp only: unat_of_nat mod_less)
      moreover have "32 - (shift ?st - 1) = Suc (32 - shift ?st)" using full(1) sh by simp
      ultimately show ?thesis
        using True full st by (simp add: DD_MAX_SUBTABLE_DENSITY_def)
    qed
  qed
  moreover have "misc_ok ?m" using mgr_misc [OF assms(1)] by (simp add: misc_ok_def dims_ok_def f)
  moreover have "cache_ok ?m"
    by (rule cache_ok_grow [OF g(5) s(1) f(2) mgr_cache [OF assms(1)]]) (use n f in auto)
  moreover have "mem_ok ?m"
    using mgr_mem [OF assms(1)] by (simp add: mem_ok_def pool_def fresh_pool_def cnodes_def f s o)
  ultimately have "rest_ok ?m" by (simp add: rest_ok_def)
  then have "mgr_ok ext {} ?m"
    using gr g(2,3) assms(1) by (simp add: mgr_ok_def loose_ok_def f s o row_ok_def)
  moreover have "keep (set_mset ext) m ?m"
    using reach_nodes [OF g(5,8)] n by (auto simp: keep_def f)
  ultimately show ?thesis by (simp add: shrinks_def s f)
qed

lemma shrinksD: "shrinks ext m m' \<Longrightarrow> mgr_ok ext {} m'"
  by (simp add: shrinks_def)

lemma same_tableD: "same_table ext m m' \<Longrightarrow> shrinks ext m m'" "same_table ext m m' \<Longrightarrow> mgr_ok ext {} m'"
  by (simp_all add: same_table_def shrinks_def)

lemma gc_shrinks:
  assumes "mgr_ok ext {} m"
  shows "\<exists>k m'. cuddGarbageCollect True m = Some (k, m') \<and> shrinks ext m m' \<and> mgr_ok ext {} m' \<and>
    dsize m' = dsize m \<and> (k = 0 \<longrightarrow> map no_dead (subtables m') = map no_dead (subtables m))"
  using cuddGarbageCollect_ok [OF assms] shrinks_gc unfolding gc_result_def by metis

lemma grow_subtable_ok:
  assumes "mgr_ok ext {} m" "l < dsize m" "sub_keys (subtables m ! l) > sub_maxKeys (subtables m ! l)"
  shows "\<exists>m'. grow_subtable l m = Some m' \<and> shrinks ext m m'"
proof -
  note g = mgr_okD [OF assms(1)]
  have l: "l < length (subtables m)" using order_okD(1) [OF g(5)] assms(2) by simp
  obtain got m1 where o1: "os_alloc m = (got, m1)" by force
  note c1 = os_alloc_core [OF o1]
  have st1: "same_table ext m m1" using c1 by (intro same_table_core [OF assms(1)]) simp_all
  then have s1: "shrinks ext m m1" and k1: "mgr_ok ext {} m1" by (simp_all add: same_table_def shrinks_def)
  have f1: "subtables m1 = subtables m" "dsize m1 = dsize m" using c1 core_fields(5,18) [of m1 m] by simp_all
  show ?thesis
  proof (cases got)
    case False
    obtain k m2 where m2: "cuddGarbageCollect True m1 = Some (k, m2)" "shrinks ext m1 m2" "mgr_ok ext {} m2"
      using gc_shrinks [OF k1] by blast
    have s2: "shrinks ext m m2" by (rule shrinks_trans [OF s1 m2(2) assms(1)])
    show ?thesis
    proof (cases "stash m2")
      case True
      obtain m3 where m3: "cuddSlowTableGrowth (m2\<lparr>stash := False\<rparr>) = Some m3" "same_table ext m2 m3"
        using cuddSlowTableGrowth_ok [OF m2(3) True] by blast
      then have "shrinks ext m m3"
        using shrinks_trans [OF s2 _ assms(1)] by (simp add: same_table_def)
      then show ?thesis using o1 False m2(1) True m3(1) l by (simp add: grow_subtable_def)
    qed (use o1 False m2(1) s2 l in \<open>simp add: grow_subtable_def\<close>)
  next
    case True
    let ?st = "subtables m ! l"
    have full: "7 \<le> shift ?st" using full_subtable [OF assms] by simp
    have "shrinks ext m1 (doubled l m1)" by (rule doubled_ok [OF k1]) (use assms(2,3) f1 in simp_all)
    then have s2: "shrinks ext m (doubled l m1)" by (rule shrinks_trans [OF s1 _ assms(1)])
    then have "mgr_ok ext {} (doubled l m1)" by (simp add: shrinks_def)
    then obtain m3 where m3: "ddFixLimits (doubled l m1) = Some m3" "core m3 = core (doubled l m1)"
      "mgr_ok ext {} m3"
      using ddFixLimits_ok by blast
    have s3: "shrinks ext m m3" by (rule shrinks_core [OF s2 m3(2) mgr_cache [OF m3(3)]])
    have "set (concat (nodelist ?st)) \<subseteq> tabnodes m1"
      using level_nodes(1) [OF mgr_okD(5) [OF k1], of l] rows_nth [OF mgr_okD(5) [OF k1], of l] f1 assms(2)
      by (auto simp: on_level_def)
    then have "split_rows m1 (shift ?st - 1) (nodelist ?st) = Some (halves m1 (shift ?st - 1) (nodelist ?st))"
      by (rule split_rows_ok [OF mgr_okD(5) [OF k1]])
    then have "grow_subtable l m = Some m3"
      using o1 True full l m3(1) f1 by (simp add: grow_subtable_def Let_def doubled_def)
    then show ?thesis using s3 by blast
  qed
qed

lemma cuddRehash_ok:
  assumes "mgr_ok ext {} m" "l < dsize m" "sub_keys (subtables m ! l) > sub_maxKeys (subtables m ! l)"
  shows "\<exists>m'. cuddRehash l m = Some m' \<and> shrinks ext m m'"
proof -
  note g = mgr_okD [OF assms(1)]
  let ?m = "rehash_limits m"
  have s1: "same_table ext m ?m"
    by (rule same_table_core [OF assms(1)]) (simp_all add: rehash_limits_def core_def)
  have f1: "subtables ?m = subtables m" "dsize ?m = dsize m" by (simp_all add: rehash_limits_def)
  from s1 have k1: "mgr_ok ext {} ?m" and sh1: "shrinks ext m ?m" by (simp_all add: same_table_def shrinks_def)
  show ?thesis
  proof (cases "gcFrac ?m \<noteq> DD_GC_FRAC_MIN \<and> memused ?m > maxmem ?m")
    case False
    obtain m' where "grow_subtable l ?m = Some m'" "shrinks ext ?m m'"
      using grow_subtable_ok [OF k1, of l] assms(2,3) f1 by auto
    then show ?thesis
      using False shrinks_trans [OF sh1 _ assms(1)] unfolding cuddRehash_def Let_def by auto
  next
    case True
    let ?m2 = "?m\<lparr>gcFrac := DD_GC_FRAC_MIN, minDead := frac_of_slots DD_GC_FRAC_MIN (slots ?m)\<rparr>"
    have s2: "same_table ext ?m ?m2" by (rule same_table_core [OF k1]) (simp_all add: core_def)
    have k2: "mgr_ok ext {} ?m2" by (rule same_tableD(2) [OF s2])
    have sh2: "shrinks ext m ?m2" by (rule shrinks_trans [OF sh1 same_tableD(1) [OF s2] assms(1)])
    obtain m3 where m3: "cuddShrinkDeathRow ?m2 = Some m3" "mgr_ok ext {} m3" "row_only ?m2 m3"
      using cuddShrinkDeathRow_ok [OF k2] by blast
    note r3 = row_only_fields [OF m3(3)]
    have "shrinks ext ?m2 m3"
      using m3(2) row_only_keep [OF m3(3) mgr_okD(5,8) [OF k2]] store_cong [OF r3(1)] by (simp add: shrinks_def)
    then have sh3: "shrinks ext m m3" by (rule shrinks_trans [OF sh2 _ assms(1)])
    obtain k m4 where m4: "cuddGarbageCollect True m3 = Some (k, m4)" "shrinks ext m3 m4" "mgr_ok ext {} m4"
      "dsize m4 = dsize m3" "k = 0 \<longrightarrow> map no_dead (subtables m4) = map no_dead (subtables m3)"
      using gc_shrinks [OF m3(2)] by blast
    have sh4: "shrinks ext m m4" by (rule shrinks_trans [OF sh3 m4(2) assms(1)])
    show ?thesis
    proof (cases "k = 0")
      case False
      then show ?thesis using True m3(1) m4(1) sh4 unfolding cuddRehash_def Let_def by simp
    next
      case k: True
      have nd: "map no_dead (subtables m4) = map no_dead (subtables m)"
        using m4(5) k r3(15) f1(1) by simp
      have l: "l < length (subtables m)" using order_okD(1) [OF g(5)] assms(2) by simp
      have "no_dead (subtables m4 ! l) = no_dead (subtables m ! l)" by (rule no_dead_same(4) [OF nd l])
      then have "sub_keys (subtables m4 ! l) = sub_keys (subtables m ! l)"
        "sub_maxKeys (subtables m4 ! l) = sub_maxKeys (subtables m ! l)"
        by (cases "subtables m4 ! l"; cases "subtables m ! l"; simp add: no_dead_def)+
      moreover have "dsize m4 = dsize m" using m4(4) store_cong(6) [OF r3(1)] f1(2) by simp
      ultimately obtain m5 where "grow_subtable l m4 = Some m5" "shrinks ext m4 m5"
        using grow_subtable_ok [OF m4(3), of l] assms(2,3) by auto
      then show ?thesis
        using True k m3(1) m4(1) shrinks_trans [OF sh4 _ assms(1)] unfolding cuddRehash_def Let_def by auto
    qed
  qed
qed

lemma make_room_ok:
  assumes "mgr_ok ext {} m" "l < dsize m"
  shows "\<exists>ok m'. make_room l m = Some (ok, m') \<and> shrinks ext m m' \<and> (ok \<or> failed m')"
proof -
  let ?st = "subtables m ! l"
  note g = mgr_okD [OF assms(1)]
  have l: "l < length (subtables m)" using order_okD(1) [OF g(5)] assms(2) by simp
  show ?thesis
  proof (cases "sub_keys ?st > sub_maxKeys ?st")
    case False
    then have "make_room l m = Some (True, m)" using l by (simp add: make_room_def)
    then show ?thesis using shrinks_refl [OF assms(1)] by blast
  next
    case full: True
    show ?thesis
    proof (cases "too_many_dead m ?st")
      case False
      obtain m' where "cuddRehash l m = Some m'" "shrinks ext m m'"
        using cuddRehash_ok [OF assms full] by blast
      then have "make_room l m = Some (True, m')" using full False l by (simp add: make_room_def)
      then show ?thesis using \<open>shrinks ext m m'\<close> by blast
    next
      case True
      obtain late m1 where t1: "time_expired m = (late, m1)" by force
      note s1 = time_expired_ok(1) [OF assms(1) t1]
      then have k1: "mgr_ok ext {} m1" and sh1: "shrinks ext m m1" by (simp_all add: same_table_def shrinks_def)
      show ?thesis
      proof (cases late)
        case True
        have "shrinks ext m (m1\<lparr>errorCode := CUDD_TIMEOUT_EXPIRED\<rparr>)"
          by (rule same_tableD(1) [OF same_table_trans [OF s1 set_error_ok [OF k1] assms(1)]])
        moreover have "make_room l m = Some (False, m1\<lparr>errorCode := CUDD_TIMEOUT_EXPIRED\<rparr>)"
          using full \<open>too_many_dead m ?st\<close> l t1 True by (simp add: make_room_def)
        ultimately show ?thesis by auto
      next
        case False
        obtain k m2 where "cuddGarbageCollect True m1 = Some (k, m2)" "shrinks ext m1 m2"
          using gc_shrinks [OF k1] by blast
        moreover from this have "make_room l m = Some (True, m2)"
          using full True l t1 False by (simp add: make_room_def)
        ultimately show ?thesis using shrinks_trans [OF sh1 _ assms(1)] by blast
      qed
    qed
  qed
qed

end
