(* ===== verification/CuddUnique.thy ===== *)
theory CuddUnique
  imports CuddGrow
begin

text \<open>
  Lookup-or-insert. \<open>cuddUniqueInter\<close> returns the one node for a variable and two children, or
  \<open>NULL\<close> when a limit is hit; it never aborts, and keeps the invariant and everything below the
  caller's references.
\<close>

subsection \<open>The search in a collision list\<close>

definition kgt :: "DdManager \<Rightarrow> ptr \<Rightarrow> ptr \<Rightarrow> ptr \<Rightarrow> bool" where
  "kgt m q T E \<longleftrightarrow> T < kT m q \<or> (kT m q = T \<and> E < kE m q)"

lemma skip_T_ok:
  assumes "store_ok m" "set c \<subseteq> tabnodes m"
  shows "\<exists>b a. skip_T m T c = Some (b, a) \<and> c = b @ a \<and> (\<forall>q \<in> set b. T < kT m q) \<and>
    (a \<noteq> [] \<longrightarrow> \<not> T < kT m (hd a))"
  using assms(2)
proof (induction c)
  case (Cons p c)
  then obtain b a where IH: "skip_T m T c = Some (b, a)" "c = b @ a" "\<forall>q \<in> set b. T < kT m q"
    "a \<noteq> [] \<longrightarrow> \<not> T < kT m (hd a)" by auto
  have p: "p \<in> tabnodes m" using Cons.prems by simp
  obtain n where n: "heap m p = Some n" using nodes_heap [OF assms(1) tab_nodes [OF p]] .
  show ?case
  proof (cases "T < kT m p")
    case True
    then have "skip_T m T (p # c) = Some (p # b, a)" using IH(1) n tab_heap(4) [OF assms(1) p n] by simp
    then show ?thesis using IH(2-4) True by auto
  next
    case False
    then show ?thesis using n tab_heap(4) [OF assms(1) p n] by simp
  qed
qed simp

lemma skip_E_ok:
  assumes "store_ok m" "set c \<subseteq> tabnodes m"
  shows "\<exists>b a. skip_E m T E c = Some (b, a) \<and> c = b @ a \<and> (\<forall>q \<in> set b. kT m q = T \<and> E < kE m q) \<and>
    (a \<noteq> [] \<longrightarrow> \<not> (kT m (hd a) = T \<and> E < kE m (hd a)))"
  using assms(2)
proof (induction c)
  case (Cons p c)
  then obtain b a where IH: "skip_E m T E c = Some (b, a)" "c = b @ a"
    "\<forall>q \<in> set b. kT m q = T \<and> E < kE m q" "a \<noteq> [] \<longrightarrow> \<not> (kT m (hd a) = T \<and> E < kE m (hd a))" by auto
  have p: "p \<in> tabnodes m" using Cons.prems by simp
  obtain n where n: "heap m p = Some n" using nodes_heap [OF assms(1) tab_nodes [OF p]] .
  note h = tab_heap(4,5) [OF assms(1) p n]
  show ?case
  proof (cases "kT m p = T \<and> E < kE m p")
    case True
    then have "skip_E m T E (p # c) = Some (p # b, a)" using IH(1) n h by simp
    then show ?thesis using IH(2-4) True by auto
  next
    case False
    then have "skip_E m T E (p # c) = Some ([], p # c)" using n h by auto
    then show ?thesis using False by auto
  qed
qed simp

lemma chain_search_ok:
  assumes "store_ok m" "set c \<subseteq> tabnodes m" "sorted_wrt (chain_gt m) c"
  shows "\<exists>b a. chain_search m T E c = Some (b, a) \<and> c = b @ a \<and> (\<forall>q \<in> set b. kgt m q T E) \<and>
    (\<forall>q \<in> set a. \<not> kgt m q T E)"
proof -
  obtain b1 a1 where s1: "skip_T m T c = Some (b1, a1)" "c = b1 @ a1" "\<forall>q \<in> set b1. T < kT m q"
    "a1 \<noteq> [] \<longrightarrow> \<not> T < kT m (hd a1)"
    using skip_T_ok [OF assms(1,2)] by blast
  have "set a1 \<subseteq> tabnodes m" using s1(2) assms(2) by simp
  then obtain b2 a2 where s2: "skip_E m T E a1 = Some (b2, a2)" "a1 = b2 @ a2"
    "\<forall>q \<in> set b2. kT m q = T \<and> E < kE m q" "a2 \<noteq> [] \<longrightarrow> \<not> (kT m (hd a2) = T \<and> E < kE m (hd a2))"
    using skip_E_ok [OF assms(1)] by blast
  have srt: "sorted_wrt (chain_gt m) a2" "\<forall>p \<in> set b2. \<forall>q \<in> set a2. chain_gt m p q"
    using assms(3) s1(2) s2(2) by (simp_all add: sorted_wrt_append)
  have hd: "\<not> kgt m (hd a2) T E" if "a2 \<noteq> []"
  proof (cases b2)
    case Nil
    then show ?thesis using that s1(4) s2(2,4) by (auto simp: kgt_def)
  next
    case (Cons p b)
    then have "chain_gt m p (hd a2)" "kT m p = T" using srt(2) s2(3) that by auto
    then show ?thesis using s2(4) that by (auto simp: kgt_def chain_gt_def)
  qed
  have "\<not> kgt m q T E" if q: "q \<in> set a2" for q
  proof (cases "q = hd a2")
    case True
    moreover have "a2 \<noteq> []" using q by auto
    ultimately show ?thesis using hd by blast
  next
    case False
    have "chain_gt m (hd a2) q" using srt(1) q False by (cases a2) auto
    moreover have "a2 \<noteq> []" using q by auto
    then have "\<not> kgt m (hd a2) T E" by (rule hd)
    ultimately show ?thesis by (auto simp: kgt_def chain_gt_def)
  qed
  moreover have "chain_search m T E c = Some (b1 @ b2, a2)" using s1(1) s2(1) by (simp add: chain_search_def)
  moreover have "\<forall>q \<in> set (b1 @ b2). kgt m q T E" using s1(3) s2(3) by (auto simp: kgt_def)
  ultimately show ?thesis using s1(2) s2(2) by auto
qed

text \<open>The place of a pair in a subtable, and whether the pair is there.\<close>

definition place_ok :: "DdManager \<Rightarrow> nat \<Rightarrow> ptr \<Rightarrow> ptr \<Rightarrow> nat \<times> ptr list \<times> ptr list \<Rightarrow> bool" where
  "place_ok m l T E place \<longleftrightarrow> (case place of (pos, b, a) \<Rightarrow>
     pos = ddHash T E (tshifts m ! l) \<and> trows m ! l ! pos = b @ a \<and>
     (\<forall>q \<in> set b. kgt m q T E) \<and> (\<forall>q \<in> set a. \<not> kgt m q T E))"

definition present :: "DdManager \<Rightarrow> nat \<Rightarrow> ptr \<Rightarrow> ptr \<Rightarrow> bool" where
  "present m l T E \<longleftrightarrow> (\<exists>p \<in> tabnodes m. lev m p = l \<and> kT m p = T \<and> kE m p = E)"

lemma find_place_ok:
  assumes "store_ok m" "l < dsize m"
  shows "\<exists>pos b a. find_place m l T E = Some (pos, b, a) \<and> place_ok m l T E (pos, b, a) \<and>
    chain_hit m T E a = Some (present m l T E) \<and>
    (present m l T E \<longrightarrow> a \<noteq> [] \<and> hd a \<in> tabnodes m \<and> lev m (hd a) = l \<and> kT m (hd a) = T \<and> kE m (hd a) = E)"
proof -
  let ?pos = "ddHash T E (tshifts m ! l)"
  let ?c = "trows m ! l ! ?pos"
  note tk = table_okD [OF assms]
  have pos: "?pos < length (trows m ! l)"
    unfolding tk(3) ddHash_def using tk(2) by (intro drop_bit_32_less) simp
  have ck: "chain_ok m l ?pos ?c" by (rule tk(4) [OF pos])
  have sub: "set ?c \<subseteq> tabnodes m" using tabnodesI [OF assms pos] by blast
  obtain b a where s: "chain_search m T E ?c = Some (b, a)" "?c = b @ a" "\<forall>q \<in> set b. kgt m q T E"
    "\<forall>q \<in> set a. \<not> kgt m q T E"
    using chain_search_ok [OF assms(1) sub] ck unfolding chain_ok_def by blast
  have fp: "find_place m l T E = Some (?pos, b, a)"
    using s(1) pos order_okD(1) [OF assms(1)] assms(2) rows_nth [OF assms] shifts_nth [OF assms]
    by (simp add: find_place_def Let_def)
  have hit: "present m l T E \<longleftrightarrow> a \<noteq> [] \<and> kT m (hd a) = T \<and> kE m (hd a) = E"
  proof
    assume "present m l T E"
    then obtain p where p: "p \<in> tabnodes m" "lev m p = l" "kT m p = T" "kE m p = E"
      by (auto simp: present_def)
    obtain l' j where j: "l' < dsize m" "j < length (trows m ! l')" "p \<in> set (trows m ! l' ! j)"
      using tabnodesE [OF assms(1) p(1)] .
    have "l' = l" using chain_lev(1) [OF assms(1) j] p(2) by simp
    moreover have "j = ?pos" using chainE(2) [OF assms(1) j] p(3,4) calculation by simp
    ultimately have "p \<in> set b \<or> p \<in> set a" using j(3) s(2) by auto
    then have pa: "p \<in> set a" using s(3) p(3,4) by (auto simp: kgt_def)
    have "p = hd a"
    proof (rule ccontr)
      assume "p \<noteq> hd a"
      moreover have "sorted_wrt (chain_gt m) a"
        using ck s(2) by (simp add: chain_ok_def sorted_wrt_append)
      ultimately have "chain_gt m (hd a) p" using pa by (cases a) auto
      moreover have "\<not> kgt m (hd a) T E" using s(4) pa by (cases a) auto
      ultimately show False using p(3,4) by (auto simp: chain_gt_def kgt_def)
    qed
    then show "a \<noteq> [] \<and> kT m (hd a) = T \<and> kE m (hd a) = E" using pa p by auto
  next
    assume h: "a \<noteq> [] \<and> kT m (hd a) = T \<and> kE m (hd a) = E"
    then have "hd a \<in> set ?c" using s(2) by simp
    then show "present m l T E"
      using h tabnodesI [OF assms pos] chain_lev(1) [OF assms pos] by (auto simp: present_def)
  qed
  have ch: "chain_hit m T E a = Some (present m l T E)"
  proof (cases a)
    case Nil
    then show ?thesis using hit by (simp add: chain_hit_def)
  next
    case (Cons p a')
    then have p: "p \<in> tabnodes m" using sub s(2) by auto
    obtain n where n: "heap m p = Some n" using nodes_heap [OF assms(1) tab_nodes [OF p]] .
    show ?thesis using Cons n tab_heap(4,5) [OF assms(1) p n] hit by (auto simp: chain_hit_def)
  qed
  have "present m l T E \<longrightarrow> hd a \<in> tabnodes m \<and> lev m (hd a) = l"
  proof
    assume "present m l T E"
    then have "hd a \<in> set ?c" using hit s(2) by simp
    then show "hd a \<in> tabnodes m \<and> lev m (hd a) = l"
      using tabnodesI [OF assms pos] chain_lev(1) [OF assms pos] by blast
  qed
  then show ?thesis using fp ch hit s(2-4) by (auto simp: place_ok_def)
qed

subsection \<open>Linking a new node\<close>

text \<open>The children a new node of a level may have.\<close>

definition pair_ok :: "DdManager \<Rightarrow> nat \<Rightarrow> ptr \<Rightarrow> ptr \<Rightarrow> bool" where
  "pair_ok m l T E \<longleftrightarrow> T \<in> nodes m \<and> E \<in> edges m \<and> T \<noteq> E \<and> l < lev m T \<and> l < elev m E"

definition linked :: "nat \<Rightarrow> nat \<Rightarrow> ptr list \<Rightarrow> ptr \<Rightarrow> DdNode \<Rightarrow> DdManager \<Rightarrow> DdManager" where
  "linked l pos c r n m = (let st = subtables m ! l in m
     \<lparr>heap := (heap m)(r \<mapsto> n), keys := keys m + 1,
      subtables := (subtables m)[l := st\<lparr>nodelist := (nodelist st)[pos := c], sub_keys := sub_keys st + 1\<rparr>]\<rparr>)"

lemma linked_rows:
  assumes "store_ok m" "l < dsize m"
  shows "trows (linked l pos c r n m) = (trows m)[l := (trows m ! l)[pos := c]]"
    "tshifts (linked l pos c r n m) = tshifts m"
    "length (subtables (linked l pos c r n m)) = length (subtables m)"
proof -
  have l: "l < length (subtables m)" using order_okD(1) [OF assms(1)] assms(2) by simp
  then show "trows (linked l pos c r n m) = (trows m)[l := (trows m ! l)[pos := c]]"
    using rows_nth [OF assms] by (simp add: linked_def trows_def Let_def take_update_swap map_update)
  show "tshifts (linked l pos c r n m) = tshifts m"
    using l unfolding tshifts_def linked_def Let_def
    by (simp add: take_update_swap) (rule map_update_same, use assms(2) in simp)
  show "length (subtables (linked l pos c r n m)) = length (subtables m)"
    by (simp add: linked_def Let_def)
qed

lemma linked_store:
  assumes "store_ok m" "l < dsize m" "place_ok m l T E (pos, b, a)" "\<not> present m l T E"
    and "r \<notin> nodes m" "r AND 15 = 0" "r \<noteq> NULL" "pair_ok m l T E"
    and "index n = of_nat (invperm m ! l)" "type n = Kids T E"
  defines "m' \<equiv> linked l pos (b @ r # a) r n m"
  shows "store_ok m'" "tabnodes m' = insert r (tabnodes m)" "order m' = order m"
    "\<And>p. p \<in> nodes m \<Longrightarrow> cont m' p = cont m p" "kT m' r = T" "kE m' r = E" "lev m' r = l"
    "nidx m' r = invperm m ! l"
proof -
  note tk = table_okD [OF assms(1,2)]
  note lr = linked_rows [OF assms(1,2), of pos "b @ r # a" r n]
  have pl: "pos = ddHash T E (tshifts m ! l)" "trows m ! l ! pos = b @ a" "\<forall>q \<in> set b. kgt m q T E"
    "\<forall>q \<in> set a. \<not> kgt m q T E"
    using assms(3) by (auto simp: place_ok_def)
  have pos: "pos < length (trows m ! l)"
    unfolding tk(3) pl(1) ddHash_def using tk(2) by (intro drop_bit_32_less) simp
  have ll: "l < length (trows m)" using length_rows [OF assms(1)] assms(2) by simp
  have rows: "trows m' = (trows m)[l := (trows m ! l)[pos := b @ r # a]]" "tshifts m' = tshifts m"
    using lr by (simp_all add: m'_def)
  show ord: "order m' = order m" by (simp add: m'_def linked_def Let_def order_def)
  note o = orderD [OF ord]
  show c: "cont m' p = cont m p" if "p \<in> nodes m" for p
    using that assms(5) by (auto simp: m'_def linked_def Let_def cont_def)
  have cr: "cont m' r = Some (of_nat (invperm m ! l), Kids T E)"
    using assms(9,10) by (simp add: m'_def linked_def Let_def cont_def)
  show k: "kT m' r = T" "kE m' r = E" by (simp_all add: kT_def kE_def cr)
  show ix: "nidx m' r = invperm m ! l" by (simp add: nidx_def cr level_index [OF assms(1,2)])
  have r1: "r \<noteq> DD_ONE m" using assms(5) by auto
  show lv: "lev m' r = l"
    using ix r1 order_okD(7) [OF assms(1,2)] by (simp add: lev_def o)
  have same: "kT m' p = kT m p" "kE m' p = kE m p" "lev m' p = lev m p" if "p \<in> nodes m" for p
    using c [OF that] by (simp_all add: kT_def kE_def lev_def nidx_def o)
  have tl: "set (trows m' ! l ! pos) = insert r (set (trows m ! l ! pos))"
    using ll pos pl(2) by (simp add: rows)
  have nth: "trows m' ! i ! j = (if i = l \<and> j = pos then b @ r # a else trows m ! i ! j)" for i j
    using ll pos by (auto simp: rows nth_list_update)
  have len: "length (trows m' ! i) = length (trows m ! i)" for i
    using ll by (cases "i = l") (simp_all add: rows)
  have lrs: "length (trows m) = dsize m" "length (trows m') = dsize m"
    using length_rows [OF assms(1)] by (simp_all add: rows)
  show t: "tabnodes m' = insert r (tabnodes m)"
  proof -
    have mem: "p \<in> tabnodes x \<longleftrightarrow> (\<exists>i < length (trows x). \<exists>j < length (trows x ! i). p \<in> set (trows x ! i ! j))"
      for p x by (auto simp: tabnodes_def in_set_conv_nth [of _ "trows x"]) (metis in_set_conv_nth nth_mem)+
    show ?thesis
    proof (intro set_eqI iffI)
      fix p assume "p \<in> tabnodes m'"
      then show "p \<in> insert r (tabnodes m)"
        unfolding mem insert_iff lrs len nth using pl(2) pos assms(2)
        by (auto split: if_splits) (metis Un_iff set_append)+
    next
      fix p assume "p \<in> insert r (tabnodes m)"
      moreover have "r \<in> tabnodes m'"
        unfolding mem lrs len nth using pos assms(2) by auto
      moreover have "p \<in> tabnodes m'" if pt: "p \<in> tabnodes m"
      proof -
        obtain i j where ij: "i < dsize m" "j < length (trows m ! i)" "p \<in> set (trows m ! i ! j)"
          using tabnodesE [OF assms(1) pt] .
        then have "p \<in> set (trows m' ! i ! j)" using pl(2) by (auto simp: nth)
        then show ?thesis unfolding mem lrs len using ij by blast
      qed
      ultimately show "p \<in> tabnodes m'" by auto
    qed
  qed
  then have n: "nodes m' = insert r (nodes m)" by (auto simp: nodes_def o)
  have "order_ok m'"
    using assms(1) lr(3) by (simp add: store_ok_def order_ok_def o) (simp add: m'_def linked_def Let_def)
  moreover have "table_ok m'"
    unfolding table_ok_def o rows(2) len
  proof (intro allI impI conjI)
    fix i assume i: "i < dsize m"
    note ti = table_okD [OF assms(1) i]
    show "0 < tshifts m ! i" "tshifts m ! i < 32" "length (trows m ! i) = 2 ^ (32 - tshifts m ! i)"
      using ti by simp_all
    fix j assume j: "j < length (trows m ! i)"
    have nd: "p \<in> nodes m" if "p \<in> set (trows m ! i ! j)" for p
      using tabnodesI [OF assms(1) i j that] by (rule tab_nodes)
    have ck: "chain_ok m i j (trows m ! i ! j)" by (rule ti(4) [OF j])
    have srt: "sorted_wrt (chain_gt m') (trows m ! i ! j)"
      by (rule sorted_wrt_mono_rel [of _ "chain_gt m"])
        (use ck nd same in \<open>auto simp: chain_ok_def chain_gt_def\<close>)
    show "chain_ok m' i j (trows m' ! i ! j)"
    proof (cases "i = l \<and> j = pos")
      case False
      then show ?thesis
        using ck srt nd c unfolding chain_ok_def nth by (auto simp: o rows(2))
    next
      case True
      have ba: "p \<in> nodes m" if "p \<in> set b \<union> set a" for p
        using nd [of p] that True pl(2) by auto
      have gt: "chain_gt m' p r" if "p \<in> set b" for p
        using pl(3) that same [OF ba, of p] by (auto simp: chain_gt_def k kgt_def)
      have lt: "chain_gt m' r q" if q: "q \<in> set a" for q
      proof -
        have "\<not> kgt m q T E" using pl(4) q by blast
        moreover have "\<not> (kT m q = T \<and> kE m q = E)"
        proof -
          have "q \<in> set (trows m ! l ! pos)" using q pl(2) by simp
          then show ?thesis
            using assms(4) tabnodesI [OF assms(1,2) pos] chain_lev(1) [OF assms(1,2) pos]
            by (auto simp: present_def)
        qed
        ultimately show ?thesis using same [OF ba, of q] q by (auto simp: chain_gt_def k kgt_def)
      qed
      have "sorted_wrt (chain_gt m') (b @ r # a)"
        using srt gt lt True pl(2) by (auto simp: sorted_wrt_append)
      moreover have "\<exists>T E. cont m' p = Some (of_nat (invperm m ! l), Kids T E) \<and> ddHash T E (tshifts m ! l) = pos"
        if "p \<in> set (b @ r # a)" for p
      proof (cases "p = r")
        case True
        then show ?thesis using cr pl(1) by simp
      next
        case False
        then show ?thesis using that ck \<open>i = l \<and> j = pos\<close> pl(2) c [OF ba] by (auto simp: chain_ok_def)
      qed
      ultimately show ?thesis using True nth by (simp add: chain_ok_def o rows(2))
    qed
  qed
  moreover have "one_ok m'" using assms(1) c by (simp add: store_ok_def one_ok_def o)
  moreover have "node_ok m' p" if "p \<in> insert r (tabnodes m)" for p
  proof (cases "p = r")
    case True
    have "T \<in> nodes m" "Cudd_Regular E \<in> nodes m" using assms(8) by (simp_all add: pair_ok_def edges_def)
    then show ?thesis
      using assms(6-8) same nodes_regular [OF assms(1)]
      unfolding True node_ok_def k n lv pair_ok_def by (simp add: elev_def)
  next
    case False
    then have p: "p \<in> tabnodes m" using that by simp
    then have "node_ok m p" using assms(1) by (simp add: store_ok_def)
    then show ?thesis
      using same [OF tab_nodes [OF p]] same(3) nodeD(5,6) [OF assms(1) p] by (simp add: node_ok_def n)
  qed
  ultimately show "store_ok m'" by (simp add: store_ok_def t)
qed

lemma linked_fields:
  "refc (linked l pos c r n m) p = (if p = r then unat (ref n) else refc m p)"
  "dead (linked l pos c r n m) = dead m" "constants (linked l pos c r n m) = constants m"
  "keys (linked l pos c r n m) = keys m + 1" "memoryList (linked l pos c r n m) = memoryList m"
  "os_chunks (linked l pos c r n m) = os_chunks m" "nextFree (linked l pos c r n m) = nextFree m"
  "deathRow (linked l pos c r n m) = deathRow m" "nextDead (linked l pos c r n m) = nextDead m"
  "deadMask (linked l pos c r n m) = deadMask m" "stash (linked l pos c r n m) = stash m"
  "dsizeZ (linked l pos c r n m) = dsizeZ m" "deadZ (linked l pos c r n m) = deadZ m"
  "autoDyn (linked l pos c r n m) = autoDyn m" "cache (linked l pos c r n m) = cache m"
  "cacheShift (linked l pos c r n m) = cacheShift m" "cacheSlots (linked l pos c r n m) = cacheSlots m"
  "maxCacheHard (linked l pos c r n m) = maxCacheHard m" "cacheSlack (linked l pos c r n m) = cacheSlack m"
  "reordered (linked l pos c r n m) = reordered m" "drow (linked l pos c r n m) = drow m"
  "heap (linked l pos c r n m) = (heap m)(r \<mapsto> n)"
  "length (subtables (linked l pos c r n m)) = length (subtables m)"
  "stackSize (linked l pos c r n m) = stackSize m"
  "perm (linked l pos c r n m) = perm m" "invperm (linked l pos c r n m) = invperm m" "vars (linked l pos c r n m) = vars m" "maxSize (linked l pos c r n m) = maxSize m"
  "maxSizeZ (linked l pos c r n m) = maxSizeZ m" "initSlots (linked l pos c r n m) = initSlots m"
  by (simp_all add: linked_def Let_def refc_def drow_def)

lemma linked_subtables:
  "subtables (linked l pos c r n m) = (subtables m)[l := (subtables m ! l)
     \<lparr>nodelist := (nodelist (subtables m ! l))[pos := c], sub_keys := sub_keys (subtables m ! l) + 1\<rparr>]"
  by (simp add: linked_def Let_def)

lemma linked_nth:
  "l < length (subtables m) \<Longrightarrow> subtables (linked l pos c r n m) ! l = (subtables m ! l)
     \<lparr>nodelist := (nodelist (subtables m ! l))[pos := c], sub_keys := sub_keys (subtables m ! l) + 1\<rparr>"
  "i \<noteq> l \<Longrightarrow> subtables (linked l pos c r n m) ! i = subtables m ! i"
  by (simp_all add: linked_subtables)

lemma linked_sub:
  assumes "l < length (subtables m)"
  shows "sub_dead (subtables (linked l pos c r n m) ! i) = sub_dead (subtables m ! i)"
    "shift (subtables (linked l pos c r n m) ! i) = shift (subtables m ! i)"
    "sub_slots (subtables (linked l pos c r n m) ! i) = sub_slots (subtables m ! i)"
    "sub_maxKeys (subtables (linked l pos c r n m) ! i) = sub_maxKeys (subtables m ! i)"
    "sub_keys (subtables (linked l pos c r n m) ! i) =
       (if i = l then sub_keys (subtables m ! i) + 1 else sub_keys (subtables m ! i))"
  by (cases "i = l"; simp add: linked_nth assms)+

text \<open>
  The new node is floating, its children are referenced by it but not counted yet: the two
  promises are paid by \<open>cuddRef\<close> on the children.
\<close>

lemma linked_graph:
  assumes "graph_ok A {#} {} m" "l < dsize m" "place_ok m l T E (pos, b, a)" "\<not> present m l T E"
    and "r \<notin> nodes m" "r AND 15 = 0" "r \<noteq> NULL" "pair_ok m l T E"
    and "index n = of_nat (invperm m ! l)" "type n = Kids T E" "ref n = 0"
  shows "graph_ok A {# T, Cudd_Regular E #} {r} (linked l pos (b @ r # a) r n m)"
    "dset {r} (linked l pos (b @ r # a) r n m) = dset {} m"
proof -
  let ?m = "linked l pos (b @ r # a) r n m"
  note g = graph_okD [OF assms(1)]
  note ls = linked_store [OF g(1) assms(2-10)]
  note o = orderD [OF ls(3)]
  have rt: "r \<notin> tabnodes m" using assms(5) by (simp add: nodes_def)
  have f: "refc ?m p = refc m p" if "p \<in> nodes m" for p
    using that assms(5) by (auto simp: linked_fields)
  have fr: "refc ?m r = 0" using assms(11) by (simp add: linked_fields)
  have n: "nodes ?m = insert r (nodes m)" by (auto simp: nodes_def ls(2) o)
  have TE: "T \<in> nodes m" "Cudd_Regular E \<in> nodes m"
    using assms(8) by (simp_all add: pair_ok_def edges_def)
  show d: "dset {r} ?m = dset {} m"
    using f [OF tab_nodes] rt by (auto simp: dset_iff ls(2))
  have l: "live {r} ?m = insert r (live {} m)"
    using f [OF tab_nodes] rt by (auto simp: live_iff ls(2))
  have rl: "r \<notin> live {} m" using rt by (simp add: live_iff)
  have k: "kidcount ?m p c = kidcount m p c" if "p \<in> nodes m" for p c
    using ls(4) [OF that] by (simp add: kidcount_def kT_def kE_def)
  have p: "par {r} ?m c = kidcount ?m r c + par {} m c" for c
    unfolding par_def l using rl k [OF tab_nodes] by (auto simp: live_iff intro!: sum.cong)
  have pr: "par {} m r = 0"
  proof -
    have "kidcount m p r = 0" if "p \<in> live {} m" for p
      using nodeD(5,6) [OF g(1), of p] that assms(5) by (auto simp: kidcount_def live_iff)
    then show ?thesis by (simp add: par_def)
  qed
  have kr: "kidcount ?m r c = count {# T, Cudd_Regular E #} c" for c
    by (simp add: kidcount_def ls(5,6))
  have "refs_ok A {# T, Cudd_Regular E #} {r} ?m"
    unfolding refs_ok_def n o
  proof (intro conjI ballI)
    show "DD_ONE m \<in># A" "set_mset A \<subseteq> insert r (nodes m)"
      using g(2) by (auto simp: refs_ok_def)
    show "set_mset {#T, Cudd_Regular E#} \<subseteq> insert r (nodes m)" using TE by simp
    fix q assume "q \<in> insert r (nodes m)"
    then consider "q = r" | "q \<in> nodes m" "q \<noteq> r" by blast
    then show "refc ?m q = 65535 \<or> refc ?m q + count {#T, Cudd_Regular E#} q = count A q + par {r} ?m q"
    proof cases
      case 1
      have "r \<notin># A" using refs_okD(2) [OF g(2)] assms(5) by blast
      then show ?thesis using 1 fr pr TE assms(5) by (auto simp: p kr count_eq_zero_iff)
    next
      case 2
      then show ?thesis using refs_okD(4) [OF g(2) 2(1)] f [OF 2(1)] by (simp add: p kr)
    qed
  qed
  moreover have "deads_ok {r} ?m"
  proof -
    have "on_level ?m (dset {} m) i = on_level m (dset {} m) i" for i
    proof -
      have "lev ?m p = lev m p" if "p \<in> dset {} m" for p
        using ls(4) [OF tab_nodes, of p] that by (simp add: dset_iff lev_def nidx_def o)
      then show ?thesis by (auto simp: on_level_def)
    qed
    then show ?thesis
      using g(3) order_okD(1) [OF g(1)] assms(2)
      by (simp add: deads_ok_def d linked_fields linked_sub o)
  qed
  ultimately show "graph_ok A {# T, Cudd_Regular E #} {r} ?m" using ls(1) by (simp add: graph_ok_def)
qed

lemma linked_rest:
  assumes "mgr_ok ext {} m" "l < dsize m" "place_ok m l T E (pos, b, a)" "\<not> present m l T E"
    and "fresh_in r m" "pair_ok m l T E"
    and "index n = of_nat (invperm m ! l)" "type n = Kids T E"
  shows "rest_ok (linked l pos (b @ r # a) r n m)" "r \<notin> nodes m" "r AND 15 = 0" "r \<noteq> NULL"
proof -
  let ?m = "linked l pos (b @ r # a) r n m"
  note g = mgr_okD [OF assms(1)]
  note mem = mem_okD [OF mgr_mem [OF assms(1)]]
  have r: "r \<in> set (pool m)" "r \<notin> tabnodes m" "r \<notin> cnodes m" "r \<notin> set (nextFree m)"
    using assms(5) by (simp_all add: fresh_in_def)
  show rn: "r \<notin> nodes m" using r mem(8) by (auto simp: nodes_def)
  show ra: "r AND 15 = 0" "r \<noteq> NULL" using mem(1,2) r(1) by simp_all
  note ls = linked_store [OF g(5) assms(2-4) rn ra assms(6-8)]
  note o = orderD [OF ls(3)]
  have l: "l < length (subtables m)" using order_okD(1) [OF g(5)] assms(2) by simp
  have lv: "lev ?m p = lev m p" if "p \<in> tabnodes m" for p
    using ls(4) [OF tab_nodes [OF that]] by (simp add: lev_def nidx_def o)
  have "keys_ok ?m"
  proof -
    have "on_level ?m (insert r (tabnodes m)) i =
        (if i = l then insert r (on_level m (tabnodes m) i) else on_level m (tabnodes m) i)" for i
      using lv ls(7) r(2) by (auto simp: on_level_def)
    moreover have "r \<notin> on_level m (tabnodes m) i" "finite (on_level m (tabnodes m) i)" for i
      using r(2) by (simp_all add: on_level_def)
    ultimately show ?thesis
      using mgr_keys [OF assms(1)] r(2) l by (simp add: keys_ok_def ls(2) linked_fields linked_sub [OF l] o)
  qed
  moreover have "sizes_ok ?m"
    using mgr_sizes [OF assms(1)] unfolding sizes_ok_def Let_def linked_sub [OF l] linked_fields o .
  moreover have "misc_ok ?m" using mgr_misc [OF assms(1)] by (simp add: misc_ok_def dims_ok_def linked_fields)
  moreover have "cache_ok ?m"
    by (rule cache_ok_grow [OF g(5) ls(1,3) mgr_cache [OF assms(1)]])
      (use ls(2,4) o in \<open>auto simp: nodes_def linked_fields\<close>)
  moreover have "mem_ok ?m"
  proof -
    have pl: "pool ?m = pool m" "fresh_pool ?m = fresh_pool m" "cnodes ?m = cnodes m"
      by (simp_all add: pool_def fresh_pool_def cnodes_def linked_fields)
    have dom: "dom (heap ?m) = dom (heap m)" using mem(3) r(1) by (auto simp: linked_fields)
    have rf: "refc ?m p = refc m p" if "p \<noteq> r" for p using that by (simp add: linked_fields)
    have c: "\<forall>p \<in> cnodes m. 0 < refc ?m p" "\<forall>p \<in> set (pool m) - insert r (tabnodes m) - cnodes m. refc ?m p = 0"
      using mgr_mem [OF assms(1)] r(3) rf by (metis mem_ok_def) (use mem(6) rf in auto)
    show ?thesis
      using mgr_mem [OF assms(1)] r c unfolding mem_ok_def pl dom ls(2) o linked_fields(5-7)
      by auto
  qed
  ultimately show "rest_ok ?m" by (simp add: rest_ok_def)
qed

subsection \<open>Insertion\<close>

lemma chain_search_cong:
  assumes "heap m' = heap m"
  shows "chain_search m' T E c = chain_search m T E c"
proof -
  have "skip_T m' T c = skip_T m T c" for c by (induction c) (simp_all only: skip_T.simps assms)
  moreover have "skip_E m' T E c = skip_E m T E c" for c by (induction c) (simp_all only: skip_E.simps assms)
  ultimately show ?thesis by (simp add: chain_search_def)
qed

text \<open>
  A result node of the unique table: \<open>NULL\<close>, or the node for the variable and the children,
  which the caller may take a reference to.
\<close>

definition made :: "nat \<Rightarrow> ptr \<Rightarrow> ptr \<Rightarrow> ptr multiset \<Rightarrow> DdManager \<Rightarrow> ptr result \<Rightarrow> bool" where
  "made l T E ext m res \<longleftrightarrow> (\<exists>r m'. res = Some (r, m') \<and> keep (set_mset ext) m m' \<and>
     (r = NULL \<and> failed m' \<and> mgr_ok ext {} m' \<or>
      r \<in> tabnodes m' \<and> lev m' r = l \<and> kT m' r = T \<and> kE m' r = E \<and> mgr_ok ext {r} m'))"

definition below :: "ptr multiset \<Rightarrow> DdManager \<Rightarrow> nat \<Rightarrow> ptr \<Rightarrow> ptr \<Rightarrow> bool" where
  "below ext m l T E \<longleftrightarrow> \<not> Cudd_IsComplement T \<and> T \<noteq> E \<and> T \<in> reach m (set_mset ext) \<and>
     Cudd_Regular E \<in> reach m (set_mset ext) \<and> l < lev m T \<and> l < elev m E \<and> l < dsize m"

lemma below_keep:
  assumes "below ext m l T E" "mgr_ok ext {} m" "keep (set_mset ext) m m'" "store_ok m'"
  shows "below ext m' l T E"
proof -
  note k = keep_sem(2,4) [OF assms(3) mgr_okD(5) [OF assms(2)] assms(4) mgr_okD(8) [OF assms(2)]]
  have "Cudd_Regular T = T" using assms(1) by (simp add: below_def)
  then show ?thesis
    using assms(1) k [of T] k [of E] orderD(3) [OF keepD(3) [OF assms(3)]]
    by (simp add: below_def elev_def)
qed

lemma below_pair:
  assumes "below ext m l T E" "mgr_ok ext {} m"
  shows "pair_ok m l T E" "0 < refc m T" "0 < refc m (Cudd_Regular E)"
proof -
  note g = mgr_okD [OF assms(2)]
  show "pair_ok m l T E"
    using assms(1) reach_nodes [OF g(5,8)] by (simp add: below_def pair_ok_def edges_def)
  show "0 < refc m T" "0 < refc m (Cudd_Regular E)"
    using assms(1) reach_ref [OF g(5,6), of "set_mset ext"] by (simp_all add: below_def)
qed

text \<open>Paying the promises of a linked node.\<close>

lemma pay_children:
  assumes "graph_ok A {# T, Cudd_Regular E #} {r} m" "\<not> Cudd_IsComplement T"
    and "T \<notin> dset {r} m" "Cudd_Regular E \<notin> dset {r} m" "T \<noteq> r" "Cudd_Regular E \<noteq> r"
  shows "\<exists>m1 m2. cuddRef T m = Some m1 \<and> cuddRef E m1 = Some m2 \<and>
    graph_ok A {#} {r} m2 \<and> counts_only m m2"
proof -
  note g = graph_okD [OF assms(1)]
  have n: "T \<in> nodes m" "Cudd_Regular E \<in> nodes m" using refs_okD(3) [OF g(2)] by simp_all
  obtain nT where nT: "heap m T = Some nT" using nodes_heap [OF g(1) n(1)] .
  let ?m1 = "put_node T (nT\<lparr>ref := cuddSatInc (ref nT)\<rparr>) m"
  have gT: "graph_ok A (add_mset T {# Cudd_Regular E #}) {r} m" using assms(1) by (simp add: add_mset_commute)
  note i1 = inc_step [OF gT assms(3) nT]
  have g1: "graph_ok A (add_mset (Cudd_Regular E) {#}) {r} ?m1" using i1(1) assms(5) by (simp add: insert_Diff_if)
  note s1 = put_ref [OF nT, of "cuddSatInc (ref nT)"]
  have "Cudd_Regular E \<notin> dset {r} ?m1"
    using assms(4,6) by (auto simp: dset_iff store_cong [OF s1(1)] s1(2) unat_SatInc sat_inc_def)
  moreover have "Cudd_Regular E \<in> nodes ?m1" using n(2) by (simp add: store_cong(11) [OF s1(1)])
  then obtain nE where nE: "heap ?m1 (Cudd_Regular E) = Some nE"
    using nodes_heap [OF graph_okD(1) [OF g1]] by blast
  ultimately have i2: "graph_ok A {#} ({r} - {Cudd_Regular E}) (put_node (Cudd_Regular E) (nE\<lparr>ref := cuddSatInc (ref nE)\<rparr>) ?m1)"
    "counts_only ?m1 (put_node (Cudd_Regular E) (nE\<lparr>ref := cuddSatInc (ref nE)\<rparr>) ?m1)"
    using inc_step [OF g1 _ nE] by simp_all
  then show ?thesis
    using nT nE assms(2,6) counts_only_trans [OF i1(2) i2(2)] by (simp add: cuddRef_def insert_Diff_if)
qed

lemma link_ok:
  assumes "mgr_ok ext {} m" "below ext m l T E" "place_ok m l T E (pos, b, a)" "\<not> present m l T E"
    and "fresh_in r m" "index n = of_nat (invperm m ! l)" "type n = Kids T E" "ref n = 0"
  shows "\<exists>m1 m2. cuddRef T (linked l pos (b @ r # a) r n m) = Some m1 \<and> cuddRef E m1 = Some m2 \<and>
    made l T E ext m (Some (r, m2))"
proof -
  let ?m = "linked l pos (b @ r # a) r n m"
  note g = mgr_okD [OF assms(1)]
  have l: "l < dsize m" using assms(2) by (simp add: below_def)
  note p = below_pair [OF assms(2,1)]
  note lr = linked_rest [OF assms(1) l assms(3-5) p(1) assms(6,7)]
  note ls = linked_store [OF g(5) l assms(3,4) lr(2-4) p(1) assms(6,7)]
  note o = orderD [OF ls(3)]
  note lg = linked_graph [OF g(1) l assms(3,4) lr(2-4) p(1) assms(6-8)]
  have ne: "T \<noteq> r" "Cudd_Regular E \<noteq> r" using p(1) lr(2) by (auto simp: pair_ok_def edges_def)
  have "T \<notin> dset {r} ?m" "Cudd_Regular E \<notin> dset {r} ?m" using p(2,3) by (simp_all add: lg(2) dset_iff)
  moreover have "\<not> Cudd_IsComplement T" using assms(2) by (simp add: below_def)
  ultimately obtain m1 m2 where m2: "cuddRef T ?m = Some m1" "cuddRef E m1 = Some m2"
    "graph_ok (ext + drow m) {#} {r} m2" "counts_only ?m m2"
    using pay_children [OF lg(1) _ _ _ ne] by blast
  note s2 = counts_only_store [OF m2(4)]
  note f2 = counts_only_fields [OF m2(4)]
  have one: "DD_ONE m2 = DD_ONE m" using store_cong(7) [OF s2] o(4) by simp
  have "0 < refc m2 (DD_ONE ?m)"
    using one_live [OF graph_okD(2) [OF m2(3)]] one o(4) by simp
  then have "rest_ok m2" by (rule rest_ok_counts [OF lr(1) ls(1) m2(4)])
  moreover have "tabnodes m2 = insert r (tabnodes m)" using store_cong(10) [OF s2] ls(2) by simp
  ultimately have "mgr_ok ext {r} m2"
    using m2(3) g(2,3) assms(1)
    by (auto simp: mgr_ok_def loose_ok_def row_ok_def f2 linked_fields one)
  moreover have "keep (set_mset ext) m m2"
    using reach_nodes [OF g(5,8)] ls(2,3,4) store_cong [OF s2] f2(18)
    by (auto simp: keep_def order_def nodes_def linked_fields)
  moreover have "lev m2 r = l" "kT m2 r = T" "kE m2 r = E"
    using ls(5-7) store_cong [OF s2] by simp_all
  ultimately show ?thesis
    using m2(1,2) ls(2) store_cong(10) [OF s2] unfolding made_def by auto
qed

lemma link_node_eq:
  assumes "l < length (subtables u)" "pos < length (nodelist (subtables u ! l))"
  shows "link_node l pos c u = Some (u\<lparr>subtables := (subtables u)
    [l := (subtables u ! l)\<lparr>nodelist := (nodelist (subtables u ! l))[pos := c]\<rparr>]\<rparr>)"
  using assms by (simp add: link_node_def)

lemma absent_shrinks:
  assumes "shrinks ext m m'" "\<not> present m l T E"
  shows "\<not> present m' l T E"
proof
  assume "present m' l T E"
  then obtain p where p: "p \<in> tabnodes m'" "lev m' p = l" "kT m' p = T" "kE m' p = E"
    by (auto simp: present_def)
  then have "cont m' p = cont m p" "p \<in> tabnodes m" "order m' = order m"
    using assms(1) tab_nodes [OF p(1)] by (auto simp: shrinks_def keep_def)
  then have "present m l T E"
    using p unfolding present_def kT_def kE_def lev_def nidx_def order_def by auto
  then show False using assms(2) by simp
qed

lemma place_same:
  assumes "place_ok m l T E place" "shrinks ext m m'" "trows m' = trows m" "tshifts m' = tshifts m"
    and "store_ok m" "l < dsize m"
  shows "place_ok m' l T E place"
proof -
  obtain pos b a where pl: "place = (pos, b, a)" by (cases place)
  have "kgt m' q T E = kgt m q T E" if "q \<in> set (trows m ! l ! pos)" for q
  proof -
    have "pos < length (trows m ! l)"
      using assms(1) table_okD(2,3) [OF assms(5,6)] drop_bit_32_less
      by (simp add: place_ok_def pl ddHash_def)
    then have "q \<in> tabnodes m" using tabnodesI [OF assms(5,6)] that by blast
    then have "q \<in> nodes m'" using assms(3) by (simp add: nodes_def tabnodes_def)
    then have "cont m' q = cont m q" using assms(2) by (simp add: shrinks_def)
    then show ?thesis by (simp add: kgt_def kT_def kE_def)
  qed
  then show ?thesis using assms(1) by (auto simp: place_ok_def pl assms(3,4))
qed

lemma insert_node_ok:
  assumes "mgr_ok ext {} m" "below ext m l T E" "\<not> present m l T E" "idx = of_nat (invperm m ! l)"
  shows "made l T E ext m (insert_node idx l T E m)"
proof -
  note g = mgr_okD [OF assms(1)]
  have l: "l < dsize m" using assms(2) by (simp add: below_def)
  obtain pos b a where fp: "find_place m l T E = Some (pos, b, a)" "place_ok m l T E (pos, b, a)"
    using find_place_ok [OF g(5) l] by blast
  obtain r m1 where al: "cuddAllocNode m = Some (r, m1)" "shrinks ext m m1" "r = NULL \<and> failed m1 \<or> fresh_in r m1"
    "garbageCollections m1 = garbageCollections m \<longrightarrow> trows m1 = trows m \<and> tshifts m1 = tshifts m"
    using cuddAllocNode_ok [OF assms(1)] by (auto simp: alloc_result_def)
  note k1 = shrinksD [OF al(2)]
  note g1 = mgr_okD [OF k1]
  have kp: "keep (set_mset ext) m m1" using al(2) by (simp add: shrinks_def)
  show ?thesis
  proof (cases "r = NULL")
    case True
    have "failed m1" using al(3) k1 True mem_okD(2) [OF mgr_mem [OF k1]] by (auto simp: fresh_in_def)
    then show ?thesis using True fp(1) al(1) k1 kp by (simp add: insert_node_def made_def)
  next
    case False
    then have fr: "fresh_in r m1" using al(3) by simp
    have b1: "below ext m1 l T E" by (rule below_keep [OF assms(2,1) kp g1(5)])
    then have l1: "l < dsize m1" by (simp add: below_def)
    have ab: "\<not> present m1 l T E" by (rule absent_shrinks [OF al(2) assms(3)])
    have ll: "l < length (subtables m1)" using order_okD(1) [OF g1(5)] l1 by simp
    let ?st = "subtables m1 ! l"
    let ?m2 = "m1\<lparr>keys := keys m1 + 1, subtables := (subtables m1)[l := ?st\<lparr>sub_keys := sub_keys ?st + 1\<rparr>]\<rparr>"
    have fp2: "find_place ?m2 l T E = find_place m1 l T E"
      using ll chain_search_cong [of ?m2 m1 T E] by (simp add: find_place_def Let_def)
    have "\<exists>pos' b' a'. (if garbageCollections m \<noteq> garbageCollections m1 then find_place ?m2 l T E
        else Some (pos, b, a)) = Some (pos', b', a') \<and> place_ok m1 l T E (pos', b', a')"
    proof (cases "garbageCollections m \<noteq> garbageCollections m1")
      case True
      then show ?thesis using find_place_ok [OF g1(5) l1, of T E] fp2 by auto
    next
      case False
      then have "place_ok m1 l T E (pos, b, a)"
        using place_same [OF fp(2) al(2) _ _ g(5) l] al(4) by simp
      then show ?thesis using False by simp
    qed
    then obtain pos' b' a' where pl: "(if garbageCollections m \<noteq> garbageCollections m1 then find_place ?m2 l T E
        else Some (pos, b, a)) = Some (pos', b', a')" "place_ok m1 l T E (pos', b', a')" by blast
    have "r \<in> dom (heap m1)"
      using fr mem_okD(3) [OF mgr_mem [OF k1]] by (auto simp: fresh_in_def)
    then obtain n where n: "heap m1 r = Some n" by blast
    let ?n = "n\<lparr>index := idx, type := Kids T E\<rparr>"
    have "refc m1 r = 0" using mem_okD(6) [OF mgr_mem [OF k1]] fr by (simp add: fresh_in_def)
    then have n0: "ref ?n = 0" using n by (simp add: refc_def unat_eq_0)
    have ix: "index ?n = of_nat (invperm m1 ! l)"
      using assms(4) orderD(2) [OF keepD(3) [OF kp]] by simp
    obtain m3 m4 where lk: "cuddRef T (linked l pos' (b' @ r # a') r ?n m1) = Some m3" "cuddRef E m3 = Some m4"
      "made l T E ext m1 (Some (r, m4))"
      using link_ok [OF k1 b1 pl(2) ab fr ix _ n0] by auto
    have pos: "pos' < length (nodelist ?st)"
    proof -
      have "pos' = ddHash T E (tshifts m1 ! l)" using pl(2) by (simp add: place_ok_def)
      then have "pos' < 2 ^ (32 - tshifts m1 ! l)"
        using table_okD(2) [OF g1(5) l1] by (simp add: ddHash_def drop_bit_32_less)
      then show ?thesis using table_okD(3) [OF g1(5) l1] rows_nth [OF g1(5) l1] by simp
    qed
    have link: "link_node l pos' (b' @ r # a') (put_node r ?n ?m2) = Some (linked l pos' (b' @ r # a') r ?n m1)"
    proof -
      let ?u = "put_node r ?n ?m2"
      let ?rows = "(nodelist ?st)[pos' := b' @ r # a']"
      have u: "subtables ?u = (subtables m1)[l := ?st\<lparr>sub_keys := sub_keys ?st + 1\<rparr>]"
        "subtables ?u ! l = ?st\<lparr>sub_keys := sub_keys ?st + 1\<rparr>"
        using ll by (simp_all add: put_node_def)
      have "?st\<lparr>sub_keys := sub_keys ?st + 1, nodelist := ?rows\<rparr> =
          ?st\<lparr>nodelist := ?rows, sub_keys := sub_keys ?st + 1\<rparr>"
        by (rule DdSubtable.equality) simp_all
      then have "(subtables m1)[l := ?st\<lparr>sub_keys := sub_keys ?st + 1, nodelist := ?rows\<rparr>] =
          (subtables m1)[l := ?st\<lparr>nodelist := ?rows, sub_keys := sub_keys ?st + 1\<rparr>]"
        by (simp only: )
      then have "?u\<lparr>subtables := (subtables ?u)[l := (subtables ?u ! l)\<lparr>nodelist := ?rows\<rparr>]\<rparr> =
          linked l pos' (b' @ r # a') r ?n m1"
        using ll unfolding u(1) by (intro DdManager.equality) (simp_all add: put_node_def linked_def Let_def)
      moreover have "nodelist (subtables ?u ! l) = nodelist ?st" unfolding u(2) by simp
      ultimately show ?thesis
        using link_node_eq [of l ?u pos' "b' @ r # a'"] ll pos u(1) by simp
    qed
    have "insert_node idx l T E m = Some (r, m4)"
      using fp(1) al(1) False ll pl(1) n link lk(1,2)
      by (simp add: insert_node_def bump_keys_def Let_def)
    then show ?thesis
      using lk(3) keep_trans [OF kp _ g(5)] by (auto simp: made_def)
  qed
qed

lemma made_step:
  assumes "keep (set_mset ext) m m1" "made l T E ext m1 res" "store_ok m"
  shows "made l T E ext m res"
  using assms keep_trans [OF assms(1) _ assms(3)] unfolding made_def by blast

lemma uniqueInter_at_ok:
  assumes "mgr_ok ext {} m" "below ext m l T E" "idx = of_nat (invperm m ! l)"
  shows "made l T E ext m (uniqueInter_at idx T E m)"
proof -
  note g = mgr_okD [OF assms(1)]
  have l: "l < dsize m" using assms(2) by (simp add: below_def)
  have ui: "unat idx = invperm m ! l" using level_index(1) [OF g(5) l] assms(3) by simp
  have "invperm m ! l < length (perm m)" "perm m ! (invperm m ! l) = l"
    using order_okD(2,6,7) [OF g(5)] l by (auto intro: less_le_trans)
  then have lv: "nth_opt (perm m) (unat idx) = Some l" using ui by simp
  obtain pos b a where fp: "find_place m l T E = Some (pos, b, a)"
    "chain_hit m T E a = Some (present m l T E)"
    "present m l T E \<longrightarrow> a \<noteq> [] \<and> hd a \<in> tabnodes m \<and> lev m (hd a) = l \<and> kT m (hd a) = T \<and> kE m (hd a) = E"
    using find_place_ok [OF g(5) l] by blast
  show ?thesis
  proof (cases "present m l T E")
    case True
    let ?r = "hd a"
    have r: "?r \<in> tabnodes m" "lev m ?r = l" "kT m ?r = T" "kE m ?r = E" using fp(3) True by simp_all
    have rr: "Cudd_Regular ?r = ?r" using nodeD(9) [OF g(5) r(1)] by simp
    obtain n where n: "heap m ?r = Some n" using nodes_heap [OF g(5) tab_nodes [OF r(1)]] .
    show ?thesis
    proof (cases "ref n = 0")
      case z: True
      obtain m' where m': "cuddReclaim ?r m = Some m'" "mgr_ok ext {?r} m'" "counts_only m m'"
        "keep (set_mset ext) m m'"
        using cuddReclaim_ok [OF assms(1), of ?r] tab_nodes [OF r(1)] rr by auto
      have "uniqueInter_at idx T E m = Some (?r, m')"
        using lv fp(1,2) True n z m'(1) by (simp add: uniqueInter_at_def Let_def)
      then show ?thesis
        using r m'(2,4) store_cong [OF counts_only_store [OF m'(3)]] by (simp add: made_def)
    next
      case nz: False
      have "uniqueInter_at idx T E m = Some (?r, m)"
        using lv fp(1,2) True n nz by (simp add: uniqueInter_at_def Let_def)
      moreover have "mgr_ok ext {?r} m" using assms(1) n nz by (simp add: mgr_unfloat refc_heap unat_gt_0)
      moreover have "keep (set_mset ext) m m" by (rule keep_store [OF _ _ g(5,8)]) simp_all
      ultimately show ?thesis using r by (simp add: made_def)
    qed
  next
    case False
    obtain ok m1 where mk: "make_room l m = Some (ok, m1)" "shrinks ext m m1" "ok \<or> failed m1"
      using make_room_ok [OF assms(1) l] by blast
    note k1 = shrinksD [OF mk(2)]
    have kp: "keep (set_mset ext) m m1" using mk(2) by (simp add: shrinks_def)
    have "\<not> reorder_due m"
      using mgr_misc [OF assms(1)] by (simp add: reorder_due_def misc_ok_def)
    then have run: "uniqueInter_at idx T E m = (if ok then insert_node idx l T E m1 else Some (NULL, m1))"
      using lv fp(1,2) False mk(1) by (simp add: uniqueInter_at_def Let_def)
    have "idx = of_nat (invperm m1 ! l)" using assms(3) orderD(2) [OF keepD(3) [OF kp]] by simp
    then have "made l T E ext m1 (insert_node idx l T E m1)"
      using insert_node_ok [OF k1 below_keep [OF assms(2,1) kp mgr_okD(5) [OF k1]]
          absent_shrinks [OF mk(2) False]] by blast
    then show ?thesis
      unfolding run using made_step [OF kp _ g(5)] k1 kp mk(3) by (auto simp: made_def)
  qed
qed

lemma late_check_ok:
  assumes "mgr_ok ext {} m" "late_check m = (late, m1)"
  shows "same_table ext m m1"
proof (cases "(of_nat (cacheMisses m) :: uint32) AND 0x1ffff = 0")
  case True
  then show ?thesis using assms(2) time_expired_ok(1) [OF assms(1)] by (simp add: late_check_def)
next
  case False
  then show ?thesis using assms(2) same_table_core [OF assms(1)] by (simp add: late_check_def)
qed

lemma cuddUniqueInter_ok:
  assumes "mgr_ok ext {} m" "below ext m l T E" "i = invperm m ! l"
  shows "made l T E ext m (cuddUniqueInter i T E m)"
proof -
  note g = mgr_okD [OF assms(1)]
  have l: "l < dsize m" using assms(2) by (simp add: below_def)
  have i: "i < dsize m" using order_okD(6) [OF g(5) l] assms(3) by simp
  obtain late m1 where t: "late_check m = (late, m1)" by force
  have s1: "same_table ext m m1" by (rule late_check_ok [OF assms(1) t])
  note k1 = same_tableD(2) [OF s1]
  have kp: "keep (set_mset ext) m m1" using same_tableD(1) [OF s1] by (simp add: shrinks_def)
  show ?thesis
  proof (cases late)
    case True
    let ?m = "m1\<lparr>errorCode := CUDD_TIMEOUT_EXPIRED\<rparr>"
    have "same_table ext m ?m" by (rule same_table_trans [OF s1 set_error_ok [OF k1] assms(1)])
    then have "mgr_ok ext {} ?m" "keep (set_mset ext) m ?m"
      using same_tableD [of ext m ?m] by (simp_all add: shrinks_def)
    then show ?thesis using t True by (simp add: cuddUniqueInter_def made_def)
  next
    case False
    have o: "dsize m1 = dsize m" "invperm m1 = invperm m" using orderD [OF keepD(3) [OF kp]] by simp_all
    have "made l T E ext m1 (uniqueInter_at (of_nat i) T E m1)"
      by (rule uniqueInter_at_ok [OF k1 below_keep [OF assms(2,1) kp mgr_okD(5) [OF k1]]])
        (simp add: assms(3) o)
    then show ?thesis
      using made_step [OF kp _ g(5)] t False i o by (simp add: cuddUniqueInter_def)
  qed
qed

end
