(* ===== verification/CuddBddIte.thy ===== *)
theory CuddBddIte
  imports CuddTable
begin

text \<open>
  The Boolean operations on diagrams: \<open>lib/SVF/CUDD/cuddBddIte.c\<close>. Each recursive procedure
  answers terminal cases directly, brings its operands into a standard form, looks the
  operands up in the computed table, recurs on the cofactors with respect to the topmost
  variable and builds the result with the unique table. \<open>NULL\<close> as a result means that no node
  could be made; the partial results are dereferenced before it is returned.
\<close>

subsection \<open>Parts the recursive procedures share\<close>

text \<open>
  The cofactors of an edge with respect to the splitting variable: the children, complemented
  as the edge is, when the edge's node is labelled with the variable (\<open>topmost\<close>), else the edge.
\<close>

definition cofactors :: "ptr \<Rightarrow> DdNode \<Rightarrow> bool \<Rightarrow> (ptr \<times> ptr) option" where
  "cofactors f F topmost =
     (if topmost then do {
        fv \<leftarrow> cuddT F;
        fnv \<leftarrow> cuddE F;
        Some (if Cudd_IsComplement f then (Cudd_Not fv, Cudd_Not fnv) else (fv, fnv)) }
      else Some (f, f))"

definition deref_both :: "ptr \<Rightarrow> ptr \<Rightarrow> DdManager \<Rightarrow> ptr result" where
  "deref_both t e manager = do {
     manager \<leftarrow> Cudd_IterDerefBdd t manager;
     manager \<leftarrow> Cudd_IterDerefBdd e manager;
     Some (NULL, manager) }"

text \<open>
  The node for the results \<open>t\<close> and \<open>e\<close> of the two recursive calls, with the then child made
  regular; both results are released.
\<close>

definition combine :: "DdHalfWord \<Rightarrow> ptr \<Rightarrow> ptr \<Rightarrow> DdManager \<Rightarrow> ptr result" where
  "combine idx t e manager =
     (if t = e then Some (t, manager)
      else if Cudd_IsComplement t then do {
        (r, manager) \<leftarrow> cuddUniqueInter (unat idx) (Cudd_Not t) (Cudd_Not e) manager;
        if r = NULL then deref_both t e manager else Some (Cudd_Not r, manager) }
      else do {
        (r, manager) \<leftarrow> cuddUniqueInter (unat idx) t e manager;
        if r = NULL then deref_both t e manager else Some (r, manager) })"

text \<open>The loop around every recursive procedure, run again after dynamic reordering.\<close>

partial_function (option) retry_reordered :: "(DdManager \<Rightarrow> ptr result) \<Rightarrow> DdManager \<Rightarrow> ptr result" where
  "retry_reordered recur dd = do {
     (res, dd) \<leftarrow> recur (dd\<lparr>reordered := 0\<rparr>);
     if reordered dd = 1 then retry_reordered recur dd else Some (res, dd) }"

definition with_limit :: "uint32 \<Rightarrow> (DdManager \<Rightarrow> ptr result) \<Rightarrow> DdManager \<Rightarrow> ptr result" where
  "with_limit limit recur dd = (
     let saveLimit = maxLive dd;
         dd = dd\<lparr>maxLive := (keys dd - dead dd) + (keysZ dd - deadZ dd) + limit\<rparr> in do {
       (res, dd) \<leftarrow> retry_reordered recur dd;
       Some (res, dd\<lparr>maxLive := saveLimit\<rparr>) })"

definition not_result :: "ptr result \<Rightarrow> ptr result" where
  "not_result p = do {
     (res, dd) \<leftarrow> p;
     Some (Cudd_NotCond res (res \<noteq> NULL), dd) }"

subsection \<open>Conjunction\<close>

partial_function (option) cuddBddAndRecur :: "ptr \<Rightarrow> ptr \<Rightarrow> DdManager \<Rightarrow> ptr result" where
  "cuddBddAndRecur f g manager = (
     let one = DD_ONE manager; F = Cudd_Regular f; G = Cudd_Regular g in
     if F = G then Some (if f = g then f else Cudd_Not one, manager)
     else if F = one then Some (if f = one then g else f, manager)
     else if G = one then Some (if g = one then f else g, manager)
     else let f0 = f; f = (if f > g then g else f); g = (if f0 > g then f0 else g);
              F = Cudd_Regular f; G = Cudd_Regular g in do {
       nF \<leftarrow> heap manager F;
       nG \<leftarrow> heap manager G;
       (r, manager) \<leftarrow> (if ref nF \<noteq> 1 \<or> ref nG \<noteq> 1
         then cuddCacheLookup2 fp_Cudd_bddAnd f g manager else Some (NULL, manager));
       if r \<noteq> NULL then Some (r, manager) else do {
         topf \<leftarrow> nth_opt (perm manager) (unat (index nF));
         topg \<leftarrow> nth_opt (perm manager) (unat (index nG));
         let idx = (if topf \<le> topg then index nF else index nG);
         (fv, fnv) \<leftarrow> cofactors f nF (topf \<le> topg);
         (gv, gnv) \<leftarrow> cofactors g nG (topg \<le> topf);
         (t, manager) \<leftarrow> cuddBddAndRecur fv gv manager;
         if t = NULL then Some (NULL, manager) else do {
           manager \<leftarrow> cuddRef t manager;
           (e, manager) \<leftarrow> cuddBddAndRecur fnv gnv manager;
           if e = NULL then do {
             manager \<leftarrow> Cudd_IterDerefBdd t manager;
             Some (NULL, manager) }
           else do {
             manager \<leftarrow> cuddRef e manager;
             (r, manager) \<leftarrow> combine idx t e manager;
             if r = NULL then Some (NULL, manager) else do {
               manager \<leftarrow> cuddDeref e manager;
               manager \<leftarrow> cuddDeref t manager;
               nF \<leftarrow> heap manager F;
               nG \<leftarrow> heap manager G;
               manager \<leftarrow> (if ref nF \<noteq> 1 \<or> ref nG \<noteq> 1
                 then cuddCacheInsert2 fp_Cudd_bddAnd f g r manager else Some manager);
               Some (r, manager) } } } } })"

definition Cudd_bddAnd :: "ptr \<Rightarrow> ptr \<Rightarrow> DdManager \<Rightarrow> ptr result" where
  "Cudd_bddAnd f g dd = retry_reordered (cuddBddAndRecur f g) dd"

definition Cudd_bddAndLimit :: "ptr \<Rightarrow> ptr \<Rightarrow> uint32 \<Rightarrow> DdManager \<Rightarrow> ptr result" where
  "Cudd_bddAndLimit f g limit dd = with_limit limit (cuddBddAndRecur f g) dd"

definition Cudd_bddOr :: "ptr \<Rightarrow> ptr \<Rightarrow> DdManager \<Rightarrow> ptr result" where
  "Cudd_bddOr f g dd =
     not_result (retry_reordered (cuddBddAndRecur (Cudd_Not f) (Cudd_Not g)) dd)"

definition Cudd_bddOrLimit :: "ptr \<Rightarrow> ptr \<Rightarrow> uint32 \<Rightarrow> DdManager \<Rightarrow> ptr result" where
  "Cudd_bddOrLimit f g limit dd =
     not_result (with_limit limit (cuddBddAndRecur (Cudd_Not f) (Cudd_Not g)) dd)"

definition Cudd_bddNand :: "ptr \<Rightarrow> ptr \<Rightarrow> DdManager \<Rightarrow> ptr result" where
  "Cudd_bddNand f g dd = not_result (retry_reordered (cuddBddAndRecur f g) dd)"

definition Cudd_bddNor :: "ptr \<Rightarrow> ptr \<Rightarrow> DdManager \<Rightarrow> ptr result" where
  "Cudd_bddNor f g dd = retry_reordered (cuddBddAndRecur (Cudd_Not f) (Cudd_Not g)) dd"

subsection \<open>Exclusive or\<close>

partial_function (option) cuddBddXorRecur :: "ptr \<Rightarrow> ptr \<Rightarrow> DdManager \<Rightarrow> ptr result" where
  "cuddBddXorRecur f g manager = (
     let one = DD_ONE manager; zero = Cudd_Not one in
     if f = g then Some (zero, manager)
     else if f = Cudd_Not g then Some (one, manager)
     else let f0 = f; f = (if f > g then g else f); g = (if f0 > g then f0 else g) in
     if g = zero then Some (f, manager)
     else if g = one then Some (Cudd_Not f, manager)
     else let c = Cudd_IsComplement f;
              f = Cudd_NotCond f c; g = Cudd_NotCond g c in
     if f = one then Some (Cudd_Not g, manager)
     else do {
       (r, manager) \<leftarrow> cuddCacheLookup2 fp_Cudd_bddXor f g manager;
       if r \<noteq> NULL then Some (r, manager) else do {
         nF \<leftarrow> heap manager f;
         topf \<leftarrow> nth_opt (perm manager) (unat (index nF));
         nG \<leftarrow> heap manager (Cudd_Regular g);
         topg \<leftarrow> nth_opt (perm manager) (unat (index nG));
         let idx = (if topf \<le> topg then index nF else index nG);
         (fv, fnv) \<leftarrow> cofactors f nF (topf \<le> topg);
         (gv, gnv) \<leftarrow> cofactors g nG (topg \<le> topf);
         (t, manager) \<leftarrow> cuddBddXorRecur fv gv manager;
         if t = NULL then Some (NULL, manager) else do {
           manager \<leftarrow> cuddRef t manager;
           (e, manager) \<leftarrow> cuddBddXorRecur fnv gnv manager;
           if e = NULL then do {
             manager \<leftarrow> Cudd_IterDerefBdd t manager;
             Some (NULL, manager) }
           else do {
             manager \<leftarrow> cuddRef e manager;
             (r, manager) \<leftarrow> combine idx t e manager;
             if r = NULL then Some (NULL, manager) else do {
               manager \<leftarrow> cuddDeref e manager;
               manager \<leftarrow> cuddDeref t manager;
               manager \<leftarrow> cuddCacheInsert2 fp_Cudd_bddXor f g r manager;
               Some (r, manager) } } } } })"

definition Cudd_bddXor :: "ptr \<Rightarrow> ptr \<Rightarrow> DdManager \<Rightarrow> ptr result" where
  "Cudd_bddXor f g dd = retry_reordered (cuddBddXorRecur f g) dd"

definition Cudd_bddXnor :: "ptr \<Rightarrow> ptr \<Rightarrow> DdManager \<Rightarrow> ptr result" where
  "Cudd_bddXnor f g dd = retry_reordered (cuddBddXorRecur f (Cudd_Not g)) dd"

definition Cudd_bddXnorLimit :: "ptr \<Rightarrow> ptr \<Rightarrow> uint32 \<Rightarrow> DdManager \<Rightarrow> ptr result" where
  "Cudd_bddXnorLimit f g limit dd = with_limit limit (cuddBddXorRecur f (Cudd_Not g)) dd"

subsection \<open>If-then-else\<close>

definition bddVarToConst :: "ptr \<Rightarrow> ptr \<Rightarrow> ptr \<Rightarrow> ptr \<Rightarrow> ptr \<times> ptr" where
  "bddVarToConst f g h one =
     (if f = g then one else if f = Cudd_Not g then Cudd_Not one else g,
      if f = h then Cudd_Not one else if f = Cudd_Not h then one else h)"

text \<open>
  The standard form: the first two operands regular. The result is the complementation flag
  with the new operands.
\<close>

definition make_regular :: "ptr \<Rightarrow> ptr \<Rightarrow> ptr \<Rightarrow> bool \<times> ptr \<times> ptr \<times> ptr" where
  "make_regular f g h = (
     let (f, g, h) = (if Cudd_IsComplement f then (Cudd_Not f, h, g) else (f, g, h)) in
     if Cudd_IsComplement g then (True, f, Cudd_Not g, Cudd_Not h) else (False, f, g, h))"

definition index_of :: "DdManager \<Rightarrow> ptr \<Rightarrow> DdHalfWord option" where
  "index_of dd p = map_option index (heap dd (Cudd_Regular p))"

definition level_of :: "DdManager \<Rightarrow> ptr \<Rightarrow> nat option" where
  "level_of dd p = do { i \<leftarrow> index_of dd p; cuddI dd i }"

definition bddVarToCanonical ::
    "DdManager \<Rightarrow> ptr \<Rightarrow> ptr \<Rightarrow> ptr \<Rightarrow> (bool \<times> ptr \<times> ptr \<times> ptr \<times> nat \<times> nat \<times> nat) option" where
  "bddVarToCanonical dd f g h = do {
     let one = DD_ONE dd;
     topf \<leftarrow> level_of dd f;
     topg \<leftarrow> level_of dd g;
     toph \<leftarrow> level_of dd h;
     let (f, g, h) =
       (if Cudd_Regular g = one then
          (if topf > toph \<or> (topf = toph \<and> f > h) then
             (if g \<noteq> one then (Cudd_Not h, g, Cudd_Not f) else (h, g, f))
           else (f, g, h))
        else if Cudd_Regular h = one then
          (if topf > topg \<or> (topf = topg \<and> f > g) then
             (if h = one then (Cudd_Not g, Cudd_Not f, h) else (g, f, h))
           else (f, g, h))
        else if g = Cudd_Not h then
          (if topf > topg \<or> (topf = topg \<and> f > g) then (g, f, Cudd_Not f) else (f, g, h))
        else (f, g, h));
     let (comple, f, g, h) = make_regular f g h;
     topf \<leftarrow> level_of dd f;
     topg \<leftarrow> level_of dd g;
     toph \<leftarrow> level_of dd h;
     Some (comple, f, g, h, topf, topg, toph) }"

definition bddVarToCanonicalSimple ::
    "DdManager \<Rightarrow> ptr \<Rightarrow> ptr \<Rightarrow> ptr \<Rightarrow> (bool \<times> ptr \<times> ptr \<times> ptr \<times> nat \<times> nat \<times> nat) option" where
  "bddVarToCanonicalSimple dd f g h = do {
     let (comple, f, g, h) = make_regular f g h;
     fi \<leftarrow> index_of dd f;
     topf \<leftarrow> nth_opt (perm dd) (unat fi);
     gi \<leftarrow> index_of dd g;
     topg \<leftarrow> nth_opt (perm dd) (unat gi);
     hi \<leftarrow> index_of dd h;
     toph \<leftarrow> nth_opt (perm dd) (unat hi);
     Some (comple, f, g, h, topf, topg, toph) }"

partial_function (option) cuddBddIteRecur :: "ptr \<Rightarrow> ptr \<Rightarrow> ptr \<Rightarrow> DdManager \<Rightarrow> ptr result" where
  "cuddBddIteRecur f g h dd = (
     let one = DD_ONE dd; zero = Cudd_Not one in
     if f = one then Some (g, dd)
     else if f = zero then Some (h, dd)
     else if g = one \<or> f = g then
       (if h = zero then Some (f, dd)
        else not_result (cuddBddAndRecur (Cudd_Not f) (Cudd_Not h) dd))
     else if g = zero \<or> f = Cudd_Not g then
       (if h = one then Some (Cudd_Not f, dd) else cuddBddAndRecur (Cudd_Not f) h dd)
     else if h = zero \<or> f = h then cuddBddAndRecur f g dd
     else if h = one \<or> f = Cudd_Not h then
       not_result (cuddBddAndRecur f (Cudd_Not g) dd)
     else if g = h then Some (g, dd)
     else if g = Cudd_Not h then cuddBddXorRecur f h dd
     else do {
       (comple, f, g, h, topf, topg, toph) \<leftarrow> bddVarToCanonicalSimple dd f g h;
       nF \<leftarrow> heap dd f;
       fT \<leftarrow> cuddT nF;
       fE \<leftarrow> cuddE nF;
       let v = ddMin topg toph;
       if topf < v \<and> fT = one \<and> fE = zero then do {
         (r, dd) \<leftarrow> cuddUniqueInter (unat (index nF)) g h dd;
         Some (Cudd_NotCond r (comple \<and> r \<noteq> NULL), dd) }
       else do {
         (r, dd) \<leftarrow> cuddCacheLookup DD_BDD_ITE_TAG f g h dd;
         if r \<noteq> NULL then Some (Cudd_NotCond r comple, dd) else do {
           nG \<leftarrow> heap dd g;
           nH \<leftarrow> heap dd (Cudd_Regular h);
           let v = (if topf \<le> v then ddMin topf v else v);
           let idx = (if toph = v then index nH else if topg = v then index nG else index nF);
           (Fv, Fnv) \<leftarrow> cofactors f nF (topf \<le> v);
           (Gv, Gnv) \<leftarrow> cofactors g nG (topg = v);
           (Hv, Hnv) \<leftarrow> cofactors h nH (toph = v);
           (t, dd) \<leftarrow> cuddBddIteRecur Fv Gv Hv dd;
           if t = NULL then Some (NULL, dd) else do {
             dd \<leftarrow> cuddRef t dd;
             (e, dd) \<leftarrow> cuddBddIteRecur Fnv Gnv Hnv dd;
             if e = NULL then do {
               dd \<leftarrow> Cudd_IterDerefBdd t dd;
               Some (NULL, dd) }
             else do {
               dd \<leftarrow> cuddRef e dd;
               (r, dd) \<leftarrow> (if t = e then Some (t, dd) else cuddUniqueInter (unat idx) t e dd);
               if r = NULL then deref_both t e dd
               else do {
                 dd \<leftarrow> cuddDeref t dd;
                 dd \<leftarrow> cuddDeref e dd;
                 dd \<leftarrow> cuddCacheInsert DD_BDD_ITE_TAG f g h r dd;
                 Some (Cudd_NotCond r comple, dd) } } } } } })"

definition Cudd_bddIte :: "ptr \<Rightarrow> ptr \<Rightarrow> ptr \<Rightarrow> DdManager \<Rightarrow> ptr result" where
  "Cudd_bddIte f g h dd = retry_reordered (cuddBddIteRecur f g h) dd"

definition Cudd_bddIteLimit :: "ptr \<Rightarrow> ptr \<Rightarrow> ptr \<Rightarrow> uint32 \<Rightarrow> DdManager \<Rightarrow> ptr result" where
  "Cudd_bddIteLimit f g h limit dd = with_limit limit (cuddBddIteRecur f g h) dd"

definition cuddUniqueInterIVO :: "nat \<Rightarrow> ptr \<Rightarrow> ptr \<Rightarrow> DdManager \<Rightarrow> ptr result" where
  "cuddUniqueInterIVO idx T E unique = do {
     (v, unique) \<leftarrow> cuddUniqueInter idx (DD_ONE unique) (Cudd_Not (DD_ONE unique)) unique;
     if v = NULL then Some (NULL, unique) else cuddBddIteRecur v T E unique }"

subsection \<open>A witness of an intersection\<close>

partial_function (option) cuddBddIntersectRecur :: "ptr \<Rightarrow> ptr \<Rightarrow> DdManager \<Rightarrow> ptr result" where
  "cuddBddIntersectRecur f g dd = (
     let one = DD_ONE dd; zero = Cudd_Not one in
     if f = zero \<or> g = zero \<or> f = Cudd_Not g then Some (zero, dd)
     else if f = g \<or> g = one then Some (f, dd)
     else if f = one then Some (g, dd)
     else let f0 = f; f = (if f > g then g else f); g = (if f0 > g then f0 else g) in do {
       (res, dd) \<leftarrow> cuddCacheLookup2 fp_Cudd_bddIntersect f g dd;
       if res \<noteq> NULL then Some (res, dd) else do {
         nF \<leftarrow> heap dd (Cudd_Regular f);
         topf \<leftarrow> nth_opt (perm dd) (unat (index nF));
         nG \<leftarrow> heap dd (Cudd_Regular g);
         topg \<leftarrow> nth_opt (perm dd) (unat (index nG));
         let idx = (if topf \<le> topg then index nF else index nG);
         (fv, fnv) \<leftarrow> cofactors f nF (topf \<le> topg);
         (gv, gnv) \<leftarrow> cofactors g nG (topg \<le> topf);
         (t, dd) \<leftarrow> cuddBddIntersectRecur fv gv dd;
         if t = NULL then Some (NULL, dd) else do {
           dd \<leftarrow> cuddRef t dd;
           (e, dd) \<leftarrow> (if t \<noteq> zero then Some (zero, dd)
                       else cuddBddIntersectRecur fnv gnv dd);
           if e = NULL then do {
             dd \<leftarrow> Cudd_IterDerefBdd t dd;
             Some (NULL, dd) }
           else do {
             dd \<leftarrow> cuddRef e dd;
             (res, dd) \<leftarrow> combine idx t e dd;
             if res = NULL then Some (NULL, dd) else do {
               dd \<leftarrow> cuddDeref e dd;
               dd \<leftarrow> cuddDeref t dd;
               dd \<leftarrow> cuddCacheInsert2 fp_Cudd_bddIntersect f g res dd;
               Some (res, dd) } } } } })"

definition Cudd_bddIntersect :: "ptr \<Rightarrow> ptr \<Rightarrow> DdManager \<Rightarrow> ptr result" where
  "Cudd_bddIntersect f g dd = retry_reordered (cuddBddIntersectRecur f g) dd"

subsection \<open>Tests that build no node\<close>

partial_function (option) Cudd_bddLeq :: "ptr \<Rightarrow> ptr \<Rightarrow> DdManager \<Rightarrow> bool result" where
  "Cudd_bddLeq f g dd = (
     if f = g then Some (True, dd)
     else if Cudd_IsComplement g \<and> \<not> Cudd_IsComplement f then Some (False, dd)
     else let swap = Cudd_IsComplement g \<or> (Cudd_IsComplement f \<and> g < f);
              f0 = f; f = (if swap then Cudd_Not g else f);
              g = (if swap then Cudd_Not f0 else g);
              one = DD_ONE dd; zero = Cudd_Not one in
     if g = one then Some (True, dd)
     else if f = one then Some (False, dd)
     else if Cudd_Not f = g then Some (False, dd)
     else if f = zero then Some (True, dd)
     else do {
       (tmp, dd) \<leftarrow> cuddCacheLookup2 fp_Cudd_bddLeq f g dd;
       if tmp \<noteq> NULL then Some (tmp = one, dd) else do {
         nF \<leftarrow> heap dd (Cudd_Regular f);
         topf \<leftarrow> nth_opt (perm dd) (unat (index nF));
         nG \<leftarrow> heap dd g;
         topg \<leftarrow> nth_opt (perm dd) (unat (index nG));
         (fv, fvn) \<leftarrow> cofactors f nF (topf \<le> topg);
         (gv, gvn) \<leftarrow> cofactors g nG (topg \<le> topf);
         (res1, dd) \<leftarrow> Cudd_bddLeq fvn gvn dd;
         (res, dd) \<leftarrow> (if res1 then Cudd_bddLeq fv gv dd else Some (False, dd));
         dd \<leftarrow> cuddCacheInsert2 fp_Cudd_bddLeq f g (if res then one else zero) dd;
         Some (res, dd) } })"

partial_function (option) Cudd_bddIteConstant :: "ptr \<Rightarrow> ptr \<Rightarrow> ptr \<Rightarrow> DdManager \<Rightarrow> ptr result" where
  "Cudd_bddIteConstant f g h dd = (
     let one = DD_ONE dd; zero = Cudd_Not one in
     if f = one then Some (g, dd)
     else if f = zero then Some (h, dd)
     else let (g, h) = bddVarToConst f g h one in
     if g = h then Some (g, dd)
     else do {
       gc \<leftarrow> Cudd_IsConstant dd g;
       hc \<leftarrow> (if gc then Cudd_IsConstant dd h else Some False);
       if gc \<and> hc then Some (DD_NON_CONSTANT, dd)
       else if g = Cudd_Not h then Some (DD_NON_CONSTANT, dd)
       else do {
         (comple, f, g, h, topf, topg, toph) \<leftarrow> bddVarToCanonical dd f g h;
         (r, dd) \<leftarrow> cuddConstantLookup DD_BDD_ITE_CONSTANT_TAG f g h dd;
         if r \<noteq> NULL then Some (Cudd_NotCond r (comple \<and> r \<noteq> DD_NON_CONSTANT), dd)
         else do {
           let v = ddMin topg toph;
           nF \<leftarrow> heap dd f;
           isvar \<leftarrow> (if topf < v then do { T \<leftarrow> cuddT nF; E \<leftarrow> cuddE nF; Some (T = one \<and> E = zero) }
                     else Some False);
           if isvar then Some (DD_NON_CONSTANT, dd)
           else do {
             let v = (if topf \<le> v then ddMin topf v else v);
             nG \<leftarrow> heap dd g;
             nH \<leftarrow> heap dd (Cudd_Regular h);
             (Fv, Fnv) \<leftarrow> cofactors f nF (topf \<le> v);
             (Gv, Gnv) \<leftarrow> cofactors g nG (topg = v);
             (Hv, Hnv) \<leftarrow> cofactors h nH (toph = v);
             (t, dd) \<leftarrow> Cudd_bddIteConstant Fv Gv Hv dd;
             tc \<leftarrow> (if t = DD_NON_CONSTANT then Some False else Cudd_IsConstant dd t);
             if \<not> tc then do {
               dd \<leftarrow> cuddCacheInsert DD_BDD_ITE_CONSTANT_TAG f g h DD_NON_CONSTANT dd;
               Some (DD_NON_CONSTANT, dd) }
             else do {
               (e, dd) \<leftarrow> Cudd_bddIteConstant Fnv Gnv Hnv dd;
               ec \<leftarrow> (if e = DD_NON_CONSTANT then Some False else Cudd_IsConstant dd e);
               if \<not> ec \<or> t \<noteq> e then do {
                 dd \<leftarrow> cuddCacheInsert DD_BDD_ITE_CONSTANT_TAG f g h DD_NON_CONSTANT dd;
                 Some (DD_NON_CONSTANT, dd) }
               else do {
                 dd \<leftarrow> cuddCacheInsert DD_BDD_ITE_CONSTANT_TAG f g h t dd;
                 Some (Cudd_NotCond t comple, dd) } } } } } })"

end
