(* ===== verification/CuddApply.thy ===== *)
theory CuddApply
  imports CuddUnique CuddBddIte
begin

text \<open>
  Correctness of the recursive operations. The contract \<open>delivered\<close> is the same for all of
  them: the operation returns; what the caller holds is kept; the result is \<open>NULL\<close>, and then
  nothing is left referenced, or an edge for the specified function whose node is floating, so
  that the caller's \<open>cuddRef\<close> makes it its own.
\<close>

subsection \<open>The contract\<close>

definition held :: "ptr multiset \<Rightarrow> DdManager \<Rightarrow> ptr \<Rightarrow> bool" where
  "held ext m e \<longleftrightarrow> Cudd_Regular e \<in> reach m (set_mset ext)"

definition delivered :: "ptr multiset \<Rightarrow> DdManager \<Rightarrow> ((nat \<Rightarrow> bool) \<Rightarrow> bool) \<Rightarrow> ptr result \<Rightarrow> bool" where
  "delivered ext m P res \<longleftrightarrow> (\<exists>r m'. res = Some (r, m') \<and> keep (set_mset ext) m m' \<and>
     (r = NULL \<and> failed m' \<and> mgr_ok ext {} m' \<or>
      r \<in> edges m' \<and> mgr_ok ext {Cudd_Regular r} m' \<and> (\<forall>env. sem m' env r = P env)))"

lemma held_Not [simp]: "held ext m (Cudd_Not e) = held ext m e"
  by (simp add: held_def)

lemma held_NotCond [simp]: "held ext m (Cudd_NotCond e c) = held ext m e"
  by (simp add: held_def)

lemma heldI: "Cudd_Regular e \<in># ext \<Longrightarrow> held ext m e"
  by (simp add: held_def reach.base)

lemma held_mono: "held ext m e \<Longrightarrow> set_mset ext \<subseteq> set_mset ext' \<Longrightarrow> held ext' m e"
  unfolding held_def by (rule reach_mono)

lemma held_kids:
  assumes "held ext m e" "Cudd_Regular e \<in> tabnodes m" "store_ok m"
  shows "held ext m (kT m (Cudd_Regular e))" "held ext m (kE m (Cudd_Regular e))"
  using reach_T reach_E assms nodeD(3) [OF assms(3,2)] by (simp_all add: held_def)

lemma heldD:
  assumes "held ext m e" "mgr_ok ext F m"
  shows "e \<in> edges m" "Cudd_Regular e \<in> nodes m" "e \<noteq> NULL" "0 < refc m (Cudd_Regular e)"
proof -
  note g = mgr_okD [OF assms(2)]
  show n: "Cudd_Regular e \<in> nodes m"
    using reach_nodes [OF g(5,8)] assms(1) by (simp add: held_def)
  then show "e \<in> edges m" by (simp add: edges_def)
  then show "e \<noteq> NULL" by (rule edges_nonnull [OF g(5)])
  show "0 < refc m (Cudd_Regular e)"
    using reach_ref [OF g(5,6), of "set_mset ext"] assms(1) by (simp add: held_def)
qed

lemma held_one: "mgr_ok ext F m \<Longrightarrow> held ext m (DD_ONE m)"
  using mgr_okD(2) oneD(3) [OF mgr_okD(5)] by (intro heldI) simp

lemma held_keep:
  assumes "held ext m e" "mgr_ok ext F m" "keep (set_mset ext) m m'" "store_ok m'"
  shows "held ext m' e" "sem m' env e = sem m env e" "elev m' e = elev m e"
  using keep_sem [OF assms(3) mgr_okD(5) [OF assms(2)] assms(4) mgr_okD(8) [OF assms(2)]] assms(1)
  by (simp_all add: held_def)

lemma unfloat_held:
  assumes "held ext m e" "mgr_ok ext F m"
  shows "mgr_ok ext (insert (Cudd_Regular e) F) m"
  using mgr_unfloat [of m "Cudd_Regular e"] heldD(4) [OF assms] assms(2) by simp

lemma delivered_held:
  assumes "held ext m r" "mgr_ok ext {} m" "\<And>env. sem m env r = P env"
  shows "delivered ext m P (Some (r, m))"
  using heldD [OF assms(1,2)] unfloat_held [OF assms(1,2)] keep_refl [OF assms(2)] assms(3)
  by (simp add: delivered_def)

lemma deliveredE:
  assumes "delivered ext m P res"
  obtains (null) m' where "res = Some (NULL, m')" "keep (set_mset ext) m m'" "mgr_ok ext {} m'" "failed m'"
  | (edge) r m' where "res = Some (r, m')" "r \<noteq> NULL" "keep (set_mset ext) m m'" "r \<in> edges m'"
      "mgr_ok ext {Cudd_Regular r} m'" "\<And>env. sem m' env r = P env"
  using assms edges_nonnull [OF mgr_okD(5)] unfolding delivered_def by metis

lemma delivered_null:
  "mgr_ok ext {} m' \<Longrightarrow> keep (set_mset ext) m m' \<Longrightarrow> failed m' \<Longrightarrow> delivered ext m P (Some (NULL, m'))"
  by (simp add: delivered_def)

lemma delivered_edge:
  "r \<in> edges m' \<Longrightarrow> mgr_ok ext {Cudd_Regular r} m' \<Longrightarrow> keep (set_mset ext) m m' \<Longrightarrow>
   (\<And>env. sem m' env r = P env) \<Longrightarrow> delivered ext m P (Some (r, m'))"
  by (simp add: delivered_def)

lemma delivered_step:
  assumes "delivered ext m' P res" "keep (set_mset ext) m m'" "store_ok m"
  shows "delivered ext m P res"
  using assms(1) keep_trans [OF assms(2) _ assms(3)] unfolding delivered_def by blast

lemma delivered_cong: "delivered ext m P res \<Longrightarrow> (\<And>env. P env = Q env) \<Longrightarrow> delivered ext m Q res"
  unfolding delivered_def by metis

lemma not_result_ok:
  assumes "delivered ext m P res"
  shows "delivered ext m (\<lambda>env. \<not> P env) (not_result res)"
  using assms
proof (cases rule: deliveredE)
  case (null m')
  then show ?thesis by (simp add: not_result_def delivered_def Cudd_NotCond_def)
next
  case (edge r m')
  then have "not_result res = Some (Cudd_NotCond r True, m')" by (simp add: not_result_def)
  then show ?thesis using edge by (simp add: delivered_def)
qed

subsection \<open>Levels from functions\<close>

text \<open>A function that does not depend on the variables down to a level has its node below it.\<close>

definition indep :: "DdManager \<Rightarrow> nat \<Rightarrow> ((nat \<Rightarrow> bool) \<Rightarrow> bool) \<Rightarrow> bool" where
  "indep m l P \<longleftrightarrow> (\<forall>i < dsize m. perm m ! i \<le> l \<longrightarrow> (\<forall>env b. P (env(i := b)) = P env))"

lemma indep_sem:
  assumes "store_ok m" "e \<in> edges m" "l < elev m e"
  shows "indep m l (\<lambda>env. sem m env e)"
  using sem_indep [OF assms(1,2)] assms(3) by (simp add: indep_def)

lemma indep_comb:
  "indep m l P \<Longrightarrow> indep m l Q \<Longrightarrow> indep m l (\<lambda>env. f (P env) (Q env))"
  by (simp add: indep_def)

lemma indep_level:
  assumes "store_ok m" "e \<in> edges m" "indep m l (\<lambda>env. sem m env e)" "l < dsize m"
  shows "l < elev m e"
proof (rule ccontr)
  assume le: "\<not> l < elev m e"
  let ?p = "Cudd_Regular e"
  have t: "?p \<in> tabnodes m"
    using lev_less_iff [OF assms(1), of ?p] assms(2,4) le by (simp add: edges_def elev_def)
  note n = nodeD [OF assms(1) t] and tn = tabnode [OF assms(1) t]
  have "sem m (env(nidx m ?p := b)) e = sem m env e" for env b
    using assms(3) le tn(2,3) by (simp add: indep_def elev_def)
  then have "sem m (env(nidx m ?p := b)) ?p = sem m env ?p" for env b
    using sem_Regular [of m "env(nidx m ?p := b)" e] sem_Regular [of m env e] by blast
  then have "sem m env (kT m ?p) = sem m env (kE m ?p)" for env by (rule essential [OF assms(1) t])
  then show False using canonical [OF assms(1) n(10,11)] n(4) by blast
qed

lemma result_level:
  assumes "mgr_ok A F m'" "order m' = order m" "t \<in> edges m'" "\<And>env. sem m' env t = P env"
    and "indep m l P" "l < dsize m"
  shows "l < elev m' t"
proof (rule indep_level [OF mgr_okD(5) [OF assms(1)] assms(3)])
  show "indep m' l (\<lambda>env. sem m' env t)"
    using assms(5) orderD(1,3) [OF assms(2)] by (simp add: indep_def assms(4))
  show "l < dsize m'" using assms(6) orderD(3) [OF assms(2)] by simp
qed

subsection \<open>Cofactors\<close>

lemma held_node:
  assumes "held ext m f" "mgr_ok ext F m"
  obtains n where "heap m (Cudd_Regular f) = Some n"
  using nodes_heap [OF mgr_okD(5) [OF assms(2)] heldD(2) [OF assms]] by blast

lemma node_level:
  assumes "mgr_ok ext F m" "Cudd_Regular f \<in> tabnodes m"
    "cont m (Cudd_Regular f) = Some (index n, type n)"
  shows "nth_opt (perm m) (unat (index n)) = Some (elev m f)" "elev m f < dsize m"
    "unat (index n) = invperm m ! elev m f" "index n = of_nat (invperm m ! elev m f)"
proof -
  note s = mgr_okD(5) [OF assms(1)]
  note t = tabnode [OF s assms(2)]
  show i: "unat (index n) = invperm m ! elev m f"
    using t(6) assms(3) by (simp add: nidx_def elev_def)
  then show "index n = of_nat (invperm m ! elev m f)" by (simp flip: i)
  show l: "elev m f < dsize m" using t(4) by (simp add: elev_def)
  show "nth_opt (perm m) (unat (index n)) = Some (elev m f)"
    using order_okD(2) [OF s] order_okD(6,7) [OF s l] i by (simp add: nth_opt_def)
qed

lemma cofactors_ok:
  assumes "mgr_ok ext F m" "held ext m f" "cont m (Cudd_Regular f) = Some (index n, type n)"
    and "l \<le> elev m f" "tp \<longleftrightarrow> elev m f = l" "l < dsize m"
  shows "\<exists>fv fnv. cofactors f n tp = Some (fv, fnv) \<and> held ext m fv \<and> held ext m fnv \<and>
    l < elev m fv \<and> l < elev m fnv \<and>
    (\<forall>env. sem m env f = (if env (invperm m ! l) then sem m env fv else sem m env fnv))"
proof (cases tp)
  case False
  then show ?thesis using assms(2,4,5) by (auto simp: cofactors_def)
next
  case True
  let ?p = "Cudd_Regular f"
  note s = mgr_okD(5) [OF assms(1)]
  have t: "?p \<in> tabnodes m"
    using lev_less_iff [OF s heldD(2) [OF assms(2,1)]] True assms(5,6) by (simp add: elev_def)
  note nd = nodeD [OF s t] and h = held_kids [OF assms(2) t s]
  let ?T = "Cudd_NotCond (kT m ?p) (Cudd_IsComplement f)"
  let ?E = "Cudd_NotCond (kE m ?p) (Cudd_IsComplement f)"
  have "cuddT n = Some (kT m ?p)" "cuddE n = Some (kE m ?p)"
    using tabnode(1) [OF s t] assms(3) by (auto simp: cuddT_def cuddE_def)
  then have "cofactors f n tp = Some (?T, ?E)"
    using True by (simp add: cofactors_def)
  moreover have "nidx m ?p = invperm m ! l"
    using tabnode(6) [OF s t] True assms(5) by (simp add: elev_def)
  then have "sem m env f = (if env (invperm m ! l) then sem m env ?T else sem m env ?E)" for env
    using sem_Regular [of m env f] sem_node [OF s t] by simp
  moreover have "l < elev m ?T" "l < elev m ?E"
    using nd(12,13) True assms(5) by (simp_all add: elev_def)
  ultimately show ?thesis using h by simp
qed

subsection \<open>Building the result node\<close>

text \<open>
  The node for the results \<open>t\<close> and \<open>e\<close>, both referenced by the caller: a new or found node
  with them as children, or the common result.
\<close>

definition over :: "DdManager \<Rightarrow> ptr \<Rightarrow> ptr \<Rightarrow> ptr \<Rightarrow> bool" where
  "over m t e r \<longleftrightarrow> t = e \<and> r = t \<or> Cudd_Regular r \<in> tabnodes m \<and>
     kT m (Cudd_Regular r) = Cudd_Regular t \<and>
     Cudd_Regular (kE m (Cudd_Regular r)) = Cudd_Regular e"

definition node_made :: "ptr multiset \<Rightarrow> DdManager \<Rightarrow> nat \<Rightarrow> ptr \<Rightarrow> ptr \<Rightarrow> ptr \<Rightarrow> DdManager \<Rightarrow> bool" where
  "node_made ext m i t e r m' \<longleftrightarrow> r \<in> edges m' \<and> over m' t e r \<and>
     keep (set_mset ext) m m' \<and> mgr_ok ext {Cudd_Regular r} m' \<and>
     (\<forall>env. sem m' env r = (if env i then sem m env t else sem m env e))"

lemma below_held:
  assumes "mgr_ok ext F m" "held ext m t" "held ext m e" "t \<noteq> e" "\<not> Cudd_IsComplement t"
    and "l < elev m t" "l < elev m e" "l < dsize m"
  shows "below ext m l t e"
proof -
  have "Cudd_Regular t = t" using assms(5) by simp
  then show ?thesis using assms by (simp add: below_def held_def elev_def)
qed

lemma unique_made:
  assumes "mgr_ok ext {} m" "held ext m t" "held ext m e" "t \<noteq> e" "\<not> Cudd_IsComplement t"
    and "l < elev m t" "l < elev m e" "l < dsize m" "i = invperm m ! l"
  shows "\<exists>r m'. cuddUniqueInter i t e m = Some (r, m') \<and>
    (r = NULL \<and> failed m' \<and> mgr_ok ext {} m' \<and> keep (set_mset ext) m m' \<or>
     r \<noteq> NULL \<and> r \<in> tabnodes m' \<and> lev m' r = l \<and> node_made ext m i t e r m')"
proof -
  have rt: "Cudd_Regular t = t" using assms(5) by simp
  have "made l t e ext m (cuddUniqueInter i t e m)"
    by (rule cuddUniqueInter_ok [OF assms(1) below_held [OF assms(1-8)] assms(9)])
  then obtain r m' where r: "cuddUniqueInter i t e m = Some (r, m')" "keep (set_mset ext) m m'"
    "r = NULL \<and> failed m' \<and> mgr_ok ext {} m' \<or>
      r \<in> tabnodes m' \<and> lev m' r = l \<and> kT m' r = t \<and> kE m' r = e \<and> mgr_ok ext {r} m'"
    by (auto simp: made_def)
  show ?thesis
  proof (cases "r = NULL \<and> failed m' \<and> mgr_ok ext {} m'")
    case True
    then show ?thesis using r(1,2) by blast
  next
    case False
    then have n: "r \<in> tabnodes m'" "lev m' r = l" "kT m' r = t" "kE m' r = e" "mgr_ok ext {r} m'"
      using r(3) by auto
    note s = mgr_okD(5) [OF n(5)]
    have reg: "Cudd_Regular r = r" using nodeD(9) [OF s n(1)] by simp
    have "nidx m' r = i"
      using tabnode(6) [OF s n(1)] n(2) assms(9) orderD(2) [OF keepD(3) [OF r(2)]] by simp
    then have "sem m' env r = (if env i then sem m env t else sem m env e)" for env
      using sem_node [OF s n(1)] n(3,4) held_keep(2) [OF assms(2,1) r(2) s]
        held_keep(2) [OF assms(3,1) r(2) s] by simp
    then have "node_made ext m i t e r m'"
      using n r(2) reg rt by (simp add: node_made_def over_def edges_def nodes_def)
    then show ?thesis using r(1) n(1,2) nodeD(2) [OF s n(1)] by blast
  qed
qed

text \<open>Counting references does not touch the report of an error.\<close>

lemma counts_only_error: "counts_only m m' \<Longrightarrow> errorCode m' = errorCode m"
  by (auto simp: counts_only_def)

lemma deref_both_ok:
  assumes "mgr_ok (add_mset (Cudd_Regular t) (add_mset (Cudd_Regular e) ext)) {} m" "DD_ONE m \<in># ext"
  shows "\<exists>m'. deref_both t e m = Some (NULL, m') \<and> mgr_ok ext {} m' \<and> keep (set_mset ext) m m' \<and>
    errorCode m' = errorCode m"
proof -
  obtain m1 where m1: "Cudd_IterDerefBdd t m = Some m1" "mgr_ok (add_mset (Cudd_Regular e) ext) {} m1"
    "keep (set_mset (add_mset (Cudd_Regular e) ext)) m m1" "counts_only m m1"
    using iterDeref_ok [OF assms(1)] assms(2) by auto
  have "DD_ONE m1 \<in># ext" using orderD(4) [OF keepD(3) [OF m1(3)]] assms(2) by simp
  then obtain m2 where m2: "Cudd_IterDerefBdd e m1 = Some m2" "mgr_ok ext {} m2" "keep (set_mset ext) m1 m2"
    "counts_only m1 m2"
    using iterDeref_ok [OF m1(2)] by auto
  have "keep (set_mset ext) m m2"
    by (rule keep_trans [OF keep_mono [OF m1(3)] m2(3) mgr_okD(5) [OF assms(1)]]) auto
  then show ?thesis
    using m1(1) m2(1,2) counts_only_error [OF m1(4)] counts_only_error [OF m2(4)] by (simp add: deref_both_def)
qed

text \<open>The two promises are given back once the result node holds its children.\<close>

lemma deref_pair:
  assumes "mgr_ok (add_mset (Cudd_Regular x) (add_mset (Cudd_Regular y) ext)) {Cudd_Regular r} m"
    and "over m x y r \<or> over m y x r" "DD_ONE m \<in># ext"
  shows "\<exists>m1 m2. cuddDeref x m = Some m1 \<and> cuddDeref y m1 = Some m2 \<and>
    mgr_ok ext {Cudd_Regular r} m2 \<and> counts_only m m2 \<and> keep (set_mset ext) m m2"
proof -
  let ?r = "Cudd_Regular r" and ?x = "Cudd_Regular x" and ?y = "Cudd_Regular y"
  note s = mgr_okD(5) [OF assms(1)]
  obtain m1 where m1: "cuddDeref x m = Some m1" "mgr_ok (add_mset ?y ext) {?x, ?r} m1" "counts_only m m1"
    "keep (set_mset (add_mset ?y ext)) m m1"
    using cuddDeref_ok [OF assms(1)] assms(3) by auto
  have "DD_ONE m1 \<in># ext" using orderD(4) [OF keepD(3) [OF m1(4)]] assms(3) by simp
  then obtain m2 where m2: "cuddDeref y m1 = Some m2" "mgr_ok ext {?y, ?x, ?r} m2" "counts_only m1 m2"
    "keep (set_mset ext) m1 m2"
    using cuddDeref_ok [OF m1(2)] by auto
  have c: "counts_only m m2" by (rule counts_only_trans [OF m1(3) m2(3)])
  note sc = store_cong [OF counts_only_store [OF c]]
  have "mgr_ok ext {?r} m2"
  proof (cases "?x = ?r \<and> ?y = ?r")
    case True
    then show ?thesis using m2(2) by simp
  next
    case False
    then have n: "?r \<in> tabnodes m2" "{kT m2 ?r, Cudd_Regular (kE m2 ?r)} = {?x, ?y}"
      using assms(2) by (auto simp: over_def sc)
    then have "?r \<in> live {?y, ?x, ?r} m2" by (simp add: live_iff)
    from live_kids [OF mgr_okD(5,6) [OF m2(2)] this] have "0 < refc m2 ?x" "0 < refc m2 ?y"
      using n(2) by (auto simp: doubleton_eq_iff)
    then show ?thesis using m2(2) mgr_unfloat [of m2 ?y ext] mgr_unfloat [of m2 ?x ext] by simp
  qed
  moreover have "keep (set_mset ext) m m2"
    by (rule keep_trans [OF keep_mono [OF m1(4)] m2(4) s]) auto
  ultimately show ?thesis using m1(1) m2(1) c by blast
qed

lemma combine_ok:
  assumes "mgr_ok (add_mset (Cudd_Regular e) (add_mset (Cudd_Regular t) ext)) {} m" "DD_ONE m \<in># ext"
    and "l < elev m t" "l < elev m e" "l < dsize m" "unat idx = invperm m ! l"
  shows "\<exists>r m'. combine idx t e m = Some (r, m') \<and>
    (r = NULL \<and> failed m' \<and> mgr_ok ext {} m' \<and> keep (set_mset ext) m m' \<or>
     r \<noteq> NULL \<and> node_made (add_mset (Cudd_Regular e) (add_mset (Cudd_Regular t) ext)) m (invperm m ! l) t e r m')"
    (is "\<exists>r m'. _ \<and> (_ \<or> _ \<and> node_made ?ext _ ?i _ _ _ _)")
proof -
  have h: "held ?ext m t" "held ?ext m e" by (simp_all add: heldI)
  show ?thesis
  proof (cases "t = e")
    case True
    then have "node_made ?ext m ?i t e t m"
      using heldD [OF h(1) assms(1)] unfloat_held [OF h(1) assms(1)] keep_refl [OF assms(1)]
      by (simp add: node_made_def over_def)
    then show ?thesis using True heldD(3) [OF h(1) assms(1)] by (simp add: combine_def)
  next
    case False
    let ?c = "Cudd_IsComplement t"
    let ?t = "Cudd_NotCond t ?c" and ?e = "Cudd_NotCond e ?c"
    have ht: "held ?ext m ?t" "held ?ext m ?e" using h by simp_all
    have ne: "?t \<noteq> ?e" "\<not> Cudd_IsComplement ?t" using False by (cases ?c; simp)+
    have lv: "l < elev m ?t" "l < elev m ?e" using assms(3,4) by simp_all
    obtain r m1 where r: "cuddUniqueInter ?i ?t ?e m = Some (r, m1)"
      "r = NULL \<and> failed m1 \<and> mgr_ok ?ext {} m1 \<and> keep (set_mset ?ext) m m1 \<or>
       r \<noteq> NULL \<and> node_made ?ext m ?i ?t ?e r m1"
      using unique_made [OF assms(1) ht ne lv assms(5) refl] by blast
    have run: "combine idx t e m =
      (if r = NULL then deref_both t e m1 else Some (Cudd_NotCond r ?c, m1))"
      using False r(1) assms(6) by (cases ?c) (simp_all add: combine_def)
    show ?thesis
    proof (cases "r = NULL")
      case True
      then have n: "mgr_ok ?ext {} m1" "keep (set_mset ?ext) m m1" "failed m1" using r(2) by simp_all
      have "DD_ONE m1 \<in># ext" using orderD(4) [OF keepD(3) [OF n(2)]] assms(2) by simp
      then obtain m2 where m2: "deref_both t e m1 = Some (NULL, m2)" "mgr_ok ext {} m2"
        "keep (set_mset ext) m1 m2" "errorCode m2 = errorCode m1"
        using deref_both_ok [of t e ext m1] n(1) by (auto simp: add_mset_commute)
      have "keep (set_mset ext) m m2"
        by (rule keep_trans [OF keep_mono [OF n(2)] m2(3) mgr_okD(5) [OF assms(1)]]) auto
      then show ?thesis using run True m2(1,2,4) n(3) by simp
    next
      case f: False
      then have n: "node_made ?ext m ?i ?t ?e r m1" using r(2) by simp
      then have "over m1 t e (Cudd_NotCond r ?c)" using ne(1) by (simp add: node_made_def over_def)
      then have "node_made ?ext m ?i t e (Cudd_NotCond r ?c) m1"
        using n by (auto simp: node_made_def)
      moreover have "Cudd_NotCond r ?c \<noteq> NULL"
        using n edges_nonnull [of m1 "Cudd_NotCond r ?c"] mgr_okD(5) [of ?ext _ m1]
        by (auto simp: node_made_def)
      ultimately show ?thesis using run f by simp
    qed
  qed
qed

subsection \<open>The shape of a recursive procedure\<close>

text \<open>The answer of the computed table, or the rest of the computation.\<close>

lemma lookup_cond_step:
  assumes "looked_up ext m good L" "store_ok m"
    and "\<And>r env. r \<in> edges m \<Longrightarrow> good r \<Longrightarrow> (sem m env r \<noteq> c) = P env"
    and "\<And>m1. mgr_ok ext {} m1 \<Longrightarrow> store m1 = store m \<Longrightarrow> keep (set_mset ext) m m1 \<Longrightarrow>
      delivered ext m P (K m1)"
  shows "delivered ext m P (L \<bind> (\<lambda>(r, m1). if r \<noteq> NULL then Some (Cudd_NotCond r c, m1) else K m1))"
proof -
  obtain r m1 where r: "L = Some (r, m1)" "store m1 = store m" "keep (set_mset ext) m m1"
    "r = NULL \<and> mgr_ok ext {} m1 \<or> r \<in> edges m \<and> good r \<and> mgr_ok ext {Cudd_Regular r} m1"
    using assms(1) unfolding looked_up_def by blast
  show ?thesis
  proof (cases "r = NULL")
    case True
    then have "mgr_ok ext {} m1" using r(4) edges_nonnull [OF assms(2)] by auto
    then show ?thesis using assms(4) r(1-3) True by simp
  next
    case False
    then have e: "r \<in> edges m" "good r" "mgr_ok ext {Cudd_Regular r} m1" using r(4) by simp_all
    have "delivered ext m P (Some (Cudd_NotCond r c, m1))"
      using delivered_edge [of "Cudd_NotCond r c" m1 ext m P] e(1,3) r(3) assms(3) [OF e(1,2)]
      by (simp add: store_cong(12) [OF r(2)] sem_cong_store [OF r(2)])
    then show ?thesis using False r(1) by simp
  qed
qed

lemmas lookup_step = lookup_cond_step [where c = False, simplified NotCond_False HOL.simp_thms]

text \<open>
  The two recursive calls, the first result referenced during the second, whose function may
  be one of several.
\<close>

lemma both_any_step:
  assumes "mgr_ok ext {} m" "delivered ext m P A"
    and B: "\<And>t ext' m'. mgr_ok ext' {} m' \<Longrightarrow> set_mset ext \<subseteq> set_mset ext' \<Longrightarrow>
      keep (set_mset ext) m m' \<Longrightarrow> held ext' m' t \<Longrightarrow> (\<And>env. sem m' env t = P env) \<Longrightarrow>
      \<exists>Q. S Q \<and> delivered ext' m' Q (B t m')"
    and K: "\<And>t e m' Q. S Q \<Longrightarrow> mgr_ok (add_mset (Cudd_Regular e) (add_mset (Cudd_Regular t) ext)) {} m' \<Longrightarrow>
      keep (set_mset ext) m m' \<Longrightarrow> (\<And>env. sem m' env t = P env) \<Longrightarrow>
      (\<And>env. sem m' env e = Q env) \<Longrightarrow> delivered ext m (R Q) (K t e m')"
    and "S Q0"
  shows "\<exists>Q. S Q \<and> delivered ext m (R Q) (A \<bind> (\<lambda>(t, m1). if t = NULL then Some (NULL, m1)
    else cuddRef t m1 \<bind> (\<lambda>m1. B t m1 \<bind> (\<lambda>(e, m1). if e = NULL
      then Cudd_IterDerefBdd t m1 \<bind> (\<lambda>m1. Some (NULL, m1))
      else cuddRef e m1 \<bind> (\<lambda>m1. K t e m1)))))"
  using assms(2)
proof (cases rule: deliveredE)
  case (null m1)
  then show ?thesis using delivered_null assms(5) by auto
next
  case (edge t m1)
  note s = mgr_okD(5) [OF assms(1)]
  let ?ext = "add_mset (Cudd_Regular t) ext"
  have one: "DD_ONE m1 \<in># ext" using mgr_okD(2) [OF edge(5)] .
  have n: "Cudd_Regular t \<in> nodes m1" using edge(4) by (simp add: edges_def)
  obtain m2 where m2: "cuddRef t m1 = Some m2" "mgr_ok ?ext {} m2" "counts_only m1 m2" "keep (set_mset ext) m1 m2"
    using cuddRef_ok [OF edge(5) n] by (auto simp: dset_iff)
  have k2: "keep (set_mset ext) m m2" by (rule keep_trans [OF edge(3) m2(4) s])
  have sem2: "sem m2 env t = P env" for env
    using edge(6) sem_cong_store [OF counts_only_store [OF m2(3)]] by simp
  have h2: "held ?ext m2 t" by (simp add: heldI)
  obtain Q where q: "S Q" "delivered ?ext m2 Q (B t m2)"
    using B [OF m2(2) _ k2 h2 sem2] by auto
  from q(2) show ?thesis
  proof (cases rule: deliveredE)
    case (null m3)
    have k3: "keep (set_mset ext) m m3"
      by (rule keep_trans [OF k2 keep_mono [OF null(2)] s]) auto
    have "DD_ONE m3 \<in># ext"
      using one orderD(4) [OF keepD(3) [OF k3]] orderD(4) [OF keepD(3) [OF edge(3)]] by simp
    then obtain m4 where m4: "Cudd_IterDerefBdd t m3 = Some m4" "mgr_ok ext {} m4" "keep (set_mset ext) m3 m4"
      "counts_only m3 m4"
      using iterDeref_ok [OF null(3)] by blast
    have "failed m4" using null(4) counts_only_error [OF m4(4)] by simp
    then show ?thesis
      using m4(1-3) edge(1,2) m2(1) null(1) delivered_null keep_trans [OF k3 _ s] q(1) by auto
  next
    case e: (edge e m3)
    have n3: "Cudd_Regular e \<in> nodes m3" using e(4) by (simp add: edges_def)
    obtain m4 where m4: "cuddRef e m3 = Some m4" "mgr_ok (add_mset (Cudd_Regular e) ?ext) {} m4"
      "counts_only m3 m4" "keep (set_mset ?ext) m3 m4"
      using cuddRef_ok [OF e(5) n3] by (auto simp: dset_iff)
    have k: "keep (set_mset ?ext) m2 m4" by (rule keep_trans [OF e(3) m4(4) mgr_okD(5) [OF m2(2)]])
    have "keep (set_mset ext) m m4" by (rule keep_trans [OF k2 keep_mono [OF k] s]) auto
    moreover have "sem m4 env t = P env" for env
      using held_keep(2) [OF h2 m2(2) k mgr_okD(5) [OF m4(2)]] sem2 by simp
    moreover have "sem m4 env e = Q env" for env
      using e(6) sem_cong_store [OF counts_only_store [OF m4(3)]] by simp
    ultimately have "delivered ext m (R Q) (K t e m4)" using K [OF q(1) m4(2)] by blast
    then show ?thesis using edge(1,2) m2(1) e(1,2) m4(1) q(1) by auto
  qed
qed

lemma both_step:
  assumes "mgr_ok ext {} m" "delivered ext m P A"
    and B: "\<And>t ext' m'. mgr_ok ext' {} m' \<Longrightarrow> set_mset ext \<subseteq> set_mset ext' \<Longrightarrow>
      keep (set_mset ext) m m' \<Longrightarrow> held ext' m' t \<Longrightarrow> (\<And>env. sem m' env t = P env) \<Longrightarrow>
      delivered ext' m' Q (B t m')"
    and K: "\<And>t e m'. mgr_ok (add_mset (Cudd_Regular e) (add_mset (Cudd_Regular t) ext)) {} m' \<Longrightarrow>
      keep (set_mset ext) m m' \<Longrightarrow> (\<And>env. sem m' env t = P env) \<Longrightarrow>
      (\<And>env. sem m' env e = Q env) \<Longrightarrow> delivered ext m R (K t e m')"
  shows "delivered ext m R (A \<bind> (\<lambda>(t, m1). if t = NULL then Some (NULL, m1)
    else cuddRef t m1 \<bind> (\<lambda>m1. B t m1 \<bind> (\<lambda>(e, m1). if e = NULL
      then Cudd_IterDerefBdd t m1 \<bind> (\<lambda>m1. Some (NULL, m1))
      else cuddRef e m1 \<bind> (\<lambda>m1. K t e m1)))))"
  using both_any_step [where S = "\<lambda>Q'. Q' = Q" and R = "\<lambda>_. R", OF assms(1,2) _ _ refl] B K by simp

text \<open>The result node, both partial results released, and the rest of the computation.\<close>

lemma node_made_step:
  assumes "node_made (add_mset (Cudd_Regular e) (add_mset (Cudd_Regular t) ext)) m i t e r m1"
    and "store_ok m" "DD_ONE m \<in># ext" "x = e \<and> y = t \<or> x = t \<and> y = e"
  shows "\<exists>m2 m3. cuddDeref x m1 = Some m2 \<and> cuddDeref y m2 = Some m3 \<and>
    r \<in> edges m3 \<and> mgr_ok ext {Cudd_Regular r} m3 \<and> keep (set_mset ext) m m3 \<and>
    (\<forall>env. sem m3 env r = (if env i then sem m env t else sem m env e))"
proof -
  have n: "r \<in> edges m1" "over m1 t e r"
    "keep (set_mset (add_mset (Cudd_Regular e) (add_mset (Cudd_Regular t) ext))) m m1"
    "mgr_ok (add_mset (Cudd_Regular e) (add_mset (Cudd_Regular t) ext)) {Cudd_Regular r} m1"
    "\<forall>env. sem m1 env r = (if env i then sem m env t else sem m env e)"
    using assms(1) by (auto simp: node_made_def)
  have "mgr_ok (add_mset (Cudd_Regular x) (add_mset (Cudd_Regular y) ext)) {Cudd_Regular r} m1"
    using n(4) assms(4) by (auto simp: add_mset_commute)
  moreover have "over m1 x y r \<or> over m1 y x r" using n(2) assms(4) by blast
  moreover have "DD_ONE m1 \<in># ext" using orderD(4) [OF keepD(3) [OF n(3)]] assms(3) by simp
  ultimately obtain m2 m3 where m: "cuddDeref x m1 = Some m2" "cuddDeref y m2 = Some m3"
    "mgr_ok ext {Cudd_Regular r} m3" "counts_only m1 m3" "keep (set_mset ext) m1 m3"
    using deref_pair [of x y ext r m1] by blast
  note sc = counts_only_store [OF m(4)]
  have "keep (set_mset ext) m m3"
    by (rule keep_trans [OF keep_mono [OF n(3)] m(5) assms(2)]) auto
  moreover have "r \<in> edges m3" using n(1) store_cong(12) [OF sc] by simp
  moreover have "sem m3 env r = (if env i then sem m env t else sem m env e)" for env
    using n(5) sem_cong_store [OF sc] by simp
  ultimately show ?thesis using m(1-3) by blast
qed

lemma combine_step:
  assumes "mgr_ok (add_mset (Cudd_Regular e) (add_mset (Cudd_Regular t) ext)) {} m" "DD_ONE m \<in># ext"
    and "l < elev m t" "l < elev m e" "l < dsize m" "unat idx = invperm m ! l"
    and "keep (set_mset ext) m0 m" "store_ok m0" and xy: "x = e \<and> y = t \<or> x = t \<and> y = e"
    and J: "\<And>r m1. mgr_ok ext {Cudd_Regular r} m1 \<Longrightarrow> keep (set_mset ext) m0 m1 \<Longrightarrow> r \<in> edges m1 \<Longrightarrow>
      (\<And>env. sem m1 env r = (if env (invperm m ! l) then sem m env t else sem m env e)) \<Longrightarrow>
      delivered ext m0 R (J r m1)"
  shows "delivered ext m0 R (combine idx t e m \<bind> (\<lambda>(r, m1). if r = NULL then Some (NULL, m1)
    else cuddDeref x m1 \<bind> (\<lambda>m1. cuddDeref y m1 \<bind> J r)))"
proof -
  obtain r m1 where r: "combine idx t e m = Some (r, m1)"
    "r = NULL \<and> failed m1 \<and> mgr_ok ext {} m1 \<and> keep (set_mset ext) m m1 \<or> r \<noteq> NULL \<and>
     node_made (add_mset (Cudd_Regular e) (add_mset (Cudd_Regular t) ext)) m (invperm m ! l) t e r m1"
    using combine_ok [OF assms(1-6)] by blast
  note tr = keep_trans [OF assms(7) _ assms(8)]
  show ?thesis
  proof (cases "r = NULL")
    case True
    then show ?thesis using r delivered_null tr by simp
  next
    case False
    then have n: "node_made (add_mset (Cudd_Regular e) (add_mset (Cudd_Regular t) ext)) m (invperm m ! l) t e r m1"
      using r(2) by simp
    obtain m2 m3 where m: "cuddDeref x m1 = Some m2" "cuddDeref y m2 = Some m3" "r \<in> edges m3"
      "mgr_ok ext {Cudd_Regular r} m3" "keep (set_mset ext) m m3"
      "\<And>env. sem m3 env r = (if env (invperm m ! l) then sem m env t else sem m env e)"
      using node_made_step [OF n mgr_okD(5) [OF assms(1)] assms(2) xy] by blast
    then show ?thesis using J [OF m(4) tr [OF m(5)] m(3)] False r(1) by simp
  qed
qed

text \<open>All of it: the two calls, the result node, and the rest.\<close>

lemma build_any_step:
  assumes "mgr_ok ext {} m" "l < dsize m" "unat idx = invperm m ! l"
    and "delivered ext m P A" "indep m l P" "\<And>Q. S Q \<Longrightarrow> indep m l Q" "S Q0"
    and B: "\<And>t ext' m'. mgr_ok ext' {} m' \<Longrightarrow> set_mset ext \<subseteq> set_mset ext' \<Longrightarrow>
      keep (set_mset ext) m m' \<Longrightarrow> held ext' m' t \<Longrightarrow> (\<And>env. sem m' env t = P env) \<Longrightarrow>
      \<exists>Q. S Q \<and> delivered ext' m' Q (B t m')"
    and J: "\<And>Q r m1. S Q \<Longrightarrow> mgr_ok ext {Cudd_Regular r} m1 \<Longrightarrow> keep (set_mset ext) m m1 \<Longrightarrow> r \<in> edges m1 \<Longrightarrow>
      (\<And>env. sem m1 env r = (if env (invperm m ! l) then P env else Q env)) \<Longrightarrow>
      delivered ext m (R Q) (J r m1)"
  shows "\<exists>Q. S Q \<and> delivered ext m (R Q) (A \<bind> (\<lambda>(t, m1). if t = NULL then Some (NULL, m1)
    else cuddRef t m1 \<bind> (\<lambda>m1. B t m1 \<bind> (\<lambda>(e, m1). if e = NULL
      then Cudd_IterDerefBdd t m1 \<bind> (\<lambda>m1. Some (NULL, m1))
      else cuddRef e m1 \<bind> (\<lambda>m1. combine idx t e m1 \<bind> (\<lambda>(r, m1). if r = NULL then Some (NULL, m1)
        else cuddDeref e m1 \<bind> (\<lambda>m1. cuddDeref t m1 \<bind> J r)))))))"
proof (rule both_any_step [OF assms(1,4)])
  fix t ext' m'
  assume "mgr_ok ext' {} m'" "set_mset ext \<subseteq> set_mset ext'" "keep (set_mset ext) m m'" "held ext' m' t"
    "\<And>env. sem m' env t = P env"
  then show "\<exists>Q. S Q \<and> delivered ext' m' Q (B t m')" by (rule B)
next
  fix t e m' Q
  assume Q: "S Q" and k: "mgr_ok (add_mset (Cudd_Regular e) (add_mset (Cudd_Regular t) ext)) {} m'"
    "keep (set_mset ext) m m'" "\<And>env. sem m' env t = P env" "\<And>env. sem m' env e = Q env"
  note o = orderD [OF keepD(3) [OF k(2)]]
  have h: "t \<in> edges m'" "e \<in> edges m'"
    using heldD(1) [OF _ k(1)] by (simp_all add: heldI)
  show "delivered ext m (R Q) (combine idx t e m' \<bind> (\<lambda>(r, m1). if r = NULL then Some (NULL, m1)
        else cuddDeref e m1 \<bind> (\<lambda>m1. cuddDeref t m1 \<bind> J r)))"
  proof (rule combine_step [OF k(1) _ _ _ _ _ k(2) mgr_okD(5) [OF assms(1)]])
    show "DD_ONE m' \<in># ext" using mgr_okD(2) [OF assms(1)] o(4) by simp
    show "l < elev m' t" by (rule result_level [OF k(1) keepD(3) [OF k(2)] h(1) k(3) assms(5,2)])
    show "l < elev m' e" by (rule result_level [OF k(1) keepD(3) [OF k(2)] h(2) k(4) assms(6) [OF Q] assms(2)])
    show "l < dsize m'" "unat idx = invperm m' ! l" using assms(2,3) o by simp_all
    show "e = e \<and> t = t \<or> e = t \<and> t = e" by simp
  qed (use J [OF Q] k(3,4) o(2) in simp)
qed (rule assms(7))

lemma build_step:
  assumes "mgr_ok ext {} m" "l < dsize m" "unat idx = invperm m ! l"
    and "delivered ext m P A" "indep m l P" "indep m l Q"
    and B: "\<And>t ext' m'. mgr_ok ext' {} m' \<Longrightarrow> set_mset ext \<subseteq> set_mset ext' \<Longrightarrow>
      keep (set_mset ext) m m' \<Longrightarrow> held ext' m' t \<Longrightarrow> (\<And>env. sem m' env t = P env) \<Longrightarrow>
      delivered ext' m' Q (B t m')"
    and J: "\<And>r m1. mgr_ok ext {Cudd_Regular r} m1 \<Longrightarrow> keep (set_mset ext) m m1 \<Longrightarrow> r \<in> edges m1 \<Longrightarrow>
      (\<And>env. sem m1 env r = (if env (invperm m ! l) then P env else Q env)) \<Longrightarrow>
      delivered ext m R (J r m1)"
  shows "delivered ext m R (A \<bind> (\<lambda>(t, m1). if t = NULL then Some (NULL, m1)
    else cuddRef t m1 \<bind> (\<lambda>m1. B t m1 \<bind> (\<lambda>(e, m1). if e = NULL
      then Cudd_IterDerefBdd t m1 \<bind> (\<lambda>m1. Some (NULL, m1))
      else cuddRef e m1 \<bind> (\<lambda>m1. combine idx t e m1 \<bind> (\<lambda>(r, m1). if r = NULL then Some (NULL, m1)
        else cuddDeref e m1 \<bind> (\<lambda>m1. cuddDeref t m1 \<bind> J r)))))))"
  using build_any_step [where S = "\<lambda>Q'. Q' = Q" and R = "\<lambda>_. R", OF assms(1-5) _ refl] assms(6) B J by simp

text \<open>Storing a result that is a true entry, and returning it.\<close>

lemma insert2_step:
  assumes "mgr_ok ext {Cudd_Regular r} m" "keep (set_mset ext) m0 m" "store_ok m0" "r \<in> edges m"
    and "\<And>env. sem m env r = P env"
    and "entry_ok m \<lparr>c_f = f, c_g = g, c_h = opr, c_data = r\<rparr>"
  shows "delivered ext m0 P (cuddCacheInsert2 opr f g r m \<bind> (\<lambda>m. Some (r, m)))"
proof -
  obtain m1 where m1: "cuddCacheInsert2 opr f g r m = Some m1" "core m1 = core m"
    "mgr_ok ext {Cudd_Regular r} m1"
    using cuddCacheInsert2_ok [OF assms(1,6)] by blast
  note sc = core_fields(1) [OF m1(2)]
  have "keep (set_mset ext) m0 m1"
    using keep_trans [OF assms(2) _ assms(3)] core_ok(4) [OF m1(2)] mgr_okD(5,8) [OF assms(1)] by blast
  then show ?thesis
    using m1(1,3) assms(4,5) delivered_edge [of r m1 ext m0 P]
    by (simp add: store_cong(12) [OF sc] sem_cong_store [OF sc])
qed

subsection \<open>Operations of two operands\<close>

text \<open>
  The recursive case of an operation \<open>op\<close> on two operands that are not constant: the levels,
  the cofactors, the two calls and the result node.
\<close>

lemma binary_step:
  assumes ok: "mgr_ok ext {} m" and h: "held ext m f" "held ext m g"
    and t: "Cudd_Regular f \<in> tabnodes m" "Cudd_Regular g \<in> tabnodes m"
    and n: "cont m (Cudd_Regular f) = Some (index nF, type nF)"
      "cont m (Cudd_Regular g) = Some (index nG, type nG)"
    and rec: "\<And>a b ext' m'. mgr_ok ext' {} m' \<Longrightarrow> held ext' m' a \<Longrightarrow> held ext' m' b \<Longrightarrow>
      dsize m' - min (elev m' a) (elev m' b) < dsize m - min (elev m f) (elev m g) \<Longrightarrow>
      delivered ext' m' (\<lambda>env. op (sem m' env a) (sem m' env b)) (REC a b m')"
    and J: "\<And>r m'. mgr_ok ext {Cudd_Regular r} m' \<Longrightarrow> keep (set_mset ext) m m' \<Longrightarrow> r \<in> edges m' \<Longrightarrow>
      (\<And>env. sem m' env r = op (sem m env f) (sem m env g)) \<Longrightarrow> delivered ext m R (J r m')"
  shows "delivered ext m R
    (nth_opt (perm m) (unat (index nF)) \<bind> (\<lambda>topf. nth_opt (perm m) (unat (index nG)) \<bind> (\<lambda>topg.
     cofactors f nF (topf \<le> topg) \<bind> (\<lambda>(fv, fnv). cofactors g nG (topg \<le> topf) \<bind> (\<lambda>(gv, gnv).
     REC fv gv m \<bind> (\<lambda>(t, m1). if t = NULL then Some (NULL, m1)
    else cuddRef t m1 \<bind> (\<lambda>m1. REC fnv gnv m1 \<bind> (\<lambda>(e, m1). if e = NULL
      then Cudd_IterDerefBdd t m1 \<bind> (\<lambda>m1. Some (NULL, m1))
      else cuddRef e m1 \<bind> (\<lambda>m1. combine (if topf \<le> topg then index nF else index nG) t e m1 \<bind>
        (\<lambda>(r, m1). if r = NULL then Some (NULL, m1)
        else cuddDeref e m1 \<bind> (\<lambda>m1. cuddDeref t m1 \<bind> J r)))))))))))"
proof -
  note s = mgr_okD(5) [OF ok]
  define l where "l = min (elev m f) (elev m g)"
  have l: "l \<le> elev m f" "l \<le> elev m g" "elev m f \<le> elev m g \<longleftrightarrow> elev m f = l"
    "elev m g \<le> elev m f \<longleftrightarrow> elev m g = l" "l < dsize m"
    using node_level(2) [OF ok t(1) n(1)] by (auto simp: l_def)
  define i where "i = invperm m ! l"
  obtain fv fnv where cf: "cofactors f nF (elev m f \<le> elev m g) = Some (fv, fnv)"
    "held ext m fv" "held ext m fnv" "l < elev m fv" "l < elev m fnv"
    "\<And>env. sem m env f = (if env i then sem m env fv else sem m env fnv)"
    using cofactors_ok [OF ok h(1) n(1) l(1,3,5)] i_def by metis
  obtain gv gnv where cg: "cofactors g nG (elev m g \<le> elev m f) = Some (gv, gnv)"
    "held ext m gv" "held ext m gnv" "l < elev m gv" "l < elev m gnv"
    "\<And>env. sem m env g = (if env i then sem m env gv else sem m env gnv)"
    using cofactors_ok [OF ok h(2) n(2) l(2,4,5)] i_def by metis
  let ?Pt = "\<lambda>env. op (sem m env fv) (sem m env gv)"
  let ?Pe = "\<lambda>env. op (sem m env fnv) (sem m env gnv)"
  have rec_call: "delivered ext' m' (\<lambda>env. op (sem m env a) (sem m env b)) (REC a b m')"
    if "mgr_ok ext' {} m'" "set_mset ext \<subseteq> set_mset ext'" "keep (set_mset ext) m m'"
      "held ext m a" "l < elev m a" "held ext m b" "l < elev m b" for a b ext' m'
  proof -
    note s' = mgr_okD(5) [OF that(1)]
    note a = held_keep [OF that(4) ok that(3) s'] and b = held_keep [OF that(6) ok that(3) s']
    have "dsize m' - min (elev m' a) (elev m' b) < dsize m - min (elev m f) (elev m g)"
      using that(5,7) l(5) l_def orderD(3) [OF keepD(3) [OF that(3)]]
      by (auto simp: a(3) b(3))
    from rec [OF that(1) held_mono [OF a(1) that(2)] held_mono [OF b(1) that(2)] this]
    show ?thesis by (simp add: a(2) b(2))
  qed
  have idx: "unat (if elev m f \<le> elev m g then index nF else index nG) = invperm m ! l"
    using node_level(3) [OF ok t(1) n(1)] node_level(3) [OF ok t(2) n(2)] by (simp add: l_def min_def)
  have ind: "indep m l ?Pt" "indep m l ?Pe"
    using indep_comb [where f = op, OF indep_sem [OF s] indep_sem [OF s]] cf(2-5) cg(2-5) heldD(1) [OF _ ok]
    by simp_all
  show ?thesis
    apply (simp only: node_level(1) [OF ok t(1) n(1)] node_level(1) [OF ok t(2) n(2)]
        Option.bind.bind_lunit cf(1) cg(1) prod.case)
    apply (rule build_step [OF ok l(5) idx _ ind])
    subgoal by (rule rec_call [OF ok _ keep_refl [OF ok] cf(2,4) cg(2,4)]) simp
    subgoal premises p for t ext' m2
      by (rule rec_call [OF p(1-3) cf(3,5) cg(3,5)])
    subgoal premises p for r m2
      by (rule J [OF p(1-3)]) (simp add: p(4) cf(6) cg(6) i_def)
    done
qed

lemma cont_heap:
  assumes "held ext m f" "mgr_ok ext F m" "store m' = store m"
  obtains n where "heap m (Cudd_Regular f) = Some n"
    "cont m' (Cudd_Regular f) = Some (index n, type n)"
proof -
  obtain n where n: "heap m (Cudd_Regular f) = Some n" by (rule held_node [OF assms(1,2)])
  then show ?thesis using that by (simp add: store_cong [OF assms(3)]) (simp add: cont_def)
qed

subsection \<open>Conjunction\<close>

lemma and_entry:
  assumes "f \<in> edges m" "g \<in> edges m" "r \<in> edges m" "\<And>env. sem m env r = (sem m env f \<and> sem m env g)"
  shows "entry_ok m \<lparr>c_f = f, c_g = g, c_h = fp_Cudd_bddAnd, c_data = r\<rparr>"
  using assms
  by (simp add: entry_ok_def entry2_ok_def fp_defs)

lemma no_lookup: "mgr_ok ext {} m \<Longrightarrow> looked_up ext m good (Some (NULL, m))"
  using keep_refl by (simp add: looked_up_def)

text \<open>Two operands that are neither related nor constant.\<close>

lemma and_pair_ok:
  assumes ok: "mgr_ok ext {} m" and h: "held ext m f" "held ext m g"
    and t: "Cudd_Regular f \<in> tabnodes m" "Cudd_Regular g \<in> tabnodes m"
    and n: "heap m (Cudd_Regular f) = Some nF" "heap m (Cudd_Regular g) = Some nG"
    and rec: "\<And>a b ext' m'. mgr_ok ext' {} m' \<Longrightarrow> held ext' m' a \<Longrightarrow> held ext' m' b \<Longrightarrow>
      dsize m' - min (elev m' a) (elev m' b) < dsize m - min (elev m f) (elev m g) \<Longrightarrow>
      delivered ext' m' (\<lambda>env. sem m' env a \<and> sem m' env b) (cuddBddAndRecur a b m')"
    and fg: "f = (if f0 > g0 then g0 else f0)" "g = (if f0 > g0 then f0 else g0)"
    and ne: "Cudd_Regular f0 \<noteq> Cudd_Regular g0" "Cudd_Regular f0 \<noteq> DD_ONE m" "Cudd_Regular g0 \<noteq> DD_ONE m"
  shows "delivered ext m (\<lambda>env. sem m env f \<and> sem m env g) (cuddBddAndRecur f0 g0 m)"
proof -
  note s = mgr_okD(5) [OF ok]
  have lk: "looked_up ext m (\<lambda>r. entry2_ok m \<lparr>c_f = f, c_g = g, c_h = fp_Cudd_bddAnd, c_data = r\<rparr>)
    (if ref nF \<noteq> 1 \<or> ref nG \<noteq> 1 then cuddCacheLookup2 fp_Cudd_bddAnd f g m else Some (NULL, m))"
    using cuddCacheLookup2_ok [OF ok heldD(1) [OF h(1) ok]] no_lookup [OF ok] by simp
  show ?thesis
    apply (subst cuddBddAndRecur.simps)
    apply (simp only: Let_def ne if_False fg [symmetric] n Option.bind.bind_lunit)
    apply (rule lookup_step [OF lk s])
    subgoal by (simp add: entry2_ok_def)
    subgoal premises p1 for m1
    proof (rule delivered_step [OF _ p1(3) s], rule binary_step [OF p1(1), where op = "(\<and>)"])
      note c = store_cong [OF p1(2)]
      show "held ext m1 f" "held ext m1 g" "Cudd_Regular f \<in> tabnodes m1" "Cudd_Regular g \<in> tabnodes m1"
        using held_keep(1) [OF _ ok p1(3) mgr_okD(5) [OF p1(1)]] h t by (simp_all add: c)
      show "cont m1 (Cudd_Regular f) = Some (index nF, type nF)"
        "cont m1 (Cudd_Regular g) = Some (index nG, type nG)"
        using n by (simp_all add: c) (simp_all add: cont_def)
    next
      fix a b ext' m'
      assume "mgr_ok ext' {} m'" "held ext' m' a" "held ext' m' b"
        "dsize m' - min (elev m' a) (elev m' b) < dsize m1 - min (elev m1 f) (elev m1 g)"
      then show "delivered ext' m' (\<lambda>env. sem m' env a \<and> sem m' env b) (cuddBddAndRecur a b m')"
        using rec by (simp add: store_cong [OF p1(2)])
    next
      fix r m2
      assume k: "mgr_ok ext {Cudd_Regular r} m2" "keep (set_mset ext) m1 m2" "r \<in> edges m2"
        "\<And>env. sem m2 env r = (sem m1 env f \<and> sem m1 env g)"
      note k2 = keep_trans [OF p1(3) k(2) s] and s2 = mgr_okD(5) [OF k(1)]
      note hf = held_keep [OF h(1) ok k2 s2] and hg = held_keep [OF h(2) ok k2 s2]
      obtain n1 n2 where n': "heap m2 (Cudd_Regular f) = Some n1" "heap m2 (Cudd_Regular g) = Some n2"
        using held_node [OF hf(1) k(1)] held_node [OF hg(1) k(1)] by metis
      have r: "sem m2 env r = (sem m env f \<and> sem m env g)" for env
        by (simp add: k(4) sem_cong_store [OF p1(2)])
      have "entry_ok m2 \<lparr>c_f = f, c_g = g, c_h = fp_Cudd_bddAnd, c_data = r\<rparr>"
        by (rule and_entry [OF heldD(1) [OF hf(1) k(1)] heldD(1) [OF hg(1) k(1)] k(3)])
          (simp add: r hf(2) hg(2))
      then show "delivered ext m1 (\<lambda>env. sem m env f \<and> sem m env g)
        (heap m2 (Cudd_Regular f) \<bind> (\<lambda>nF. heap m2 (Cudd_Regular g) \<bind> (\<lambda>nG.
          (if ref nF \<noteq> 1 \<or> ref nG \<noteq> 1 then cuddCacheInsert2 fp_Cudd_bddAnd f g r m2 else Some m2)
          \<bind> (\<lambda>m2. Some (r, m2)))))"
        using insert2_step [OF k(1,2) mgr_okD(5) [OF p1(1)] k(3)] delivered_edge [OF k(3,1,2)] r
        by (simp add: n')
    qed
    done
qed

lemma cuddBddAndRecur_ok:
  "mgr_ok ext {} m \<Longrightarrow> held ext m f \<Longrightarrow> held ext m g \<Longrightarrow>
   delivered ext m (\<lambda>env. sem m env f \<and> sem m env g) (cuddBddAndRecur f g m)"
proof (induction "dsize m - min (elev m f) (elev m g)" arbitrary: ext m f g rule: less_induct)
  case less
  note ok = less.prems(1)
  note s = mgr_okD(5) [OF ok]
  let ?one = "DD_ONE m"
  consider (same) "Cudd_Regular f = Cudd_Regular g" | (f) "Cudd_Regular f \<noteq> Cudd_Regular g" "Cudd_Regular f = ?one"
    | (g) "Cudd_Regular f \<noteq> Cudd_Regular g" "Cudd_Regular f \<noteq> ?one" "Cudd_Regular g = ?one"
    | (rec) "Cudd_Regular f \<noteq> Cudd_Regular g" "Cudd_Regular f \<noteq> ?one" "Cudd_Regular g \<noteq> ?one" by blast
  then show ?case
  proof cases
    case same
    have "f = g \<or> f = Cudd_Not g" using same by (simp add: Regular_eq_iff)
    then show ?thesis
      using same less.prems held_one [OF ok] sem_one [OF s]
      by (subst cuddBddAndRecur.simps) (auto simp: Let_def intro: delivered_held)
  next
    case f
    then show ?thesis
      using const_edges [OF f(2) s] less.prems sem_one [OF s]
      by (subst cuddBddAndRecur.simps) (auto simp: Let_def intro: delivered_held)
  next
    case g
    then show ?thesis
      using const_edges [OF g(3) s] less.prems sem_one [OF s]
      by (subst cuddBddAndRecur.simps) (auto simp: Let_def intro: delivered_held)
  next
    case rec
    define f' g' where fg: "f' = (if f > g then g else f)" "g' = (if f > g then f else g)"
    have h: "held ext m f'" "held ext m g'" using less.prems(2,3) by (simp_all add: fg)
    have t: "Cudd_Regular f' \<in> tabnodes m" "Cudd_Regular g' \<in> tabnodes m"
      using heldD(2) [OF h(1) ok] heldD(2) [OF h(2) ok] rec(2,3) by (auto simp: fg nodes_def split: if_splits)
    obtain nF nG where n: "heap m (Cudd_Regular f') = Some nF" "heap m (Cudd_Regular g') = Some nG"
      using held_node [OF h(1) ok] held_node [OF h(2) ok] by metis
    have l: "min (elev m f') (elev m g') = min (elev m f) (elev m g)" by (simp add: fg min.commute)
    have "delivered ext m (\<lambda>env. sem m env f' \<and> sem m env g') (cuddBddAndRecur f g m)"
      by (rule and_pair_ok [OF ok h t n less.hyps fg rec]) (simp_all add: l)
    then show ?thesis by (rule delivered_cong) (auto simp: fg)
  qed
qed

subsection \<open>Exclusive or\<close>

lemma xor_entry:
  assumes "f \<in> edges m" "g \<in> edges m" "r \<in> edges m" "\<And>env. sem m env r = (sem m env f \<noteq> sem m env g)"
  shows "entry_ok m \<lparr>c_f = f, c_g = g, c_h = fp_Cudd_bddXor, c_data = r\<rparr>"
  using assms
  by (simp add: entry_ok_def entry2_ok_def fp_defs)

lemma cuddBddXorRecur_ok:
  "mgr_ok ext {} m \<Longrightarrow> held ext m f \<Longrightarrow> held ext m g \<Longrightarrow>
   delivered ext m (\<lambda>env. sem m env f \<noteq> sem m env g) (cuddBddXorRecur f g m)"
proof (induction "dsize m - min (elev m f) (elev m g)" arbitrary: ext m f g rule: less_induct)
  case less
  note ok = less.prems(1)
  note s = mgr_okD(5) [OF ok]
  let ?one = "DD_ONE m" and ?P = "\<lambda>env. sem m env f \<noteq> sem m env g"
  define f1 g1 where fg: "f1 = (if f > g then g else f)" "g1 = (if f > g then f else g)"
  define c where "c = Cudd_IsComplement f1"
  define f' g' where fg': "f' = Cudd_NotCond f1 c" "g' = Cudd_NotCond g1 c"
  have P: "?P env = (sem m env f1 \<noteq> sem m env g1)" "?P env = (sem m env f' \<noteq> sem m env g')" for env
    by (auto simp: fg fg')
  have h: "held ext m f1" "held ext m g1" "held ext m f'" "held ext m g'"
    using less.prems(2,3) by (simp_all add: fg fg')
  have reg: "Cudd_Regular f' = f'" by (cases c) (simp_all add: fg' c_def Regular_complemented)
  show ?case
  proof (cases "f = g \<or> f = Cudd_Not g \<or> g1 = ?one \<or> g1 = Cudd_Not ?one \<or> f' = ?one")
    case True
    then show ?thesis
      using held_one [OF ok] sem_one [OF s] h P
      apply (subst cuddBddXorRecur.simps)
      apply (simp only: Let_def fg [symmetric] c_def [symmetric] fg' [symmetric])
      apply (auto intro!: delivered_held simp: less.prems)
      done
  next
    case False
    then have ne: "f \<noteq> g" "f \<noteq> Cudd_Not g" "g1 \<noteq> Cudd_Not ?one" "g1 \<noteq> ?one" "f' \<noteq> ?one" by simp_all
    have t: "Cudd_Regular f' \<in> tabnodes m" "Cudd_Regular g' \<in> tabnodes m"
      using heldD(2) [OF h(3) ok] heldD(2) [OF h(4) ok] ne(3-5) reg const_edges [OF _ s, of g1]
      by (auto simp: nodes_def fg')
    have l: "min (elev m f') (elev m g') = min (elev m f) (elev m g)"
      by (simp add: fg fg' min.commute)
    have lk: "looked_up ext m (\<lambda>r. entry2_ok m \<lparr>c_f = f', c_g = g', c_h = fp_Cudd_bddXor, c_data = r\<rparr>)
      (cuddCacheLookup2 fp_Cudd_bddXor f' g' m)"
      by (rule cuddCacheLookup2_ok [OF ok heldD(1) [OF h(3) ok]])
    show ?thesis
      apply (subst cuddBddXorRecur.simps)
      apply (simp only: Let_def fg [symmetric] c_def [symmetric] fg' [symmetric] ne if_False)
      apply (rule lookup_step [OF lk s])
      subgoal for r env using P(2) [of env] by (simp add: entry2_ok_def)
      subgoal premises p1 for m1
      proof -
        note hm = held_keep(1) [OF _ ok p1(3) mgr_okD(5) [OF p1(1)]]
        note cc = store_cong [OF p1(2)]
        obtain nF nG where n: "heap m1 (Cudd_Regular f') = Some nF" "heap m1 (Cudd_Regular g') = Some nG"
          using held_node [OF hm [OF h(3)] p1(1)] held_node [OF hm [OF h(4)] p1(1)] by metis
        show ?thesis
          apply (simp only: n n(1) [unfolded reg] Option.bind.bind_lunit)
          apply (rule delivered_step [OF _ p1(3) s], rule binary_step [OF p1(1), where op = "(\<noteq>)"])
          subgoal by (rule hm [OF h(3)])
          subgoal by (rule hm [OF h(4)])
          subgoal by (simp add: cc t)
          subgoal by (simp add: cc t)
          subgoal using n(1) by (simp add: cont_def)
          subgoal using n(2) by (simp add: cont_def)
          subgoal premises p2 for a b ext' m'
            using less.hyps [OF _ p2(1-3)] p2(4) by (simp add: cc l)
          subgoal premises k for r m2
          proof -
            note k2 = keep_trans [OF p1(3) k(2) s] and s2 = mgr_okD(5) [OF k(1)]
            note hf = held_keep [OF h(3) ok k2 s2] and hg = held_keep [OF h(4) ok k2 s2]
            have r: "sem m2 env r = (sem m env f' \<noteq> sem m env g')" for env
              using k(4) by (simp add: sem_cong_store [OF p1(2)])
            have "entry_ok m2 \<lparr>c_f = f', c_g = g', c_h = fp_Cudd_bddXor, c_data = r\<rparr>"
              by (rule xor_entry [OF heldD(1) [OF hf(1) k(1)] heldD(1) [OF hg(1) k(1)] k(3)])
                (simp add: r hf(2) hg(2))
            then show ?thesis
              by (rule insert2_step [OF k(1,2) mgr_okD(5) [OF p1(1)] k(3), rotated]) (use r P(2) in blast)
          qed
          done
      qed
      done
  qed
qed

subsection \<open>If-then-else\<close>

lemma delivered_NotCond:
  assumes "delivered ext m P (Some (r, m'))" "r \<noteq> NULL"
  shows "delivered ext m (\<lambda>env. P env \<noteq> c) (Some (Cudd_NotCond r c, m'))"
  using assms by (auto simp: delivered_def)

lemma delivered_NotCond_null:
  assumes "delivered ext m P (Some (r, m'))"
  shows "delivered ext m (\<lambda>env. P env \<noteq> c) (Some (Cudd_NotCond r (c \<and> r \<noteq> NULL), m'))"
  using assms by (cases "r = NULL") (auto simp: delivered_def dest: edges_nonnull [OF mgr_okD(5)])

text \<open>The standard form.\<close>

lemma make_regular_ok:
  assumes "make_regular f g h = (c, f', g', h')"
  shows "\<not> Cudd_IsComplement f'" "\<not> Cudd_IsComplement g'"
    "ite_fun m f g h env = (ite_fun m f' g' h' env \<noteq> c)"
    "f' = Cudd_Regular f" "Cudd_Regular g' = Cudd_Regular g \<and> Cudd_Regular h' = Cudd_Regular h \<or>
      Cudd_Regular g' = Cudd_Regular h \<and> Cudd_Regular h' = Cudd_Regular g"
    "g' = h' \<longleftrightarrow> g = h"
  using assms
  by (auto simp: make_regular_def Let_def ite_fun_def Regular_complemented split: if_splits)

lemma canonical_simple_ok:
  assumes "mgr_ok ext F m" "make_regular f g h = (c, f', g', h')"
    and "Cudd_Regular f' \<in> tabnodes m" "Cudd_Regular g' \<in> tabnodes m" "Cudd_Regular h' \<in> tabnodes m"
  shows "bddVarToCanonicalSimple m f g h = Some (c, f', g', h', elev m f', elev m g', elev m h')"
proof -
  have n: "\<exists>n. heap m (Cudd_Regular e) = Some n \<and> nth_opt (perm m) (unat (index n)) = Some (elev m e)"
    if t: "Cudd_Regular e \<in> tabnodes m" for e
  proof -
    obtain n where n: "heap m (Cudd_Regular e) = Some n"
      using nodes_heap [OF mgr_okD(5) [OF assms(1)] tab_nodes [OF t]] by blast
    then have "cont m (Cudd_Regular e) = Some (index n, type n)" by (simp add: cont_def)
    then show ?thesis using node_level(1) [OF assms(1) t] n by blast
  qed
  show ?thesis
    using n [OF assms(3)] n [OF assms(4)] n [OF assms(5)]
    by (auto simp: bddVarToCanonicalSimple_def assms(2) index_of_def)
qed

text \<open>The result of if-then-else with a regular then result.\<close>

lemma combine_regular:
  assumes "\<not> Cudd_IsComplement t" "t \<noteq> NULL"
  shows "((if t = e then Some (t, m) else cuddUniqueInter (unat idx) t e m) \<bind>
      (\<lambda>(r, m). if r = NULL then deref_both t e m else K r m)) =
    combine idx t e m \<bind> (\<lambda>(r, m). if r = NULL then Some (NULL, m) else K r m)"
proof (cases "t = e")
  case False
  have d: "(deref_both t e m \<bind> (\<lambda>(r, m). if r = NULL then Some (NULL, m) else K r m)) = deref_both t e m" for m
    by (cases "Cudd_IterDerefBdd t m") (auto simp: deref_both_def split: Option.bind_splits)
  then show ?thesis
    using False assms by (cases "cuddUniqueInter (unat idx) t e m") (auto simp: combine_def)
qed (use assms in \<open>simp add: combine_def\<close>)

lemma ite_entry_ok:
  assumes "mgr_ok ext F m" "f \<in> nodes m" "g \<in> nodes m" "h \<in> edges m" "r \<in> edges m"
    and "\<And>env. sem m env r = ite_fun m f g h env"
  shows "entry_ok m \<lparr>c_f = pack_f DD_BDD_ITE_TAG f, c_g = pack_g DD_BDD_ITE_TAG g, c_h = h, c_data = r\<rparr>"
proof -
  have "f \<in> edges m" "g \<in> edges m" using nodes_edges [OF mgr_okD(5) [OF assms(1)]] assms(2,3) by blast+
  moreover have "op3_ok m DD_BDD_ITE_TAG f g h r" using assms(5,6) by (simp add: op3_ok_def tag_defs)
  ultimately show ?thesis by (intro entry3_intro) (use assms(4) in \<open>simp_all add: op3_tags_def\<close>)
qed

lemma ite_keep:
  assumes "mgr_ok ext F m" "keep (set_mset ext) m m'" "store_ok m'"
    and "held ext m f" "held ext m g" "held ext m h"
  shows "ite_fun m' f g h = ite_fun m f g h"
  using held_keep(2) [OF _ assms(1-3)] assms(4-6) by (simp add: ite_fun_def fun_eq_iff)

lemma ite_indep:
  assumes "store_ok m" "f \<in> edges m" "g \<in> edges m" "h \<in> edges m"
    and "l < elev m f" "l < elev m g" "l < elev m h"
  shows "indep m l (ite_fun m f g h)"
  using indep_sem [OF assms(1,2,5)] indep_sem [OF assms(1,3,6)] indep_sem [OF assms(1,4,7)]
  by (simp add: indep_def ite_fun_def)

lemma insert3_step:
  assumes "mgr_ok ext {Cudd_Regular r} m" "keep (set_mset ext) m0 m" "store_ok m0" "r \<in> edges m"
    and "\<And>env. sem m env r = P env"
    and "entry_ok m \<lparr>c_f = pack_f opr f, c_g = pack_g opr g, c_h = h, c_data = r\<rparr>"
  shows "delivered ext m0 (\<lambda>env. P env \<noteq> c)
    (cuddCacheInsert opr f g h r m \<bind> (\<lambda>m. Some (Cudd_NotCond r c, m)))"
proof -
  obtain m1 where m1: "cuddCacheInsert opr f g h r m = Some m1" "core m1 = core m"
    "mgr_ok ext {Cudd_Regular r} m1"
    using cuddCacheInsert_ok [OF assms(1,6)] by blast
  note sc = core_fields(1) [OF m1(2)]
  have "keep (set_mset ext) m0 m1"
    using keep_trans [OF assms(2) _ assms(3)] core_ok(4) [OF m1(2)] mgr_okD(5,8) [OF assms(1)] by blast
  then show ?thesis
    using m1(1,3) assms(4,5) delivered_edge [of "Cudd_NotCond r c" m1 ext m0]
    by (simp add: store_cong(12) [OF sc] sem_cong_store [OF sc])
qed

text \<open>The recursive case, from the cofactors on.\<close>

lemma ite_build:
  assumes ok: "mgr_ok ext {} m" and h: "held ext m f" "held ext m g" "held ext m h"
    and t: "Cudd_Regular f \<in> tabnodes m" "Cudd_Regular g \<in> tabnodes m" "Cudd_Regular h \<in> tabnodes m"
    and reg: "\<not> Cudd_IsComplement f" "\<not> Cudd_IsComplement g"
    and n: "cont m (Cudd_Regular f) = Some (index nF, type nF)"
      "cont m (Cudd_Regular g) = Some (index nG, type nG)"
      "cont m (Cudd_Regular h) = Some (index nH, type nH)"
    and rec: "\<And>a b d ext' m'. mgr_ok ext' {} m' \<Longrightarrow> held ext' m' a \<Longrightarrow> held ext' m' b \<Longrightarrow> held ext' m' d \<Longrightarrow>
      dsize m' - min (elev m' a) (min (elev m' b) (elev m' d)) <
      dsize m - min (elev m f) (min (elev m g) (elev m h)) \<Longrightarrow>
      delivered ext' m' (ite_fun m' a b d) (cuddBddIteRecur a b d m')"
    and v: "v = min (elev m f) (min (elev m g) (elev m h))"
    and tl: "tf = elev m f" "tg = elev m g" "th = elev m h"
  shows "delivered ext m (\<lambda>env. ite_fun m f g h env \<noteq> c)
    (cofactors f nF (tf \<le> v) \<bind> (\<lambda>(Fv, Fnv). cofactors g nG (tg = v) \<bind> (\<lambda>(Gv, Gnv).
     cofactors h nH (th = v) \<bind> (\<lambda>(Hv, Hnv). cuddBddIteRecur Fv Gv Hv m \<bind> (\<lambda>(t, dd).
       if t = NULL then Some (NULL, dd)
       else cuddRef t dd \<bind> (\<lambda>dd. cuddBddIteRecur Fnv Gnv Hnv dd \<bind> (\<lambda>(e, dd).
         if e = NULL then Cudd_IterDerefBdd t dd \<bind> (\<lambda>dd. Some (NULL, dd))
         else cuddRef e dd \<bind> (\<lambda>dd.
           (if t = e then Some (t, dd) else cuddUniqueInter (unat (if th = v then index nH
              else if tg = v then index nG else index nF)) t e dd) \<bind> (\<lambda>(r, dd).
             if r = NULL then deref_both t e dd
             else cuddDeref t dd \<bind> (\<lambda>dd. cuddDeref e dd \<bind> (\<lambda>dd.
               cuddCacheInsert DD_BDD_ITE_TAG f g h r dd \<bind> (\<lambda>dd.
                 Some (Cudd_NotCond r c, dd)))))))))))))"
proof -
  note s = mgr_okD(5) [OF ok]
  have l: "v \<le> elev m f" "v \<le> elev m g" "v \<le> elev m h" "elev m f \<le> v \<longleftrightarrow> elev m f = v" "v < dsize m"
    using node_level(2) [OF ok t(1) n(1)] by (auto simp: v)
  define i where "i = invperm m ! v"
  obtain fv fnv where cf: "cofactors f nF (elev m f \<le> v) = Some (fv, fnv)"
    "held ext m fv" "held ext m fnv" "v < elev m fv" "v < elev m fnv"
    "\<And>env. sem m env f = (if env i then sem m env fv else sem m env fnv)"
    using cofactors_ok [OF ok h(1) n(1) l(1,4,5)] i_def by metis
  obtain gv gnv where cg: "cofactors g nG (elev m g = v) = Some (gv, gnv)"
    "held ext m gv" "held ext m gnv" "v < elev m gv" "v < elev m gnv"
    "\<And>env. sem m env g = (if env i then sem m env gv else sem m env gnv)"
    using cofactors_ok [OF ok h(2) n(2) l(2) refl l(5)] i_def by metis
  obtain hv hnv where ch: "cofactors h nH (elev m h = v) = Some (hv, hnv)"
    "held ext m hv" "held ext m hnv" "v < elev m hv" "v < elev m hnv"
    "\<And>env. sem m env h = (if env i then sem m env hv else sem m env hnv)"
    using cofactors_ok [OF ok h(3) n(3) l(3) refl l(5)] i_def by metis
  have rec_call: "delivered ext' m' (ite_fun m a b d) (cuddBddIteRecur a b d m')"
    if "mgr_ok ext' {} m'" "set_mset ext \<subseteq> set_mset ext'" "keep (set_mset ext) m m'"
      "held ext m a" "v < elev m a" "held ext m b" "v < elev m b" "held ext m d" "v < elev m d" for a b d ext' m'
  proof -
    note hk = held_keep [OF _ ok that(3) mgr_okD(5) [OF that(1)]]
    note hs = hk(1) [OF that(4)] hk(1) [OF that(6)] hk(1) [OF that(8)]
    have "dsize m' - min (elev m' a) (min (elev m' b) (elev m' d)) < dsize m - min (elev m f) (min (elev m g) (elev m h))"
      using that(5,7,9) l(5) orderD(3) [OF keepD(3) [OF that(3)]]
      by (simp add: hk(3) [OF that(4)] hk(3) [OF that(6)] hk(3) [OF that(8)] flip: v)
    from rec [OF that(1) hs(1-3) [THEN held_mono [OF _ that(2)]] this]
    show ?thesis by (simp add: ite_keep [OF ok that(3) mgr_okD(5) [OF that(1)] that(4,6,8)])
  qed
  have idx: "unat (if elev m h = v then index nH else if elev m g = v then index nG else index nF) = invperm m ! v"
    using node_level(3) [OF ok t(1) n(1)] node_level(3) [OF ok t(2) n(2)] node_level(3) [OF ok t(3) n(3)]
    by (auto simp: v min_def split: if_splits)
  note ed = heldD(1) [OF _ ok]
  have ind: "indep m v (ite_fun m fv gv hv)" "indep m v (ite_fun m fnv gnv hnv)"
    using ite_indep [OF s] ed cf(2-5) cg(2-5) ch(2-5) by simp_all
  have top: "ite_fun m fv gv hv (\<lambda>_. True)"
    using sem_all_true [OF s ed [OF h(1)]] sem_all_true [OF s ed [OF h(2)]] reg
      cf(6) [of "\<lambda>_. True"] cg(6) [of "\<lambda>_. True"] by (simp add: ite_fun_def)
  have ite: "ite_fun m f g h env = (if env i then ite_fun m fv gv hv env else ite_fun m fnv gnv hnv env)" for env
    by (simp add: ite_fun_def cf(6) cg(6) ch(6))
  show ?thesis
    apply (simp only: tl cf(1) cg(1) ch(1) Option.bind.bind_lunit prod.case)
    apply (rule both_step [OF ok, where P = "ite_fun m fv gv hv" and Q = "ite_fun m fnv gnv hnv"])
    subgoal by (rule rec_call [OF ok _ keep_refl [OF ok] cf(2,4) cg(2,4) ch(2,4)]) simp
    subgoal premises p for t ext' m2
      by (rule rec_call [OF p(1-3) cf(3,5) cg(3,5) ch(3,5)])
    subgoal premises p for t e m2
    proof -
      note o = orderD [OF keepD(3) [OF p(2)]] and s2 = mgr_okD(5) [OF p(1)]
      have h2: "t \<in> edges m2" "e \<in> edges m2" using heldD(1) [OF _ p(1)] by (simp_all add: heldI)
      have r: "\<not> Cudd_IsComplement t" using sem_all_true [OF s2 h2(1)] p(3) top by simp
      show ?thesis
        unfolding combine_regular [OF r edges_nonnull [OF s2 h2(1)]]
        apply (rule combine_step [OF p(1) _ _ _ _ _ p(2) s, where l = v])
        subgoal using mgr_okD(2) [OF ok] o(4) by simp
        subgoal by (rule result_level [OF p(1) keepD(3) [OF p(2)] h2(1) p(3) ind(1) l(5)])
        subgoal by (rule result_level [OF p(1) keepD(3) [OF p(2)] h2(2) p(4) ind(2) l(5)])
        subgoal using l(5) o(3) by simp
        subgoal using idx o(2) by simp
        subgoal by simp
        subgoal premises k for r m3
        proof -
          note hk = held_keep [OF _ ok k(2) mgr_okD(5) [OF k(1)]]
          have r: "sem m3 env r = ite_fun m f g h env" for env
            using k(4) p(3,4) by (simp add: o(2) ite flip: i_def)
          have nd: "f \<in> nodes m3" "g \<in> nodes m3" "h \<in> edges m3"
            using heldD(2) [OF hk(1) [OF h(1)] k(1)] heldD(2) [OF hk(1) [OF h(2)] k(1)]
              heldD(1) [OF hk(1) [OF h(3)] k(1)] reg by simp_all
          show ?thesis
            by (rule insert3_step [OF k(1,2) s k(3) r], rule ite_entry_ok [OF k(1) nd k(3)])
              (simp add: r ite_keep [OF ok k(2) mgr_okD(5) [OF k(1)] h])
        qed
        done
    qed
    done
qed

text \<open>Three operands that are neither related nor constant.\<close>

lemma ite_general_ok:
  assumes ok: "mgr_ok ext {} m" and h: "held ext m f" "held ext m g" "held ext m h"
    and t: "Cudd_Regular f \<in> tabnodes m" "Cudd_Regular g \<in> tabnodes m" "Cudd_Regular h \<in> tabnodes m"
    and ne: "f \<noteq> g" "f \<noteq> Cudd_Not g" "f \<noteq> h" "f \<noteq> Cudd_Not h" "g \<noteq> h" "g \<noteq> Cudd_Not h"
    and rec: "\<And>a b d ext' m'. mgr_ok ext' {} m' \<Longrightarrow> held ext' m' a \<Longrightarrow> held ext' m' b \<Longrightarrow> held ext' m' d \<Longrightarrow>
      dsize m' - min (elev m' a) (min (elev m' b) (elev m' d)) <
      dsize m - min (elev m f) (min (elev m g) (elev m h)) \<Longrightarrow>
      delivered ext' m' (ite_fun m' a b d) (cuddBddIteRecur a b d m')"
  shows "delivered ext m (ite_fun m f g h) (cuddBddIteRecur f g h m)"
proof -
  note s = mgr_okD(5) [OF ok]
  let ?one = "DD_ONE m"
  obtain c f' g' h' where mr: "make_regular f g h = (c, f', g', h')" by (metis prod_cases4)
  note r = make_regular_ok [OF mr]
  have h': "held ext m f'" "held ext m g'" "held ext m h'" "Cudd_Regular f' \<in> tabnodes m"
    "Cudd_Regular g' \<in> tabnodes m" "Cudd_Regular h' \<in> tabnodes m"
    using r(4,5) h t by (auto simp: held_def)
  have l: "min (elev m f') (min (elev m g') (elev m h')) = min (elev m f) (min (elev m g) (elev m h))"
    using r(4,5) by (auto simp: elev_def min.commute)
  have nc: "e \<noteq> ?one" "e \<noteq> Cudd_Not ?one" if "Cudd_Regular e \<in> tabnodes m" for e
    using that tabnode(5) [OF s that] oneD(3) [OF s] by (auto simp: Regular_id)
  have rg: "Cudd_Regular f' = f'" "Cudd_Regular g' = g'" using r(1,2) by simp_all
  obtain nF where nF: "heap m f' = Some nF" "cont m (Cudd_Regular f') = Some (index nF, type nF)"
    using cont_heap [OF h'(1) ok refl] rg(1) by metis
  have kids: "cuddT nF = Some (kT m f')" "cuddE nF = Some (kE m f')"
    using tabnode(1) [OF s h'(4)] nF(2) by (auto simp: rg cuddT_def cuddE_def)
  have lk: "looked_up ext m (\<lambda>r. \<forall>env. sem m env r = ite_fun m f' g' h' env)
    (cuddCacheLookup DD_BDD_ITE_TAG f' g' h' m)"
    using cuddCacheLookup_ite_ok [OF ok] heldD(2) [OF h'(1) ok] heldD(2) [OF h'(2) ok] rg by simp
  show ?thesis
    apply (subst cuddBddIteRecur.simps)
    apply (simp only: Let_def nc [OF t(1)] nc [OF t(2)] nc [OF t(3)] ne if_False simp_thms
      canonical_simple_ok [OF ok mr h'(4-6)] nF(1) kids Option.bind.bind_lunit prod.case)
    apply (rule if_split [THEN iffD2], intro conjI impI)
    subgoal premises p
    proof -
      have lv: "elev m f' < elev m g'" "elev m f' < elev m h'" "elev m f' < dsize m"
        using p node_level(2) [OF ok h'(4) nF(2)] by (simp_all add: ddMin_def split: if_splits)
      have gh: "g' \<noteq> h'" using r(6) ne(5) by simp
      have "sem m env f' = env (unat (index nF))" for env
        using sem_node [OF s h'(4)] p sem_one [OF s] tabnode(6) [OF s h'(4)] node_level(3) [OF ok h'(4) nF(2)]
        by (simp add: rg elev_def)
      then have ite: "ite_fun m f g h env = ((if env (unat (index nF)) then sem m env g' else sem m env h') \<noteq> c)" for env
        using r(3) by (simp add: ite_fun_def)
      obtain x m1 where x: "cuddUniqueInter (unat (index nF)) g' h' m = Some (x, m1)"
        "x = NULL \<and> failed m1 \<and> mgr_ok ext {} m1 \<and> keep (set_mset ext) m m1 \<or>
         x \<noteq> NULL \<and> x \<in> tabnodes m1 \<and> lev m1 x = elev m f' \<and>
           node_made ext m (unat (index nF)) g' h' x m1"
        using unique_made [OF ok h'(2,3) gh r(2) lv node_level(3) [OF ok h'(4) nF(2)]]
        by (elim exE conjE) (rule that)
      have "delivered ext m (\<lambda>env. if env (unat (index nF)) then sem m env g' else sem m env h') (Some (x, m1))"
        using x(2) by (elim disjE) (simp_all add: delivered_def node_made_def)
      from delivered_NotCond_null [OF this, of c] show ?thesis
        unfolding x(1) Option.bind.bind_lunit prod.case by (rule delivered_cong) (simp add: ite)
    qed
    subgoal premises general
      apply (rule lookup_cond_step [OF lk s])
      subgoal by (simp add: r(3))
      subgoal premises p1 for m1
      proof -
        note hm = held_keep(1) [OF _ ok p1(3) mgr_okD(5) [OF p1(1)]]
        note cc = store_cong [OF p1(2)]
        obtain nG nH where n: "heap m1 g' = Some nG" "heap m1 (Cudd_Regular h') = Some nH"
          using held_node [OF hm [OF h'(2)] p1(1)] held_node [OF hm [OF h'(3)] p1(1)] rg(2) by metis
        define v where "v = min (elev m f') (min (elev m g') (elev m h'))"
        have v: "(if elev m f' \<le> ddMin (elev m g') (elev m h')
            then ddMin (elev m f') (ddMin (elev m g') (elev m h')) else ddMin (elev m g') (elev m h')) = v"
          by (auto simp: ddMin_def v_def)
        have ct: "cont m1 (Cudd_Regular f') = Some (index nF, type nF)"
          "cont m1 (Cudd_Regular g') = Some (index nG, type nG)"
          "cont m1 (Cudd_Regular h') = Some (index nH, type nH)"
          using nF(2) n by (simp_all add: cc rg(2)) (simp_all add: cont_def flip: cc(1))
        have f: "ite_fun m f g h env = (ite_fun m1 f' g' h' env \<noteq> c)" for env
          using r(3) by (simp add: ite_fun_def sem_cong_store [OF p1(2)])
        show ?thesis
          apply (simp only: n v Option.bind.bind_lunit)
          apply (rule delivered_step [OF _ p1(3) s])
          apply (rule delivered_cong [where P = "\<lambda>env. ite_fun m1 f' g' h' env \<noteq> c"])
          subgoal
            by (rule ite_build [OF p1(1) hm [OF h'(1)] hm [OF h'(2)] hm [OF h'(3)] _ _ _ r(1,2) ct rec])
              (simp_all add: cc h'(4-6) l v_def)
          subgoal by (simp add: f)
          done
      qed
      done
    done
qed

lemma cuddBddIteRecur_ok:
  "mgr_ok ext {} m \<Longrightarrow> held ext m f \<Longrightarrow> held ext m g \<Longrightarrow> held ext m h \<Longrightarrow>
   delivered ext m (ite_fun m f g h) (cuddBddIteRecur f g h m)"
proof (induction "dsize m - min (elev m f) (min (elev m g) (elev m h))" arbitrary: ext m f g h rule: less_induct)
  case less
  note ok = less.prems(1)
  note s = mgr_okD(5) [OF ok]
  let ?one = "DD_ONE m"
  have nodes: "Cudd_Regular f = ?one \<or> Cudd_Regular f \<in> tabnodes m"
    "Cudd_Regular g = ?one \<or> Cudd_Regular g \<in> tabnodes m" "Cudd_Regular h = ?one \<or> Cudd_Regular h \<in> tabnodes m"
    using heldD(2) [OF _ ok] less.prems(2-4) by (auto simp: nodes_def)
  show ?case
  proof (cases "Cudd_Regular f = ?one \<or> Cudd_Regular g = ?one \<or> Cudd_Regular h = ?one \<or>
      Cudd_Regular f = Cudd_Regular g \<or> Cudd_Regular f = Cudd_Regular h \<or> Cudd_Regular g = Cudd_Regular h")
    case False
    show ?thesis
      by (rule ite_general_ok [OF ok less.prems(2-4) _ _ _ _ _ _ _ _ _ less.hyps])
        (use False nodes in \<open>auto simp: Regular_eq_iff\<close>)
  next
    case True
    let ?P = "ite_fun m f g h"
    have edge: "delivered ext m ?P (Some (r, m))" if "held ext m r" "\<And>env. sem m env r = ?P env" for r
      using delivered_held [OF that(1) ok] that(2) by blast
    have conj: "delivered ext m ?P (cuddBddAndRecur a b m)"
      if "held ext m a" "held ext m b" "\<And>env. (sem m env a \<and> sem m env b) = ?P env" for a b
      by (rule delivered_cong [OF cuddBddAndRecur_ok [OF ok that(1,2)] that(3)])
    have nand: "delivered ext m ?P (not_result (cuddBddAndRecur a b m))"
      if "held ext m a" "held ext m b" "\<And>env. (\<not> (sem m env a \<and> sem m env b)) = ?P env" for a b
      by (rule delivered_cong [OF not_result_ok [OF cuddBddAndRecur_ok [OF ok that(1,2)]] that(3)])
    have xor: "delivered ext m ?P (cuddBddXorRecur a b m)"
      if "held ext m a" "held ext m b" "\<And>env. (sem m env a \<noteq> sem m env b) = ?P env" for a b
      by (rule delivered_cong [OF cuddBddXorRecur_ok [OF ok that(1,2)] that(3)])
    note hs = less.prems(2-4)
    show ?thesis
      apply (subst cuddBddIteRecur.simps)
      apply (simp only: Let_def)
      apply (rule if_split [THEN iffD2], intro conjI impI)
      subgoal using hs sem_one [OF s] by (intro edge) (simp_all add: ite_fun_def)
      apply (rule if_split [THEN iffD2], intro conjI impI)
      subgoal using hs sem_one [OF s] by (intro edge) (simp_all add: ite_fun_def)
      apply (rule if_split [THEN iffD2], intro conjI impI)
      subgoal
        apply (rule if_split [THEN iffD2], intro conjI impI)
        subgoal using hs sem_one [OF s] by (intro edge) (auto simp: ite_fun_def)
        subgoal using hs sem_one [OF s] by (intro nand) (auto simp: ite_fun_def)
        done
      apply (rule if_split [THEN iffD2], intro conjI impI)
      subgoal
        apply (rule if_split [THEN iffD2], intro conjI impI)
        subgoal using hs sem_one [OF s] by (intro edge) (auto simp: ite_fun_def)
        subgoal using hs sem_one [OF s] by (intro conj) (auto simp: ite_fun_def)
        done
      apply (rule if_split [THEN iffD2], intro conjI impI)
      subgoal using hs sem_one [OF s] by (intro conj) (auto simp: ite_fun_def)
      apply (rule if_split [THEN iffD2], intro conjI impI)
      subgoal using hs sem_one [OF s] by (intro nand) (auto simp: ite_fun_def)
      apply (rule if_split [THEN iffD2], intro conjI impI)
      subgoal using hs by (intro edge) (simp_all add: ite_fun_def)
      apply (rule if_split [THEN iffD2], intro conjI impI)
      subgoal using hs by (intro xor) (auto simp: ite_fun_def)
      subgoal using True const_edges [OF _ s] by (auto simp: Regular_eq_iff)
      done
  qed
qed

end
