(* ===== verification/CuddOps.thy ===== *)
theory CuddOps
  imports CuddApply
begin

text \<open>
  The operations that applications call: \<open>Cudd_bddAnd\<close>, \<open>Cudd_bddOr\<close>, \<open>Cudd_bddXor\<close>,
  \<open>Cudd_bddIte\<close> and their variants, among them the ones with a limit on the number of new
  nodes. They all wrap a recursive procedure in the same way, so that what they promise is
  proved once, for any procedure with the contract.
\<close>

subsection \<open>The reordering flag\<close>

lemma reordered_ok:
  "store (m\<lparr>reordered := r\<rparr>) = store m" "refc (m\<lparr>reordered := r\<rparr>) = refc m"
  "mgr_ok ext F (m\<lparr>reordered := r\<rparr>) = mgr_ok ext F m"
proof -
  let ?m = "m\<lparr>reordered := r\<rparr>"
  have c: "cont ?m = cont m" "trows ?m = trows m" "tshifts ?m = tshifts m" "refc ?m = refc m"
    by (simp_all add: cont_def trows_def tshifts_def refc_def fun_eq_iff)
  then show s: "store ?m = store m" and rc: "refc ?m = refc m" by (simp_all add: store_def)
  note sc = store_cong [OF s]
  have d: "drow ?m = drow m" by (simp add: drow_def)
  have gr: "graph_ok A B F ?m = graph_ok A B F m" for A B F
    using refs_cong [OF s rc] deads_cong [OF s refs_cong(2) [OF s rc]] by (simp add: graph_ok_def sc)
  have "keys_ok ?m = keys_ok m" "sizes_ok ?m = sizes_ok m" "misc_ok ?m = misc_ok m" "row_ok ?m = row_ok m"
    by (simp_all add: keys_ok_def sizes_ok_def misc_ok_def dims_ok_def row_ok_def sc on_level_cong [OF s])
  moreover have "mem_ok ?m = mem_ok m"
    by (simp add: mem_ok_def pool_def fresh_pool_def cnodes_def c sc)
  moreover have "cache_ok ?m = cache_ok m" by (rule cache_ok_cong [OF s]) simp_all
  ultimately show "mgr_ok ext F ?m = mgr_ok ext F m"
    by (simp add: mgr_ok_def loose_ok_def rest_ok_def gr d sc)
qed

text \<open>What an application sees: the contract, whatever the flag was before.\<close>

definition answered :: "ptr multiset \<Rightarrow> DdManager \<Rightarrow> ((nat \<Rightarrow> bool) \<Rightarrow> bool) \<Rightarrow> ptr result \<Rightarrow> bool" where
  "answered ext m P res \<longleftrightarrow> delivered ext (m\<lparr>reordered := 0\<rparr>) P res"

lemma reach_store: "store m' = store m \<Longrightarrow> reach m' X = reach m X"
proof -
  assume s: "store m' = store m"
  have "p \<in> reach m2 X" if "p \<in> reach m1 X" "store m2 = store m1" for p m1 m2
    using that(1)
  proof induction
    case (base p)
    then show ?case by (rule reach.base)
  next
    case (reach_T p)
    then show ?case using reach.reach_T [OF reach_T.IH] by (simp add: store_cong [OF that(2)])
  next
    case (reach_E p)
    then show ?case using reach.reach_E [OF reach_E.IH] by (simp add: store_cong [OF that(2)])
  qed
  note r = this
  show ?thesis using r [OF _ s] r [OF _ s [symmetric]] by (intro equalityI subsetI)
qed

lemma held_store: "store m' = store m \<Longrightarrow> held ext m' e = held ext m e"
  using reach_store [of m' m] by (simp add: held_def)

lemma not_answered:
  assumes "answered ext m P res"
  shows "answered ext m (\<lambda>env. \<not> P env) (not_result res)"
  using not_result_ok assms by (simp add: answered_def)

lemma answered_cong: "answered ext m P res \<Longrightarrow> (\<And>env. P env = Q env) \<Longrightarrow> answered ext m Q res"
  unfolding answered_def by (rule delivered_cong)

subsection \<open>The wrappers, for any recursive procedure\<close>

text \<open>
  A recursive procedure on operands of any kind: \<open>owned\<close> says when the caller may pass them,
  \<open>denotes\<close> is the function of the result. Both depend on the stored diagrams only.
\<close>

locale bdd_procedure =
  fixes recur :: "'a \<Rightarrow> DdManager \<Rightarrow> ptr result"
    and owned :: "ptr multiset \<Rightarrow> DdManager \<Rightarrow> 'a \<Rightarrow> bool"
    and denotes :: "DdManager \<Rightarrow> 'a \<Rightarrow> (nat \<Rightarrow> bool) \<Rightarrow> bool"
  assumes recur_ok: "mgr_ok ext {} m \<Longrightarrow> owned ext m x \<Longrightarrow> delivered ext m (denotes m x) (recur x m)"
    and owned_store: "store m' = store m \<Longrightarrow> owned ext m' x = owned ext m x"
    and denotes_store: "store m' = store m \<Longrightarrow> denotes m' x = denotes m x"
begin

lemma retry_delivered:
  assumes "mgr_ok ext {} m" "owned ext m x"
  shows "answered ext m (denotes m x) (retry_reordered (recur x) m)"
proof -
  let ?m = "m\<lparr>reordered := 0\<rparr>"
  have ok: "mgr_ok ext {} ?m" "owned ext ?m x" "denotes ?m x = denotes m x"
    using assms owned_store [OF reordered_ok(1)] denotes_store [OF reordered_ok(1)] by (simp_all add: reordered_ok(3))
  have d: "delivered ext ?m (denotes m x) (recur x ?m)" using recur_ok [OF ok(1,2)] ok(3) by simp
  then obtain r m' where r: "recur x ?m = Some (r, m')" "keep (set_mset ext) ?m m'"
    unfolding delivered_def by blast
  have "reordered m' = 0" using keepD(4) [OF r(2)] by simp
  then have "retry_reordered (recur x) m = recur x ?m"
    by (subst retry_reordered.simps) (simp add: r(1))
  then show ?thesis using d by (simp add: answered_def)
qed

lemma limit_delivered:
  assumes "mgr_ok ext {} m" "owned ext m x"
  shows "answered ext m (denotes m x) (with_limit limit (recur x) m)"
proof -
  define ml where "ml = (keys m - dead m) + (keysZ m - deadZ m) + limit"
  let ?l = "m\<lparr>maxLive := ml\<rparr>"
  have c: "core ?l = core m" "core (?l\<lparr>reordered := 0\<rparr>) = core (m\<lparr>reordered := 0\<rparr>)" by (simp_all add: core_def)
  note s = core_fields(1) [OF c(1)]
  have "cache_ok ?l" using core_cache_ok [OF c(1)] mgr_cache [OF assms(1)] by simp
  then have ok: "mgr_ok ext {} ?l" "owned ext ?l x" "denotes ?l x = denotes m x"
    using core_ok(3) [OF c(1) assms(1)] assms(2) owned_store [OF s] denotes_store [OF s] by simp_all
  have k0: "keep (set_mset ext) (m\<lparr>reordered := 0\<rparr>) (?l\<lparr>reordered := 0\<rparr>)"
    using core_ok(4) [OF c(2)] mgr_okD(5,8) [of ext "{}" "m\<lparr>reordered := 0\<rparr>"] assms(1)
    by (simp add: reordered_ok)
  have sm: "store_ok (m\<lparr>reordered := 0\<rparr>)"
    using mgr_okD(5) [OF assms(1)] by (simp add: store_cong [OF reordered_ok(1)])
  obtain r m' where r: "retry_reordered (recur x) ?l = Some (r, m')"
    "keep (set_mset ext) (?l\<lparr>reordered := 0\<rparr>) m'"
    "r = NULL \<and> failed m' \<and> mgr_ok ext {} m' \<or> r \<in> edges m' \<and> mgr_ok ext {Cudd_Regular r} m' \<and>
      (\<forall>env. sem m' env r = denotes m x env)"
    using retry_delivered [OF ok(1,2)] ok(3) unfolding answered_def delivered_def by auto
  let ?u = "m'\<lparr>maxLive := maxLive m\<rparr>"
  have cu: "core ?u = core m'" by (simp add: core_def)
  note su = core_fields(1) [OF cu]
  have okm: "mgr_ok ext {} m' \<or> mgr_ok ext {Cudd_Regular r} m'" using r(3) by blast
  then have st: "store_ok m'" "set_mset ext \<subseteq> nodes m'" "cache_ok m'"
    using mgr_okD(5,8) mgr_cache by blast+
  have "cache_ok ?u" using core_cache_ok [OF cu] st(3) by simp
  then have k: "mgr_ok ext F m' \<Longrightarrow> mgr_ok ext F ?u" for F using core_ok(3) [OF cu] by blast
  have "keep (set_mset ext) (m\<lparr>reordered := 0\<rparr>) ?u"
    using keep_trans [OF k0 keep_trans [OF r(2) core_ok(4) [OF cu st(1,2)]] sm]
      store_cong(18) [OF core_fields(1) [OF c(2)]] sm by simp
  moreover have "with_limit limit (recur x) m = Some (r, ?u)"
    using r(1) by (simp add: with_limit_def ml_def)
  ultimately show ?thesis
    using r(3) k unfolding answered_def delivered_def
    by (auto simp: store_cong(12) [OF su] sem_cong_store [OF su])
qed

end

subsection \<open>The recursive procedures have the contract\<close>

interpretation conj: bdd_procedure "\<lambda>(f, g). cuddBddAndRecur f g"
  "\<lambda>ext m (f, g). held ext m f \<and> held ext m g" "\<lambda>m (f, g) env. sem m env f \<and> sem m env g"
proof (unfold_locales, goal_cases)
  case (1 ext m x)
  then show ?case using cuddBddAndRecur_ok by (cases x) simp
next
  case (2 m' m ext x)
  then show ?case using held_store [OF 2] by (cases x) simp
next
  case (3 m' m x)
  then show ?case using sem_cong_store [OF 3] by (cases x) simp
qed

interpretation xor: bdd_procedure "\<lambda>(f, g). cuddBddXorRecur f g"
  "\<lambda>ext m (f, g). held ext m f \<and> held ext m g" "\<lambda>m (f, g) env. sem m env f \<noteq> sem m env g"
proof (unfold_locales, goal_cases)
  case (1 ext m x)
  then show ?case using cuddBddXorRecur_ok by (cases x) simp
next
  case (2 m' m ext x)
  then show ?case using held_store [OF 2] by (cases x) simp
next
  case (3 m' m x)
  then show ?case using sem_cong_store [OF 3] by (cases x) simp
qed

interpretation ite: bdd_procedure "\<lambda>(f, g, h). cuddBddIteRecur f g h"
  "\<lambda>ext m (f, g, h). held ext m f \<and> held ext m g \<and> held ext m h" "\<lambda>m (f, g, h). ite_fun m f g h"
proof (unfold_locales, goal_cases)
  case (1 ext m x)
  then show ?case using cuddBddIteRecur_ok by (cases x) simp
next
  case (2 m' m ext x)
  then show ?case using held_store [OF 2] by (cases x) simp
next
  case (3 m' m x)
  then show ?case using sem_cong_store [OF 3] by (cases x) (simp add: ite_fun_def fun_eq_iff)
qed

subsection \<open>The operations\<close>

lemma Cudd_bddAnd_answered:
  assumes "mgr_ok ext {} m" "held ext m f" "held ext m g"
  shows "answered ext m (\<lambda>env. sem m env f \<and> sem m env g) (Cudd_bddAnd f g m)"
    "answered ext m (\<lambda>env. sem m env f \<and> sem m env g) (Cudd_bddAndLimit f g limit m)"
  using conj.retry_delivered [OF assms(1), of "(f, g)"] conj.limit_delivered [OF assms(1), of "(f, g)" limit]
    assms(2,3) by (simp_all add: Cudd_bddAnd_def Cudd_bddAndLimit_def)

lemma Cudd_bddNand_answered:
  assumes "mgr_ok ext {} m" "held ext m f" "held ext m g"
  shows "answered ext m (\<lambda>env. \<not> (sem m env f \<and> sem m env g)) (Cudd_bddNand f g m)"
  using not_answered [OF Cudd_bddAnd_answered(1) [OF assms]] by (simp add: Cudd_bddNand_def Cudd_bddAnd_def)

lemma Cudd_bddOr_answered:
  assumes "mgr_ok ext {} m" "held ext m f" "held ext m g"
  shows "answered ext m (\<lambda>env. sem m env f \<or> sem m env g) (Cudd_bddOr f g m)"
    "answered ext m (\<lambda>env. sem m env f \<or> sem m env g) (Cudd_bddOrLimit f g limit m)"
    "answered ext m (\<lambda>env. \<not> (sem m env f \<or> sem m env g)) (Cudd_bddNor f g m)"
proof -
  have h: "held ext m (Cudd_Not f)" "held ext m (Cudd_Not g)" using assms(2,3) by simp_all
  note a = Cudd_bddAnd_answered [OF assms(1) h]
  show "answered ext m (\<lambda>env. sem m env f \<or> sem m env g) (Cudd_bddOr f g m)"
    "answered ext m (\<lambda>env. sem m env f \<or> sem m env g) (Cudd_bddOrLimit f g limit m)"
    using not_answered [OF a(1)] not_answered [OF a(2)]
    by (simp_all add: Cudd_bddOr_def Cudd_bddOrLimit_def Cudd_bddAnd_def Cudd_bddAndLimit_def)
  show "answered ext m (\<lambda>env. \<not> (sem m env f \<or> sem m env g)) (Cudd_bddNor f g m)"
    using a(1) by (simp add: Cudd_bddNor_def Cudd_bddAnd_def)
qed

lemma Cudd_bddXor_answered:
  assumes "mgr_ok ext {} m" "held ext m f" "held ext m g"
  shows "answered ext m (\<lambda>env. sem m env f \<noteq> sem m env g) (Cudd_bddXor f g m)"
    "answered ext m (\<lambda>env. sem m env f = sem m env g) (Cudd_bddXnor f g m)"
    "answered ext m (\<lambda>env. sem m env f = sem m env g) (Cudd_bddXnorLimit f g limit m)"
  using xor.retry_delivered [OF assms(1), of "(f, g)"] xor.retry_delivered [OF assms(1), of "(f, Cudd_Not g)"]
    xor.limit_delivered [OF assms(1), of "(f, Cudd_Not g)" limit] assms(2,3)
  by (simp_all add: Cudd_bddXor_def Cudd_bddXnor_def Cudd_bddXnorLimit_def)

lemma Cudd_bddIte_answered:
  assumes "mgr_ok ext {} m" "held ext m f" "held ext m g" "held ext m h"
  shows "answered ext m (ite_fun m f g h) (Cudd_bddIte f g h m)"
    "answered ext m (ite_fun m f g h) (Cudd_bddIteLimit f g h limit m)"
  using ite.retry_delivered [OF assms(1), of "(f, g, h)"] ite.limit_delivered [OF assms(1), of "(f, g, h)" limit]
    assms(2-4) by (simp_all add: Cudd_bddIte_def Cudd_bddIteLimit_def)

end
