(* ===== verification/CuddVars.thy ===== *)
theory CuddVars
  imports CuddUnique
begin

text \<open>
  New variables: \<open>ddResizeTable\<close> of \<open>lib/SVF/CUDD/cuddTable.c\<close> and \<open>cuddUniqueInter\<close> on an
  index that does not exist yet. The manager gets empty subtables at the bottom of the order,
  then the projection functions of the new variables.
\<close>

subsection \<open>A manager with more subtables\<close>

definition widens :: "DdManager \<Rightarrow> DdManager \<Rightarrow> bool" where
  "widens m m' \<longleftrightarrow> store_ok m \<and> dims_ok m \<and> heap m' = heap m \<and> DD_ONE m' = DD_ONE m \<and> constants m' = constants m \<and>
     dead m' = dead m \<and> initSlots m' = initSlots m \<and> maxSizeZ m' = maxSizeZ m \<and>
     dsize m \<le> dsize m' \<and> dsize m' < 65535 \<and> dsize m' \<le> maxSize m' \<and>
     length (subtables m') = maxSize m' \<and> length (perm m') = maxSize m' \<and>
     length (invperm m') = maxSize m' \<and> length (vars m') = maxSize m' \<and>
     max (maxSize m') (maxSizeZ m') < stackSize m' \<and>
     (\<forall>l < dsize m. subtables m' ! l = subtables m ! l \<and> perm m' ! l = perm m ! l \<and>
        invperm m' ! l = invperm m ! l) \<and>
     (\<forall>l < dsize m'. dsize m \<le> l \<longrightarrow> subtables m' ! l = new_subtable (initSlots m) \<and>
        perm m' ! l = l \<and> invperm m' ! l = l)"

lemma floorLog2_power: "cuddComputeFloorLog2 (2 ^ k) = k"
proof -
  obtain j where j: "cuddComputeFloorLog2 (2 ^ k) = j" "(2 :: nat) ^ j \<le> 2 ^ k" "(2 :: nat) ^ k < 2 ^ Suc j"
    using floorLog2_loop_bounds [of "2 ^ k" 0] by (auto simp: cuddComputeFloorLog2_def)
  have "j \<le> k" using j(2) by simp
  moreover have "k < Suc j" using j(3) by (rule power_less_imp_less_exp [rotated]) simp
  ultimately show ?thesis using j(1) by simp
qed

lemma new_subtable_fields:
  assumes "3 \<le> k" "k \<le> 27"
  shows "nodelist (new_subtable (2 ^ k)) = replicate (2 ^ k) []" "shift (new_subtable (2 ^ k)) = 32 - k"
    "sub_slots (new_subtable (2 ^ k)) = 2 ^ k" "sub_keys (new_subtable (2 ^ k)) = 0"
    "sub_dead (new_subtable (2 ^ k)) = 0" "unat (sub_maxKeys (new_subtable (2 ^ k))) = 4 * 2 ^ k"
proof -
  have "(2 :: nat) ^ k \<le> 2 ^ 27" using assms(2) by (intro power_increasing) simp_all
  then have "(2 :: nat) ^ k * 4 < 2 ^ LENGTH(32)" by simp
  then have "unat (of_nat (2 ^ k * 4) :: uint32) = 2 ^ k * 4" by (simp only: unat_of_nat mod_less)
  then show "unat (sub_maxKeys (new_subtable (2 ^ k))) = 4 * 2 ^ k"
    by (simp add: new_subtable_def DD_MAX_SUBTABLE_DENSITY_def)
qed (simp_all add: new_subtable_def floorLog2_power)

lemma widensD:
  assumes "widens m m'"
  shows "store_ok m" "dims_ok m" "heap m' = heap m" "DD_ONE m' = DD_ONE m" "constants m' = constants m"
    "dead m' = dead m" "initSlots m' = initSlots m" "dsize m \<le> dsize m'" "dsize m' < 65535"
    "dsize m' \<le> maxSize m'" "length (subtables m') = maxSize m'" "length (perm m') = maxSize m'"
    "length (invperm m') = maxSize m'" "length (vars m') = maxSize m'"
    "max (maxSize m') (maxSizeZ m') < stackSize m'" "maxSizeZ m' = maxSizeZ m"
    "\<And>l. l < dsize m \<Longrightarrow> subtables m' ! l = subtables m ! l" "\<And>l. l < dsize m \<Longrightarrow> perm m' ! l = perm m ! l"
    "\<And>l. l < dsize m \<Longrightarrow> invperm m' ! l = invperm m ! l"
    "\<And>l. l < dsize m' \<Longrightarrow> dsize m \<le> l \<Longrightarrow> subtables m' ! l = new_subtable (initSlots m)"
    "\<And>l. l < dsize m' \<Longrightarrow> dsize m \<le> l \<Longrightarrow> perm m' ! l = l"
    "\<And>l. l < dsize m' \<Longrightarrow> dsize m \<le> l \<Longrightarrow> invperm m' ! l = l"
  using assms by (auto simp: widens_def)

lemma widens_views:
  assumes "widens m m'"
  shows "dims_ok m'" "cont m' = cont m" "refc m' = refc m" "kT m' = kT m" "kE m' = kE m" "nidx m' = nidx m"
    "tabnodes m' = tabnodes m" "nodes m' = nodes m" "edges m' = edges m"
proof -
  note w = widensD [OF assms]
  show "dims_ok m'" using w(2,7,10-16) by (simp add: dims_ok_def)
  show c: "cont m' = cont m" "refc m' = refc m" by (simp_all add: cont_def refc_def w(3) fun_eq_iff)
  show "kT m' = kT m" "kE m' = kE m" "nidx m' = nidx m" by (simp_all add: kT_def kE_def nidx_def c fun_eq_iff)
  have l: "length (trows m) = dsize m" "length (trows m') = dsize m'"
    using w(8,10,11) order_okD(1) [OF w(1)] by (simp_all add: trows_def)
  have "trows m' = trows m @ replicate (dsize m' - dsize m) (replicate (initSlots m) [])"
    by (rule nth_equalityI)
      (use w(8,10,11,17,20) l order_okD(1) [OF w(1)] in \<open>auto simp: nth_append trows_def new_subtable_def\<close>)
  then have "set (trows m') = set (trows m) \<union> (if dsize m' - dsize m = 0 then {} else {replicate (initSlots m) []})"
    by simp
  then show t: "tabnodes m' = tabnodes m" by (auto simp: tabnodes_def split: if_splits)
  show "nodes m' = nodes m" "edges m' = edges m" by (simp_all add: nodes_def edges_def t w(4))
qed

lemma widens_lev:
  assumes "widens m m'"
  shows "p \<in> tabnodes m \<Longrightarrow> lev m' p = lev m p" "lev m' (DD_ONE m) = dsize m'"
    "e \<in> edges m \<Longrightarrow> elev m' e = (if elev m e = dsize m then dsize m' else elev m e)"
proof -
  note w = widensD [OF assms] and v = widens_views [OF assms]
  show l: "p \<in> tabnodes m \<Longrightarrow> lev m' p = lev m p" "lev m' (DD_ONE m) = dsize m'" for p
    using tabnode(2,5) [OF w(1)] w(4,18) by (auto simp: lev_def v(6))
  show "e \<in> edges m \<Longrightarrow> elev m' e = (if elev m e = dsize m then dsize m' else elev m e)"
    using l tabnode(4) [OF w(1)] by (fastforce simp: elev_def edges_def nodes_def)
qed

lemma widens_store:
  assumes "widens m m'"
  shows "store_ok m'"
proof -
  note w = widensD [OF assms] and v = widens_views [OF assms] and lv = widens_lev [OF assms]
  note o = order_okD [OF w(1)]
  obtain k where k: "3 \<le> k" "k \<le> 27" "initSlots m = 2 ^ k" using w(2) by (auto simp: dims_ok_def)
  have rows: "l < dsize m \<Longrightarrow> trows m' ! l = trows m ! l \<and> tshifts m' ! l = tshifts m ! l"
    "l < dsize m' \<Longrightarrow> dsize m \<le> l \<Longrightarrow> trows m' ! l = replicate (2 ^ k) [] \<and> tshifts m' ! l = 32 - k" for l
    using w(8,10,11,17,20) o(1) new_subtable_fields [OF k(1,2)] k(3) by (simp_all add: trows_def tshifts_def)
  have cg: "chain_gt m' = chain_gt m" by (simp add: chain_gt_def v(4,5) fun_eq_iff)
  have "order_ok m'"
    unfolding order_ok_def
  proof (intro conjI allI impI)
    fix l assume l: "l < dsize m'"
    have "invperm m' ! l < dsize m' \<and> perm m' ! (invperm m' ! l) = l \<and> perm m' ! l < dsize m' \<and>
        invperm m' ! (perm m' ! l) = l"
    proof (cases "l < dsize m")
      case True
      then show ?thesis
        using o(6-9) [OF True] w(18) [OF True] w(19) [OF True] w(18) [OF o(6) [OF True]]
          w(19) [OF o(8) [OF True]] w(8) by simp
    next
      case False
      then show ?thesis using w(21,22) [OF l] l by simp
    qed
    then show "invperm m' ! l < dsize m'" "perm m' ! (invperm m' ! l) = l" "perm m' ! l < dsize m'"
      "invperm m' ! (perm m' ! l) = l" by blast+
  qed (use w in auto)
  moreover have "table_ok m'"
    unfolding table_ok_def
  proof (intro allI impI)
    fix l assume l: "l < dsize m'"
    show "0 < tshifts m' ! l \<and> tshifts m' ! l < 32 \<and> length (trows m' ! l) = 2 ^ (32 - tshifts m' ! l) \<and>
        (\<forall>j < length (trows m' ! l). chain_ok m' l j (trows m' ! l ! j))"
    proof (cases "l < dsize m")
      case True
      then show ?thesis
        using table_okD [OF w(1) True] rows(1) [OF True] w(19) [OF True]
        by (simp add: chain_ok_def cg v(2))
    next
      case False
      then show ?thesis using rows(2) [OF l] k by (simp add: chain_ok_def)
    qed
  qed
  moreover have "one_ok m'" using w(1) by (simp add: store_ok_def one_ok_def w(4) v(2))
  moreover have "node_ok m' p" if p: "p \<in> tabnodes m" for p
  proof -
    note n = nodeD [OF w(1) p]
    have "lev m p < lev m' c" if "c \<in> nodes m" "lev m p < lev m c" for c
      using that lv w(8) tabnode(4) [OF w(1) p] by (auto simp: nodes_def)
    then show ?thesis using n lv(1) [OF p] by (simp add: node_ok_def v(4-8))
  qed
  ultimately show ?thesis by (simp add: store_ok_def v(7))
qed

lemma widens_sem:
  assumes "widens m m'" "e \<in> edges m"
  shows "sem m' env e = sem m env e"
  using widensD(1) [OF assms(1)] assms(2)
proof (induction rule: edge_induct)
  case (edge e)
  note w = widensD [OF assms(1)] and v = widens_views [OF assms(1)] and st = widens_store [OF assms(1)]
  have "sem m' env (Cudd_Regular e) = sem m env (Cudd_Regular e)"
  proof (cases "Cudd_Regular e = DD_ONE m")
    case True
    then show ?thesis using sem_one [OF st] sem_one [OF w(1)] by (simp add: w(4))
  next
    case False
    let ?p = "Cudd_Regular e"
    have p: "?p \<in> tabnodes m" using False edge(1) by (auto simp: edges_def nodes_def)
    then have p': "?p \<in> tabnodes m'" by (simp add: v(7))
    note n = nodeD(10-13) [OF w(1) p]
    have "sem m' env (kT m ?p) = sem m env (kT m ?p)" "sem m' env (kE m ?p) = sem m env (kE m ?p)"
      using n edge(2) by (simp_all add: elev_def)
    then show ?thesis by (simp add: sem_node [OF w(1) p] sem_node [OF st p'] v(4-6))
  qed
  then show ?case using sem_Regular by blast
qed

lemma widens_sets:
  assumes "widens m m'"
  shows "dset F m' = dset F m" "live F m' = live F m" "kidcount m' = kidcount m" "par F m' = par F m"
    "D \<subseteq> tabnodes m \<Longrightarrow> on_level m' D l = (if l < dsize m then on_level m D l else {})"
    "l < dsize m' \<Longrightarrow> sub_dead (subtables m' ! l) = (if l < dsize m then sub_dead (subtables m ! l) else 0)"
    "l < dsize m' \<Longrightarrow> sub_keys (subtables m' ! l) = (if l < dsize m then sub_keys (subtables m ! l) else 0)"
proof -
  note w = widensD [OF assms] and v = widens_views [OF assms]
  show "dset F m' = dset F m" "live F m' = live F m" by (simp_all add: dset_def live_def v)
  moreover show "kidcount m' = kidcount m" by (simp add: kidcount_def v fun_eq_iff)
  ultimately show "par F m' = par F m" by (simp add: par_def fun_eq_iff)
  show "D \<subseteq> tabnodes m \<Longrightarrow> on_level m' D l = (if l < dsize m then on_level m D l else {})"
  proof -
    assume D: "D \<subseteq> tabnodes m"
    have "lev m' p = lev m p \<and> lev m p < dsize m" if "p \<in> D" for p
      using that D widens_lev(1) [OF assms, of p] tabnode(4) [OF w(1), of p] by blast
    then show ?thesis by (auto simp: on_level_def)
  qed
  show "l < dsize m' \<Longrightarrow> sub_dead (subtables m' ! l) = (if l < dsize m then sub_dead (subtables m ! l) else 0)"
    "l < dsize m' \<Longrightarrow> sub_keys (subtables m' ! l) = (if l < dsize m then sub_keys (subtables m ! l) else 0)"
    using w(17,20) by (auto simp: new_subtable_def)
qed

lemma widens_graph:
  assumes "widens m m'" "graph_ok A B F m"
  shows "graph_ok A B F m'"
proof -
  note w = widensD [OF assms(1)] and v = widens_views [OF assms(1)] and s = widens_sets [OF assms(1)]
  show ?thesis
    using assms(2) s(5) [OF dset_tab]
    by (auto simp: graph_ok_def widens_store [OF assms(1)] refs_ok_def deads_ok_def w(4-6) v(3,8) s(1,4,6))
qed

lemma widens_entry:
  assumes "widens m m'" "entry_ok m c"
  shows "entry_ok m' c"
proof -
  note w = widensD [OF assms(1)] and v = widens_views [OF assms(1)] and sem = widens_sem [OF assms(1)]
  have le: "elev m e \<le> dsize m" if "e \<in> edges m" for e
    using that lev_le [OF w(1)] by (simp add: edges_def elev_def)
  have mono: "min (elev m' f) (elev m' g) \<le> elev m' r"
    if "f \<in> edges m" "g \<in> edges m" "r \<in> edges m" "min (elev m f) (elev m g) \<le> elev m r" for f g r
    using that widens_lev(3) [OF assms(1)] le [of f] le [of g] le [of r] w(8) by (auto simp: min_def split: if_splits)
  have e2: "entry2_ok m c \<Longrightarrow> entry2_ok m' c"
    using mono by (simp add: entry_defs v(9) sem w(4))
  have one: "DD_ONE m \<in> edges m" by (rule one_edges [OF w(1)])
  have it: "f \<in> edges m \<Longrightarrow> g \<in> edges m \<Longrightarrow> h \<in> edges m \<Longrightarrow> ite_fun m' f g h = ite_fun m f g h" for f g h
    by (simp add: ite_fun_def sem fun_eq_iff)
  have op3: "op3_ok m' opr f g h r" if "op3_ok m opr f g h r" "f \<in> edges m" "g \<in> edges m" "h \<in> edges m" for opr f g h r
  proof (cases "r \<in> edges m")
    case True
    then show ?thesis using that it [OF that(2-4)] by (simp add: entry_defs v(9) sem w(4))
  next
    case False
    then have t: "opr = DD_BDD_ITE_CONSTANT_TAG" using that(1) unfolding op3_ok_def by metis
    then have "itec_data m f g h r" using that(1) unfolding op3_ok_def by metis
    then have "r = DD_NON_CONSTANT \<and> (\<forall>b. \<exists>env. ite_fun m f g h env \<noteq> b)"
      using False one unfolding itec_data_def by auto
    then have "itec_data m' f g h r" unfolding itec_data_def it [OF that(2-4)] by blast
    then show ?thesis unfolding op3_ok_def t by (simp add: tag_defs)
  qed
  have "entry3_ok m c \<Longrightarrow> entry3_ok m' c"
    using op3 unfolding entry3_ok_def v(9) by blast
  then show ?thesis using assms(2) e2 by (auto simp: entry_ok_def)
qed

text \<open>The enlarged manager is consistent; the caller's diagrams and their functions are the same.\<close>

lemma widens_mgr:
  assumes "mgr_ok ext {} m" "widens m m'"
    and "keys m' = keys m" "memoryList m' = memoryList m" "os_chunks m' = os_chunks m" "nextFree m' = nextFree m"
    "deathRow m' = deathRow m" "nextDead m' = nextDead m" "deadMask m' = deadMask m" "stash m' = stash m"
    "dsizeZ m' = dsizeZ m" "deadZ m' = deadZ m" "autoDyn m' = autoDyn m" "cache m' = cache m"
    "cacheShift m' = cacheShift m" "cacheSlots m' = cacheSlots m" "maxCacheHard m' = maxCacheHard m"
    "cacheSlack m' = cacheSlack m"
  shows "mgr_ok ext {} m'"
proof -
  note w = widensD [OF assms(2)] and v = widens_views [OF assms(2)] and s = widens_sets [OF assms(2)]
  note f = assms(3-)
  obtain k where k: "3 \<le> k" "k \<le> 27" "initSlots m = 2 ^ k" using w(2) by (auto simp: dims_ok_def)
  have dr: "drow m' = drow m" by (simp add: drow_def f)
  have "graph_ok (ext + drow m') {#} {} m'"
    using widens_graph [OF assms(2) mgr_okD(1) [OF assms(1)]] by (simp add: dr)
  moreover have "keys_ok m'"
    using mgr_keys [OF assms(1)] s(5) [OF subset_refl] s(7) by (auto simp: keys_ok_def f w(5) v(7))
  moreover have "sizes_ok m'"
    unfolding sizes_ok_def
  proof (intro allI impI)
    fix l assume l: "l < dsize m'"
    show "let st = subtables m' ! l in 5 \<le> shift st \<and> sub_slots st = 2 ^ (32 - shift st) \<and>
        4 * sub_slots st \<le> unat (sub_maxKeys st) \<and> (stash m' \<longrightarrow> unat (sub_maxKeys st) = 4 * sub_slots st)"
    proof (cases "l < dsize m")
      case True
      then show ?thesis using mgr_sizes [OF assms(1)] w(17) [OF True] by (simp add: sizes_ok_def f(8))
    next
      case False
      then have "subtables m' ! l = new_subtable (2 ^ k)" using w(20) [OF l] k(3) by simp
      then show ?thesis using new_subtable_fields [OF k(1,2)] k(1,2) by (simp add: Let_def)
    qed
  qed
  moreover have "mem_ok m'"
    using mgr_mem [OF assms(1)] by (simp add: mem_ok_def pool_def fresh_pool_def cnodes_def f w(3-5) v(3,7))
  moreover have "cache_ok m'"
    using mgr_cache [OF assms(1)] widens_entry [OF assms(2)] by (simp add: cache_ok_def f)
  moreover have "misc_ok m'"
    using mgr_misc [OF assms(1)] v(1) by (simp add: misc_ok_def f)
  moreover have "row_ok m'" using assms(1) by (simp add: mgr_ok_def row_ok_def f)
  moreover have "DD_ONE m \<in># ext" "set_mset (drow m) \<subseteq> tabnodes m"
    using assms(1) by (simp_all add: mgr_ok_def loose_ok_def)
  ultimately show ?thesis by (simp add: mgr_ok_def loose_ok_def rest_ok_def dr v(7) w(4))
qed

subsection \<open>What survives the addition of variables\<close>

definition extends :: "ptr set \<Rightarrow> nat \<Rightarrow> DdManager \<Rightarrow> DdManager \<Rightarrow> bool" where
  "extends X n m m' \<longleftrightarrow> (\<forall>p \<in> reach m X. p \<in> nodes m' \<and> cont m' p = cont m p) \<and>
     DD_ONE m' = DD_ONE m \<and> dsize m \<le> dsize m' \<and>
     (\<forall>i < dsize m. perm m' ! i = perm m ! i \<and> invperm m' ! i = invperm m ! i) \<and>
     (\<forall>i < n. vars m' ! i = vars m ! i) \<and> reordered m' = reordered m"

lemma keep_extends: "keep X m m' \<Longrightarrow> extends X n m m'"
  using orderD [of m' m] by (auto simp: keep_def extends_def)

lemma widens_reach: "widens m m' \<Longrightarrow> reach m' X = reach m X"
proof -
  assume a: "widens m m'"
  note v = widens_views [OF a]
  show ?thesis
  proof (intro equalityI subsetI)
    fix p assume "p \<in> reach m' X"
    then show "p \<in> reach m X" by induction (auto simp: v intro: reach.intros)
  next
    fix p assume "p \<in> reach m X"
    then show "p \<in> reach m' X"
    proof induction
      case (base p)
      then show ?case by (rule reach.base)
    next
      case (reach_T p)
      then show ?case using reach.reach_T [OF reach_T.IH] by (simp add: v)
    next
      case (reach_E p)
      then show ?case using reach.reach_E [OF reach_E.IH] by (simp add: v)
    qed
  qed
qed

lemma widens_extends:
  assumes "widens m m'" "X \<subseteq> nodes m" "reordered m' = reordered m" "\<And>i. i < n \<Longrightarrow> vars m' ! i = vars m ! i"
  shows "extends X n m m'"
  using reach_nodes [OF widensD(1) [OF assms(1)] assms(2)] assms(3,4) widensD(4,8,18,19) [OF assms(1)]
    widens_views(2,8) [OF assms(1)]
  by (auto simp: extends_def)

lemma extends_reach:
  assumes "extends X n m m'" "store_ok m" "p \<in> reach m X"
  shows "p \<in> reach m' X"
  using assms(3)
proof induction
  case (base p)
  then show ?case by (rule reach.base)
next
  case (reach_T p)
  have p: "p \<in> tabnodes m'" "kT m' p = kT m p"
    using assms(1) reach_T(1,2) one_not_tab [OF assms(2)] by (auto simp: extends_def nodes_def kT_def)
  show ?case using reach.reach_T [OF reach_T.IH p(1)] p(2) by simp
next
  case (reach_E p)
  have p: "p \<in> tabnodes m'" "kE m' p = kE m p"
    using assms(1) reach_E(1,2) one_not_tab [OF assms(2)] by (auto simp: extends_def nodes_def kE_def)
  show ?case using reach.reach_E [OF reach_E.IH p(1)] p(2) by simp
qed

lemma extends_trans:
  assumes "extends X n m m'" "extends X n m' m''" "store_ok m"
  shows "extends X n m m''"
  using assms extends_reach [OF assms(1,3)] by (auto simp: extends_def)

lemma extends_mono: "extends Y n m m' \<Longrightarrow> X \<subseteq> Y \<Longrightarrow> k \<le> n \<Longrightarrow> extends X k m m'"
  using reach_mono by (fastforce simp: extends_def)

lemma extends_sem:
  assumes "extends X n m m'" "store_ok m" "store_ok m'" "X \<subseteq> nodes m" "Cudd_Regular e \<in> reach m X"
  shows "sem m' env e = sem m env e" "e \<in> edges m'"
proof -
  show "e \<in> edges m'" using assms(1,5) by (simp add: extends_def edges_def)
  have "e \<in> edges m" using reach_nodes [OF assms(2,4,5)] by (simp add: edges_def)
  with assms(2) show "sem m' env e = sem m env e" using assms(5)
  proof (induction rule: edge_induct)
    case (edge e)
    let ?p = "Cudd_Regular e"
    have x: "?p \<in> nodes m'" "cont m' ?p = cont m ?p" "DD_ONE m' = DD_ONE m"
      using assms(1) edge(3) by (auto simp: extends_def)
    have "sem m' env ?p = sem m env ?p"
    proof (cases "?p = DD_ONE m")
      case True
      then show ?thesis using sem_one [OF assms(2)] sem_one [OF assms(3)] x(3) by simp
    next
      case False
      have p: "?p \<in> tabnodes m" using False edge(1) by (auto simp: edges_def nodes_def)
      have p': "?p \<in> tabnodes m'" using False x by (auto simp: nodes_def)
      note n = nodeD(3,10-13) [OF assms(2) p]
      have k: "kT m' ?p = kT m ?p" "kE m' ?p = kE m ?p" "nidx m' ?p = nidx m ?p"
        using x(2) by (simp_all add: kT_def kE_def nidx_def)
      have "sem m' env (kT m ?p) = sem m env (kT m ?p)" "sem m' env (kE m ?p) = sem m env (kE m ?p)"
        using n reach_T [OF edge(3) p] reach_E [OF edge(3) p] edge(2) by (simp_all add: elev_def)
      then show ?thesis by (simp add: sem_node [OF assms(2) p] sem_node [OF assms(3) p'] k)
    qed
    then show ?case using sem_Regular by blast
  qed
qed

end
