(* ===== verification/CuddResize.thy ===== *)
theory CuddResize
  imports CuddVars
begin

text \<open>
  \<open>ddResizeTable\<close> of \<open>lib/SVF/CUDD/cuddTable.c\<close>: the two ways it makes room for new variables,
  the creation of their projection functions and the retreat when one of them cannot be made.
\<close>

subsection \<open>Room for the new subtables\<close>

lemma os_alloc_eq: "os_alloc m = (got, m') \<Longrightarrow> \<exists>bs. m' = m\<lparr>os_allocs := bs\<rparr>"
  by (auto simp: os_alloc_def split: list.splits intro: exI [of _ "os_allocs m"])

lemma os_allocs_all_eq: "os_allocs_all k m = (ok, m') \<Longrightarrow> \<exists>bs. m' = m\<lparr>os_allocs := bs\<rparr>"
proof (induction k arbitrary: m)
  case 0
  then show ?case by (auto intro: exI [of _ "os_allocs m"])
next
  case (Suc k)
  obtain got m1 where o1: "os_alloc m = (got, m1)" by force
  obtain bs where bs: "m1 = m\<lparr>os_allocs := bs\<rparr>" using os_alloc_eq [OF o1] by blast
  show ?case
  proof (cases got)
    case True
    then show ?thesis using Suc.IH [of m1] Suc.prems o1 bs by auto
  next
    case False
    then show ?thesis using Suc.prems o1 bs by auto
  qed
qed

lemma easy_resize_ok:
  assumes "\<forall>i \<in> set is. i < length (subtables m) \<and> i < length (perm m) \<and> i < length (invperm m)"
  shows "\<exists>ok bs sts p q ec oc. easy_resize is m = Some (ok, m\<lparr>os_allocs := bs, subtables := sts, perm := p,
      invperm := q, errorCode := ec, oom_called := oc\<rparr>) \<and>
    length sts = length (subtables m) \<and> length p = length (perm m) \<and> length q = length (invperm m) \<and>
    (\<forall>l. l \<notin> set is \<longrightarrow> sts ! l = subtables m ! l \<and> p ! l = perm m ! l \<and> q ! l = invperm m ! l) \<and>
    (ok \<longrightarrow> (\<forall>l \<in> set is. sts ! l = new_subtable (initSlots m) \<and> p ! l = l \<and> q ! l = l))"
  using assms
proof (induction "is" arbitrary: m)
  case Nil
  show ?case
    by (rule exI [of _ True], rule exI [of _ "os_allocs m"], rule exI [of _ "subtables m"], rule exI [of _ "perm m"],
        rule exI [of _ "invperm m"], rule exI [of _ "errorCode m"],
        rule exI [of _ "oom_called m"]) simp
next
  case (Cons i "is")
  obtain got m1 where o1: "os_alloc m = (got, m1)" by force
  obtain bs where bs: "m1 = m\<lparr>os_allocs := bs\<rparr>" using os_alloc_eq [OF o1] by blast
  let ?m = "m1\<lparr>subtables := (subtables m)[i := new_subtable (initSlots m)], perm := (perm m)[i := i],
    invperm := (invperm m)[i := i]\<rparr>"
  have i: "i < length (subtables m)" "i < length (perm m)" "i < length (invperm m)" using Cons.prems by simp_all
  have step: "easy_resize (i # is) m = (if got then easy_resize is ?m
      else Some (False, (MMoutOfMemory ?m)\<lparr>errorCode := CUDD_MEMORY_OUT\<rparr>))"
    using i by (simp add: o1 bs)
  show ?case
  proof (cases got)
    case False
    have e: "(MMoutOfMemory ?m)\<lparr>errorCode := CUDD_MEMORY_OUT\<rparr> = m\<lparr>os_allocs := bs, subtables := subtables ?m, perm := perm ?m,
      invperm := invperm ?m, errorCode := CUDD_MEMORY_OUT, oom_called := True\<rparr>"
      by (simp add: bs MMoutOfMemory_def)
    show ?thesis
      unfolding step e using False
      by (intro exI [of _ False] exI [of _ bs] exI [of _ "subtables ?m"] exI [of _ "perm ?m"]
          exI [of _ "invperm ?m"] exI [of _ CUDD_MEMORY_OUT] exI [of _ True]) (use i in \<open>auto simp: bs\<close>)
  next
    case True
    have "\<forall>j \<in> set is. j < length (subtables ?m) \<and> j < length (perm ?m) \<and> j < length (invperm ?m)"
      using Cons.prems by (simp add: bs)
    from Cons.IH [OF this] obtain ok bs' sts p q ec oc where r:
      "easy_resize is ?m = Some (ok, ?m\<lparr>os_allocs := bs', subtables := sts, perm := p, invperm := q, errorCode := ec, oom_called := oc\<rparr>)"
      "length sts = length (subtables m)" "length p = length (perm m)" "length q = length (invperm m)"
      "\<And>l. l \<notin> set is \<Longrightarrow> sts ! l = subtables ?m ! l \<and> p ! l = perm ?m ! l \<and> q ! l = invperm ?m ! l"
      "\<And>l. ok \<Longrightarrow> l \<in> set is \<Longrightarrow> sts ! l = new_subtable (initSlots m) \<and> p ! l = l \<and> q ! l = l"
      by (simp add: bs) blast
    have e: "?m\<lparr>os_allocs := bs', subtables := sts, perm := p, invperm := q, errorCode := ec, oom_called := oc\<rparr>
      = m\<lparr>os_allocs := bs', subtables := sts, perm := p, invperm := q, errorCode := ec, oom_called := oc\<rparr>" by (simp add: bs)
    have old: "sts ! l = subtables m ! l \<and> p ! l = perm m ! l \<and> q ! l = invperm m ! l" if "l \<notin> set (i # is)" for l
      using that r(5) [of l] by (simp add: bs)
    have new: "sts ! l = new_subtable (initSlots m) \<and> p ! l = l \<and> q ! l = l" if "l \<in> set (i # is)" ok for l
      using that r(5) [of l] r(6) [of l] i by (cases "l \<in> set is") (auto simp: bs)
    have run: "easy_resize (i # is) m = Some (ok, m\<lparr>os_allocs := bs', subtables := sts, perm := p, invperm := q, errorCode := ec, oom_called := oc\<rparr>)"
      using step True r(1) e by simp
    show ?thesis
      using r(2-4) old new run by blast
  qed
qed

lemma easy_widens:
  assumes "mgr_ok ext {} m" "idx < maxSize m" "dsize m \<le> idx" "idx < 65534"
  shows "\<exists>ok m1. easy_resize [dsize m ..< idx + 1] m = Some (ok, m1) \<and>
    (ok \<longrightarrow> widens m (m1\<lparr>dsize := idx + 1, slots := z\<rparr>) \<and> mgr_ok ext {} (m1\<lparr>dsize := idx + 1, slots := z\<rparr>) \<and>
      reordered m1 = reordered m \<and> vars m1 = vars m)"
proof -
  have d: "dims_ok m" using mgr_misc [OF assms(1)] by (simp add: misc_ok_def)
  note s = mgr_okD(5) [OF assms(1)]
  have "\<forall>i \<in> set [dsize m ..< idx + 1]. i < length (subtables m) \<and> i < length (perm m) \<and> i < length (invperm m)"
    using d assms(2) by (auto simp: dims_ok_def)
  from easy_resize_ok [OF this] obtain ok bs sts p q ec oc where
    r: "easy_resize [dsize m ..< idx + 1] m = Some (ok, m\<lparr>os_allocs := bs, subtables := sts, perm := p,
      invperm := q, errorCode := ec, oom_called := oc\<rparr>)"
    "length sts = length (subtables m)" "length p = length (perm m)" "length q = length (invperm m)"
    "\<And>l. l \<notin> set [dsize m ..< idx + 1] \<Longrightarrow> sts ! l = subtables m ! l \<and> p ! l = perm m ! l \<and> q ! l = invperm m ! l"
    "\<And>l. ok \<Longrightarrow> l \<in> set [dsize m ..< idx + 1] \<Longrightarrow> sts ! l = new_subtable (initSlots m) \<and> p ! l = l \<and> q ! l = l"
    by blast
  let ?m = "m\<lparr>os_allocs := bs, subtables := sts, perm := p, invperm := q, errorCode := ec, oom_called := oc\<rparr>"
  let ?n = "?m\<lparr>dsize := idx + 1, slots := z\<rparr>"
  have w: "widens m ?n" if ok
  proof -
    have o: "l < dsize m \<Longrightarrow> sts ! l = subtables m ! l \<and> p ! l = perm m ! l \<and> q ! l = invperm m ! l"
      "l < idx + 1 \<Longrightarrow> dsize m \<le> l \<Longrightarrow> sts ! l = new_subtable (initSlots m) \<and> p ! l = l \<and> q ! l = l" for l
      using r(5) [of l] r(6) [OF that, of l] by (simp, simp only: set_upt atLeastLessThan_iff conj_absorb simp_thms)
    show ?thesis
      unfolding widens_def using s d assms(2-4) r(2-4) o by (simp add: dims_ok_def)
  qed
  have "mgr_ok ext {} ?n" if ok by (rule widens_mgr [OF assms(1) w [OF that]]) simp_all
  then show ?thesis using r(1) w by auto
qed

lemma realloc_stack_ok:
  assumes "dims_ok m" "realloc_stack newsize m = (ok, m')"
  shows "m' = m\<lparr>os_allocs := os_allocs m', memused := memused m', stackSize := stackSize m'\<rparr>"
    "ok \<Longrightarrow> max newsize (maxSizeZ m) < stackSize m'"
proof -
  obtain got m1 where o: "os_alloc m = (got, m1)" by force
  obtain bs where bs: "m1 = m\<lparr>os_allocs := bs\<rparr>" using os_alloc_eq [OF o] by blast
  show "m' = m\<lparr>os_allocs := os_allocs m', memused := memused m', stackSize := stackSize m'\<rparr>"
    using assms(2) o by (auto simp: realloc_stack_def bs split: if_splits)
  show "ok \<Longrightarrow> max newsize (maxSizeZ m) < stackSize m'"
    using assms o by (auto simp: realloc_stack_def bs dims_ok_def split: if_splits)
qed

text \<open>The arrays after a reallocation.\<close>

definition regrown :: "nat \<Rightarrow> nat list \<Rightarrow> DdManager \<Rightarrow> DdManager" where
  "regrown newsize new m = (let n = dsize m; pad = newsize - n - length new in m
     \<lparr>subtables := take n (subtables m) @ map (\<lambda>_. new_subtable (initSlots m)) new @ replicate pad (new_subtable 0),
      vars := take n (vars m) @ replicate (newsize - n) NULL,
      perm := take n (perm m) @ new @ replicate pad 0,
      invperm := take n (invperm m) @ new @ replicate pad 0,
      maxSize := newsize\<rparr>)"

lemma realloc_run:
  assumes "need \<le> newsize" "dims_ok m"
  shows "\<exists>ok m1 m2. realloc_tables newsize need new m = Some (ok, m2) \<and>
    m1 = m\<lparr>os_allocs := os_allocs m1, memused := memused m1, stackSize := stackSize m1\<rparr> \<and>
    (ok \<longrightarrow> m2 = regrown newsize new m1 \<and> max newsize (maxSizeZ m) < stackSize m1)"
proof -
  obtain ok1 m1 where a1: "os_allocs_all 4 m = (ok1, m1)" by force
  obtain bs1 where b1: "m1 = m\<lparr>os_allocs := bs1\<rparr>" using os_allocs_all_eq [OF a1] by blast
  let ?m1 = "m1\<lparr>memused := memused m1 + (of_nat newsize - of_nat (maxSize m1)) *
    ((of_nat (initSlots m1) + 1) * sizeof_DdNodePtr + 8 + sizeof_DdSubtable)\<rparr>"
  obtain ok2 m2 where a2: "realloc_stack newsize ?m1 = (ok2, m2)" by force
  have "dims_ok ?m1" using assms(2) by (simp add: b1 dims_ok_def)
  note r = realloc_stack_ok [OF this a2]
  obtain ok3 m3 where a3: "os_allocs_all (length new) m2 = (ok3, m3)" by force
  obtain bs3 where b3: "m3 = m2\<lparr>os_allocs := bs3\<rparr>" using os_allocs_all_eq [OF a3] by blast
  obtain bs u st where c: "m2 = ?m1\<lparr>os_allocs := bs, memused := u, stackSize := st\<rparr>" using r(1) by blast
  have i: "initSlots m3 = initSlots m1" "dsize m3 = dsize m2" by (simp_all add: b3 c)
  have run: "realloc_tables newsize need new m =
    (if \<not> ok1 then Some (False, (MMoutOfMemory m1)\<lparr>errorCode := CUDD_MEMORY_OUT\<rparr>)
     else if \<not> ok2 then Some (False, (MMoutOfMemory m2)\<lparr>errorCode := CUDD_MEMORY_OUT\<rparr>)
     else if \<not> ok3 then Some (False, (MMoutOfMemory m3)\<lparr>errorCode := CUDD_MEMORY_OUT\<rparr>)
     else Some (True, regrown newsize new m3))"
    using assms(1) a1 a2 a3 by (simp add: realloc_tables_def Let_def regrown_def i)
  have m3: "m3 = m\<lparr>os_allocs := os_allocs m3, memused := memused m3, stackSize := stackSize m3\<rparr>"
    by (simp add: b3 b1 c)
  have "max newsize (maxSizeZ m) < stackSize m3" if ok2 using r(2) [OF that] by (simp add: b3 b1)
  then show ?thesis
    using m3 unfolding run by (cases "ok1 \<and> ok2 \<and> ok3") auto
qed

lemma realloc_widens:
  assumes "mgr_ok ext {} m" "maxSize m \<le> idx" "idx < 65534" "idx < newsize"
  shows "\<exists>ok m1. realloc_tables newsize (idx + 1) [dsize m ..< idx + 1] m = Some (ok, m1) \<and>
    (ok \<longrightarrow> widens m (m1\<lparr>dsize := idx + 1, slots := z\<rparr>) \<and> mgr_ok ext {} (m1\<lparr>dsize := idx + 1, slots := z\<rparr>) \<and>
      reordered m1 = reordered m \<and> (\<forall>i < dsize m. vars m1 ! i = vars m ! i))"
proof -
  have d: "dims_ok m" using mgr_misc [OF assms(1)] by (simp add: misc_ok_def)
  note s = mgr_okD(5) [OF assms(1)]
  let ?new = "[dsize m ..< idx + 1]"
  have dl: "length (subtables m) = maxSize m" "length (perm m) = maxSize m" "length (invperm m) = maxSize m"
    "length (vars m) = maxSize m" using d by (simp_all add: dims_ok_def)
  have le: "dsize m \<le> idx" "dsize m \<le> maxSize m" using order_okD(1) [OF s] dl(1) assms(2) by simp_all
  obtain ok m1 m2 where r: "realloc_tables newsize (idx + 1) ?new m = Some (ok, m2)"
    "m1 = m\<lparr>os_allocs := os_allocs m1, memused := memused m1, stackSize := stackSize m1\<rparr>"
    "ok \<Longrightarrow> m2 = regrown newsize ?new m1" "ok \<Longrightarrow> max newsize (maxSizeZ m) < stackSize m1"
    using realloc_run [OF _ d, of "idx + 1" newsize ?new] assms(4) by auto
  obtain bs u st where m1: "m1 = m\<lparr>os_allocs := bs, memused := u, stackSize := st\<rparr>" using r(2) by blast
  let ?n = "m2\<lparr>dsize := idx + 1, slots := z\<rparr>"
  show ?thesis
  proof (cases ok)
    case False
    then show ?thesis using r(1) by auto
  next
    case True
    note m2 = r(3) [OF True] and stk = r(4) [OF True]
    have nth: "l < idx + 1 \<Longrightarrow> (take (dsize m) xs @ f @ rs) ! l = (if l < dsize m then xs ! l else f ! (l - dsize m))"
      if "length xs = maxSize m" "length f = idx + 1 - dsize m" for xs f rs :: "'x list" and l
      using that le by (auto simp: nth_append)
    have w: "widens m ?n"
      unfolding widens_def using s d le assms(2-4) stk
      by (simp add: dl m2 m1 regrown_def Let_def nth del: upt_Suc)
    have "mgr_ok ext {} ?n" by (rule widens_mgr [OF assms(1) w]) (simp_all add: m2 m1 regrown_def Let_def)
    then show ?thesis using r(1) w le(2) by (simp add: m2 m1 regrown_def Let_def dl nth_append)
  qed
qed

subsection \<open>Projection functions\<close>

text \<open>The node of a variable: its index, and the two constants below it.\<close>

definition proj :: "DdManager \<Rightarrow> nat \<Rightarrow> ptr \<Rightarrow> bool" where
  "proj m i v \<longleftrightarrow> v \<in> tabnodes m \<and> nidx m v = i \<and> kT m v = DD_ONE m \<and> kE m v = Cudd_Not (DD_ONE m)"

lemma proj_sem:
  assumes "store_ok m" "proj m i v"
  shows "sem m env v = env i" "Cudd_Regular v = v" "v \<noteq> NULL"
  using assms sem_node [OF assms(1), of v] sem_one [OF assms(1)] nodeD(9) [OF assms(1), of v]
    nodes_nonnull [OF assms(1) tab_nodes, of v]
  by (auto simp: proj_def sem_Not)

lemma extends_proj:
  assumes "extends X n m m'" "store_ok m" "proj m i v" "v \<in> X"
  shows "proj m' i v"
proof -
  have "v \<in> reach m X" using assms(4) by (rule reach.base)
  then have "v \<in> nodes m'" "cont m' v = cont m v" "DD_ONE m' = DD_ONE m" using assms(1) by (auto simp: extends_def)
  moreover have "v \<noteq> DD_ONE m" using assms(2,3) one_not_tab by (auto simp: proj_def)
  ultimately show ?thesis using assms(3) by (auto simp: proj_def nodes_def kT_def kE_def nidx_def)
qed

lemma late_check_dsize: "late_check m = (late, m1) \<Longrightarrow> dsize m1 = dsize m"
  by (auto simp: late_check_def time_expired_def util_cpu_time_def Let_def split: if_splits list.splits)

lemma known_eq: "i < dsize m \<Longrightarrow> uniqueInter_known i T E m = cuddUniqueInter i T E m"
  using late_check_dsize by (auto simp: uniqueInter_known_def cuddUniqueInter_def split: prod.splits)

lemma cuddRef_vars: "cuddRef e (m\<lparr>vars := vs\<rparr>) = map_option (\<lambda>m. m\<lparr>vars := vs\<rparr>) (cuddRef e m)"
  by (cases "heap m (Cudd_Regular e)") (simp_all add: cuddRef_def put_node_def)

lemma set_var_ok:
  assumes "mgr_ok ext {} m"
  shows "widens m (m\<lparr>vars := (vars m)[i := v]\<rparr>)" "mgr_ok ext {} (m\<lparr>vars := (vars m)[i := v]\<rparr>)"
proof -
  have d: "dims_ok m" using mgr_misc [OF assms] by (simp add: misc_ok_def)
  note s = mgr_okD(5) [OF assms]
  show w: "widens m (m\<lparr>vars := (vars m)[i := v]\<rparr>)"
    using s d order_okD(1-5) [OF s] by (auto simp: widens_def dims_ok_def)
  show "mgr_ok ext {} (m\<lparr>vars := (vars m)[i := v]\<rparr>)"
    by (rule widens_mgr [OF assms w]) simp_all
qed

text \<open>One turn of the loop that makes the projection functions.\<close>

lemma unique_proj_ok:
  assumes "mgr_ok ext {} m" "i < dsize m"
  shows "\<exists>v m1. cuddUniqueInter i (DD_ONE m) (Cudd_Not (DD_ONE m)) m = Some (v, m1) \<and>
    keep (set_mset ext) m m1 \<and> (v = NULL \<and> mgr_ok ext {} m1 \<or> proj m1 i v \<and> mgr_ok ext {v} m1)"
proof -
  note g = mgr_okD [OF assms(1)]
  let ?l = "perm m ! i"
  note o = order_okD(8,9) [OF g(5) assms(2)]
  have "DD_ONE m \<in> reach m (set_mset ext)" using g(2) by (intro reach.base) simp
  then have b: "below ext m ?l (DD_ONE m) (Cudd_Not (DD_ONE m))"
    using o(1) oneD [OF g(5)] lev_one Not_neq [of "DD_ONE m"]
    by (simp add: below_def elev_def)
  from cuddUniqueInter_ok [OF assms(1) b] o(2) obtain v m1 where
    r: "cuddUniqueInter i (DD_ONE m) (Cudd_Not (DD_ONE m)) m = Some (v, m1)" "keep (set_mset ext) m m1"
    "v = NULL \<and> failed m1 \<and> mgr_ok ext {} m1 \<or> v \<in> tabnodes m1 \<and> lev m1 v = ?l \<and> kT m1 v = DD_ONE m \<and>
      kE m1 v = Cudd_Not (DD_ONE m) \<and> mgr_ok ext {v} m1"
    by (auto simp: made_def)
  note od = orderD [OF keepD(3) [OF r(2)]]
  have "nidx m1 v = i" if v: "v \<in> tabnodes m1" "lev m1 v = ?l" "mgr_ok ext {v} m1"
    using tabnode(6) [OF mgr_okD(5) [OF v(3)] v(1)] v(2) o(2) by (simp add: od)
  then show ?thesis using r by (auto simp: proj_def od)
qed

lemma create_var_ok:
  assumes "mgr_ok ext {} m" "i < dsize m" "n \<le> i"
  shows "\<exists>v m1 m2. uniqueInter_known i (DD_ONE m) (Cudd_Not (DD_ONE m)) m = Some (v, m1) \<and>
    i < length (vars m1) \<and> dsize m2 = dsize m \<and> vars m2 = (vars m)[i := v] \<and> extends (set_mset ext) n m m2 \<and>
    (v = NULL \<and> m2 = m1\<lparr>vars := (vars m1)[i := v]\<rparr> \<and> mgr_ok ext {} m2 \<or>
     v \<noteq> NULL \<and> cuddRef v (m1\<lparr>vars := (vars m1)[i := v]\<rparr>) = Some m2 \<and> proj m2 i v \<and> mgr_ok (add_mset v ext) {} m2)"
proof -
  note g = mgr_okD [OF assms(1)]
  obtain v m1 where r: "cuddUniqueInter i (DD_ONE m) (Cudd_Not (DD_ONE m)) m = Some (v, m1)"
    "keep (set_mset ext) m m1" "v = NULL \<and> mgr_ok ext {} m1 \<or> proj m1 i v \<and> mgr_ok ext {v} m1"
    using unique_proj_ok [OF assms(1,2)] by blast
  note k = known_eq [OF assms(2)] and od = orderD [OF keepD(3) [OF r(2)]]
  have st: "store_ok m1" "dims_ok m1" using r(3) mgr_misc mgr_okD(5) by (auto simp: misc_ok_def)
  have len: "i < length (vars m1)" using assms(2) order_okD(1) [OF st(1)] st(2) by (simp add: dims_ok_def od)
  let ?u = "\<lambda>m. m\<lparr>vars := (vars m1)[i := v]\<rparr>"
  show ?thesis
  proof (cases "v = NULL")
    case True
    then have k1: "mgr_ok ext {} m1" using r(3) proj_sem(3) [OF st(1)] by blast
    have w: "widens m1 (?u m1)" "mgr_ok ext {} (?u m1)" using set_var_ok [OF k1] by simp_all
    have "extends (set_mset ext) n m1 (?u m1)"
      by (rule widens_extends [OF w(1) mgr_okD(8) [OF k1]]) (use assms(3) in simp_all)
    from extends_trans [OF keep_extends [OF r(2)] this g(5)] w(2)
    show ?thesis using r(1) True len od by (simp add: k)
  next
    case False
    then have pr: "proj m1 i v" "mgr_ok ext {v} m1" using r(3) by blast+
    have vt: "v \<in> tabnodes m1" "Cudd_Regular v = v" using pr(1) proj_sem(2) [OF st(1)] by (auto simp: proj_def)
    then obtain m2 where m2: "cuddRef v m1 = Some m2" "mgr_ok (add_mset v ext) {} m2" "counts_only m1 m2"
      "keep (set_mset ext) m1 m2"
      using cuddRef_ok [OF pr(2), of v] by (auto simp: nodes_def dset_iff)
    note s2 = store_cong [OF counts_only_store [OF m2(3)]]
    have v2: "vars m2 = vars m1" "dsize m2 = dsize m1" using s2 by simp_all
    have u2: "?u m2 = m2\<lparr>vars := (vars m2)[i := v]\<rparr>" using v2 by simp
    have w: "widens m2 (?u m2)" "mgr_ok (add_mset v ext) {} (?u m2)"
      unfolding u2 using set_var_ok [OF m2(2)] by simp_all
    have e: "extends (set_mset (add_mset v ext)) n m2 (?u m2)"
      by (rule widens_extends [OF w(1) mgr_okD(8) [OF m2(2)]]) (use assms(3) v2 in simp_all)
    have p2: "proj m2 i v" using pr(1) s2 by (simp add: proj_def)
    have "proj (?u m2) i v" by (rule extends_proj [OF e mgr_okD(5) [OF m2(2)] p2]) simp
    moreover have "extends (set_mset ext) n m (?u m2)"
      using extends_trans [OF keep_extends [OF keep_trans [OF r(2) m2(4) g(5)]] extends_mono [OF e] g(5)] by auto
    moreover have "cuddRef v (?u m1) = Some (?u m2)" using m2(1) by (simp add: cuddRef_vars)
    ultimately show ?thesis using r(1) False len od w(2) v2 by (simp add: k)
  qed
qed

lemma create_vars_ok:
  assumes "mgr_ok ext {} m" "distinct is" "\<forall>i \<in> set is. n \<le> i \<and> i < dsize m"
  shows "\<exists>k m'. create_vars is m = Some (k = length is, m') \<and> k \<le> length is \<and>
    mgr_ok (ext + mset (map (\<lambda>i. vars m' ! i) (take k is))) {} m' \<and> extends (set_mset ext) n m m' \<and>
    dsize m' = dsize m \<and> (\<forall>i. i \<notin> set is \<longrightarrow> vars m' ! i = vars m ! i) \<and>
    (\<forall>i \<in> set (take k is). proj m' i (vars m' ! i)) \<and> (k < length is \<longrightarrow> vars m' ! (is ! k) = NULL)"
  using assms
proof (induction "is" arbitrary: ext m)
  case Nil
  have "extends (set_mset ext) n m m" by (rule keep_extends [OF keep_refl [OF Nil(1)]])
  then show ?case using Nil by (intro exI [of _ 0] exI [of _ m]) simp
next
  case (Cons i "is")
  obtain v m1 m2 where r: "uniqueInter_known i (DD_ONE m) (Cudd_Not (DD_ONE m)) m = Some (v, m1)"
    "i < length (vars m1)" "dsize m2 = dsize m" "vars m2 = (vars m)[i := v]" "extends (set_mset ext) n m m2"
    "v = NULL \<and> m2 = m1\<lparr>vars := (vars m1)[i := v]\<rparr> \<and> mgr_ok ext {} m2 \<or>
     v \<noteq> NULL \<and> cuddRef v (m1\<lparr>vars := (vars m1)[i := v]\<rparr>) = Some m2 \<and> proj m2 i v \<and> mgr_ok (add_mset v ext) {} m2"
    using create_var_ok [OF Cons.prems(1), of i n] Cons.prems(3) by auto
  note st = mgr_okD(5) [OF Cons.prems(1)]
  have d: "dims_ok m" using mgr_misc [OF Cons.prems(1)] by (simp add: misc_ok_def)
  have il: "i < length (vars m)" using Cons.prems(3) order_okD(1) [OF st] d by (auto simp: dims_ok_def)
  show ?case
  proof (cases "v = NULL")
    case True
    then have "create_vars (i # is) m = Some (False, m2)" "mgr_ok ext {} m2" using r by auto
    then show ?thesis using r(3-5) True il by (intro exI [of _ 0] exI [of _ m2]) auto
  next
    case False
    then have c: "cuddRef v (m1\<lparr>vars := (vars m1)[i := v]\<rparr>) = Some m2" "proj m2 i v" "mgr_ok (add_mset v ext) {} m2"
      using r(6) by auto
    have run: "create_vars (i # is) m = create_vars is m2" using r(1,2) c(1) False by simp
    have dis: "distinct is" "i \<notin> set is" "\<forall>j \<in> set is. n \<le> j \<and> j < dsize m2"
      using Cons.prems(2,3) r(3) by auto
    obtain k m' where k: "create_vars is m2 = Some (k = length is, m')" "k \<le> length is"
      "mgr_ok (add_mset v ext + mset (map (\<lambda>i. vars m' ! i) (take k is))) {} m'"
      "extends (set_mset (add_mset v ext)) n m2 m'" "dsize m' = dsize m2"
      "\<And>j. j \<notin> set is \<Longrightarrow> vars m' ! j = vars m2 ! j" "\<And>j. j \<in> set (take k is) \<Longrightarrow> proj m' j (vars m' ! j)"
      "k < length is \<Longrightarrow> vars m' ! (is ! k) = NULL"
      using Cons.IH [OF c(3) dis(1,3)] by blast
    have vi: "vars m' ! i = v" using k(6) [OF dis(2)] r(4) il by simp
    have "proj m' i v" by (rule extends_proj [OF k(4) mgr_okD(5) [OF c(3)] c(2)]) simp
    then have "\<forall>j \<in> set (take (Suc k) (i # is)). proj m' j (vars m' ! j)" using k(7) vi by simp
    moreover have "extends (set_mset ext) n m m'"
      using extends_trans [OF r(5) extends_mono [OF k(4)] st] by auto
    moreover have "\<forall>j. j \<notin> set (i # is) \<longrightarrow> vars m' ! j = vars m ! j"
      using k(6) r(4) by auto
    moreover have "mgr_ok (ext + mset (map (\<lambda>i. vars m' ! i) (take (Suc k) (i # is)))) {} m'"
      using k(3) vi by simp
    ultimately show ?thesis
      using run k(1,2,5,8) r(3) by (intro exI [of _ "Suc k"] exI [of _ m']) simp
  qed
qed

subsection \<open>The retreat\<close>

text \<open>
  When a projection function cannot be made, the ones made before are released and pushed on the
  free list, without being unlinked from the table. The routine does not stop, but the manager it
  leaves does not satisfy the invariant.
\<close>

lemma free_var_ok:
  assumes "graph_ok A {#} {} m" "dims_ok m" "length vs = length (vars m)"
  shows "graph_ok A {#} {} (m\<lparr>nextFree := f, vars := vs\<rparr>)" "dims_ok (m\<lparr>nextFree := f, vars := vs\<rparr>)"
proof -
  note o = order_okD(1-5) [OF graph_okD(1) [OF assms(1)]]
  have w: "widens m (m\<lparr>nextFree := f, vars := vs\<rparr>)"
    using assms o by (auto simp: widens_def dims_ok_def graph_ok_def)
  show "graph_ok A {#} {} (m\<lparr>nextFree := f, vars := vs\<rparr>)" by (rule widens_graph [OF w assms(1)])
  show "dims_ok (m\<lparr>nextFree := f, vars := vs\<rparr>)" by (rule widens_views(1) [OF w])
qed

lemma drop_vars_total:
  assumes "graph_ok (A + mset (map (\<lambda>j. vars m ! j) js)) {#} {} m" "DD_ONE m \<in># A" "distinct js"
    and "\<forall>j \<in> set js. j < length (vars m) \<and> Cudd_Regular (vars m ! j) = vars m ! j" "dims_ok m" "cache_geo m"
  shows "\<exists>m'. drop_vars js m = Some m' \<and> cache_geo m'"
  using assms
proof (induction js arbitrary: m)
  case (Cons j js)
  let ?v = "vars m ! j"
  have j: "j < length (vars m)" "Cudd_Regular ?v = ?v" using Cons.prems(4) by simp_all
  let ?A = "A + mset (map (\<lambda>j. vars m ! j) js)"
  have "graph_ok (add_mset (Cudd_Regular ?v) ?A) {#} {} m" "DD_ONE m \<in># ?A" using Cons.prems(1,2) j by simp_all
  then obtain m1 where m1: "Cudd_IterDerefBdd ?v m = Some m1" "graph_ok ?A {#} {} m1" "counts_only m m1"
    using iterDeref_graph by blast
  note st = counts_only_store [OF m1(3)] and f = counts_only_fields [OF m1(3)]
  note v1 = store_cong(19) [OF st] and one = store_cong(7) [OF st]
  let ?m = "m1\<lparr>nextFree := ?v # nextFree m1, vars := (vars m1)[j := NULL]\<rparr>"
  have d: "dims_ok m1" using Cons.prems(5) by (simp add: dims_cong [OF st])
  have same: "vars ?m ! i = vars m ! i" if "i \<in> set js" for i
  proof -
    have "i \<noteq> j" using that Cons.prems(3) by auto
    then show ?thesis by (simp add: v1)
  qed
  then have ms: "mset (map (\<lambda>j. vars ?m ! j) js) = mset (map (\<lambda>j. vars m ! j) js)"
    by (intro arg_cong [of _ _ mset] map_cong) simp_all
  have fv: "graph_ok ?A {#} {} ?m" "dims_ok ?m" using free_var_ok [OF m1(2) d] by simp_all
  have "cache_geo ?m" using Cons.prems(6) by (simp add: cache_geo_def f)
  moreover have "\<forall>j \<in> set js. j < length (vars ?m) \<and> Cudd_Regular (vars ?m ! j) = vars ?m ! j"
    using Cons.prems(4) same by (simp add: v1)
  ultimately obtain m' where m': "drop_vars js ?m = Some m'" "cache_geo m'"
    using Cons.IH [of ?m] fv ms Cons.prems(2,3) one by auto
  have "drop_vars (j # js) m = drop_vars js ?m" using m1(1) j by (simp add: v1)
  then show ?case using m' by (simp only: option.inject) blast
qed simp

subsection \<open>The table with the new variables\<close>

lemma autoDyn_off: "\<not> autoDyn m \<Longrightarrow> m\<lparr>autoDyn := False\<rparr> = m"
  by (intro DdManager.equality) simp_all

lemma add_vars_ok:
  assumes "mgr_ok ext {} m" "m1 = m0\<lparr>dsize := idx + 1,
      slots := slots m0 + of_nat (length [dsize m ..< idx + 1] * s)\<rparr>" "widens m m1" "mgr_ok ext {} m1"
    and "reordered m0 = reordered m" "\<forall>i < dsize m. vars m0 ! i = vars m ! i" "dsize m \<le> idx"
  shows "\<exists>made m3. add_vars [dsize m ..< idx + 1] (dsize m) s m0 = Some (made, m3) \<and>
    (made \<longrightarrow> mgr_ok (ext + mset (map (\<lambda>i. vars m3 ! i) [dsize m ..< idx + 1])) {} m3 \<and>
       extends (set_mset ext) (dsize m) m m3 \<and> dsize m3 = idx + 1 \<and>
       (\<forall>i. dsize m \<le> i \<and> i \<le> idx \<longrightarrow> proj m3 i (vars m3 ! i)))"
proof -
  let ?new = "[dsize m ..< idx + 1]"
  note g = mgr_okD [OF assms(1)] and g1 = mgr_okD [OF assms(4)]
  obtain m2 where m2: "ddFixLimits m1 = Some m2" "core m2 = core m1" "mgr_ok ext {} m2"
    using ddFixLimits_ok [OF assms(4)] by blast
  have na: "\<not> autoDyn m2" using mgr_misc [OF m2(3)] by (simp add: misc_ok_def)
  have d2: "dsize m2 = idx + 1" using core_fields(18) [OF m2(2)] assms(2) by simp
  have e1: "extends (set_mset ext) (dsize m) m m1"
    by (rule widens_extends [OF assms(3) g(8)]) (use assms(2,5,6) in simp_all)
  have e2: "extends (set_mset ext) (dsize m) m m2"
    using extends_trans [OF e1 keep_extends [OF core_ok(4) [OF m2(2) g1(5,8)]] g(5)] .
  obtain k m3 where m3: "create_vars ?new m2 = Some (k = length ?new, m3)" "k \<le> length ?new"
    "mgr_ok (ext + mset (map (\<lambda>i. vars m3 ! i) (take k ?new))) {} m3" "extends (set_mset ext) (dsize m) m2 m3"
    "dsize m3 = dsize m2" "\<And>i. i \<in> set (take k ?new) \<Longrightarrow> proj m3 i (vars m3 ! i)"
    "k < length ?new \<Longrightarrow> vars m3 ! (?new ! k) = NULL"
  proof -
    have "\<forall>i \<in> set ?new. dsize m \<le> i \<and> i < dsize m2" using d2 by (auto simp del: upt_Suc)
    from create_vars_ok [OF m2(3) distinct_upt this] that show thesis by blast
  qed
  have n3: "\<not> autoDyn m3" "dims_ok m3" using mgr_misc [OF m3(3)] by (simp_all add: misc_ok_def)
  note g3 = mgr_okD [OF m3(3)]
  have good: "mgr_ok (ext + mset (map (\<lambda>i. vars m3 ! i) ?new)) {} m3 \<and>
      (\<forall>i. dsize m \<le> i \<and> i \<le> idx \<longrightarrow> proj m3 i (vars m3 ! i))" if "k = length ?new"
  proof -
    have "take k ?new = ?new" using that by simp
    then show ?thesis using m3(3) m3(6) by (auto simp del: upt_Suc)
  qed
  have bad: "\<exists>m4. drop_vars (takeWhile (\<lambda>j. vars m3 ! j \<noteq> NULL) ?new) m3 = Some m4 \<and> cache_geo m4" if "k \<noteq> length ?new"
  proof -
    let ?js = "take k ?new"
    have k: "k < length ?new" using that m3(2) by simp
    have p: "Cudd_Regular (vars m3 ! j) = vars m3 ! j \<and> vars m3 ! j \<noteq> NULL" if "j \<in> set ?js" for j
      using proj_sem(2,3) [OF g3(5) m3(6) [OF that]] by blast
    have "takeWhile (\<lambda>j. vars m3 ! j \<noteq> NULL) (?js @ drop k ?new) = ?js"
    proof (subst takeWhile_append2)
      show "\<And>j. j \<in> set ?js \<Longrightarrow> vars m3 ! j \<noteq> NULL" using p by blast
      have "drop k ?new = ?new ! k # drop (Suc k) ?new" using k by (rule Cons_nth_drop_Suc [symmetric])
      then show "?js @ takeWhile (\<lambda>j. vars m3 ! j \<noteq> NULL) (drop k ?new) = ?js" using m3(7) [OF k] by simp
    qed
    then have tw: "takeWhile (\<lambda>j. vars m3 ! j \<noteq> NULL) ?new = ?js" by simp
    have lt: "j < length (vars m3)" if "j \<in> set ?js" for j
    proof -
      have "j \<in> set ?new" using that by (rule in_set_takeD)
      then show ?thesis using n3(2) order_okD(1) [OF g3(5)] m3(5) d2 by (auto simp: dims_ok_def simp del: upt_Suc)
    qed
    have "graph_ok (ext + drow m3 + mset (map (\<lambda>j. vars m3 ! j) ?js)) {#} {} m3"
      using g3(1) by (simp add: ac_simps)
    moreover have "DD_ONE m3 \<in># ext + drow m3" using g(2) e2 m3(4) by (simp add: extends_def)
    moreover have "cache_geo m3" using mgr_cache [OF m3(3)] by (simp add: cache_ok_geo)
    ultimately show ?thesis
      unfolding tw using drop_vars_total [of "ext + drow m3" m3 ?js] p lt n3(2) by simp
  qed
  have ext: "extends (set_mset ext) (dsize m) m m3" by (rule extends_trans [OF e2 m3(4) g(5)])
  have dl: "dsize m + length ?new = idx + 1" using assms(7) by simp
  have fl: "ddFixLimits (m0\<lparr>dsize := dsize m + length ?new, slots := slots m0 + of_nat (length ?new * s)\<rparr>) = Some m2"
    using m2(1) unfolding assms(2) dl .
  show ?thesis
  proof (cases "k = length ?new")
    case True
    have "add_vars ?new (dsize m) s m0 = Some (True, m3)"
      using True m3(1) na n3(1) unfolding add_vars_def fl by (simp add: autoDyn_off del: upt_Suc)
    then show ?thesis using good [OF True] ext d2 m3(5) by (auto simp del: upt_Suc)
  next
    case False
    obtain m4 where m4: "drop_vars (takeWhile (\<lambda>j. vars m3 ! j \<noteq> NULL) ?new) m3 = Some m4" "cache_geo m4"
      using bad [OF False] by blast
    have "cache_geo (m4\<lparr>dsize := dsize m, slots := slots m4 - of_nat (length ?new * s)\<rparr>)"
      using m4(2) by (simp add: cache_geo_def)
    then obtain m5 where "ddFixLimits (m4\<lparr>dsize := dsize m, slots := slots m4 - of_nat (length ?new * s)\<rparr>) = Some m5"
      using ddFixLimits_geo by blast
    then have "add_vars ?new (dsize m) s m0 = Some (False, m5)"
      using False m3(1) na n3(1) m4(1) unfolding add_vars_def fl by (simp add: autoDyn_off del: upt_Suc)
    then show ?thesis by blast
  qed
qed

lemma ddResizeTable_ok:
  assumes "mgr_ok ext {} m" "dsize m \<le> idx" "idx < 65534" "0 < amount"
  shows "\<exists>ok m'. ddResizeTable (int idx) amount m = Some (ok, m') \<and>
    (ok \<longrightarrow> mgr_ok (ext + mset (map (\<lambda>i. vars m' ! i) [dsize m ..< idx + 1])) {} m' \<and>
       extends (set_mset ext) (dsize m) m m' \<and> dsize m' = idx + 1 \<and>
       (\<forall>i. dsize m \<le> i \<and> i \<le> idx \<longrightarrow> proj m' i (vars m' ! i)))"
proof -
  let ?new = "[dsize m ..< idx + 1]"
  let ?room = "if idx < maxSize m then easy_resize ?new m
    else realloc_tables (idx + amount) (idx + 1) ?new m"
  have dl: "dsize m + length ?new = idx + 1" using assms(2) by simp
  obtain ok m0 where r: "?room = Some (ok, m0)"
    "\<And>z. ok \<Longrightarrow> widens m (m0\<lparr>dsize := idx + 1, slots := z\<rparr>) \<and> mgr_ok ext {} (m0\<lparr>dsize := idx + 1, slots := z\<rparr>)"
    "ok \<Longrightarrow> reordered m0 = reordered m" "ok \<Longrightarrow> \<forall>i < dsize m. vars m0 ! i = vars m ! i"
  proof (cases "idx < maxSize m")
    case True
    have "\<exists>ok m0. easy_resize ?new m = Some (ok, m0)" using easy_widens [OF assms(1) True assms(2,3)] by blast
    then obtain ok m0 where e: "easy_resize ?new m = Some (ok, m0)" by blast
    have "ok \<longrightarrow> widens m (m0\<lparr>dsize := idx + 1, slots := z\<rparr>) \<and> mgr_ok ext {} (m0\<lparr>dsize := idx + 1, slots := z\<rparr>) \<and>
        reordered m0 = reordered m \<and> vars m0 = vars m" for z
      using easy_widens [OF assms(1) True assms(2,3), of z] unfolding e by (simp only: option.inject prod.inject) blast
    then show thesis by (intro that [of ok m0]) (use True e in \<open>simp_all del: upt_Suc easy_resize.simps\<close>)
  next
    case False
    have n: "maxSize m \<le> idx" "idx < idx + amount" using False assms(4) by simp_all
    have "\<exists>ok m0. realloc_tables (idx + amount) (idx + 1) ?new m = Some (ok, m0)"
      using realloc_widens [OF assms(1) n(1) assms(3) n(2)] by blast
    then obtain ok m0 where e: "realloc_tables (idx + amount) (idx + 1) ?new m = Some (ok, m0)" by blast
    have "ok \<longrightarrow> widens m (m0\<lparr>dsize := idx + 1, slots := z\<rparr>) \<and> mgr_ok ext {} (m0\<lparr>dsize := idx + 1, slots := z\<rparr>) \<and>
        reordered m0 = reordered m \<and> (\<forall>i < dsize m. vars m0 ! i = vars m ! i)" for z
      using realloc_widens [OF assms(1) n(1) assms(3) n(2), of z] unfolding e by (simp only: option.inject prod.inject) blast
    then show thesis by (intro that [of ok m0]) (use False e in \<open>simp_all del: upt_Suc\<close>)
  qed
  have run: "ddResizeTable (int idx) amount m =
    (if ok then add_vars ?new (dsize m) (initSlots m) m0 else Some (False, m0))"
  proof -
    have "ddResizeTable (int idx) amount m = do {
        (ok, u) \<leftarrow> ?room;
        if \<not> ok then Some (False, u) else add_vars ?new (dsize m) (initSlots m) u }"
      by (simp only: ddResizeTable_def Let_def of_nat_0_le_iff of_nat_less_0_iff simp_thms if_True if_False nat_int dl)
    then show ?thesis unfolding r(1) by simp
  qed
  show ?thesis
  proof (cases ok)
    case False
    then show ?thesis unfolding run by auto
  next
    case True
    show ?thesis
      unfolding run using True
        add_vars_ok [OF assms(1) refl r(2) [OF True, THEN conjunct1] r(2) [OF True, THEN conjunct2]
          r(3,4) [OF True] assms(2)] by simp
  qed
qed

subsection \<open>A variable by its index\<close>

text \<open>
  Every variable of the manager has its projection function in \<open>vars\<close>, and the manager owns a
  reference to it.
\<close>

definition vars_ok :: "ptr multiset \<Rightarrow> DdManager \<Rightarrow> bool" where
  "vars_ok ext m \<longleftrightarrow> (\<forall>i < dsize m. vars m ! i \<in># ext \<and> proj m i (vars m ! i))"

text \<open>There is one node per variable whose children are the constants.\<close>

lemma proj_unique:
  assumes "store_ok m" "proj m i v" "proj m i w"
  shows "v = w"
proof -
  show ?thesis using assms unique_node [OF assms(1), of v w] by (simp add: proj_def)
qed

lemma vars_ok_step:
  assumes "vars_ok ext m" "extends (set_mset ext) (dsize m) m m'" "store_ok m" "dsize m' = dsize m" "ext \<subseteq># ext'"
  shows "vars_ok ext' m'"
proof -
  have "vars m' ! i \<in># ext' \<and> proj m' i (vars m' ! i)" if "i < dsize m" for i
  proof -
    have v: "vars m ! i \<in># ext" "proj m i (vars m ! i)" using assms(1) that by (simp_all add: vars_ok_def)
    have "vars m' ! i = vars m ! i" using assms(2) that by (simp add: extends_def)
    then show ?thesis
      using v(1) extends_proj [OF assms(2,3) v(2)] mset_subset_eqD [OF assms(5)] by simp
  qed
  then show ?thesis using assms(4) by (simp add: vars_ok_def)
qed

lemma new_index_ok:
  assumes "mgr_ok ext {} m" "vars_ok ext m" "dsize m \<le> idx" "idx < 65534"
  shows "\<exists>v m'. cuddUniqueInter idx (DD_ONE m) (Cudd_Not (DD_ONE m)) m = Some (v, m') \<and>
    (v \<noteq> NULL \<longrightarrow> mgr_ok (ext + mset (map (\<lambda>i. vars m' ! i) [dsize m ..< idx + 1])) {} m' \<and>
       vars_ok (ext + mset (map (\<lambda>i. vars m' ! i) [dsize m ..< idx + 1])) m' \<and>
       extends (set_mset ext) (dsize m) m m' \<and> dsize m' = idx + 1 \<and> v = vars m' ! idx)"
proof -
  note g = mgr_okD [OF assms(1)]
  obtain late m1 where t: "late_check m = (late, m1)" by force
  have s1: "same_table ext m m1" by (rule late_check_ok [OF assms(1) t])
  note k1 = same_tableD(2) [OF s1]
  have kp: "keep (set_mset ext) m m1" using same_tableD(1) [OF s1] by (simp add: shrinks_def)
  note od = orderD [OF keepD(3) [OF kp]]
  show ?thesis
  proof (cases late)
    case True
    then show ?thesis using t by (simp add: cuddUniqueInter_def)
  next
    case False
    have am: "0 < max DD_DEFAULT_RESIZE (dsize m1 div 20)" by (simp add: DD_DEFAULT_RESIZE_def)
    have d1: "dsize m1 \<le> idx" using assms(3) od by simp
    let ?E = "\<lambda>m'. ext + mset (map (\<lambda>i. vars m' ! i) [dsize m ..< idx + 1])"
    obtain ok m2 where r: "ddResizeTable (int idx) (max DD_DEFAULT_RESIZE (dsize m1 div 20)) m1 = Some (ok, m2)"
      "ok \<Longrightarrow> mgr_ok (?E m2) {} m2 \<and> extends (set_mset ext) (dsize m) m1 m2 \<and> dsize m2 = idx + 1 \<and>
        (\<forall>i. dsize m \<le> i \<and> i \<le> idx \<longrightarrow> proj m2 i (vars m2 ! i))"
      using ddResizeTable_ok [OF k1 d1 assms(4) am] unfolding od by blast
    have run: "cuddUniqueInter idx (DD_ONE m) (Cudd_Not (DD_ONE m)) m =
      (if ok then uniqueInter_at (of_nat idx) (DD_ONE m) (Cudd_Not (DD_ONE m)) m2 else Some (NULL, m2))"
      using t False r(1) d1 by (simp add: cuddUniqueInter_def)
    show ?thesis
    proof (cases ok)
      case False
      then show ?thesis unfolding run by simp
    next
      case True
      have k2: "mgr_ok (?E m2) {} m2" "extends (set_mset ext) (dsize m) m1 m2" "dsize m2 = idx + 1"
        "\<And>i. dsize m \<le> i \<Longrightarrow> i \<le> idx \<Longrightarrow> proj m2 i (vars m2 ! i)" using r(2) [OF True] by blast+
      have ex: "extends (set_mset ext) (dsize m) m m2" by (rule extends_trans [OF keep_extends [OF kp] k2(2) g(5)])
      have p: "proj m2 i (vars m2 ! i) \<and> vars m2 ! i \<in># ?E m2" if "i \<le> idx" for i
      proof (cases "dsize m \<le> i")
        case True
        then show ?thesis using k2(4) [OF True that] that by (auto simp del: upt_Suc)
      next
        case False
        then have v: "vars m ! i \<in># ext" "proj m i (vars m ! i)" "vars m2 ! i = vars m ! i"
          using assms(2) ex by (simp_all add: vars_ok_def extends_def)
        then show ?thesis using extends_proj [OF ex g(5) v(2)] by simp
      qed
      note g2 = mgr_okD [OF k2(1)]
      let ?v = "vars m2 ! idx" and ?l = "perm m2 ! idx"
      have one: "DD_ONE m2 = DD_ONE m" using ex by (simp add: extends_def)
      have pv: "proj m2 idx ?v" "?v \<in># ?E m2" using p [of idx] by simp_all
      have there: "present m2 ?l (DD_ONE m) (Cudd_Not (DD_ONE m))"
        using pv(1) tabnode(3) [OF g2(5), of ?v] unfolding present_def
        by (intro bexI [of _ ?v]) (simp_all add: proj_def one)
      have fnd: "uniqueInter_at (of_nat idx) (DD_ONE m) (Cudd_Not (DD_ONE m)) m2 = Some (?v, m2)"
      proof -
        have i: "idx < dsize m2" using k2(3) by simp
        note o = order_okD(8,9) [OF g2(5) i]
        have ui: "unat (of_nat idx :: DdHalfWord) = idx" using assms(4) by (simp add: unat_of_nat)
        have lv: "nth_opt (perm m2) (unat (of_nat idx :: DdHalfWord)) = Some ?l"
          using i order_okD(2) [OF g2(5)] ui by simp
        obtain pos b a where fp: "find_place m2 ?l (DD_ONE m) (Cudd_Not (DD_ONE m)) = Some (pos, b, a)"
          "chain_hit m2 (DD_ONE m) (Cudd_Not (DD_ONE m)) a = Some True"
          "a \<noteq> [] \<and> hd a \<in> tabnodes m2 \<and> lev m2 (hd a) = ?l \<and> kT m2 (hd a) = DD_ONE m \<and>
            kE m2 (hd a) = Cudd_Not (DD_ONE m)"
          using find_place_ok [OF g2(5) o(1)] there by (metis (full_types))
        have "hd a = ?v"
        proof (rule unique_node [OF g2(5)])
          show "hd a \<in> tabnodes m2" using fp(3) by blast
          then have "invperm m2 ! lev m2 (hd a) = nidx m2 (hd a)" by (rule tabnode(6) [OF g2(5)])
          moreover have "lev m2 (hd a) = ?l" using fp(3) by blast
          ultimately show "nidx m2 (hd a) = nidx m2 ?v" using o(2) pv(1) by (simp add: proj_def)
        qed (use fp(3) pv(1) in \<open>auto simp: proj_def one\<close>)
        moreover have "0 < refc m2 ?v" by (rule refs_ok_pos(1) [OF g2(6)]) (use pv(2) in \<open>simp del: upt_Suc\<close>)
        moreover obtain n where n: "heap m2 ?v = Some n"
          using nodes_heap [OF g2(5) tab_nodes] pv(1) by (auto simp: proj_def)
        moreover have "ref n \<noteq> 0" using calculation(2) n by (simp add: refc_def unat_gt_0)
        ultimately show ?thesis using lv fp(1,2) by (simp add: uniqueInter_at_def Let_def)
      qed
      have "vars_ok (?E m2) m2"
        unfolding vars_ok_def
      proof (intro allI impI)
        fix i assume "i < dsize m2"
        then have "i \<le> idx" using k2(3) by simp
        from p [OF this] show "vars m2 ! i \<in># ?E m2 \<and> proj m2 i (vars m2 ! i)" by blast
      qed
      moreover have "cuddUniqueInter idx (DD_ONE m) (Cudd_Not (DD_ONE m)) m = Some (?v, m2)"
        unfolding run using True fnd by simp
      ultimately show ?thesis using k2(1,3) ex by blast
    qed
  qed
qed

end
