(* ===== verification/CuddDemo.thy ===== *)
theory CuddDemo
  imports CuddOps CuddResize
begin

text \<open>
  A small concrete manager that satisfies the invariant: two variables, the first on top, the
  constant node and the two projection functions, one block of nodes at address \<open>0x1000\<close>,
  empty tables otherwise. The theorems are applied to it.
\<close>

subsection \<open>The manager\<close>

definition demo_one :: ptr where "demo_one = 0x1010"

definition demo_x :: ptr where "demo_x = 0x1020"

definition demo_y :: ptr where "demo_y = 0x1030"

definition demo_node :: "ptr \<Rightarrow> DdNode" where
  "demo_node p =
     (if p = demo_one then \<lparr>index = CUDD_CONST_INDEX, ref = 5, type = Value 0x3ff0000000000000\<rparr>
      else if p = demo_x then \<lparr>index = 0, ref = 1, type = Kids demo_one (Cudd_Not demo_one)\<rparr>
      else if p = demo_y then \<lparr>index = 1, ref = 1, type = Kids demo_one (Cudd_Not demo_one)\<rparr>
      else \<lparr>index = 0, ref = 0, type = Kids NULL NULL\<rparr>)"

definition demo_heap :: "ptr \<rightharpoonup> DdNode" where
  "demo_heap p = (if 0x1010 \<le> p \<and> p < 0x1010 + 16 * 1022 \<and> p AND 15 = 0
     then Some (demo_node p) else None)"

definition demo_table :: "ptr \<Rightarrow> DdSubtable" where
  "demo_table p = \<lparr>nodelist = (\<lambda>j. [[], []][j := [p]]) (ddHash demo_one (Cudd_Not demo_one) 31),
     shift = 31, sub_slots = 2, sub_keys = 1, sub_maxKeys = 8, sub_dead = 0\<rparr>"

definition demo :: DdManager where
  "demo = \<lparr>heap = demo_heap, DD_ONE = demo_one, DD_ZERO = Cudd_Not demo_one,
     cache = replicate 4 \<lparr>c_f = NULL, c_g = NULL, c_h = NULL, c_data = NULL\<rparr>,
     cacheSlots = 4, cacheShift = 30, cacheMisses = 1, cacheHits = 0, minHit = 3 / 10,
     cacheSlack = 8, maxCacheHard = 16, dsize = 2, dsizeZ = 0, maxSize = 2, maxSizeZ = 0,
     subtables = [demo_table demo_x, demo_table demo_y], subtableZ = [],
     constants = \<lparr>nodelist = [[demo_one]], shift = 31, sub_slots = 2, sub_keys = 1,
       sub_maxKeys = 8, sub_dead = 0\<rparr>,
     slots = 6, keys = 3, keysZ = 0, dead = 0, deadZ = 0, maxLive = 0xffffffff,
     minDead = 6, gcFrac = 1, gcEnabled = True, looseUpTo = 100, initSlots = 8,
     stackSize = 3, allocated = 3, reclaimed = 0, perm = [0, 1], invperm = [0, 1], permZ = [],
     vars = [demo_x, demo_y], memoryList = [0x1000],
     nextFree = map (\<lambda>i. 0x1010 + of_nat i * 16) [3 ..< 1022], stash = False,
     deathRow = replicate 4 NULL, nextDead = 0, deadMask = 3, reordered = 0,
     autoDyn = False, autoDynZ = False, nextDyn = 4004, countDead = 0xffffffff,
     maxReorderings = 0xffffffff, errorCode = CUDD_NO_ERROR, startTime = 0,
     timeLimit = 0xffffffff, memused = 16384, maxmem = 0x10000000, maxmemhard = 0x20000000,
     garbageCollections = 0, totCachehits = 0, totCacheMisses = 0, cachecollisions = 0,
     cacheinserts = 0, cacheLastInserts = 0, cachedeletions = 0, peakLiveNodes = 3,
     os_chunks = [], os_allocs = [], os_clock = [], oom_called = False\<rparr>"

definition demo_ext :: "ptr multiset" where
  "demo_ext = {# demo_one, demo_x, demo_y #}"

lemmas demo_addr = demo_one_def demo_x_def demo_y_def

lemma demo_hash: "ddHash demo_one (Cudd_Not demo_one) 31 = 0"
  by (simp add: ddHash_def demo_addr Cudd_Not_def DD_P1_def DD_P2_def drop_bit_eq_div)

lemma demo_cont:
  "cont demo demo_one = Some (CUDD_CONST_INDEX, Value 0x3ff0000000000000)"
  "cont demo demo_x = Some (0, Kids demo_one (Cudd_Not demo_one))"
  "cont demo demo_y = Some (1, Kids demo_one (Cudd_Not demo_one))"
  by (simp_all add: cont_def demo_def demo_heap_def demo_node_def demo_addr)

lemma demo_refc:
  "refc demo demo_one = 5" "refc demo demo_x = 1" "refc demo demo_y = 1"
  "p \<noteq> demo_one \<Longrightarrow> p \<noteq> demo_x \<Longrightarrow> p \<noteq> demo_y \<Longrightarrow> refc demo p = 0"
  by (simp_all add: refc_def demo_def demo_heap_def demo_node_def demo_addr)

lemma demo_fields:
  "DD_ONE demo = demo_one" "dsize demo = 2" "perm demo = [0, 1]" "invperm demo = [0, 1]"
  "subtables demo = [demo_table demo_x, demo_table demo_y]" "stackSize demo = 3"
  "dead demo = 0" "keys demo = 3" "drow demo = {#}" "stash demo = False" "os_chunks demo = []"
  "memoryList demo = [0x1000]" "sub_dead (constants demo) = 0" "sub_keys (constants demo) = 1"
  "cnodes demo = {demo_one}" "heap demo = demo_heap"
  by (simp_all add: demo_def drow_def cnodes_def)

lemma demo_rows: "trows demo = [[[demo_x], []], [[demo_y], []]]" "tshifts demo = [31, 31]"
  by (simp_all add: trows_def tshifts_def demo_fields demo_table_def demo_hash)

lemma demo_nodes: "tabnodes demo = {demo_x, demo_y}" "nodes demo = {demo_one, demo_x, demo_y}"
  by (auto simp: tabnodes_def nodes_def demo_rows demo_fields)

lemma demo_kids:
  "kT demo demo_x = demo_one" "kE demo demo_x = Cudd_Not demo_one"
  "kT demo demo_y = demo_one" "kE demo demo_y = Cudd_Not demo_one"
  "nidx demo demo_x = 0" "nidx demo demo_y = 1"
  by (simp_all add: kT_def kE_def nidx_def demo_cont)

lemma demo_lev: "lev demo demo_one = 2" "lev demo demo_x = 0" "lev demo demo_y = 1"
  by (simp_all add: lev_def demo_kids demo_fields) (simp_all add: demo_addr)

lemma demo_ptrs:
  "\<not> Cudd_IsComplement demo_one" "\<not> Cudd_IsComplement demo_x" "\<not> Cudd_IsComplement demo_y"
  "Cudd_Regular demo_one = demo_one" "Cudd_Regular demo_x = demo_x" "Cudd_Regular demo_y = demo_y"
  "demo_x \<noteq> demo_one" "demo_y \<noteq> demo_one" "demo_y \<noteq> demo_x"
  "demo_one \<noteq> demo_x" "demo_one \<noteq> demo_y" "demo_x \<noteq> demo_y" "demo_one \<noteq> NULL" "demo_x \<noteq> NULL"
  "demo_y \<noteq> NULL" "demo_one AND 15 = 0" "demo_x AND 15 = 0" "demo_y AND 15 = 0"
  by (simp_all add: demo_addr Cudd_IsComplement_def Cudd_Regular_def)

lemma demo_store: "store_ok demo"
proof -
  have "order_ok demo"
    by (auto simp: order_ok_def demo_fields less_2_cases_iff)
  moreover have "table_ok demo"
    by (auto simp: table_ok_def chain_ok_def demo_rows demo_fields demo_cont demo_hash less_Suc_eq numeral_2_eq_2)
  moreover have "one_ok demo" by (simp add: one_ok_def demo_fields demo_ptrs demo_cont)
  moreover have "node_ok demo p" if "p \<in> tabnodes demo" for p
    using that by (auto simp: node_ok_def demo_nodes demo_kids demo_ptrs demo_lev)
  ultimately show ?thesis by (simp add: store_ok_def)
qed

lemma demo_dset: "dset {} demo = {}" "live {} demo = {demo_x, demo_y}"
  by (auto simp: dset_def live_def demo_nodes demo_refc)

lemma demo_graph: "graph_ok demo_ext {#} {} demo"
proof -
  have "refs_ok demo_ext {#} {} demo"
    by (auto simp: refs_ok_def demo_ext_def demo_nodes demo_fields demo_refc par_def demo_dset
        kidcount_def demo_kids demo_ptrs)
  moreover have "deads_ok {} demo"
    by (auto simp: deads_ok_def demo_dset demo_fields on_level_def demo_table_def less_2_cases_iff)
  ultimately show ?thesis using demo_store by (simp add: graph_ok_def)
qed

lemma demo_fits: "chunk_fits 0x1000"
  by (simp add: chunk_fits_def DD_MEM_CHUNK_def)

lemma demo_slots: "chunk_slots 0x1000 = demo_one # demo_x # demo_y # nextFree demo"
proof -
  have u: "[0 ..< 1022] = 0 # 1 # 2 # [3 ..< 1022 :: nat]"
    using upt_conv_Cons [of 0 1022] upt_conv_Cons [of 1 1022] upt_conv_Cons [of 2 1022]
    by (simp only: arith_simps semiring_norm)
  have b: "chunk_base 0x1000 = 0x1010" by (simp add: chunk_base_def sizeof_DdNode_def)
  show ?thesis
    unfolding chunk_slots_def DD_MEM_CHUNK_def u b
    by (simp only: list.map) (simp add: demo_addr sizeof_DdNode_def demo_def)
qed

lemma demo_pool: "pool demo = chunk_slots 0x1000" "fresh_pool demo = []"
  by (simp_all add: pool_def fresh_pool_def demo_fields)

lemma demo_slot_heap:
  assumes "p \<in> set (chunk_slots 0x1000)"
  shows "p \<in> dom (heap demo)"
proof -
  obtain i where i: "i < 1022" "p = chunk_base 0x1000 + of_nat i * sizeof_DdNode"
    using assms by (auto simp: chunk_slots_def DD_MEM_CHUNK_def)
  have "unat p = 16 * (257 + i)"
    using slot_unat [OF demo_fits, of i] i by (simp add: DD_MEM_CHUNK_def)
  then have "0x1010 \<le> p" "p < 0x1010 + 16 * 1022"
    using i(1) by (simp_all add: word_le_nat_alt word_less_nat_alt)
  then show ?thesis
    using slotE(1) [OF demo_fits assms] by (simp add: demo_fields demo_heap_def dom_def)
qed

lemma demo_mem: "mem_ok demo"
proof -
  have d: "distinct (pool demo)" using chunk_slots_distinct [OF demo_fits] by (simp add: demo_pool)
  have "set (pool demo) \<subseteq> dom (heap demo)" using demo_slot_heap by (auto simp: demo_pool)
  moreover have "distinct (nextFree demo)" "demo_one \<notin> set (nextFree demo)"
    "demo_x \<notin> set (nextFree demo)" "demo_y \<notin> set (nextFree demo)"
    using d by (simp_all add: demo_pool demo_slots)
  ultimately show ?thesis
    using d demo_refc(4) demo_fits
    by (auto simp: mem_ok_def demo_fields demo_nodes demo_pool(2) demo_refc demo_ptrs)
      (auto simp: demo_pool demo_slots)
qed

lemma demo_ok: "mgr_ok demo_ext {} demo"
proof -
  have "keys_ok demo"
  proof -
    have "on_level demo (tabnodes demo) 0 = {demo_x}" "on_level demo (tabnodes demo) 1 = {demo_y}"
      by (auto simp: on_level_def demo_nodes demo_lev)
    then show ?thesis
      by (auto simp: keys_ok_def demo_fields demo_table_def less_2_cases_iff demo_nodes demo_ptrs)
  qed
  moreover have "sizes_ok demo"
    by (auto simp: sizes_ok_def demo_fields demo_table_def less_2_cases_iff Let_def)
  moreover have "cache_ok demo" by (simp add: cache_ok_def demo_def entry_ok_def)
  moreover have "misc_ok demo"
  proof -
    have "dsizeZ demo = 0" "deadZ demo = 0" "\<not> autoDyn demo" "maxSize demo = 2" "maxSizeZ demo = 0"
      "initSlots demo = 2 ^ 3" "vars demo = [demo_x, demo_y]" by (simp_all add: demo_def)
    then show ?thesis by (auto simp: misc_ok_def dims_ok_def demo_fields intro!: exI [of _ 3])
  qed
  moreover have "row_ok demo"
  proof -
    have "deathRow demo = replicate 4 NULL" "nextDead demo = 0" "deadMask demo = 3"
      by (simp_all add: demo_def)
    moreover have "\<exists>k. \<forall>i < 4. \<not> i < (k :: nat)" by (rule exI [of _ 0]) simp
    ultimately show ?thesis by (simp add: row_ok_def)
  qed
  ultimately show ?thesis
    using demo_mem demo_graph
    by (simp add: mgr_ok_def loose_ok_def rest_ok_def demo_fields) (simp add: demo_ext_def)
qed

text \<open>The functions of the two projections, and that the caller holds the three nodes.\<close>

lemma demo_sem:
  "sem demo env demo_one" "sem demo env demo_x = env 0" "sem demo env demo_y = env 1"
proof -
  show one: "sem demo env demo_one" using sem_one [OF demo_store] by (simp add: demo_fields)
  then show "sem demo env demo_x = env 0" "sem demo env demo_y = env 1"
    using sem_node [OF demo_store, of demo_x env] sem_node [OF demo_store, of demo_y env]
    by (simp_all add: demo_nodes demo_kids)
qed

lemma demo_held: "held demo_ext demo demo_one" "held demo_ext demo demo_x" "held demo_ext demo demo_y"
  by (simp_all add: heldI demo_ext_def demo_ptrs)

lemma demo_vars: "vars_ok demo_ext demo"
proof -
  have "vars demo = [demo_x, demo_y]" by (simp add: demo_def)
  then show ?thesis
    by (auto simp: vars_ok_def proj_def demo_fields demo_nodes demo_kids demo_ext_def less_2_cases_iff)
qed

end
