(* ===== verification/CuddInit.thy ===== *)
theory CuddInit
  imports CuddResize
begin

unbundle bit_operations_syntax

text \<open>
  The making of a manager: \<open>Cudd_Init\<close> of \<open>lib/SVF/CUDD/cuddInit.c\<close>, \<open>cuddInitTable\<close> and
  \<open>cuddUniqueConst\<close> of \<open>cuddTable.c\<close>, \<open>cuddInitCache\<close> of \<open>cuddCache.c\<close>. A manager without
  variables for zero-suppressed diagrams either cannot be made, or satisfies the invariant.

  The values of constants are kept as the bits of a \<open>double\<close>; \<open>double\<close> reads them as an exact
  rational, and the comparisons of the code are made on the rationals.
\<close>

subsection \<open>Constant values\<close>

definition double :: "CUDD_VALUE_TYPE \<Rightarrow> rat" where
  "double w = (
     let e = unat (drop_bit 52 w AND 0x7ff);
         f = of_nat (unat (w AND 0xfffffffffffff)) / 2 ^ 52;
         mag = (if e = 0 then f / 2 ^ 1022
                else if e \<ge> 1023 then (1 + f) * 2 ^ (e - 1023) else (1 + f) / 2 ^ (1023 - e))
     in if bit w 63 then - mag else mag)"

definition DD_ONE_VAL :: CUDD_VALUE_TYPE where "DD_ONE_VAL = 0x3ff0000000000000"

definition DD_ZERO_VAL :: CUDD_VALUE_TYPE where "DD_ZERO_VAL = 0"

definition DD_PLUS_INF_VAL :: CUDD_VALUE_TYPE where "DD_PLUS_INF_VAL = 0x7ea2aa4f4a405be2"

definition DD_MINUS_INF_VAL :: CUDD_VALUE_TYPE where "DD_MINUS_INF_VAL = 0xfea2aa4f4a405be2"

definition DD_CRI_HI_MARK :: rat where "DD_CRI_HI_MARK = 10 ^ 151"

definition DD_EPSILON :: rat where "DD_EPSILON = 1 / 10 ^ 12"

definition cuddAdjust :: "CUDD_VALUE_TYPE \<Rightarrow> CUDD_VALUE_TYPE" where
  "cuddAdjust x =
     (if double x \<ge> DD_CRI_HI_MARK then DD_PLUS_INF_VAL
      else if double x \<le> - DD_CRI_HI_MARK then DD_MINUS_INF_VAL else x)"

definition ddEqualVal :: "rat \<Rightarrow> rat \<Rightarrow> rat \<Rightarrow> bool" where
  "ddEqualVal x y e \<longleftrightarrow> \<bar>x - y\<bar> < e"

text \<open>The union \<open>hack\<close>: the two halves of a \<open>double\<close>.\<close>

definition const_hash :: "CUDD_VALUE_TYPE \<Rightarrow> nat \<Rightarrow> nat" where
  "const_hash value s = ddHash (ucast value) (ucast (drop_bit 32 value)) s"

subsection \<open>The table of constants\<close>

fun find_const :: "DdManager \<Rightarrow> CUDD_VALUE_TYPE \<Rightarrow> ptr list \<Rightarrow> ptr option option" where
  "find_const unique value [] = Some None"
| "find_const unique value (looking # rest) = do {
     n \<leftarrow> heap unique looking;
     case type n of
       Value w \<Rightarrow>
         if double w = double value \<or> ddEqualVal (double w) (double value) DD_EPSILON
         then Some (Some looking) else find_const unique value rest
     | Kids T E \<Rightarrow> None }"

text \<open>Every list is walked from its head, and each node is pushed on its new list.\<close>

fun move_const_chain :: "DdManager \<Rightarrow> nat \<Rightarrow> ptr list \<Rightarrow> ptr list list \<Rightarrow> ptr list list option" where
  "move_const_chain unique s [] rows = Some rows"
| "move_const_chain unique s (node # rest) rows = do {
     n \<leftarrow> heap unique node;
     case type n of
       Value w \<Rightarrow> do {
         chain \<leftarrow> nth_opt rows (const_hash w s);
         rows \<leftarrow> upd_opt rows (const_hash w s) (node # chain);
         move_const_chain unique s rest rows }
     | Kids T E \<Rightarrow> None }"

fun move_const_rows :: "DdManager \<Rightarrow> nat \<Rightarrow> ptr list list \<Rightarrow> ptr list list \<Rightarrow> ptr list list option" where
  "move_const_rows unique s [] rows = Some rows"
| "move_const_rows unique s (old # olds) rows = do {
     rows \<leftarrow> move_const_chain unique s old rows;
     move_const_rows unique s olds rows }"

definition double_maxKeys :: "DdSubtable \<Rightarrow> DdSubtable" where
  "double_maxKeys st = st\<lparr>sub_maxKeys := push_bit 1 (sub_maxKeys st)\<rparr>"

definition grow_constants :: "DdManager \<Rightarrow> DdManager option" where
  "grow_constants unique = (
     let st = constants unique; oldslots = sub_slots st; slts = 2 * oldslots;
         (got, unique) = os_alloc unique in
     if \<not> got then do {
       (_, unique) \<leftarrow> cuddGarbageCollect True unique;
       Some (unique\<lparr>subtables := map double_maxKeys (take (dsize unique) (subtables unique))
                      @ drop (dsize unique) (subtables unique),
                    constants := double_maxKeys (constants unique)\<rparr>) }
     else if shift st = 0 then None
     else do {
       rows \<leftarrow> move_const_rows unique (shift st - 1) (nodelist st) (replicate slts []);
       ddFixLimits (unique
         \<lparr>constants := st\<lparr>nodelist := rows, sub_slots := slts, shift := shift st - 1,
             sub_maxKeys := of_nat (slts * DD_MAX_SUBTABLE_DENSITY)\<rparr>,
          memused := memused unique + of_nat (slts - oldslots) * sizeof_DdNodePtr,
          slots := slots unique + of_nat (slts - oldslots)\<rparr>) })"

text \<open>\<open>cuddRehash\<close> on the table of constants.\<close>

definition rehash_constants :: "DdManager \<Rightarrow> DdManager option" where
  "rehash_constants unique = (
     let unique = rehash_limits unique in
     if gcFrac unique \<noteq> DD_GC_FRAC_MIN \<and> memused unique > maxmem unique
     then do {
       unique \<leftarrow> cuddShrinkDeathRow (unique
         \<lparr>gcFrac := DD_GC_FRAC_MIN, minDead := frac_of_slots DD_GC_FRAC_MIN (slots unique)\<rparr>);
       (collected, unique) \<leftarrow> cuddGarbageCollect True unique;
       if collected > 0 then Some unique else grow_constants unique }
     else grow_constants unique)"

definition constants_full :: "DdManager \<Rightarrow> bool" where
  "constants_full unique \<longleftrightarrow> sub_keys (constants unique) > sub_maxKeys (constants unique)"

definition constants_room :: "DdManager \<Rightarrow> DdManager option" where
  "constants_room unique =
     (if constants_full unique then
        (if gcEnabled unique \<and> (dead unique > minDead unique \<or>
            10 * sub_dead (constants unique) > 9 * sub_keys (constants unique))
         then map_option snd (cuddGarbageCollect True unique)
         else rehash_constants unique)
      else Some unique)"

definition insert_const :: "nat \<Rightarrow> CUDD_VALUE_TYPE \<Rightarrow> DdManager \<Rightarrow> ptr result" where
  "insert_const pos value unique = (
     let unique = unique\<lparr>keys := keys unique + 1,
           constants := (constants unique)\<lparr>sub_keys := sub_keys (constants unique) + 1\<rparr>\<rparr> in do {
       (looking, unique) \<leftarrow> cuddAllocNode unique;
       if looking = NULL then Some (NULL, unique)
       else do {
         n \<leftarrow> heap unique looking;
         let unique = put_node looking (n\<lparr>index := CUDD_CONST_INDEX, type := Value value\<rparr>) unique;
         chain \<leftarrow> nth_opt (nodelist (constants unique)) pos;
         rows \<leftarrow> upd_opt (nodelist (constants unique)) pos (looking # chain);
         Some (looking, unique\<lparr>constants := (constants unique)\<lparr>nodelist := rows\<rparr>\<rparr>) } })"

definition cuddUniqueConst :: "CUDD_VALUE_TYPE \<Rightarrow> DdManager \<Rightarrow> ptr result" where
  "cuddUniqueConst value unique = do {
     unique \<leftarrow> constants_room unique;
     let value = cuddAdjust value;
     let value = (if \<bar>double value\<bar> < DD_EPSILON then DD_ZERO_VAL else value);
     let pos = const_hash value (shift (constants unique));
     chain \<leftarrow> nth_opt (nodelist (constants unique)) pos;
     found \<leftarrow> find_const unique value chain;
     (case found of
        Some looking \<Rightarrow> do {
          n \<leftarrow> heap unique looking;
          unique \<leftarrow> (if ref n = 0 then cuddReclaim looking unique else Some unique);
          Some (looking, unique) }
      | None \<Rightarrow> insert_const pos value unique) }"

subsection \<open>The tables of a new manager\<close>

text \<open>The requested number of slots is rounded up to a power of two, from 8.\<close>

partial_function (option) round_slots :: "uint32 \<Rightarrow> uint32 \<Rightarrow> uint32 option" where
  "round_slots s numSlots = (if s < numSlots then round_slots (push_bit 1 s) numSlots else Some s)"

text \<open>
  What a new manager depends on: the size of the structure \<open>DdManager\<close>, which the compiler
  fixes, and the answers of the operating system.
\<close>

record DdEnv =
  sizeof_DdManager :: uint32
  env_chunks :: "ptr list"
  env_allocs :: "bool list"
  env_clock :: "uint32 list"

text \<open>
  The structure is allocated first; its fields are then set, and the arrays allocated in turn.
  Any failure frees what was allocated before. Arrays beyond the initial variables hold
  nothing yet.
\<close>

definition new_manager :: "nat \<Rightarrow> uint32 \<Rightarrow> uint32 \<Rightarrow> DdEnv \<Rightarrow> DdManager" where
  "new_manager numVars slts loose e = (
     let maxS = ddMax DD_DEFAULT_RESIZE numVars; maxZ = DD_DEFAULT_RESIZE;
         depth = 2 ^ cuddComputeFloorLog2 (unat (drop_bit 2 loose));
         sl = (of_nat numVars + 1) * slts;
         n = unat slts
     in \<lparr>heap = Map.empty, DD_ONE = NULL, DD_ZERO = NULL, cache = [], cacheSlots = 0, cacheShift = 0,
       cacheMisses = 0, cacheHits = 0, minHit = 0, cacheSlack = 0, maxCacheHard = 0,
       dsize = numVars, dsizeZ = 0, maxSize = maxS, maxSizeZ = maxZ,
       subtables = replicate numVars (new_subtable n) @ replicate (maxS - numVars) (new_subtable 0),
       subtableZ = replicate maxZ (new_subtable 0), constants = new_subtable n,
       slots = sl, keys = 0, keysZ = 0, dead = 0, deadZ = 0, maxLive = - 1,
       minDead = frac_of_slots DD_GC_FRAC_HI sl, gcFrac = DD_GC_FRAC_HI, gcEnabled = True,
       looseUpTo = loose, initSlots = n, stackSize = ddMax maxS maxZ + 1, allocated = 0, reclaimed = 0,
       perm = [0 ..< numVars] @ replicate (maxS - numVars) 0,
       invperm = [0 ..< numVars] @ replicate (maxS - numVars) 0,
       permZ = replicate maxZ 0, vars = [], memoryList = [], nextFree = [], stash = False,
       deathRow = replicate depth NULL, nextDead = 0, deadMask = depth - 1, reordered = 0,
       autoDyn = False, autoDynZ = False, nextDyn = 4004, countDead = - 1, maxReorderings = - 1,
       errorCode = CUDD_NO_ERROR, startTime = 0, timeLimit = - 1,
       memused = sizeof_DdManager e + (of_nat maxS + of_nat maxZ) * (sizeof_DdSubtable + 8)
         + (of_nat numVars + 1) * slts * sizeof_DdNodePtr
         + (of_nat (ddMax maxS maxZ) + 1) * sizeof_DdNodePtr + of_nat depth * sizeof_DdNodePtr,
       maxmem = 0, maxmemhard = - 1, garbageCollections = 0, totCachehits = 0, totCacheMisses = 0,
       cachecollisions = 0, cacheinserts = 0, cacheLastInserts = 0, cachedeletions = 0,
       peakLiveNodes = 0, os_chunks = env_chunks e, os_allocs = env_allocs e, os_clock = env_clock e,
       oom_called = False\<rparr>)"

definition cuddInitTable :: "nat \<Rightarrow> uint32 \<Rightarrow> uint32 \<Rightarrow> DdEnv \<Rightarrow> DdManager option option" where
  "cuddInitTable numVars numSlots loose e = (case env_allocs e of
     True # bs \<Rightarrow> do {
       slts \<leftarrow> round_slots 8 numSlots;
       let (ok, unique) = os_allocs_all (9 + numVars) (new_manager numVars slts loose (e\<lparr>env_allocs := bs\<rparr>));
       if \<not> ok then Some None
       else let (t, unique) = util_cpu_time unique in Some (Some (unique\<lparr>startTime := t\<rparr>)) }
   | _ \<Rightarrow> Some None)"

definition Cudd_SetMinHit :: "nat \<Rightarrow> DdManager \<Rightarrow> DdManager" where
  "Cudd_SetMinHit hr dd = dd\<lparr>minHit := of_nat hr / (100 - of_nat hr)\<rparr>"

definition DD_MIN_HIT :: nat where "DD_MIN_HIT = 30"

definition cuddInitCache :: "uint32 \<Rightarrow> uint32 \<Rightarrow> DdManager \<Rightarrow> bool result" where
  "cuddInitCache cacheSz maxSz unique = (
     let logSize = cuddComputeFloorLog2 (unat (ddMax cacheSz (slots unique div 2)));
         cacheSz = push_bit logSize 1;
         (got, unique) = os_alloc unique in
     if \<not> got then Some (False, (MMoutOfMemory unique)\<lparr>errorCode := CUDD_MEMORY_OUT\<rparr>)
     else if \<not> alloc_fits sizeof_DdCache (unat cacheSz + 1) then None
     else let unique = Cudd_SetMinHit DD_MIN_HIT (unique
            \<lparr>memused := memused unique + (cacheSz + 1) * sizeof_DdCache,
             cacheSlots := cacheSz, cacheShift := 32 - logSize, maxCacheHard := maxSz,
             cacheSlack := sint (ddMin maxSz (DD_MAX_CACHE_TO_SLOTS_RATIO * slots unique)) - 2 * sint cacheSz\<rparr>);
          misses = nat \<lfloor>of_nat (unat cacheSz) * minHit unique + 1\<rfloor>
     in Some (True, unique
       \<lparr>cacheMisses := misses, cacheHits := 0, totCachehits := 0, totCacheMisses := - int misses,
        cachecollisions := 0, cacheinserts := 0, cacheLastInserts := 0, cachedeletions := 0,
        cache := replicate (unat cacheSz) empty_entry\<rparr>))"

text \<open>
  The four predefined constants; \<open>unique->plusinfinity\<close> and \<open>unique->minusinfinity\<close> are read by
  the operations on algebraic decision diagrams only, and not kept.
\<close>

definition init_constant :: "(ptr \<Rightarrow> DdManager \<Rightarrow> DdManager) \<Rightarrow> CUDD_VALUE_TYPE \<Rightarrow> DdManager \<Rightarrow> bool result" where
  "init_constant field value unique = do {
     (c, unique) \<leftarrow> cuddUniqueConst value unique;
     let unique = field c unique;
     if c = NULL then Some (False, unique)
     else do { unique \<leftarrow> cuddRef c unique; Some (True, unique) } }"

definition init_constants :: "DdManager \<Rightarrow> bool result" where
  "init_constants unique = do {
     (ok, unique) \<leftarrow> init_constant (\<lambda>c m. m\<lparr>DD_ONE := c\<rparr>) DD_ONE_VAL unique;
     if \<not> ok then Some (False, unique) else do {
     (ok, unique) \<leftarrow> init_constant (\<lambda>c m. m\<lparr>DD_ZERO := c\<rparr>) DD_ZERO_VAL unique;
     if \<not> ok then Some (False, unique) else do {
     (ok, unique) \<leftarrow> init_constant (\<lambda>c m. m) DD_PLUS_INF_VAL unique;
     if \<not> ok then Some (False, unique) else
     init_constant (\<lambda>c m. m) DD_MINUS_INF_VAL unique } } }"

text \<open>The array of projection functions, and the functions of the initial variables.\<close>

definition init_vars :: "DdManager \<Rightarrow> bool result" where
  "init_vars unique = (
     let (got, unique) = os_alloc unique in
     if \<not> got then Some (False, (MMoutOfMemory unique)\<lparr>errorCode := CUDD_MEMORY_OUT\<rparr>)
     else create_vars [0 ..< dsize unique] (unique\<lparr>vars := replicate (maxSize unique) NULL\<rparr>))"

definition DD_MAX_LOOSE_FRACTION :: uint32 where "DD_MAX_LOOSE_FRACTION = 5"

definition DD_MAX_CACHE_FRACTION :: uint32 where "DD_MAX_CACHE_FRACTION = 3"

text \<open>
  \<open>Cudd_Init\<close> without variables for zero-suppressed diagrams. The argument \<open>limit\<close> is the
  answer of \<open>getSoftDataLimit\<close>. The result is \<open>Some None\<close> when the code returns \<open>NULL\<close>.
\<close>

definition Cudd_Init :: "nat \<Rightarrow> uint32 \<Rightarrow> uint32 \<Rightarrow> uint32 \<Rightarrow> uint32 \<Rightarrow> DdEnv \<Rightarrow> DdManager option option" where
  "Cudd_Init numVars numSlots cacheSz maxMemory limit e = (
     let maxMemory = (if maxMemory = 0 then limit else maxMemory);
         loose = maxMemory div sizeof_DdNode div DD_MAX_LOOSE_FRACTION in do {
       table \<leftarrow> cuddInitTable numVars numSlots loose e;
       case table of
         None \<Rightarrow> Some None
       | Some unique \<Rightarrow>
           let unique = unique\<lparr>maxmem := maxMemory div 10 * 9\<rparr>;
               maxCacheSize = maxMemory div sizeof_DdCache div DD_MAX_CACHE_FRACTION in do {
           (ok, unique) \<leftarrow> cuddInitCache cacheSz maxCacheSize unique;
           if \<not> ok then Some None
           else let (got, unique) = os_alloc unique; unique = unique\<lparr>stash := got\<rparr> in do {
             (ok, unique) \<leftarrow> init_constants unique;
             if \<not> ok then Some None else do {
               (ok, unique) \<leftarrow> init_vars unique;
               if \<not> ok then Some None
               else Some (Some (unique\<lparr>memused := memused unique
                      + sizeof_DdNodePtr * of_nat (maxSize unique)\<rparr>)) } } } })"

subsection \<open>A manager in the making\<close>

text \<open>
  \<open>seed nv n cs u m\<close>: the tables are empty except for the constants \<open>cs\<close>, with \<open>n\<close> keys counted,
  and \<open>nv\<close> variables are announced.
  There is no node of a variable, and \<open>vars\<close> need not be set yet; \<open>u\<close> is what \<open>DD_ONE\<close> holds.
\<close>

definition blank_order :: "DdManager \<Rightarrow> bool" where
  "blank_order m \<longleftrightarrow> dsize m < 65535 \<and> dsize m \<le> maxSize m \<and> length (subtables m) = maxSize m \<and>
     length (perm m) = maxSize m \<and> length (invperm m) = maxSize m \<and> max (maxSize m) (maxSizeZ m) < stackSize m \<and>
     (\<forall>l < dsize m. perm m ! l = l \<and> invperm m ! l = l) \<and> (\<exists>k. 3 \<le> k \<and> k \<le> 27 \<and> initSlots m = 2 ^ k)"

definition blank_tables :: "DdManager \<Rightarrow> bool" where
  "blank_tables m \<longleftrightarrow> (\<forall>l < dsize m. let st = subtables m ! l; i = initSlots m in
     nodelist st = replicate i [] \<and> shift st = 32 - cuddComputeFloorLog2 i \<and> sub_slots st = i \<and>
     sub_keys st = 0 \<and> sub_dead st = 0 \<and> 4 * i \<le> unat (sub_maxKeys st) \<and>
     (stash m \<longrightarrow> unat (sub_maxKeys st) = 4 * i))"

definition blank_row :: "DdManager \<Rightarrow> bool" where
  "blank_row m \<longleftrightarrow> (\<exists>d. deathRow m = replicate d NULL \<and> deadMask m < d) \<and> nextDead m = 0"

definition blank_rest :: "DdManager \<Rightarrow> bool" where
  "blank_rest m \<longleftrightarrow> dsizeZ m = 0 \<and> keysZ m = 0 \<and> dead m = 0 \<and> deadZ m = 0 \<and> \<not> autoDyn m \<and> maxLive m = - 1 \<and>
     maxmemhard m = - 1 \<and> timeLimit m = - 1 \<and> set (cache m) \<subseteq> {empty_entry} \<and> cache_geo m"

definition const_table :: "nat \<Rightarrow> (ptr \<times> CUDD_VALUE_TYPE) list \<Rightarrow> DdManager \<Rightarrow> bool" where
  "const_table n cs m \<longleftrightarrow> keys m = of_nat n \<and> sub_keys (constants m) = of_nat n \<and> sub_dead (constants m) = 0 \<and>
     unat (sub_maxKeys (constants m)) = 4 * initSlots m \<and> length (nodelist (constants m)) = initSlots m \<and>
     shift (constants m) = 32 - cuddComputeFloorLog2 (initSlots m) \<and> set (concat (nodelist (constants m))) = fst ` set cs"

definition seed_mem :: "(ptr \<times> CUDD_VALUE_TYPE) list \<Rightarrow> DdManager \<Rightarrow> bool" where
  "seed_mem cs m \<longleftrightarrow> (\<forall>c \<in> set (memoryList m). chunk_fits c) \<and>
     (\<forall>c \<in> set (os_chunks m). c \<noteq> NULL \<longrightarrow> chunk_fits c) \<and>
     distinct (pool m) \<and> set (pool m) = dom (heap m) \<and>
     distinct (fresh_pool m) \<and> set (fresh_pool m) \<inter> dom (heap m) = {} \<and>
     fst ` set cs \<subseteq> set (pool m) \<and> distinct (map fst cs) \<and>
     (\<forall>(p, v) \<in> set cs. cont m p = Some (CUDD_CONST_INDEX, Value v)) \<and>
     (\<forall>p \<in> set (pool m) - fst ` set cs. refc m p = 0) \<and>
     distinct (nextFree m) \<and> set (nextFree m) \<subseteq> set (pool m) - fst ` set cs"

definition seed :: "nat \<Rightarrow> nat \<Rightarrow> (ptr \<times> CUDD_VALUE_TYPE) list \<Rightarrow> ptr \<Rightarrow> DdManager \<Rightarrow> bool" where
  "seed nv n cs u m \<longleftrightarrow> blank_order m \<and> blank_tables m \<and> blank_row m \<and> blank_rest m \<and> const_table n cs m \<and>
     seed_mem cs m \<and> DD_ONE m = u \<and> dsize m = nv"

lemma seed_memD:
  assumes "seed_mem cs m"
  shows "fst ` set cs \<subseteq> set (pool m)" "set (pool m) = dom (heap m)" "(p, v) \<in> set cs \<Longrightarrow> cont m p = Some (CUDD_CONST_INDEX, Value v)"
    "p \<in> set (pool m) - fst ` set cs \<Longrightarrow> refc m p = 0"
  using assms by (auto simp only: seed_mem_def)

lemma seed_mem_cong:
  "heap m' = heap m \<Longrightarrow> memoryList m' = memoryList m \<Longrightarrow> os_chunks m' = os_chunks m \<Longrightarrow> nextFree m' = nextFree m \<Longrightarrow>
    seed_mem cs m' = seed_mem cs m"
  by (simp add: seed_mem_def pool_def fresh_pool_def cont_def refc_def)

lemmas blank_defs = blank_order_def blank_tables_def blank_row_def blank_rest_def const_table_def cache_geo_def

lemma clear_row_null: "is = [] \<or> (hd is < d) \<Longrightarrow> deathRow m = replicate d NULL \<Longrightarrow> clear_row is m = Some m"
  by (cases "is") auto

lemma seed_gc:
  assumes "seed nv n cs u m"
  shows "cuddGarbageCollect True m = Some (0, m\<lparr>nextDead := 0\<rparr>)" "seed nv n cs u (m\<lparr>nextDead := 0\<rparr>)"
proof -
  obtain d where d: "deathRow m = replicate d NULL" using assms by (auto simp: seed_def blank_row_def)
  have "clear_row [0 ..< length (deathRow m)] m = Some m" by (rule clear_row_null) (use d in \<open>auto simp: upt_rec\<close>)
  then show "cuddGarbageCollect True m = Some (0, m\<lparr>nextDead := 0\<rparr>)"
    using assms by (simp add: cuddGarbageCollect_def cuddClearDeathRow_def seed_def blank_rest_def)
  have "seed_mem cs (m\<lparr>nextDead := 0\<rparr>) = seed_mem cs m" by (rule seed_mem_cong) simp_all
  then show "seed nv n cs u (m\<lparr>nextDead := 0\<rparr>)" using assms by (auto simp: seed_def blank_defs)
qed

lemma seed_slow:
  assumes "seed nv n cs u m" "stash m"
  shows "\<exists>m'. cuddSlowTableGrowth (m\<lparr>stash := False\<rparr>) = Some m' \<and> seed nv n cs u m' \<and>
    nextFree m' = nextFree m \<and> heap m' = heap m \<and> constants m' = constants m \<and>
    os_allocs m' = os_allocs m"
proof -
  obtain d where d: "deathRow m = replicate d NULL" "deadMask m < d" "nextDead m = 0"
    using assms(1) by (auto simp: seed_def blank_row_def)
  obtain k where k: "3 \<le> k" "k \<le> 27" "initSlots m = 2 ^ k" using assms(1) by (auto simp: seed_def blank_order_def)
  let ?u = "slow_growth m"
  let ?f = "\<lambda>st. st\<lparr>sub_maxKeys := push_bit 2 (sub_maxKeys st)\<rparr>"
  have n: "dsize m \<le> length (subtables m)" using assms(1) by (simp add: seed_def blank_order_def)
  have sub: "subtables ?u ! l = ?f (subtables m ! l)" if "l < dsize m" for l
    using that n by (simp add: slow_growth_def nth_append)
  have f: "heap ?u = heap m" "dead ?u = dead m" "constants ?u = constants m" "keys ?u = keys m" "keysZ ?u = keysZ m"
    "memoryList ?u = memoryList m" "os_chunks ?u = os_chunks m" "nextFree ?u = nextFree m"
    "dsize ?u = dsize m" "perm ?u = perm m" "invperm ?u = invperm m" "stackSize ?u = stackSize m"
    "deathRow ?u = deathRow m" "nextDead ?u = nextDead m" "deadMask ?u = deadMask m" "\<not> stash ?u"
    "dsizeZ ?u = dsizeZ m" "deadZ ?u = deadZ m" "autoDyn ?u = autoDyn m" "cache ?u = cache m"
    "maxSize ?u = maxSize m" "maxSizeZ ?u = maxSizeZ m" "initSlots ?u = initSlots m" "maxLive ?u = maxLive m"
    "maxmemhard ?u = maxmemhard m" "timeLimit ?u = timeLimit m" "length (subtables ?u) = length (subtables m)"
    "DD_ONE ?u = DD_ONE m" "os_allocs ?u = os_allocs m"
    using n by (simp_all add: slow_growth_def)
  have more: "unat (push_bit 2 (sub_maxKeys (subtables m ! l))) = 16 * initSlots m" if "l < dsize m" for l
    by (rule more_keys [of "32 - k"]) (use k that assms in \<open>simp_all add: seed_def blank_tables_def Let_def\<close>)
  have bt: "blank_tables ?u"
    using assms(1) more by (simp add: seed_def blank_tables_def f sub Let_def)
  have cg: "cache_geo ?u" by (rule slow_growth_geo) (use assms(1) in \<open>simp add: seed_def blank_rest_def\<close>)
  have mk: "seed nv n cs u (?u\<lparr>deadMask := x, deathRow := replicate d' NULL\<rparr>)" if "x < d'" for x d'
  proof -
    let ?w = "?u\<lparr>deadMask := x, deathRow := replicate d' NULL\<rparr>"
    have "seed_mem cs ?w = seed_mem cs m" by (rule seed_mem_cong) (simp_all add: f)
    moreover have "blank_row ?w" using that d(3) f(14) by (auto simp: blank_row_def)
    ultimately show ?thesis
      using assms(1) bt cg by (simp add: seed_def blank_order_def blank_tables_def blank_rest_def const_table_def cache_geo_def f)
  qed
  have run: "cuddSlowTableGrowth (m\<lparr>stash := False\<rparr>) = cuddShrinkDeathRow ?u"
    by (simp add: cuddSlowTableGrowth_def slow_growth_def Let_def)
  show ?thesis
  proof (cases "d > 3")
    case True
    have "clear_row [d div 4 ..< d] ?u = Some ?u" by (rule clear_row_null [of _ d]) (use d True f in \<open>auto simp: upt_rec\<close>)
    then have "cuddShrinkDeathRow ?u = Some (?u\<lparr>deadMask := d div 4 - 1, deathRow := replicate (d div 4) NULL\<rparr>)"
      using True d f(13,14) by (simp add: cuddShrinkDeathRow_def Let_def min_def)
    moreover have "seed nv n cs u (?u\<lparr>deadMask := d div 4 - 1, deathRow := replicate (d div 4) NULL\<rparr>)"
      by (rule mk) (use True in \<open>simp add: div_greater_zero_iff\<close>)
    ultimately show ?thesis unfolding run by (simp add: f)
  next
    case False
    then have "cuddShrinkDeathRow ?u = Some ?u" using d f(13) by (simp add: cuddShrinkDeathRow_def)
    moreover have "?u = ?u\<lparr>deadMask := deadMask ?u, deathRow := replicate d NULL\<rparr>"
      using f(13) d(1) by simp
    then have "seed nv n cs u ?u" using mk [of "deadMask ?u" d] d f(15) by simp
    ultimately show ?thesis unfolding run by (simp add: f)
  qed
qed

lemma seed_chunk:
  assumes "seed nv n cs u m" "os_chunk m = (mem, m1)"
  shows "seed nv n cs u m1" "nextFree m1 = nextFree m" "constants m1 = constants m" "heap m1 = heap m"
    "os_allocs m1 = os_allocs m" "os_chunks m = c # r \<Longrightarrow> mem = c"
    "mem \<noteq> NULL \<Longrightarrow> seed nv n cs u (slice_chunk mem m1) \<and> nextFree (slice_chunk mem m1) \<noteq> [] \<and>
      constants (slice_chunk mem m1) = constants m \<and> os_allocs (slice_chunk mem m1) = os_allocs m \<and>
      length (nextFree (slice_chunk mem m1)) = DD_MEM_CHUNK \<and> (\<forall>p \<in> dom (heap m). heap (slice_chunk mem m1) p = heap m p)"
proof -
  have mem: "seed_mem cs m" using assms(1) by (simp add: seed_def)
  have cases: "os_chunks m = [] \<and> mem = NULL \<and> m1 = m \<or> (\<exists>rest. os_chunks m = mem # rest \<and> m1 = m\<lparr>os_chunks := rest\<rparr>)"
    using assms(2) by (auto simp: os_chunk_def split: list.splits)
  then show "nextFree m1 = nextFree m" and cn: "constants m1 = constants m" and "heap m1 = heap m"
    and ao: "os_allocs m1 = os_allocs m" and "os_chunks m = c # r \<Longrightarrow> mem = c" by auto
  have fp: "set (fresh_pool m1) \<subseteq> set (fresh_pool m)" "distinct (fresh_pool m1)"
    using cases mem by (auto simp: seed_mem_def fresh_pool_def split: if_splits)
  have "seed_mem cs m1"
  proof -
    have "memoryList m1 = memoryList m" "heap m1 = heap m" "nextFree m1 = nextFree m" "set (os_chunks m1) \<subseteq> set (os_chunks m)"
      using cases by auto
    then show ?thesis using mem fp by (auto simp: seed_mem_def pool_def cont_def refc_def)
  qed
  then show m1: "seed nv n cs u m1"
    using assms(1) cases by (elim disjE exE conjE) (simp_all add: seed_def blank_defs)
  assume nz: "mem \<noteq> NULL"
  then obtain rest where c: "os_chunks m = mem # rest" "m1 = m\<lparr>os_chunks := rest\<rparr>" using cases by auto
  let ?S = "set (chunk_slots mem)" and ?m = "slice_chunk mem m1"
  have fresh: "fresh_pool m = chunk_slots mem @ fresh_pool m1" using c nz by (simp add: fresh_pool_def)
  have disj: "?S \<inter> dom (heap m) = {}" "?S \<inter> set (fresh_pool m1) = {}"
    using mem by (auto simp: seed_mem_def fresh)
  have fits: "chunk_fits mem" using mem c nz by (simp add: seed_mem_def)
  have ml: "memoryList ?m = mem # memoryList m" "os_chunks ?m = rest" "nextFree ?m = chunk_slots mem"
    by (simp_all add: slice_chunk_def c(2))
  have hp: "heap ?m = (\<lambda>a. if a \<in> ?S then Some fresh_node else heap m a)" by (simp add: slice_chunk_def c(2) fun_eq_iff)
  have pl: "pool ?m = chunk_slots mem @ pool m" "fresh_pool ?m = fresh_pool m1"
    by (simp_all add: pool_def fresh_pool_def ml) (simp add: c(2))
  have dm: "dom (heap ?m) = ?S \<union> dom (heap m)" by (auto simp: hp split: if_splits)
  have cp: "p \<notin> ?S" if "p \<in> fst ` set cs" for p
  proof -
    show ?thesis using that disj(1) seed_memD [OF mem] by blast
  qed
  have ct: "cont ?m p = cont m p" "refc ?m p = refc m p" if "p \<notin> ?S" for p
    using that by (simp_all add: cont_def refc_def hp)
  have r0: "refc ?m p = 0" if "p \<in> ?S" for p using that by (simp add: refc_def hp fresh_node_def)
  have "seed_mem cs ?m"
    unfolding seed_mem_def pl dm ml
  proof (intro conjI)
    show "\<forall>c \<in> set (mem # memoryList m). chunk_fits c" "\<forall>c \<in> set rest. c \<noteq> NULL \<longrightarrow> chunk_fits c"
      using mem fits c(1) by (simp_all add: seed_mem_def)
    show "distinct (chunk_slots mem @ pool m)"
      using chunk_slots_distinct [OF fits] mem disj(1) by (simp add: seed_mem_def)
    show "set (chunk_slots mem @ pool m) = ?S \<union> dom (heap m)" using mem by (simp add: seed_mem_def)
    show "distinct (fresh_pool m1)" by (rule fp(2))
    show "set (fresh_pool m1) \<inter> (?S \<union> dom (heap m)) = {}" using mem disj(2) fp(1) by (auto simp: seed_mem_def)
    show "fst ` set cs \<subseteq> set (chunk_slots mem @ pool m)" "distinct (map fst cs)" using mem by (auto simp: seed_mem_def)
    show "\<forall>(p, v) \<in> set cs. cont ?m p = Some (CUDD_CONST_INDEX, Value v)"
      using mem ct(1) [OF cp] by (force simp: seed_mem_def)
    show "\<forall>p \<in> set (chunk_slots mem @ pool m) - fst ` set cs. refc ?m p = 0"
    proof
      fix p assume p: "p \<in> set (chunk_slots mem @ pool m) - fst ` set cs"
      show "refc ?m p = 0"
        using r0 ct(2) mem p by (cases "p \<in> ?S") (auto simp: seed_mem_def)
    qed
    show "distinct (chunk_slots mem)" by (rule chunk_slots_distinct [OF fits])
    show "?S \<subseteq> set (chunk_slots mem @ pool m) - fst ` set cs" using cp by auto
  qed
  moreover have "blank_order ?m \<and> blank_tables ?m \<and> blank_row ?m \<and> blank_rest ?m \<and> const_table n cs ?m"
    using m1 by (simp add: seed_def slice_chunk_def blank_defs)
  moreover have "DD_ONE ?m = u" "dsize ?m = nv" using m1 by (simp_all add: seed_def slice_chunk_def)
  moreover have "nextFree ?m \<noteq> []" by (simp add: ml chunk_slots_def DD_MEM_CHUNK_def)
  moreover have "\<forall>p \<in> dom (heap m). heap ?m p = heap m p" using disj(1) by (auto simp: hp)
  moreover have "constants ?m = constants m" "os_allocs ?m = os_allocs m" by (simp_all add: slice_chunk_def cn ao)
  moreover have "length (nextFree ?m) = DD_MEM_CHUNK" by (simp add: ml chunk_slots_def)
  ultimately show "seed nv n cs u ?m \<and> nextFree ?m \<noteq> [] \<and> constants ?m = constants m \<and> os_allocs ?m = os_allocs m \<and>
      length (nextFree ?m) = DD_MEM_CHUNK \<and> (\<forall>p \<in> dom (heap m). heap ?m p = heap m p)"
    by (simp add: seed_def)
qed

lemma seed_slotE:
  assumes "seed nv n cs u m" "p \<in> set (pool m)"
  shows "p AND 15 = 0" "p \<noteq> NULL" "\<exists>nd. heap m p = Some nd"
proof -
  obtain c where "c \<in> set (memoryList m)" "p \<in> set (chunk_slots c)" using assms(2) by (auto simp: pool_def)
  moreover have "\<forall>c \<in> set (memoryList m). chunk_fits c" using assms(1) by (simp add: seed_def seed_mem_def)
  ultimately show "p AND 15 = 0" "p \<noteq> NULL" using slotE by blast+
  show "\<exists>nd. heap m p = Some nd"
    using assms seed_memD(2) [of cs m] by (auto simp: seed_def)
qed

definition spare :: "(ptr \<times> CUDD_VALUE_TYPE) list \<Rightarrow> ptr \<Rightarrow> DdManager \<Rightarrow> bool" where
  "spare cs r m \<longleftrightarrow> r \<in> set (pool m) - fst ` set cs \<and> r \<notin> set (nextFree m)"

text \<open>Enough memory for \<open>k\<close> nodes.\<close>

definition plenty :: "nat \<Rightarrow> DdManager \<Rightarrow> bool" where
  "plenty k m \<longleftrightarrow> k \<le> length (nextFree m) \<or> (\<exists>c r. os_chunks m = c # r \<and> c \<noteq> NULL \<and> k \<le> DD_MEM_CHUNK)"

lemma seed_take:
  assumes "seed nv n cs u m" "nextFree m \<noteq> []"
  shows "\<exists>r m'. take_free m = Some (r, m') \<and> seed nv n cs u m' \<and> spare cs r m' \<and>
    heap m' = heap m \<and> constants m' = constants m \<and> os_allocs m' = os_allocs m \<and> r \<noteq> NULL \<and>
    (\<forall>k. plenty (Suc k) m \<longrightarrow> plenty k m')"
proof -
  obtain r rest where f: "nextFree m = r # rest" using assms(2) by (cases "nextFree m") auto
  let ?m = "m\<lparr>allocated := allocated m + 1, nextFree := rest\<rparr>"
  have mem: "seed_mem cs m" using assms(1) by (simp add: seed_def)
  have "pool ?m = pool m" by (simp add: pool_def)
  moreover have "seed_mem cs ?m"
    using mem f by (auto simp: seed_mem_def pool_def fresh_pool_def cont_def refc_def)
  moreover have r: "r \<in> set (pool m) - fst ` set cs" "r \<notin> set rest" using mem f by (auto simp: seed_mem_def)
  moreover have "r \<noteq> NULL" using seed_slotE(2) [OF assms(1)] r(1) by blast
  moreover have "plenty (Suc k) m \<longrightarrow> plenty k ?m" for k using f by (auto simp: plenty_def)
  ultimately show ?thesis
    using assms(1) f by (simp add: take_free_def spare_def seed_def blank_defs)
qed

lemma seed_alloc:
  assumes "seed nv n cs u m"
  shows "\<exists>r m'. cuddAllocNode m = Some (r, m') \<and> seed nv n cs u m' \<and> (r = NULL \<or> spare cs r m') \<and>
    constants m' = constants m \<and> os_allocs m' = os_allocs m \<and>
    (\<forall>k. plenty (Suc k) m \<longrightarrow> r \<noteq> NULL \<and> plenty k m') \<and> (\<forall>p \<in> dom (heap m). heap m' p = heap m p)"
proof (cases "nextFree m = []")
  case False
  then show ?thesis using seed_take [OF assms] by (auto simp: cuddAllocNode_def)
next
  case True
  have out: "\<exists>r m''. (if ok then take_free m' else Some (NULL, m')) = Some (r, m'') \<and> seed nv n cs u m'' \<and>
      (r = NULL \<or> spare cs r m'') \<and> heap m'' = heap m' \<and> constants m'' = constants m' \<and>
      os_allocs m'' = os_allocs m' \<and> (ok \<longrightarrow> r \<noteq> NULL \<and> (\<forall>k. plenty (Suc k) m' \<longrightarrow> plenty k m''))" if "seed nv n cs u m'" "ok \<Longrightarrow> nextFree m' \<noteq> []" for ok m'
    using that seed_take [OF that(1)] by (cases ok) auto
  obtain late m1 where t: "time_expired m = (late, m1)" by force
  have "m1 = m \<or> (\<exists>ts. m1 = m\<lparr>os_clock := ts\<rparr>)"
    using t by (auto simp: time_expired_def util_cpu_time_def Let_def split: list.splits)
  then have m1: "\<exists>ts. m1 = m\<lparr>os_clock := ts\<rparr>" by (auto intro: exI [of _ "os_clock m"])
  have late: "\<not> late"
  proof -
    have "timeLimit m1 = - 1" using m1 assms by (auto simp: seed_def blank_rest_def)
    then show "\<not> late" using t by (auto simp: time_expired_def Let_def not_less word_n1_ge split: prod.splits)
  qed
  have s1: "seed nv n cs u m1"
  proof -
    obtain ts where ts: "m1 = m\<lparr>os_clock := ts\<rparr>" using m1 by blast
    have "seed_mem cs m1 = seed_mem cs m" by (rule seed_mem_cong) (simp_all add: ts)
    then show ?thesis using assms by (simp add: seed_def blank_defs ts)
  qed
  have nf: "nextFree m1 = []" "heap m1 = heap m" "constants m1 = constants m" "os_allocs m1 = os_allocs m"
    "os_chunks m1 = os_chunks m" using m1 True by auto
  let ?m2 = "if \<not> stash m1 \<or> memused m1 > maxmemhard m1 then m1\<lparr>nextDead := 0\<rparr> else m1"
  have s2: "seed nv n cs u ?m2" using s1 seed_gc(2) [OF s1] by simp
  have over: "\<not> memused m1 > maxmemhard m1"
    using s1 by (simp add: seed_def blank_rest_def not_less word_n1_ge)
  have run: "cuddAllocNode m = do { (ok, m) \<leftarrow> alloc_chunk ?m2; if ok then take_free m else Some (NULL, m) }"
  proof -
    have "\<not> (keys m - dead m) + (keysZ m - deadZ m) > maxLive m"
      using assms by (simp add: seed_def blank_rest_def not_less word_n1_ge)
    then show ?thesis
      using True t late nf over seed_gc(1) [OF s1] by (simp add: cuddAllocNode_def)
  qed
  obtain mem m3 where c: "os_chunk ?m2 = (mem, m3)" by force
  note k = seed_chunk [OF s2 c]
  have h3: "heap m3 = heap m" "constants m3 = constants m" "os_allocs m3 = os_allocs m" using k(3-5) nf(2-4) by simp_all
  have pl: "mem \<noteq> NULL \<and> k \<le> 1021" if p: "plenty (Suc k) m" for k
  proof -
    obtain c' r' where c': "os_chunks m = c' # r'" "c' \<noteq> NULL" "k \<le> 1021"
      using p True by (auto simp: plenty_def DD_MEM_CHUNK_def)
    have "os_chunks ?m2 = c' # r'" using nf(5) c'(1) by simp
    then have "mem = c'" by (rule k(6))
    then show ?thesis using c' by simp
  qed
  show ?thesis
  proof (cases "mem = NULL")
    case False
    then have "alloc_chunk ?m2 = Some (True, slice_chunk mem m3)" using c by (simp add: alloc_chunk_def)
    moreover have "plenty (Suc k) m \<longrightarrow> plenty (Suc k) (slice_chunk mem m3)" for k
    proof
      assume "plenty (Suc k) m"
      then have "k \<le> 1021" using pl by blast
      then show "plenty (Suc k) (slice_chunk mem m3)" using k(7) [OF False] by (simp add: plenty_def DD_MEM_CHUNK_def)
    qed
    ultimately show ?thesis using out [of "slice_chunk mem m3" True] k(7) [OF False] run nf(2-4) by auto
  next
    case null: True
    note g = seed_gc [OF k(1)]
    have np: "\<not> plenty (Suc k) m" for k using pl null by blast
    let ?m4 = "m3\<lparr>nextDead := 0\<rparr>"
    have err: "seed nv n cs u ((MMoutOfMemory m)\<lparr>errorCode := e\<rparr>)" if "seed nv n cs u m" for m e
    proof -
      have "seed_mem cs ((MMoutOfMemory m)\<lparr>errorCode := e\<rparr>) = seed_mem cs m"
        by (rule seed_mem_cong) (simp_all add: MMoutOfMemory_def)
      then show ?thesis using that by (simp add: seed_def blank_defs MMoutOfMemory_def)
    qed
    have hm: "heap (MMoutOfMemory x) = heap x" "constants (MMoutOfMemory x) = constants x"
      "os_allocs (MMoutOfMemory x) = os_allocs x" for x
      by (simp_all add: MMoutOfMemory_def)
    show ?thesis
    proof (cases "stash ?m4")
      case False
      then have "alloc_chunk ?m2 = Some (False, (MMoutOfMemory ?m4)\<lparr>errorCode := CUDD_MEMORY_OUT\<rparr>)"
        using c null g(1) by (simp add: alloc_chunk_def)
      then show ?thesis using run err [OF g(2)] h3 np by (simp add: hm)
    next
      case True
      obtain m5 where m5: "cuddSlowTableGrowth (?m4\<lparr>stash := False\<rparr>) = Some m5" "seed nv n cs u m5" "heap m5 = heap ?m4" "constants m5 = constants ?m4" "os_allocs m5 = os_allocs ?m4"
        using seed_slow [OF g(2) True] by blast
      obtain mem' m6 where c': "os_chunk m5 = (mem', m6)" by force
      note k' = seed_chunk [OF m5(2) c']
      have al: "alloc_chunk ?m2 = (if mem' = NULL then Some (False, (MMoutOfMemory m6)\<lparr>errorCode := CUDD_MEMORY_OUT\<rparr>)
          else Some (True, slice_chunk mem' m6))"
        using c null g(1) True m5(1) c' by (simp add: alloc_chunk_def)
      show ?thesis
      proof (cases "mem' = NULL")
        case True
        then show ?thesis using al run err [OF k'(1)] k'(3-5) m5(3-5) h3 np by (simp add: hm)
      next
        case False
        then show ?thesis using al run out [of "slice_chunk mem' m6" True] k'(7) [OF False] m5(3-5) h3 np by auto
      qed
    qed
  qed
qed

subsection \<open>The constants are made\<close>

definition apart :: "CUDD_VALUE_TYPE \<Rightarrow> CUDD_VALUE_TYPE \<Rightarrow> bool" where
  "apart v w \<longleftrightarrow> double v \<noteq> double w \<and> \<not> ddEqualVal (double v) (double w) DD_EPSILON"

definition settled :: "CUDD_VALUE_TYPE \<Rightarrow> bool" where
  "settled v \<longleftrightarrow> cuddAdjust v = v \<and> (if \<bar>double v\<bar> < DD_EPSILON then DD_ZERO_VAL else v) = v"

lemma double_values:
  "double DD_ONE_VAL = 1" "double DD_ZERO_VAL = 0" "10 ^ 301 \<le> double DD_PLUS_INF_VAL"
  "double DD_MINUS_INF_VAL = - double DD_PLUS_INF_VAL"
  by (simp_all add: double_def DD_ONE_VAL_def DD_ZERO_VAL_def DD_PLUS_INF_VAL_def DD_MINUS_INF_VAL_def Let_def
      drop_bit_eq_div)

lemma find_const_none:
  assumes "seed_mem cs m" "set chain \<subseteq> fst ` set cs" "\<forall>w \<in> snd ` set cs. apart w v"
  shows "find_const m v chain = Some None"
  using assms(2)
proof (induction chain)
  case (Cons p chain)
  then obtain w where w: "(p, w) \<in> set cs" by auto
  have "cont m p = Some (CUDD_CONST_INDEX, Value w)" by (rule seed_memD(3) [OF assms(1) w])
  then obtain n where "heap m p = Some n" "type n = Value w" by (auto simp: cont_def)
  moreover have "apart w v" using assms(3) w by force
  ultimately show ?case using Cons by (simp add: apart_def)
qed simp

lemma seed_geometry:
  assumes "seed nv n cs u m"
  shows "\<exists>k. 3 \<le> k \<and> k \<le> 27 \<and> initSlots m = 2 ^ k \<and> shift (constants m) = 32 - k \<and>
    length (nodelist (constants m)) = 2 ^ k"
  using assms floorLog2_power by (auto simp: seed_def blank_order_def const_table_def)

lemma const_hash_less:
  assumes "seed nv n cs u m"
  shows "const_hash v (shift (constants m)) < length (nodelist (constants m))"
proof -
  obtain k where "3 \<le> k" "k \<le> 27" "shift (constants m) = 32 - k" "length (nodelist (constants m)) = 2 ^ k"
    using seed_geometry [OF assms] by blast
  then show ?thesis
    using drop_bit_32_less [of "32 - k"] by (simp add: const_hash_def ddHash_def)
qed

text \<open>A node taken from the free list becomes a constant.\<close>

definition with_const :: "nat \<Rightarrow> ptr \<Rightarrow> DdNode \<Rightarrow> DdManager \<Rightarrow> DdManager" where
  "with_const pos r nd m = (put_node r nd m)\<lparr>constants := (constants m)
     \<lparr>nodelist := (nodelist (constants m))[pos := r # nodelist (constants m) ! pos]\<rparr>\<rparr>"

lemma seed_with_const:
  assumes "seed nv n cs u m" "spare cs r m" "pos < length (nodelist (constants m))"
    and "index nd = CUDD_CONST_INDEX" "type nd = Value v"
  shows "seed nv n ((r, v) # cs) u (with_const pos r nd m)"
proof -
  let ?m = "with_const pos r nd m"
  have mem: "seed_mem cs m" and ct: "const_table n cs m" using assms(1) by (simp_all add: seed_def)
  note d = seed_memD [OF mem]
  have r: "r \<in> set (pool m)" "r \<notin> fst ` set cs" "r \<notin> set (nextFree m)" using assms(2) by (simp_all add: spare_def)
  have f: "memoryList ?m = memoryList m" "os_chunks ?m = os_chunks m" "nextFree ?m = nextFree m" "pool ?m = pool m"
    "fresh_pool ?m = fresh_pool m" "heap ?m = (heap m)(r \<mapsto> nd)"
    by (simp_all add: with_const_def put_node_def pool_def fresh_pool_def)
  have dm: "dom (heap ?m) = dom (heap m)" using r(1) d(2) by (auto simp: f)
  have c: "cont ?m p = cont m p" "refc ?m p = refc m p" if "p \<noteq> r" for p
    using that by (simp_all add: cont_def refc_def f)
  have "cont ?m r = Some (CUDD_CONST_INDEX, Value v)" using assms(4,5) by (simp add: cont_def f)
  then have cc: "\<forall>(p, w) \<in> set ((r, v) # cs). cont ?m p = Some (CUDD_CONST_INDEX, Value w)"
    using c(1) d(3) r(2) by force
  have rc: "\<forall>p \<in> set (pool m) - fst ` set ((r, v) # cs). refc ?m p = 0" using c(2) d(4) by simp
  have base: "(\<forall>c \<in> set (memoryList m). chunk_fits c)" "(\<forall>c \<in> set (os_chunks m). c \<noteq> NULL \<longrightarrow> chunk_fits c)"
    "distinct (pool m)" "distinct (fresh_pool m)" "set (fresh_pool m) \<inter> dom (heap m) = {}" "distinct (map fst cs)"
    "distinct (nextFree m)" "set (nextFree m) \<subseteq> set (pool m) - fst ` set cs"
    using mem by (auto simp only: seed_mem_def)
  have "seed_mem ((r, v) # cs) ?m"
  proof -
    have "set (nextFree m) \<subseteq> set (pool m) - insert r (fst ` set cs)" using base(8) r(3) by blast
    then show ?thesis unfolding seed_mem_def f(1-5) dm using base(1-7) d(1,2) r(1,2) cc rc by simp
  qed
  moreover have "const_table n ((r, v) # cs) ?m"
  proof -
    let ?rows = "nodelist (constants m)"
    have "set (concat (?rows[pos := r # ?rows ! pos])) = insert r (set (concat ?rows))"
    proof -
      have e: "?rows = take pos ?rows @ ?rows ! pos # drop (Suc pos) ?rows" using assms(3) by (rule id_take_nth_drop)
      have "set (concat (?rows[pos := r # ?rows ! pos])) = insert r (set (concat (take pos ?rows @ ?rows ! pos # drop (Suc pos) ?rows)))"
        using assms(3) by (simp add: upd_conv_take_nth_drop)
      then show ?thesis using e by simp
    qed
    then show ?thesis using ct by (simp add: const_table_def with_const_def put_node_def)
  qed
  moreover have "blank_order ?m \<and> blank_tables ?m \<and> blank_row ?m \<and> blank_rest ?m \<and> DD_ONE ?m = u \<and> dsize ?m = nv"
    using assms(1) by (simp add: seed_def with_const_def put_node_def blank_defs)
  ultimately show ?thesis by (simp add: seed_def)
qed

lemma seed_count:
  assumes "seed nv n cs u m"
  shows "seed nv (Suc n) cs u (m\<lparr>keys := keys m + 1, constants := (constants m)\<lparr>sub_keys := sub_keys (constants m) + 1\<rparr>\<rparr>)"
proof -
  let ?m = "m\<lparr>keys := keys m + 1, constants := (constants m)\<lparr>sub_keys := sub_keys (constants m) + 1\<rparr>\<rparr>"
  have "seed_mem cs ?m = seed_mem cs m" by (rule seed_mem_cong) simp_all
  then show ?thesis using assms by (simp add: seed_def blank_defs)
qed

lemma seed_unique_const:
  assumes "seed nv n cs u m" "n < 32" "settled v" "\<forall>w \<in> snd ` set cs. apart w v"
  shows "\<exists>r m'. cuddUniqueConst v m = Some (r, m') \<and>
    (r \<noteq> NULL \<longrightarrow> seed nv (Suc n) ((r, v) # cs) u m' \<and> refc m' r = 0 \<and> (\<forall>p \<in> fst ` set cs. heap m' p = heap m p)) \<and>
    os_allocs m' = os_allocs m \<and> (\<forall>k. plenty (Suc k) m \<longrightarrow> r \<noteq> NULL \<and> plenty k m')"
proof -
  let ?pos = "const_hash v (shift (constants m))"
  let ?c = "nodelist (constants m) ! ?pos"
  note pos = const_hash_less [OF assms(1)]
  have mem: "seed_mem cs m" and ct: "const_table n cs m" using assms(1) by (simp_all add: seed_def)
  obtain k where k: "3 \<le> k" "k \<le> 27" "initSlots m = 2 ^ k" using seed_geometry [OF assms(1)] by blast
  have room: "constants_room m = Some m"
  proof -
    have "(2 :: nat) ^ 3 \<le> 2 ^ k" using k(1) by (rule power_increasing) simp
    then have "n < unat (sub_maxKeys (constants m))" using ct assms(2) k(3) by (simp add: const_table_def)
    moreover have "unat (of_nat n :: uint32) = n" using assms(2) by (simp add: unat_of_nat)
    ultimately have "\<not> constants_full m" using ct by (simp add: constants_full_def const_table_def word_less_nat_alt)
    then show ?thesis by (simp add: constants_room_def)
  qed
  have sub: "set ?c \<subseteq> fst ` set cs"
    using nth_mem [OF pos] ct by (auto simp: const_table_def)
  have fc: "find_const m v ?c = Some None" by (rule find_const_none [OF mem sub assms(4)])
  let ?m1 = "m\<lparr>keys := keys m + 1, constants := (constants m)\<lparr>sub_keys := sub_keys (constants m) + 1\<rparr>\<rparr>"
  note s1 = seed_count [OF assms(1)]
  obtain r m2 where a: "cuddAllocNode ?m1 = Some (r, m2)" "seed nv (Suc n) cs u m2" "r = NULL \<or> spare cs r m2"
    "constants m2 = constants ?m1" "\<forall>p \<in> dom (heap ?m1). heap m2 p = heap ?m1 p"
    "os_allocs m2 = os_allocs ?m1" "\<And>k. plenty (Suc k) ?m1 \<Longrightarrow> r \<noteq> NULL \<and> plenty k m2"
    using seed_alloc [OF s1] by blast
  have pl: "r \<noteq> NULL \<and> plenty k m2" if "plenty (Suc k) m" for k
    using a(7) [of k] that by (simp add: plenty_def)
  have run: "cuddUniqueConst v m = insert_const ?pos v m"
    using room assms(3) pos fc by (simp add: cuddUniqueConst_def settled_def Let_def)
  show ?thesis
  proof (cases "r = NULL")
    case True
    then show ?thesis unfolding run using a(1,6) pl by (auto simp: insert_const_def)
  next
    case False
    then have sp: "spare cs r m2" using a(3) by blast
    then have rp: "r \<in> set (pool m2)" by (simp add: spare_def)
    obtain nd where nd: "heap m2 r = Some nd" using seed_slotE(3) [OF a(2) rp] by blast
    let ?nd = "nd\<lparr>index := CUDD_CONST_INDEX, type := Value v\<rparr>"
    have pos2: "?pos < length (nodelist (constants m2))" using pos a(4) by simp
    have "insert_const ?pos v m = Some (r, with_const ?pos r ?nd m2)"
      using a(1) False nd pos2 by (simp add: insert_const_def with_const_def put_node_def)
    moreover have "seed nv (Suc n) ((r, v) # cs) u (with_const ?pos r ?nd m2)"
      by (rule seed_with_const [OF a(2) sp pos2]) simp_all
    moreover have "heap (with_const ?pos r ?nd m2) p = heap m p" if "p \<in> fst ` set cs" for p
    proof -
      have "p \<in> dom (heap m)" using that seed_memD(1,2) [OF mem] by blast
      moreover have "p \<noteq> r" using that sp by (auto simp: spare_def)
      ultimately show ?thesis using a(5) by (simp add: with_const_def put_node_def)
    qed
    moreover have "refc (with_const ?pos r ?nd m2) r = 0"
    proof -
      have "seed_mem cs m2" using a(2) by (simp add: seed_def)
      then have "refc m2 r = 0" using seed_memD(4) [of cs m2 r] sp by (simp add: spare_def)
      then show ?thesis using nd by (simp add: refc_def with_const_def put_node_def)
    qed
    moreover have "os_allocs (with_const ?pos r ?nd m2) = os_allocs m" using a(6) by (simp add: with_const_def put_node_def)
    moreover have "plenty k (with_const ?pos r ?nd m2)" if "plenty (Suc k) m" for k
      using pl [OF that] by (simp add: plenty_def with_const_def put_node_def)
    ultimately show ?thesis unfolding run using False by blast
  qed
qed

lemma seed_put:
  assumes "seed nv n cs u m" "r \<in> fst ` set cs" "heap m r = Some nd"
  shows "seed nv n cs u (put_node r (nd\<lparr>ref := x\<rparr>) m)"
proof -
  let ?m = "put_node r (nd\<lparr>ref := x\<rparr>) m"
  have mem: "seed_mem cs m" using assms(1) by (simp add: seed_def)
  have c: "cont ?m = cont m" "dom (heap ?m) = dom (heap m)"
    using assms(3) by (auto simp: cont_def put_node_def fun_eq_iff)
  have r: "refc ?m p = refc m p" if "p \<noteq> r" for p using that by (simp add: refc_def put_node_def)
  have f: "memoryList ?m = memoryList m" "os_chunks ?m = os_chunks m" "nextFree ?m = nextFree m" "pool ?m = pool m"
    "fresh_pool ?m = fresh_pool m" by (simp_all add: put_node_def pool_def fresh_pool_def)
  have "\<forall>p \<in> set (pool m) - fst ` set cs. refc ?m p = 0"
    using seed_memD(4) [OF mem] r assms(2) by (metis DiffD2)
  then have "seed_mem cs ?m"
    using mem unfolding seed_mem_def f c by - (elim conjE, intro conjI; assumption)
  then show ?thesis using assms(1) by (simp add: seed_def put_node_def blank_defs)
qed

definition once :: "(ptr \<times> CUDD_VALUE_TYPE) list \<Rightarrow> DdManager \<Rightarrow> bool" where
  "once cs m \<longleftrightarrow> (\<forall>p \<in> fst ` set cs. refc m p = 1)"

lemma seed_init_constant:
  assumes "seed nv n cs u m" "once cs m" "n < 32" "settled v" "\<forall>w \<in> snd ` set cs. apart w v"
    and "\<And>r m. seed nv (Suc n) ((r, v) # cs) u m \<Longrightarrow> seed nv (Suc n) ((r, v) # cs) (w r) (field r m) \<and> heap (field r m) = heap m"
    and "\<And>r m. os_allocs (field r m) = os_allocs m \<and> nextFree (field r m) = nextFree m \<and> os_chunks (field r m) = os_chunks m"
  shows "\<exists>ok m'. init_constant field v m = Some (ok, m') \<and>
    (ok \<longrightarrow> (\<exists>r. seed nv (Suc n) ((r, v) # cs) (w r) m' \<and> once ((r, v) # cs) m')) \<and>
    os_allocs m' = os_allocs m \<and> (\<forall>k. plenty (Suc k) m \<longrightarrow> ok \<and> plenty k m')"
proof -
  obtain r m1 where a: "cuddUniqueConst v m = Some (r, m1)"
    "r \<noteq> NULL \<Longrightarrow> seed nv (Suc n) ((r, v) # cs) u m1 \<and> refc m1 r = 0 \<and> (\<forall>p \<in> fst ` set cs. heap m1 p = heap m p)"
    "os_allocs m1 = os_allocs m" "\<And>k. plenty (Suc k) m \<Longrightarrow> r \<noteq> NULL \<and> plenty k m1"
    using seed_unique_const [OF assms(1,3-5)] by blast
  show ?thesis
  proof (cases "r = NULL")
    case True
    then show ?thesis using a(1,3,4) assms(7) by (auto simp: init_constant_def)
  next
    case False
    note b = a(2) [OF False]
    let ?m = "field r m1"
    have f: "seed nv (Suc n) ((r, v) # cs) (w r) ?m" "heap ?m = heap m1" using assms(6) b by blast+
    then have rp: "r \<in> set (pool ?m)" using seed_memD(1) [of "(r, v) # cs" ?m] by (simp add: seed_def)
    obtain nd where nd: "heap ?m r = Some nd" using seed_slotE(3) [OF f(1) rp] by blast
    have reg: "Cudd_Regular r = r" using seed_slotE(1) [OF f(1) rp] by (simp add: Regular_id IsComplement_aligned)
    let ?n = "put_node r (nd\<lparr>ref := cuddSatInc (ref nd)\<rparr>) ?m"
    have "unat (ref nd) = 0" using b nd f(2) by (simp add: refc_def)
    then have r1: "refc ?n r = 1" by (simp add: refc_def put_node_def unat_SatInc sat_inc_def)
    have "distinct (map fst ((r, v) # cs))" using f(1) unfolding seed_def seed_mem_def by blast
    then have "refc ?n p = 1" if "p \<in> fst ` set cs" for p
    proof -
      have "p \<noteq> r" using that \<open>distinct (map fst ((r, v) # cs))\<close> by auto
      moreover have "heap m1 p = heap m p" using b that by blast
      ultimately have "refc ?n p = refc m p" using f(2) by (simp add: refc_def put_node_def)
      then show ?thesis using assms(2) that by (auto simp: once_def)
    qed
    then have "once ((r, v) # cs) ?n" using r1 by (simp add: once_def)
    moreover have "seed nv (Suc n) ((r, v) # cs) (w r) ?n" by (rule seed_put [OF f(1) _ nd]) simp
    moreover have "init_constant field v m = Some (True, ?n)"
      using a(1) False nd reg by (simp add: init_constant_def cuddRef_def)
    moreover have "os_allocs ?n = os_allocs m" using a(3) assms(7) by (simp add: put_node_def)
    moreover have "plenty k ?n" if "plenty (Suc k) m" for k
      using a(4) [OF that] assms(7) by (simp add: plenty_def put_node_def)
    ultimately show ?thesis by blast
  qed
qed

lemma settled_values:
  "settled DD_ONE_VAL" "settled DD_ZERO_VAL" "settled DD_PLUS_INF_VAL" "settled DD_MINUS_INF_VAL"
  using double_values by (auto simp: settled_def cuddAdjust_def DD_CRI_HI_MARK_def DD_EPSILON_def)

lemma apart_values:
  "apart DD_ONE_VAL DD_ZERO_VAL" "apart DD_ONE_VAL DD_PLUS_INF_VAL" "apart DD_ZERO_VAL DD_PLUS_INF_VAL"
  "apart DD_ONE_VAL DD_MINUS_INF_VAL" "apart DD_ZERO_VAL DD_MINUS_INF_VAL" "apart DD_PLUS_INF_VAL DD_MINUS_INF_VAL"
  using double_values by (auto simp: apart_def ddEqualVal_def DD_EPSILON_def)

definition predefined :: "ptr \<Rightarrow> (ptr \<times> CUDD_VALUE_TYPE) list \<Rightarrow> bool" where
  "predefined u cs \<longleftrightarrow> (\<exists>z p q. cs = [(q, DD_MINUS_INF_VAL), (p, DD_PLUS_INF_VAL), (z, DD_ZERO_VAL), (u, DD_ONE_VAL)])"

lemma seed_field:
  "seed nv n cs u m \<Longrightarrow> seed nv n cs r (m\<lparr>DD_ONE := r\<rparr>)" "seed nv n cs u m \<Longrightarrow> seed nv n cs u (m\<lparr>DD_ZERO := r\<rparr>)"
proof -
  have "seed_mem cs (m\<lparr>DD_ONE := r\<rparr>) = seed_mem cs m" by (rule seed_mem_cong) simp_all
  moreover have "seed_mem cs (m\<lparr>DD_ZERO := r\<rparr>) = seed_mem cs m" by (rule seed_mem_cong) simp_all
  ultimately show "seed nv n cs u m \<Longrightarrow> seed nv n cs r (m\<lparr>DD_ONE := r\<rparr>)" "seed nv n cs u m \<Longrightarrow> seed nv n cs u (m\<lparr>DD_ZERO := r\<rparr>)"
    by (simp_all add: seed_def blank_defs)
qed

lemma init_constants_ok:
  assumes "seed nv 0 [] u m"
  shows "\<exists>ok m'. init_constants m = Some (ok, m') \<and>
    (ok \<longrightarrow> (\<exists>o1 cs. predefined o1 cs \<and> seed nv 4 cs o1 m' \<and> once cs m')) \<and>
    (plenty 4 m \<longrightarrow> ok) \<and> (ok \<longrightarrow> os_allocs m' = os_allocs m)"
proof -
  have o0: "once [] m" by (simp add: once_def)
  have n4: "plenty 4 x = plenty (Suc (Suc (Suc (Suc 0)))) x" for x by (simp add: numeral_nat)
  obtain ok1 m1 where c1: "init_constant (\<lambda>c m. m\<lparr>DD_ONE := c\<rparr>) DD_ONE_VAL m = Some (ok1, m1)"
    "ok1 \<Longrightarrow> \<exists>r. seed nv 1 [(r, DD_ONE_VAL)] r m1 \<and> once [(r, DD_ONE_VAL)] m1"
      "os_allocs m1 = os_allocs m" "\<And>k. plenty (Suc k) m \<Longrightarrow> ok1 \<and> plenty k m1"
    using seed_init_constant [OF assms o0 _ settled_values(1), where w = "\<lambda>r. r" and field = "\<lambda>c m. m\<lparr>DD_ONE := c\<rparr>"]
      seed_field(1) by (auto simp: numeral_nat)
  show ?thesis
  proof (cases ok1)
    case False
    then have "\<not> plenty 4 m" unfolding n4 using c1(4) [of "Suc (Suc (Suc 0))"] by blast
    then show ?thesis using c1(1) False by (auto simp: init_constants_def)
  next
    case t1: True
    then obtain r1 where s1: "seed nv 1 [(r1, DD_ONE_VAL)] r1 m1" "once [(r1, DD_ONE_VAL)] m1" using c1(2) by blast
    obtain ok2 m2 where c2: "init_constant (\<lambda>c m. m\<lparr>DD_ZERO := c\<rparr>) DD_ZERO_VAL m1 = Some (ok2, m2)"
      "ok2 \<Longrightarrow> \<exists>r. seed nv 2 [(r, DD_ZERO_VAL), (r1, DD_ONE_VAL)] r1 m2 \<and> once [(r, DD_ZERO_VAL), (r1, DD_ONE_VAL)] m2"
      "os_allocs m2 = os_allocs m1" "\<And>k. plenty (Suc k) m1 \<Longrightarrow> ok2 \<and> plenty k m2"
      using seed_init_constant [OF s1 _ settled_values(2), where w = "\<lambda>r. r1" and field = "\<lambda>c m. m\<lparr>DD_ZERO := c\<rparr>"]
        seed_field(2) apart_values by (auto simp: numeral_nat)
    show ?thesis
    proof (cases ok2)
      case False
      then have "\<not> plenty 4 m" unfolding n4 using c1(4) [of "Suc (Suc (Suc 0))"] c2(4) [of "Suc (Suc 0)"] by blast
      then show ?thesis using c1(1) t1 c2(1) False by (auto simp: init_constants_def)
    next
      case t2: True
      then obtain r2 where s2: "seed nv 2 [(r2, DD_ZERO_VAL), (r1, DD_ONE_VAL)] r1 m2"
        "once [(r2, DD_ZERO_VAL), (r1, DD_ONE_VAL)] m2" using c2(2) by blast
      obtain ok3 m3 where c3: "init_constant (\<lambda>c m. m) DD_PLUS_INF_VAL m2 = Some (ok3, m3)"
        "ok3 \<Longrightarrow> \<exists>r. seed nv 3 [(r, DD_PLUS_INF_VAL), (r2, DD_ZERO_VAL), (r1, DD_ONE_VAL)] r1 m3 \<and>
          once [(r, DD_PLUS_INF_VAL), (r2, DD_ZERO_VAL), (r1, DD_ONE_VAL)] m3"
      "os_allocs m3 = os_allocs m2" "\<And>k. plenty (Suc k) m2 \<Longrightarrow> ok3 \<and> plenty k m3"
        using seed_init_constant [OF s2 _ settled_values(3), where w = "\<lambda>r. r1" and field = "\<lambda>c m. m"]
          apart_values by (auto simp: numeral_nat)
      show ?thesis
      proof (cases ok3)
        case False
        then have "\<not> plenty 4 m" unfolding n4 using c1(4) [of "Suc (Suc (Suc 0))"] c2(4) [of "Suc (Suc 0)"] c3(4) [of "Suc 0"] by blast
        then show ?thesis using c1(1) t1 c2(1) t2 c3(1) False by (auto simp: init_constants_def)
      next
        case t3: True
        then obtain r3 where s3: "seed nv 3 [(r3, DD_PLUS_INF_VAL), (r2, DD_ZERO_VAL), (r1, DD_ONE_VAL)] r1 m3"
          "once [(r3, DD_PLUS_INF_VAL), (r2, DD_ZERO_VAL), (r1, DD_ONE_VAL)] m3" using c3(2) by blast
        obtain ok4 m4 where c4: "init_constant (\<lambda>c m. m) DD_MINUS_INF_VAL m3 = Some (ok4, m4)"
          "ok4 \<Longrightarrow> \<exists>r. seed nv 4 [(r, DD_MINUS_INF_VAL), (r3, DD_PLUS_INF_VAL), (r2, DD_ZERO_VAL), (r1, DD_ONE_VAL)] r1 m4 \<and>
            once [(r, DD_MINUS_INF_VAL), (r3, DD_PLUS_INF_VAL), (r2, DD_ZERO_VAL), (r1, DD_ONE_VAL)] m4"
      "os_allocs m4 = os_allocs m3" "\<And>k. plenty (Suc k) m3 \<Longrightarrow> ok4 \<and> plenty k m4"
          using seed_init_constant [OF s3 _ settled_values(4), where w = "\<lambda>r. r1" and field = "\<lambda>c m. m"]
            apart_values by (auto simp: numeral_nat)
        have "init_constants m = Some (ok4, m4)"
          using c1(1) t1 c2(1) t2 c3(1) t3 c4(1) by (simp add: init_constants_def)
        moreover have "predefined r1 [(r, DD_MINUS_INF_VAL), (r3, DD_PLUS_INF_VAL), (r2, DD_ZERO_VAL), (r1, DD_ONE_VAL)]" for r
          by (simp add: predefined_def)
        moreover have "plenty 4 m \<longrightarrow> ok4" 
          unfolding n4 using c4(4) [of 0] c3(4) [of "Suc 0"] c2(4) [of "Suc (Suc 0)"] c1(4) [of "Suc (Suc (Suc 0))"] by blast
        moreover have "os_allocs m4 = os_allocs m" using c1(3) c2(3) c3(3) c4(3) by simp
        ultimately show ?thesis using c4(2) by blast
      qed
    qed
  qed
qed

subsection \<open>The finished manager\<close>

lemma seed_views:
  assumes "seed nv n cs u m"
  shows "tabnodes m = {}" "nodes m = {u}" "cnodes m = fst ` set cs" "drow m = {#}"
    "l < dsize m \<Longrightarrow> trows m ! l = replicate (initSlots m) []"
    "l < dsize m \<Longrightarrow> tshifts m ! l = 32 - cuddComputeFloorLog2 (initSlots m)"
proof -
  have bt: "blank_tables m" and bo: "blank_order m" using assms by (simp_all add: seed_def)
  have len: "dsize m \<le> length (subtables m)" using bo by (simp add: blank_order_def)
  show r: "trows m ! l = replicate (initSlots m) []" if "l < dsize m" for l
    using that bt len by (simp add: trows_def blank_tables_def Let_def)
  show "l < dsize m \<Longrightarrow> tshifts m ! l = 32 - cuddComputeFloorLog2 (initSlots m)"
    using bt len by (simp add: tshifts_def blank_tables_def Let_def)
  have "length (trows m) = dsize m" using len by (simp add: trows_def)
  then have "\<forall>row \<in> set (trows m). row = replicate (initSlots m) []"
    using r by (auto simp: in_set_conv_nth)
  then show t: "tabnodes m = {}" by (fastforce simp: tabnodes_def)
  show "nodes m = {u}" using assms by (simp add: nodes_def t seed_def)
  show "cnodes m = fst ` set cs" using assms by (simp add: cnodes_def seed_def const_table_def)
  show "drow m = {#}" using assms by (auto simp: drow_def seed_def blank_row_def)
qed

lemma seed_mgr:
  assumes s: "seed nv n cs u m" and "once cs m" "(u, v) \<in> set cs" "length (vars m) = maxSize m"
  shows "mgr_ok {#u#} {} m"
proof -
  note w = seed_views [OF s]
  have mem: "seed_mem cs m" and bt: "blank_tables m" and bo: "blank_order m" and br: "blank_rest m"
    and row: "blank_row m" and ct: "const_table n cs m" and one: "DD_ONE m = u"
    using s by (simp_all add: seed_def)
  note d = seed_memD [OF mem]
  obtain k where k: "3 \<le> k" "k \<le> 27" "initSlots m = 2 ^ k" using bo by (auto simp: blank_order_def)
  have up: "u \<in> set (pool m)" using d(1) assms(3) by force
  have r1: "refc m u = 1" using assms(2,3) by (force simp: once_def)
  have "order_ok m" using bo by (simp add: order_ok_def blank_order_def)
  moreover have "table_ok m" using w(5,6) k by (simp add: table_ok_def chain_ok_def floorLog2_power)
  moreover have "one_ok m"
    using seed_slotE(1,2) [OF s up] d(3) [OF assms(3)] by (simp add: one_ok_def one)
  ultimately have st: "store_ok m" by (simp add: store_ok_def w(1))
  have ds: "dset {} m = {}" "live {} m = {}" by (simp_all add: dset_def live_def w(1))
  have rf: "refs_ok {#u#} {#} {} m" by (simp add: refs_ok_def one w(2) r1 par_def ds(2))
  have "on_level m {} l = {}" for l by (simp add: on_level_def)
  then have dd: "deads_ok {} m" and "keys_ok m"
    using br ct bt by (simp_all add: deads_ok_def ds(1) keys_ok_def w(1) blank_rest_def const_table_def blank_tables_def Let_def)
  moreover have "sizes_ok m"
  proof -
    have "5 \<le> 32 - k" "32 - (32 - k) = k" using k(1,2) by simp_all
    then show ?thesis using bt k(3) by (simp add: sizes_ok_def blank_tables_def Let_def floorLog2_power)
  qed
  moreover have "mem_ok m"
  proof -
    have "fst ` set cs \<subseteq> set (pool m)" by (rule d(1))
    moreover have "u \<in> fst ` set cs" using assms(3) by force
    moreover have "\<forall>p \<in> fst ` set cs. 0 < refc m p" using assms(2) by (auto simp: once_def)
    ultimately show ?thesis
      using mem unfolding seed_mem_def mem_ok_def w(1,3) one by - (elim conjE, simp)
  qed
  moreover have "cache_ok m"
    using br by (auto simp: cache_ok_geo blank_rest_def entry_ok_def empty_entry_def)
  moreover have "misc_ok m" using br bo assms(4) by (simp add: misc_ok_def blank_rest_def dims_ok_def blank_order_def)
  moreover have "row_ok m"
    using row by (auto simp: row_ok_def blank_row_def intro: exI [of _ 0])
  ultimately show ?thesis using st rf dd by (simp add: mgr_ok_def loose_ok_def graph_ok_def rest_ok_def w(4) one)
qed

lemma init_vars_ok:
  assumes s: "seed nv n cs u m" and "once cs m" "(u, v) \<in> set cs"
  shows "\<exists>ok m'. init_vars m = Some (ok, m') \<and>
    (ok \<longrightarrow> dsize m' = dsize m \<and> mgr_ok (add_mset (DD_ONE m') (mset (take (dsize m') (vars m')))) {} m' \<and>
       vars_ok (add_mset (DD_ONE m') (mset (take (dsize m') (vars m')))) m')"
proof -
  obtain got m1 where o: "os_alloc m = (got, m1)" by force
  obtain bs where bs: "m1 = m\<lparr>os_allocs := bs\<rparr>" using os_alloc_eq [OF o] by blast
  let ?m = "m1\<lparr>vars := replicate (maxSize m1) NULL\<rparr>"
  have "seed_mem cs ?m = seed_mem cs m" by (rule seed_mem_cong) (simp_all add: bs)
  then have s': "seed nv n cs u ?m" using s by (simp add: seed_def blank_defs bs)
  have k: "mgr_ok {#u#} {} ?m"
    by (rule seed_mgr [OF s' _ assms(3)]) (use assms(2) in \<open>simp_all add: bs once_def refc_def\<close>)
  show ?thesis
  proof (cases got)
    case False
    then show ?thesis using o by (auto simp: init_vars_def)
  next
    case True
    let ?is = "[0 ..< dsize ?m]"
    have "\<forall>i \<in> set ?is. 0 \<le> i \<and> i < dsize ?m" by simp
    from create_vars_ok [OF k distinct_upt this] obtain j m' where
      r: "create_vars ?is ?m = Some (j = length ?is, m')" "j \<le> length ?is"
      "mgr_ok ({#u#} + mset (map (\<lambda>i. vars m' ! i) (take j ?is))) {} m'" "extends (set_mset {#u#}) 0 ?m m'"
      "dsize m' = dsize ?m" "\<forall>i \<in> set (take j ?is). proj m' i (vars m' ! i)" by blast
    have run: "init_vars m = Some (j = length ?is, m')" using True o r(1) by (simp add: init_vars_def bs)
    have one: "DD_ONE m' = u" using r(4) s' by (simp add: extends_def seed_def)
    have d: "dsize m' = dsize m" using r(5) by (simp add: bs)
    have good: "dsize m' = dsize m \<and> mgr_ok (add_mset (DD_ONE m') (mset (take (dsize m') (vars m')))) {} m' \<and>
       vars_ok (add_mset (DD_ONE m') (mset (take (dsize m') (vars m')))) m'" if "j = length ?is"
    proof -
      have len: "dsize m' \<le> length (vars m')"
        using mgr_misc [OF r(3)] order_okD(1) [OF mgr_okD(5) [OF r(3)]] by (simp add: misc_ok_def dims_ok_def)
      have t: "take j ?is = ?is" using that by simp
      have mv: "map (\<lambda>i. vars m' ! i) ?is = take (dsize m') (vars m')"
        using len r(5) by (intro nth_equalityI) simp_all
      have "proj m' i (vars m' ! i)" if "i < dsize m'" for i using r(6) that r(5) unfolding t by simp
      moreover have "vars m' ! i \<in> set (take (dsize m') (vars m'))" if "i < dsize m'" for i
        using that len by (auto simp: in_set_conv_nth)
      ultimately have "vars_ok (add_mset (DD_ONE m') (mset (take (dsize m') (vars m')))) m'" by (simp add: vars_ok_def)
      then show ?thesis using r(3) d unfolding t mv one by simp
    qed
    show ?thesis unfolding run using good by blast
  qed
qed

subsection \<open>From the arguments to the tables\<close>

text \<open>The blocks the system will give do not overlap and do not wrap around.\<close>

definition env_ok :: "DdEnv \<Rightarrow> bool" where
  "env_ok e \<longleftrightarrow> (\<forall>c \<in> set (env_chunks e). c \<noteq> NULL \<longrightarrow> chunk_fits c) \<and>
     distinct (concat (map chunk_slots (filter (\<lambda>c. c \<noteq> NULL) (env_chunks e))))"

lemma unat_power2: "k \<le> 31 \<Longrightarrow> unat (2 ^ k :: uint32) = 2 ^ k"
proof -
  assume "k \<le> 31"
  then have "(2 :: nat) ^ k \<le> 2 ^ 31" by (rule power_increasing) simp
  then have "(2 :: nat) ^ k < 2 ^ LENGTH(32)" by simp
  then have "unat (of_nat (2 ^ k) :: uint32) = 2 ^ k" by (simp only: unat_of_nat mod_less)
  then show ?thesis by simp
qed

lemma round_slots_power:
  assumes "j \<le> K" "K \<le> 31" "unat n \<le> 2 ^ K"
  shows "\<exists>k. j \<le> k \<and> k \<le> K \<and> round_slots (2 ^ j) n = Some (2 ^ k) \<and> n \<le> 2 ^ k"
  using assms(1)
proof (induction "K - j" arbitrary: j)
  case 0
  then have "j = K" by simp
  moreover have "unat (2 ^ K :: uint32) = 2 ^ K" using assms(2) by (rule unat_power2)
  then have "n \<le> 2 ^ K" using assms(3) by (simp add: word_le_nat_alt)
  ultimately have j: "j = K" "n \<le> 2 ^ j" by simp_all
  then have "(2 ^ j < n) = False" by (simp add: not_less)
  then have "round_slots (2 ^ j) n = Some (2 ^ j)" by (subst round_slots.simps) (simp only: if_False)
  then show ?case using j by (intro exI [of _ j]) simp
next
  case (Suc d)
  show ?case
  proof (cases "2 ^ j < n")
    case True
    have "push_bit 1 (2 ^ j :: uint32) = 2 ^ Suc j" by (simp add: push_bit_eq_mult)
    then have "round_slots (2 ^ j) n = round_slots (2 ^ Suc j) n" using True by (subst round_slots.simps) (simp add: mult.commute)
    moreover have "d = K - Suc j" "Suc j \<le> K" using Suc.hyps(2) by linarith+
    from Suc.hyps(1) [OF this] obtain k where
      "Suc j \<le> k \<and> k \<le> K \<and> round_slots (2 ^ Suc j) n = Some (2 ^ k) \<and> n \<le> 2 ^ k" by blast
    ultimately show ?thesis by (intro exI [of _ k]) simp
  next
    case False
    then have "round_slots (2 ^ j) n = Some (2 ^ j)" by (subst round_slots.simps) (simp only: if_False simp_thms)
    then show ?thesis using Suc.prems False by (intro exI [of _ j]) (simp add: not_less)
  qed
qed

text \<open>
  Above \<open>2 ^ 31\<close> no power of two fits: the variable \<open>slots\<close> of the loop overflows to 0 and stays
  there, and the loop does not end.
\<close>

definition shifted_one :: "uint32 \<Rightarrow> bool" where
  "shifted_one s \<longleftrightarrow> s = 0 \<or> (\<exists>j \<le> 31. s = 2 ^ j)"

lemma shifted_one_push: "shifted_one s \<Longrightarrow> shifted_one (push_bit 1 s)"
proof -
  assume "shifted_one s"
  then consider "s = 0" | j where "j \<le> 31" "s = 2 ^ j" by (auto simp: shifted_one_def)
  then show ?thesis
  proof cases
    case 1
    then show ?thesis by (simp add: shifted_one_def)
  next
    case 2
    have p: "push_bit 1 s = 2 ^ Suc j" using 2(2) by (simp add: push_bit_eq_mult mult.commute)
    show ?thesis
    proof (cases "j = 31")
      case True
      then show ?thesis using p by (simp add: shifted_one_def)
    next
      case False
      then have "Suc j \<le> 31" using 2(1) by simp
      then show ?thesis using p unfolding shifted_one_def by blast
    qed
  qed
qed

lemma round_slots_result:
  assumes "round_slots s n = Some y"
  shows "shifted_one s \<longrightarrow> shifted_one y \<and> \<not> y < n"
proof (rule round_slots.raw_induct [where P = "\<lambda>s n y. shifted_one s \<longrightarrow> shifted_one y \<and> \<not> y < n", OF _ assms])
  fix rec s n y
  assume IH: "\<And>s n y. rec s n = Some y \<Longrightarrow> shifted_one s \<longrightarrow> shifted_one y \<and> \<not> y < n"
    and r: "(if s < n then rec (push_bit 1 s) n else Some s) = Some y"
  show "shifted_one s \<longrightarrow> shifted_one y \<and> \<not> y < n"
  proof (cases "s < n")
    case True
    then have "rec (push_bit 1 s) n = Some y" using r by simp
    from IH [OF this] show ?thesis using shifted_one_push [of s] by blast
  next
    case False
    then show ?thesis using r by simp
  qed
qed

lemma round_slots_hangs:
  assumes "2 ^ 31 < unat n"
  shows "round_slots 8 n = None"
proof (rule ccontr)
  assume "round_slots 8 n \<noteq> None"
  then obtain y where y: "round_slots 8 n = Some y" by blast
  have "shifted_one 8" unfolding shifted_one_def by (rule disjI2) (rule exI [of _ 3], simp)
  then have "shifted_one y" "\<not> y < n" using round_slots_result [OF y] by simp_all
  then have le: "unat n \<le> unat y" and "y = 0 \<or> (\<exists>j \<le> 31. y = 2 ^ j)"
    by (simp_all only: word_less_nat_alt shifted_one_def not_less)
  then consider "y = 0" | j where "j \<le> 31" "y = 2 ^ j" by blast
  then show False
  proof cases
    case 1
    then show False using le assms by simp
  next
    case 2
    have "(2 :: nat) ^ j \<le> 2 ^ 31" using 2(1) by (rule power_increasing) simp
    then show False using le assms unat_power2 [OF 2(1)] 2(2) by simp
  qed
qed

lemma floorLog2_le: "n < 2 ^ Suc b \<Longrightarrow> cuddComputeFloorLog2 n \<le> b"
proof (cases "n = 0")
  case True
  then show ?thesis by (simp add: cuddComputeFloorLog2_def floorLog2_loop.simps)
next
  case False
  assume n: "n < 2 ^ Suc b"
  from False obtain j where j: "cuddComputeFloorLog2 n = j" "(2 :: nat) ^ j \<le> n" "n < 2 ^ Suc j"
    using floorLog2_loop_bounds [of n 0] by (auto simp: cuddComputeFloorLog2_def)
  have "(2 :: nat) ^ j < 2 ^ Suc b" using j(2) n by linarith
  then have "j < Suc b" by (rule power_less_imp_less_exp [rotated]) simp
  then show ?thesis using j(1) by simp
qed

lemma cache_slots_init:
  fixes sl :: uint32
  assumes "unat cacheSz < 2 ^ 27" "unat sl < 2 ^ 28"
  defines "l \<equiv> cuddComputeFloorLog2 (unat (ddMax cacheSz (sl div 2)))"
  shows "unat (push_bit l 1 :: uint32) = 2 ^ l" "l \<le> 26"
    "alloc_fits sizeof_DdCache (unat (push_bit l 1 :: uint32) + 1)"
proof -
  have "unat (sl div 2) < 2 ^ 27" using assms(2) by (simp add: unat_div)
  then show l: "l \<le> 26" using assms(1) unfolding l_def by (intro floorLog2_le) (simp add: ddMax_def)
  have "(push_bit l 1 :: uint32) = 2 ^ l" by (simp add: push_bit_eq_mult)
  then show u: "unat (push_bit l 1 :: uint32) = 2 ^ l" using l by (simp add: unat_power2)
  have "(2 :: nat) ^ l \<le> 2 ^ 26" using l by (rule power_increasing) simp
  then show "alloc_fits sizeof_DdCache (unat (push_bit l 1 :: uint32) + 1)"
    by (simp only: alloc_fits_def sizeof_DdCache_def u) simp
qed

lemma cuddInitCache_total:
  assumes "unat cacheSz < 2 ^ 27" "unat (slots m) < 2 ^ 28"
  shows "cuddInitCache cacheSz maxSz m \<noteq> None"
proof -
  obtain got m1 where o: "os_alloc m = (got, m1)" by force
  obtain bs where bs: "m1 = m\<lparr>os_allocs := bs\<rparr>" using os_alloc_eq [OF o] by blast
  show ?thesis
    using cache_slots_init(3) [OF assms] by (cases got) (simp_all add: cuddInitCache_def Let_def o bs)
qed

lemma cuddInitCache_ok:
  assumes "unat cacheSz < 2 ^ 27" "unat maxSz < 2 ^ 27" "cuddInitCache cacheSz maxSz m = Some (ok, m')" ok
    and "unat (slots m) < 2 ^ 28"
  shows "cache_geo m'" "set (cache m') \<subseteq> {empty_entry}"
    "blank_order m' = blank_order m" "blank_tables (m'\<lparr>stash := g\<rparr>) = blank_tables (m\<lparr>stash := g\<rparr>)"
    "blank_row m' = blank_row m" "const_table n cs m' = const_table n cs m" "seed_mem cs m' = seed_mem cs m" "DD_ONE m' = DD_ONE m"
    "dsizeZ m' = dsizeZ m" "keysZ m' = keysZ m" "dead m' = dead m" "deadZ m' = deadZ m" "autoDyn m' = autoDyn m"
    "maxLive m' = maxLive m" "maxmemhard m' = maxmemhard m" "timeLimit m' = timeLimit m" "dsize m' = dsize m"
proof -
  let ?l = "cuddComputeFloorLog2 (unat (ddMax cacheSz (slots m div 2)))"
  let ?c = "push_bit ?l 1 :: uint32"
  note c = cache_slots_init [OF assms(1,5)]
  obtain got m1 where o: "os_alloc m = (got, m1)" by force
  obtain bs where bs: "m1 = m\<lparr>os_allocs := bs\<rparr>" using os_alloc_eq [OF o] by blast
  have got: got using assms(3,4) o by (auto simp: cuddInitCache_def Let_def split: if_splits)
  let ?b = "DD_MAX_CACHE_TO_SLOTS_RATIO * slots m"
  obtain x y where m': "m' = Cudd_SetMinHit DD_MIN_HIT (m1\<lparr>memused := memused m + (?c + 1) * sizeof_DdCache,
      cacheSlots := ?c, cacheShift := 32 - ?l, maxCacheHard := maxSz, cacheSlack := sint (ddMin maxSz ?b) - 2 * sint ?c\<rparr>)
      \<lparr>cacheMisses := x, cacheHits := 0, totCachehits := 0, totCacheMisses := y,
        cachecollisions := 0, cacheinserts := 0, cacheLastInserts := 0, cachedeletions := 0,
        cache := replicate (unat ?c) empty_entry\<rparr>"
    using assms(3) o got c(3) by (auto simp: cuddInitCache_def Let_def bs split: if_splits)
  have le: "unat (ddMin maxSz ?b) \<le> unat maxSz" by (simp add: ddMin_def word_less_nat_alt)
  have "sint (ddMin maxSz ?b) = int (unat (ddMin maxSz ?b))" by (rule sint_small) (use le assms(2) in simp)
  moreover have "sint ?c = int (unat ?c)"
  proof (rule sint_small)
    have "(2 :: nat) ^ ?l \<le> 2 ^ 26" using c(2) by (rule power_increasing) simp
    then show "unat ?c < 2147483648" using c(1) by simp
  qed
  ultimately have "sint (ddMin maxSz ?b) - 2 * sint ?c \<le> uint maxSz - 2 * uint ?c"
    using le uint_nat [of maxSz] uint_nat [of ?c] by linarith
  then show "cache_geo m'"
    using c assms(2) by (simp add: m' cache_geo_def Cudd_SetMinHit_def)
  show "set (cache m') \<subseteq> {empty_entry}" by (auto simp: m')
  show "seed_mem cs m' = seed_mem cs m" by (rule seed_mem_cong) (simp_all add: m' Cudd_SetMinHit_def bs)
  show "blank_order m' = blank_order m" "blank_tables (m'\<lparr>stash := g\<rparr>) = blank_tables (m\<lparr>stash := g\<rparr>)"
    "blank_row m' = blank_row m" "const_table n cs m' = const_table n cs m" "DD_ONE m' = DD_ONE m"
    "dsizeZ m' = dsizeZ m" "keysZ m' = keysZ m" "dead m' = dead m" "deadZ m' = deadZ m" "autoDyn m' = autoDyn m"
    "maxLive m' = maxLive m" "maxmemhard m' = maxmemhard m" "timeLimit m' = timeLimit m" "dsize m' = dsize m"
    by (simp_all add: m' Cudd_SetMinHit_def bs blank_order_def blank_tables_def blank_row_def const_table_def)
qed

lemma new_manager_seed:
  fixes loose :: uint32
  assumes "3 \<le> k" "k \<le> 27" "env_ok e" "numVars < 65535"
  defines "m \<equiv> new_manager numVars (2 ^ k) loose e"
  shows "blank_order m" "blank_tables (m\<lparr>stash := g\<rparr>)" "blank_row m" "const_table 0 [] m" "seed_mem [] m"
    "dsize m = numVars" "dsizeZ m = 0" "keysZ m = 0" "dead m = 0" "deadZ m = 0" "\<not> autoDyn m"
    "maxLive m = - 1" "maxmemhard m = - 1" "timeLimit m = - 1" "DD_ONE m = NULL"
    "length (subtables m) = maxSize m"
proof -
  have u: "unat (2 ^ k :: uint32) = 2 ^ k" using assms(2) by (simp add: unat_power2)
  note n = new_subtable_fields [OF assms(1,2)]
  note d = m_def new_manager_def Let_def
  show "blank_order m"
    using assms(1,2,4) by (auto simp: d blank_order_def u ddMax_def DD_DEFAULT_RESIZE_def nth_append)
  show "blank_tables (m\<lparr>stash := g\<rparr>)"
    by (simp add: d blank_tables_def u nth_append n floorLog2_power)
  show "blank_row m" by (auto simp: d blank_row_def)
  show "const_table 0 [] m" by (simp add: d const_table_def u n floorLog2_power)
  show "seed_mem [] m"
    using assms(3) by (simp add: d seed_mem_def pool_def fresh_pool_def env_ok_def)
qed (simp_all add: m_def new_manager_def Let_def ddMax_def)

lemma os_allocs_all_True:
  "take k (os_allocs m) = replicate k True \<Longrightarrow> os_allocs_all k m = (True, m\<lparr>os_allocs := drop k (os_allocs m)\<rparr>)"
proof (induction k arbitrary: m)
  case (Suc k)
  then obtain bs where bs: "os_allocs m = True # bs" by (cases "os_allocs m") auto
  then have "os_alloc m = (True, m\<lparr>os_allocs := bs\<rparr>)" by (simp add: os_alloc_def)
  then show ?case using Suc.IH [of "m\<lparr>os_allocs := bs\<rparr>"] Suc.prems by (simp add: bs)
qed simp

lemma cuddInitCache_alloc:
  assumes "os_allocs m = True # bs" "cuddInitCache cacheSz maxSz m = Some (ok, m')"
  shows "ok" "os_allocs m' = bs" "os_chunks m' = os_chunks m" "nextFree m' = nextFree m"
  using assms by (auto simp: cuddInitCache_def Let_def os_alloc_def Cudd_SetMinHit_def split: if_splits)

text \<open>The system has memory for the arrays and for one block of nodes.\<close>

definition env_rich :: "DdEnv \<Rightarrow> bool" where
  "env_rich e \<longleftrightarrow> take 13 (env_allocs e) = replicate 13 True \<and> (\<exists>c cs. env_chunks e = c # cs \<and> c \<noteq> NULL)"

lemma Cudd_Init_ok:
  assumes "env_ok e" "numVars < 65535" "unat numSlots \<le> 2 ^ K" "3 \<le> K" "Suc numVars * 2 ^ K < 2 ^ 28"
    and "unat cacheSz < 2 ^ 27"
  shows "\<exists>res. Cudd_Init numVars numSlots cacheSz maxMemory limit e = Some res \<and>
    (\<forall>m. res = Some m \<longrightarrow> dsize m = numVars \<and>
       mgr_ok (add_mset (DD_ONE m) (mset (take numVars (vars m)))) {} m \<and>
       vars_ok (add_mset (DD_ONE m) (mset (take numVars (vars m)))) m) \<and>
    (numVars = 0 \<and> env_rich e \<longrightarrow> res \<noteq> None)"
proof -
  let ?mem = "if maxMemory = 0 then limit else maxMemory"
  let ?loose = "?mem div sizeof_DdNode div DD_MAX_LOOSE_FRACTION"
  let ?mc = "?mem div sizeof_DdCache div DD_MAX_CACHE_FRACTION"
  have "(2 :: nat) ^ K < 2 ^ 28" using assms(5) by simp
  then have "K < 28" by (rule power_less_imp_less_exp [rotated]) simp
  then have K: "K \<le> 27" by simp
  obtain k where k: "3 \<le> k" "k \<le> K" "round_slots 8 numSlots = Some (2 ^ k)"
    using round_slots_power [of 3 K numSlots] assms(3,4) K by auto
  have k27: "k \<le> 27" using k(2) K by simp
  show ?thesis
  proof (cases "\<exists>bs. env_allocs e = True # bs")
    case False
    then have "Cudd_Init numVars numSlots cacheSz maxMemory limit e = Some None"
      by (simp add: Cudd_Init_def cuddInitTable_def Let_def split: list.splits bool.splits)
    moreover have "\<not> env_rich e" using False by (cases "env_allocs e") (auto simp: env_rich_def numeral_eq_Suc)
    ultimately show ?thesis by simp
  next
    case True
    then obtain as where as: "env_allocs e = True # as" by blast
  let ?e = "e\<lparr>env_allocs := as\<rparr>"
  have ek: "env_ok ?e" using assms(1) by (simp add: env_ok_def)
  let ?t = "new_manager numVars (2 ^ k) ?loose ?e"
  note t = new_manager_seed [OF k(1) k27 ek assms(2), where loose = ?loose]
  have sl: "unat (slots ?t) < 2 ^ 28"
  proof -
    have "Suc numVars * 2 ^ k \<le> Suc numVars * 2 ^ K" using k(2) by (intro mult_le_mono2 power_increasing) simp_all
    then have lt: "Suc numVars * 2 ^ k < 2 ^ 28" using assms(5) by (rule le_less_trans)
    have "slots ?t = of_nat (Suc numVars * 2 ^ k)" by (simp add: new_manager_def Let_def algebra_simps)
    moreover have "unat (of_nat (Suc numVars * 2 ^ k) :: uint32) = Suc numVars * 2 ^ k"
      unfolding unat_of_nat by (rule mod_less) (use lt in simp)
    ultimately show ?thesis using lt by (simp only: )
  qed
  obtain ok1 m1 where a1: "os_allocs_all (9 + numVars) ?t = (ok1, m1)" by force
  obtain bs1 where b1: "m1 = ?t\<lparr>os_allocs := bs1\<rparr>" using os_allocs_all_eq [OF a1] by blast
  obtain tm m2 where c2: "util_cpu_time m1 = (tm, m2)" by force
  then obtain ts where b2: "m2 = m1\<lparr>os_clock := ts\<rparr>"
    by (auto simp: util_cpu_time_def split: list.splits intro: that [of "os_clock m1"])
  let ?m3 = "m2\<lparr>startTime := tm, maxmem := ?mem div 10 * 9\<rparr>"
  have sl3: "unat (slots ?m3) < 2 ^ 28" using sl by (simp add: b1 b2)
  obtain ok4 m4 where c4: "cuddInitCache cacheSz ?mc ?m3 = Some (ok4, m4)"
    using cuddInitCache_total [OF assms(6) sl3] by fast
  obtain got m5 where c5: "os_alloc m4 = (got, m5)" by force
  obtain bs5 where b5: "m5 = m4\<lparr>os_allocs := bs5\<rparr>" using os_alloc_eq [OF c5] by blast
  let ?m6 = "m5\<lparr>stash := got\<rparr>"
  have run: "Cudd_Init numVars numSlots cacheSz maxMemory limit e =
    (if \<not> ok1 \<or> \<not> ok4 then Some None
     else do {
       (ok, m7) \<leftarrow> init_constants ?m6;
       if \<not> ok then Some None else do {
         (ok, m8) \<leftarrow> init_vars m7;
         if \<not> ok then Some None
         else Some (Some (m8\<lparr>memused := memused m8 + sizeof_DdNodePtr * of_nat (maxSize m8)\<rparr>)) } })"
    using k(3) a1 c2 c4 c5 by (simp add: Cudd_Init_def cuddInitTable_def Let_def as)
  have tt: "os_allocs (new_manager nv sl lo d) = env_allocs d" "os_chunks (new_manager nv sl lo d) = env_chunks d"
    for nv sl lo d by (simp_all add: new_manager_def Let_def)
  have rich: "ok1 \<and> ok4 \<and> plenty 4 ?m6 \<and> (\<exists>bs. os_allocs ?m6 = True # bs)" if e: "numVars = 0" "env_rich e"
  proof -
    have r: "take 13 (env_allocs e) = replicate 13 True" using e(2) by (simp add: env_rich_def)
    then have r: "take 12 as = replicate 12 True" by (simp add: as numeral_eq_Suc)
    then have "take 9 (take 12 as) = take 9 (replicate 12 True)" by (rule arg_cong)
    then have "take (9 + numVars) (os_allocs ?t) = replicate (9 + numVars) True" by (simp add: tt e(1) min_def)
    from os_allocs_all_True [OF this] have o1: "ok1" "os_allocs m1 = drop 9 as"
      using a1 by (auto simp: tt e(1))
    have "drop 9 (take 12 as) = drop 9 (replicate 12 True)" using r by (rule arg_cong)
    then have "take 3 (drop 9 as) = replicate 3 True" by (simp add: drop_take)
    then obtain bs where bs: "os_allocs ?m3 = True # True # True # bs"
      using o1(2) by (cases "drop 9 as"; cases "tl (drop 9 as)";
        cases "tl (tl (drop 9 as))") (auto simp: b2 numeral_3_eq_3)
    note i = cuddInitCache_alloc [OF bs c4]
    have "os_chunks ?m6 = env_chunks e" using i(3) by (simp add: b5 b2 b1 tt)
    then have "plenty 4 ?m6" using e(2) by (auto simp: env_rich_def plenty_def DD_MEM_CHUNK_def)
    moreover have "os_allocs ?m6 = True # bs" using c5 i(2) by (auto simp: os_alloc_def)
    ultimately show ?thesis using o1(1) i(1) by blast
  qed
  show ?thesis
  proof (cases "\<not> ok1 \<or> \<not> ok4")
    case True
    then have "\<not> (numVars = 0 \<and> env_rich e)" using rich by blast
    then show ?thesis unfolding run using True by simp
  next
    case False
    have mc: "unat ?mc < 2 ^ 27"
      using unat_less_2_32 [of ?mem] by (simp add: unat_div sizeof_DdCache_def DD_MAX_CACHE_FRACTION_def)
    have ok4: ok4 using False by blast
    note i = cuddInitCache_ok [OF assms(6) mc c4 ok4 sl3]
    have s3: "seed_mem [] ?m3 = seed_mem [] ?t" by (rule seed_mem_cong) (simp_all add: b1 b2)
    have s6: "seed_mem [] ?m6 = seed_mem [] m4" by (rule seed_mem_cong) (simp_all add: b5)
    have bt3: "blank_tables (?m3\<lparr>stash := got\<rparr>)"
      using t(2) [of got] by (simp add: blank_tables_def b1 b2)
    have "blank_tables ?m6"
      using i(4) [of got] bt3 by (simp add: blank_tables_def b5)
    moreover have "blank_order ?m6" using i(3) t(1) by (simp add: b5 b1 b2 blank_order_def)
    moreover have "blank_row ?m6" using i(5) t(3) by (simp add: b5 b1 b2 blank_row_def)
    moreover have "const_table 0 [] ?m6" using i(6) [of 0 "[]"] t(4) by (simp add: b5 b1 b2 const_table_def)
    moreover have "seed_mem [] ?m6" using i(7) [of "[]"] t(5) s3 s6 by simp
    moreover have "blank_rest ?m6"
      using i(1,2,9-16) t(7-14) by (simp add: b5 b1 b2 blank_rest_def cache_geo_def)
    moreover have "DD_ONE ?m6 = NULL" using i(8) t(15) by (simp add: b5 b1 b2)
    moreover have "dsize ?m6 = numVars" using i(17) t(6) by (simp add: b5 b1 b2)
    ultimately have s6: "seed numVars 0 [] NULL ?m6" by (simp add: seed_def)
    obtain ok7 m7 where c7: "init_constants ?m6 = Some (ok7, m7)"
      "ok7 \<Longrightarrow> \<exists>u cs. predefined u cs \<and> seed numVars 4 cs u m7 \<and> once cs m7"
      "plenty 4 ?m6 \<Longrightarrow> ok7" "ok7 \<Longrightarrow> os_allocs m7 = os_allocs ?m6"
      using init_constants_ok [OF s6] by blast
    show ?thesis
    proof (cases ok7)
      case False
      then have "\<not> (numVars = 0 \<and> env_rich e)" using rich c7(3) by blast
      then show ?thesis unfolding run using False c7(1) \<open>\<not> (\<not> ok1 \<or> \<not> ok4)\<close> by simp
    next
      case t7: True
      then obtain u cs where u: "predefined u cs" "seed numVars 4 cs u m7" "once cs m7" using c7(2) by blast
      have "(u, DD_ONE_VAL) \<in> set cs" using u(1) by (auto simp: predefined_def)
      from init_vars_ok [OF u(2,3) this] obtain ok8 m8 where c8: "init_vars m7 = Some (ok8, m8)"
        "ok8 \<Longrightarrow> dsize m8 = dsize m7 \<and> mgr_ok (add_mset (DD_ONE m8) (mset (take (dsize m8) (vars m8)))) {} m8 \<and>
           vars_ok (add_mset (DD_ONE m8) (mset (take (dsize m8) (vars m8)))) m8" by blast
      have d7: "dsize m7 = numVars" using u(2) by (simp add: seed_def)
      let ?m9 = "m8\<lparr>memused := memused m8 + sizeof_DdNodePtr * of_nat (maxSize m8)\<rparr>"
      have r: "Cudd_Init numVars numSlots cacheSz maxMemory limit e = Some (if ok8 then Some ?m9 else None)"
        unfolding run using c7(1) t7 c8(1) \<open>\<not> (\<not> ok1 \<or> \<not> ok4)\<close> by simp
      have "dsize ?m9 = numVars \<and> mgr_ok (add_mset (DD_ONE ?m9) (mset (take numVars (vars ?m9)))) {} ?m9 \<and>
          vars_ok (add_mset (DD_ONE ?m9) (mset (take numVars (vars ?m9)))) ?m9" if ok8
      proof -
        let ?x = "add_mset (DD_ONE m8) (mset (take numVars (vars m8)))"
        have k8: "mgr_ok ?x {} m8" "vars_ok ?x m8" "dsize m8 = numVars" using c8(2) [OF that] d7 by auto
        have c: "core ?m9 = core m8" by (simp add: core_def)
        have "cache_ok ?m9 = cache_ok m8" by (rule core_cache_ok [OF c]) simp_all
        then have "mgr_ok ?x {} ?m9" using core_ok(3) [OF c k8(1)] mgr_cache [OF k8(1)] by simp
        moreover have "vars_ok ?x ?m9"
          using k8(2) by (simp add: vars_ok_def proj_def store_cong [OF core_fields(1) [OF c]])
        ultimately show ?thesis using k8(3) by simp
      qed
      moreover have "ok8" if e: "numVars = 0" "env_rich e"
      proof -
        obtain bs where "os_allocs m7 = True # bs" using rich [OF e] c7(4) [OF t7] by auto
        then show ?thesis using c8(1) d7 e(1) by (simp add: init_vars_def os_alloc_def)
      qed
      ultimately show ?thesis unfolding r by auto
    qed
  qed
qed
qed

end
