(* ===== verification/BddCond.thy ===== *)
theory BddCond
  imports CuddOps CuddInit
begin

text \<open>
  The client of the package: \<open>lib/SVF/Util/Conditions.cpp\<close> and
  \<open>include/SVF/Util/Conditions.h\<close>. Path conditions are diagrams; conjunction and disjunction
  are computed with a limit on the new nodes, and when the limit is hit the condition is
  weakened: \<open>AND\<close> drops its second operand, \<open>OR\<close> answers true. The theorems say that the
  condition obtained is never stronger than the exact one.
\<close>

subsection \<open>The class\<close>

record BddCondManager =
  m_bdd_mgr :: DdManager
  indexToDDNodeMap :: "uint32 \<rightharpoonup> ptr"

text \<open>The option \<open>maxbddsize\<close>, at its default.\<close>

definition maxBddSize :: uint32 where "maxBddSize = 100000"

definition Cudd_ReadOne :: "DdManager \<Rightarrow> ptr" where "Cudd_ReadOne dd = DD_ONE dd"

definition Cudd_ReadLogicZero :: "DdManager \<Rightarrow> ptr" where "Cudd_ReadLogicZero dd = Cudd_Not (DD_ONE dd)"

definition Cudd_bddIthVar :: "nat \<Rightarrow> DdManager \<Rightarrow> ptr result" where
  "Cudd_bddIthVar i dd =
     (if unat CUDD_CONST_INDEX - 1 \<le> i then Some (NULL, dd)
      else if i < dsize dd then Some (vars dd ! i, dd)
      else cuddUniqueInter i (DD_ONE dd) (Cudd_Not (DD_ONE dd)) dd)"

definition Cudd_bddNewVar :: "DdManager \<Rightarrow> ptr result" where
  "Cudd_bddNewVar dd =
     (if unat CUDD_CONST_INDEX - 1 \<le> dsize dd then Some (NULL, dd)
      else cuddUniqueInter (dsize dd) (DD_ONE dd) (Cudd_Not (DD_ONE dd)) dd)"

definition Cudd_ReadSize :: "DdManager \<Rightarrow> nat" where "Cudd_ReadSize dd = dsize dd"

definition Cudd_ReadMemoryInUse :: "DdManager \<Rightarrow> uint32" where "Cudd_ReadMemoryInUse dd = memused dd"

definition Cudd_ReadPeakLiveNodeCount :: "DdManager \<Rightarrow> uint32 \<times> DdManager" where
  "Cudd_ReadPeakLiveNodeCount dd = (
     let lv = keys dd - dead dd;
         dd = (if peakLiveNodes dd < lv then dd\<lparr>peakLiveNodes := lv\<rparr> else dd)
     in (peakLiveNodes dd, dd))"

text \<open>
  The constructor. The operating system's limit and answers are its arguments; \<open>Some None\<close> is
  the null pointer that the constructor does not check for.
\<close>

definition CUDD_UNIQUE_SLOTS :: uint32 where "CUDD_UNIQUE_SLOTS = 256"

definition CUDD_CACHE_SLOTS :: uint32 where "CUDD_CACHE_SLOTS = 262144"

definition new_BddCondManager :: "uint32 \<Rightarrow> DdEnv \<Rightarrow> BddCondManager option option" where
  "new_BddCondManager limit e =
     map_option (map_option (\<lambda>m. \<lparr>m_bdd_mgr = m, indexToDDNodeMap = Map.empty\<rparr>))
       (Cudd_Init 0 CUDD_UNIQUE_SLOTS CUDD_CACHE_SLOTS 0 limit e)"

definition BddVarNum :: "BddCondManager \<Rightarrow> nat" where "BddVarNum b = Cudd_ReadSize (m_bdd_mgr b)"

definition getBDDMemUsage :: "BddCondManager \<Rightarrow> uint32" where
  "getBDDMemUsage b = Cudd_ReadMemoryInUse (m_bdd_mgr b)"

definition getMaxLiveCondNumber :: "BddCondManager \<Rightarrow> uint32 \<times> BddCondManager" where
  "getMaxLiveCondNumber b = (
     let (n, m) = Cudd_ReadPeakLiveNodeCount (m_bdd_mgr b) in (n, b\<lparr>m_bdd_mgr := m\<rparr>))"

definition getTrueCond :: "DdManager \<Rightarrow> ptr" where "getTrueCond m = Cudd_ReadOne m"

definition getFalseCond :: "DdManager \<Rightarrow> ptr" where "getFalseCond m = Cudd_ReadLogicZero m"

text \<open>The assertions are the failing cases: the index is fresh, the index is known.\<close>

definition createNewCond :: "uint32 \<Rightarrow> BddCondManager \<Rightarrow> (ptr \<times> BddCondManager) option" where
  "createNewCond i b = (case indexToDDNodeMap b i of
     Some d \<Rightarrow> None
   | None \<Rightarrow> do {
       (d, m) \<leftarrow> Cudd_bddIthVar (unat i) (m_bdd_mgr b);
       Some (d, b\<lparr>m_bdd_mgr := m, indexToDDNodeMap := (indexToDDNodeMap b)(i \<mapsto> d)\<rparr>) })"

definition getCond :: "uint32 \<Rightarrow> BddCondManager \<Rightarrow> ptr option" where
  "getCond i b = indexToDDNodeMap b i"

definition markForRelease :: "ptr \<Rightarrow> DdManager \<Rightarrow> DdManager option" where
  "markForRelease cond m = Cudd_RecursiveDeref cond m"

definition cond_AND :: "uint32 \<Rightarrow> ptr \<Rightarrow> ptr \<Rightarrow> DdManager \<Rightarrow> ptr result" where
  "cond_AND limit lhs rhs m =
     (if lhs = getFalseCond m \<or> rhs = getFalseCond m then Some (getFalseCond m, m)
      else if lhs = getTrueCond m then Some (rhs, m)
      else if rhs = getTrueCond m then Some (lhs, m)
      else do {
        (tmp, m) \<leftarrow> Cudd_bddAndLimit lhs rhs limit m;
        if tmp = NULL then Some (lhs, m)
        else do { m \<leftarrow> Cudd_Ref tmp m; Some (tmp, m) } })"

definition cond_OR :: "uint32 \<Rightarrow> ptr \<Rightarrow> ptr \<Rightarrow> DdManager \<Rightarrow> ptr result" where
  "cond_OR limit lhs rhs m =
     (if lhs = getTrueCond m \<or> rhs = getTrueCond m then Some (getTrueCond m, m)
      else if lhs = getFalseCond m then Some (rhs, m)
      else if rhs = getFalseCond m then Some (lhs, m)
      else do {
        (tmp, m) \<leftarrow> Cudd_bddOrLimit lhs rhs limit m;
        if tmp = NULL then Some (getTrueCond m, m)
        else do { m \<leftarrow> Cudd_Ref tmp m; Some (tmp, m) } })"

definition cond_NEG :: "ptr \<Rightarrow> DdManager \<Rightarrow> ptr" where
  "cond_NEG lhs m =
     (if lhs = getTrueCond m then getFalseCond m
      else if lhs = getFalseCond m then getTrueCond m
      else Cudd_Not lhs)"

subsection \<open>The support of a condition\<close>

text \<open>
  A node is marked as visited by complementing its \<open>next\<close> pointer; here the marked nodes are
  a set. The steps run on regular pointers and return the marks and the indices found.
\<close>

partial_function (option) BddSupportStep ::
  "DdManager \<Rightarrow> ptr \<Rightarrow> ptr set \<times> DdHalfWord set \<Rightarrow> (ptr set \<times> DdHalfWord set) option" where
  "BddSupportStep m f st = do {
     F \<leftarrow> heap m f;
     (if cuddIsConstant F \<or> f \<in> fst st then Some st
      else do {
        t \<leftarrow> cuddT F;
        e \<leftarrow> cuddE F;
        st \<leftarrow> BddSupportStep m t (fst st, insert (index F) (snd st));
        st \<leftarrow> BddSupportStep m (Cudd_Regular e) st;
        Some (insert f (fst st), snd st) }) }"

partial_function (option) ddClearFlag :: "DdManager \<Rightarrow> ptr \<Rightarrow> ptr set \<Rightarrow> ptr set option" where
  "ddClearFlag m f marked =
     (if f \<notin> marked then Some marked
      else do {
        F \<leftarrow> heap m f;
        (if cuddIsConstant F then Some (marked - {f})
         else do {
           t \<leftarrow> cuddT F;
           e \<leftarrow> cuddE F;
           marked \<leftarrow> ddClearFlag m t (marked - {f});
           ddClearFlag m (Cudd_Regular e) marked }) })"

definition BddSupport :: "DdManager \<Rightarrow> ptr \<Rightarrow> ptr set \<times> DdHalfWord set \<Rightarrow> (ptr set \<times> DdHalfWord set) option" where
  "BddSupport m f st = do {
     st \<leftarrow> BddSupportStep m (Cudd_Regular f) st;
     marked \<leftarrow> ddClearFlag m (Cudd_Regular f) (fst st);
     Some (marked, snd st) }"

lemmas cond_const = getTrueCond_def getFalseCond_def Cudd_ReadOne_def Cudd_ReadLogicZero_def

subsection \<open>What an operation promises\<close>

text \<open>
  \<open>handed\<close>: the operation returns a condition that the caller holds, with one more reference
  or with the ones it had, and every condition held before is kept. The condition is the function
  \<open>P\<close>, unless the library call \<open>res\<close> that was to make it gave \<open>NULL\<close> and reported an error: then it is
  the function \<open>Q\<close>.
\<close>

definition handed :: "ptr multiset \<Rightarrow> DdManager \<Rightarrow> ptr result \<Rightarrow> ((nat \<Rightarrow> bool) \<Rightarrow> bool) \<Rightarrow>
    ((nat \<Rightarrow> bool) \<Rightarrow> bool) \<Rightarrow> ptr result \<Rightarrow> bool" where
  "handed ext m call P Q res \<longleftrightarrow> (\<exists>r m' ext'. res = Some (r, m') \<and> mgr_ok ext' {} m' \<and>
     (ext' = ext \<or> ext' = add_mset (Cudd_Regular r) ext) \<and>
     keep (set_mset ext) (m\<lparr>reordered := reordered m'\<rparr>) m' \<and> held ext' m' r \<and>
     ((\<forall>env. sem m' env r = P env) \<or>
      call = Some (NULL, m') \<and> failed m' \<and> (\<forall>env. sem m' env r = Q env)))"

lemma handed_same:
  assumes "mgr_ok ext {} m" "held ext m r" "\<And>env. sem m env r = P env"
  shows "handed ext m call P Q (Some (r, m))"
  using assms keep_refl [OF assms(1)] by (auto simp: handed_def)

lemma Cudd_Ref_eq: "Cudd_Ref = cuddRef"
  by (simp add: fun_eq_iff Cudd_Ref_def cuddRef_def Let_def)

lemma handed_ref:
  assumes ok: "mgr_ok ext {} m" and a: "answered ext m P res"
    and f: "\<And>m'. mgr_ok ext {} m' \<Longrightarrow> keep (set_mset ext) (m\<lparr>reordered := 0\<rparr>) m' \<Longrightarrow>
      held ext m' (fallback m') \<and> (\<forall>env. sem m' env (fallback m') = Q env)"
  shows "handed ext m res P Q (do { (tmp, m') \<leftarrow> res;
    if tmp = NULL then Some (fallback m', m') else do { m'' \<leftarrow> Cudd_Ref tmp m'; Some (tmp, m'') } })"
  using a unfolding answered_def
proof (cases rule: deliveredE)
  case (null m')
  then have "reordered m' = 0" using keepD(4) by fastforce
  then show ?thesis using null f [OF null(3,2)] by (auto simp: handed_def)
next
  case (edge r m')
  let ?N = "Cudd_Regular r"
  have n: "?N \<in> nodes m'" using edge(4) by (simp add: edges_def)
  have "?N \<notin> dset {?N} m'" by (simp add: dset_iff)
  from cuddRef_ok [OF edge(5) n this] obtain m2 where m2: "cuddRef r m' = Some m2"
    "mgr_ok (add_mset ?N ext) {} m2" "counts_only m' m2" "keep (set_mset ext) m' m2" by auto
  have s0: "store_ok (m\<lparr>reordered := 0\<rparr>)" using ok by (simp add: reordered_ok(3) mgr_okD(5))
  have k: "keep (set_mset ext) (m\<lparr>reordered := 0\<rparr>) m2" by (rule keep_trans [OF edge(3) m2(4) s0])
  then have "reordered m2 = 0" using keepD(4) by fastforce
  moreover have "sem m2 env r = P env" for env
    using edge(6) sem_cong_store [OF counts_only_store [OF m2(3)]] by simp
  ultimately show ?thesis using edge(1,2) m2 k by (auto simp: handed_def Cudd_Ref_eq intro!: heldI)
qed

lemma held_before:
  assumes "mgr_ok ext {} m" "held ext m e" "mgr_ok ext {} m'" "keep (set_mset ext) (m\<lparr>reordered := 0\<rparr>) m'"
  shows "held ext m' e" "sem m' env e = sem m env e"
proof -
  have "held ext (m\<lparr>reordered := 0\<rparr>) e" using assms(2) held_store [OF reordered_ok(1)] by simp
  note h = held_keep [OF this _ assms(4) mgr_okD(5) [OF assms(3)]]
  show "held ext m' e" "sem m' env e = sem m env e"
    using h assms(1) sem_cong_store [OF reordered_ok(1)] by (simp_all add: reordered_ok(3))
qed

lemma cond_constants:
  assumes "mgr_ok ext {} m"
  shows "held ext m (getTrueCond m)" "held ext m (getFalseCond m)"
    "sem m env (getTrueCond m)" "\<not> sem m env (getFalseCond m)"
  using held_one [OF assms] sem_one [OF mgr_okD(5) [OF assms]] by (simp_all add: cond_const)

lemma cond_AND_ok:
  assumes ok: "mgr_ok ext {} m" and h: "held ext m lhs" "held ext m rhs"
  shows "handed ext m (Cudd_bddAndLimit lhs rhs limit m) (\<lambda>env. sem m env lhs \<and> sem m env rhs)
    (\<lambda>env. sem m env lhs) (cond_AND limit lhs rhs m)"
proof -
  note c = cond_constants [OF ok]
  consider (false) "lhs = getFalseCond m \<or> rhs = getFalseCond m" | (left) "lhs = getTrueCond m"
    "\<not> (lhs = getFalseCond m \<or> rhs = getFalseCond m)" | (right) "rhs = getTrueCond m" "lhs \<noteq> getTrueCond m"
    "\<not> (lhs = getFalseCond m \<or> rhs = getFalseCond m)" | (both) "rhs \<noteq> getTrueCond m" "lhs \<noteq> getTrueCond m"
    "\<not> (lhs = getFalseCond m \<or> rhs = getFalseCond m)" by blast
  then show ?thesis
  proof cases
    case both
    then show ?thesis
      unfolding cond_AND_def
      by (simp only: if_False) (rule handed_ref [OF ok Cudd_bddAnd_answered(2) [OF ok h]],
        use held_before [OF ok h(1)] in auto)
  qed (use c h in \<open>auto simp: cond_AND_def intro!: handed_same [OF ok]\<close>)
qed

lemma cond_OR_ok:
  assumes ok: "mgr_ok ext {} m" and h: "held ext m lhs" "held ext m rhs"
  shows "handed ext m (Cudd_bddOrLimit lhs rhs limit m) (\<lambda>env. sem m env lhs \<or> sem m env rhs)
    (\<lambda>env. True) (cond_OR limit lhs rhs m)"
proof -
  note c = cond_constants [OF ok]
  consider (true) "lhs = getTrueCond m \<or> rhs = getTrueCond m" | (left) "lhs = getFalseCond m"
    "\<not> (lhs = getTrueCond m \<or> rhs = getTrueCond m)" | (right) "rhs = getFalseCond m" "lhs \<noteq> getFalseCond m"
    "\<not> (lhs = getTrueCond m \<or> rhs = getTrueCond m)" | (both) "rhs \<noteq> getFalseCond m" "lhs \<noteq> getFalseCond m"
    "\<not> (lhs = getTrueCond m \<or> rhs = getTrueCond m)" by blast
  then show ?thesis
  proof cases
    case both
    then show ?thesis
      unfolding cond_OR_def
      by (simp only: if_False) (rule handed_ref [OF ok Cudd_bddOr_answered(2) [OF ok h]],
        use cond_constants in auto)
  qed (use c h in \<open>auto simp: cond_OR_def intro!: handed_same [OF ok]\<close>)
qed

lemma cond_NEG_ok:
  assumes "mgr_ok ext {} m" "held ext m lhs"
  shows "held ext m (cond_NEG lhs m)" "sem m env (cond_NEG lhs m) = (\<not> sem m env lhs)"
    "cond_NEG lhs m = Cudd_Not lhs"
  using assms held_one [OF assms(1)] sem_one [OF mgr_okD(5) [OF assms(1)]]
  by (auto simp: cond_NEG_def cond_const)

lemma markForRelease_ok:
  assumes "mgr_ok (add_mset (Cudd_Regular c) ext) {} m" "DD_ONE m \<in># ext"
  shows "\<exists>m'. markForRelease c m = Some m' \<and> mgr_ok ext {} m' \<and> keep (set_mset ext) m m'"
  using iterDeref_ok [OF assms] by (auto simp: markForRelease_def)

subsection \<open>A variable by its index\<close>

text \<open>Conditions that the caller holds survive when variables are added.\<close>

lemma held_extends:
  assumes "mgr_ok ext {} m" "mgr_ok ext' {} m'" "extends (set_mset ext) n m m'" "ext \<subseteq># ext'" "held ext m e"
  shows "held ext' m' e" "sem m' env e = sem m env e"
proof -
  note g = mgr_okD [OF assms(1)]
  have "Cudd_Regular e \<in> reach m' (set_mset ext)"
    using assms(5) extends_reach [OF assms(3) g(5)] by (auto simp: held_def)
  then show "held ext' m' e" using reach_mono set_mset_mono [OF assms(4)] by (auto simp: held_def)
  show "sem m' env e = sem m env e"
    by (rule extends_sem(1) [OF assms(3) g(5) mgr_okD(5) [OF assms(2)] g(8)])
      (use assms(5) in \<open>simp add: held_def\<close>)
qed

lemma const_index: "unat CUDD_CONST_INDEX - Suc 0 = 65534"
  by (simp add: CUDD_CONST_INDEX_def)

lemma Cudd_bddIthVar_ok:
  assumes "mgr_ok ext {} m" "vars_ok ext m"
  shows "\<exists>v m'. Cudd_bddIthVar i m = Some (v, m') \<and> (v = NULL \<or> (\<exists>ext'. ext \<subseteq># ext' \<and>
    mgr_ok ext' {} m' \<and> vars_ok ext' m' \<and> extends (set_mset ext) (dsize m) m m' \<and> i < dsize m' \<and>
    held ext' m' v \<and> (\<forall>env. sem m' env v = env i)))"
proof -
  have use: "held ext' m' (vars m' ! i) \<and> (\<forall>env. sem m' env (vars m' ! i) = env i)"
    if "mgr_ok ext' {} m'" "vars_ok ext' m'" "i < dsize m'" for ext' m'
  proof -
    have "vars m' ! i \<in># ext'" "proj m' i (vars m' ! i)" using that(2,3) by (simp_all add: vars_ok_def)
    then show ?thesis using proj_sem [OF mgr_okD(5) [OF that(1)]] by (simp add: heldI)
  qed
  consider (big) "65534 \<le> i" | (old) "i < 65534" "i < dsize m" | (new) "i < 65534" "dsize m \<le> i" by linarith
  then show ?thesis
  proof cases
    case big
    then show ?thesis by (simp add: Cudd_bddIthVar_def const_index)
  next
    case old
    have "extends (set_mset ext) (dsize m) m m" by (rule keep_extends [OF keep_refl [OF assms(1)]])
    then show ?thesis using old use [OF assms old(2)] assms
      by (auto simp: Cudd_bddIthVar_def const_index intro!: exI [of _ ext])
  next
    case new
    obtain v m' where r: "cuddUniqueInter i (DD_ONE m) (Cudd_Not (DD_ONE m)) m = Some (v, m')"
      "v \<noteq> NULL \<longrightarrow> mgr_ok (ext + mset (map (\<lambda>i. vars m' ! i) [dsize m ..< i + 1])) {} m' \<and>
       vars_ok (ext + mset (map (\<lambda>i. vars m' ! i) [dsize m ..< i + 1])) m' \<and>
       extends (set_mset ext) (dsize m) m m' \<and> dsize m' = i + 1 \<and> v = vars m' ! i"
      using new_index_ok [OF assms new(2,1)] by blast
    have run: "Cudd_bddIthVar i m = Some (v, m')"
      using new r(1) by (simp add: Cudd_bddIthVar_def const_index)
    let ?e = "ext + mset (map (\<lambda>i. vars m' ! i) [dsize m ..< i + 1])"
    have "ext \<subseteq># ?e \<and> mgr_ok ?e {} m' \<and> vars_ok ?e m' \<and> extends (set_mset ext) (dsize m) m m' \<and>
      i < dsize m' \<and> held ?e m' v \<and> (\<forall>env. sem m' env v = env i)" if "v \<noteq> NULL"
      using r(2) that use [of ?e m'] by simp
    then show ?thesis using run by blast
  qed
qed

subsection \<open>The support is the set of the variables the condition depends on\<close>

definition depends :: "DdManager \<Rightarrow> ptr \<Rightarrow> nat \<Rightarrow> bool" where
  "depends m e i \<longleftrightarrow> (\<exists>env. sem m (env(i := True)) e \<noteq> sem m (env(i := False)) e)"

definition support_of :: "DdManager \<Rightarrow> ptr \<Rightarrow> DdHalfWord set" where
  "support_of m e = {i. unat i < dsize m \<and> depends m e (unat i)}"

lemma depends_Regular: "depends m (Cudd_Regular e) = depends m e"
  using sem_Regular [of m _ e] by (cases "Cudd_IsComplement e") (auto simp: depends_def fun_eq_iff)

lemma depends_one: "store_ok m \<Longrightarrow> \<not> depends m (DD_ONE m) i"
  by (simp add: depends_def)

lemma depends_node:
  assumes s: "store_ok m" and p: "p \<in> tabnodes m" and i: "i < dsize m"
  shows "depends m p i \<longleftrightarrow> i = nidx m p \<or> depends m (kT m p) i \<or> depends m (kE m p) i"
proof -
  let ?x = "nidx m p"
  note n = nodeD [OF s p] and t = tabnode [OF s p]
  have kids: "sem m (env(?x := b)) (kT m p) = sem m env (kT m p)"
    "sem m (env(?x := b)) (kE m p) = sem m env (kE m p)" for env b
    using n(10-13) t(2,3) by (intro sem_indep [OF s]; simp)+
  show ?thesis
  proof (cases "i = ?x")
    case True
    obtain env where "sem m env (kT m p) \<noteq> sem m env (kE m p)"
      using canonical [OF s n(10,11)] n(4) by blast
    then have "sem m (env(?x := True)) p \<noteq> sem m (env(?x := False)) p"
      by (simp add: sem_cofactors [OF s p])
    then show ?thesis using True by (auto simp: depends_def)
  next
    case False
    have eq: "sem m (env(i := b)) p = (if env ?x then sem m (env(i := b)) (kT m p) else sem m (env(i := b)) (kE m p))"
      for env b using False by (simp add: sem_node [OF s p])
    have up: "sem m (env(?x := c, i := b)) (kT m p) = sem m (env(i := b)) (kT m p)"
      "sem m (env(?x := c, i := b)) (kE m p) = sem m (env(i := b)) (kE m p)" for env b c
      using kids [of "env(i := b)" c] False by (simp_all add: fun_upd_twist)
    have at: "sem m (env(?x := c, i := b)) p =
        (if c then sem m (env(i := b)) (kT m p) else sem m (env(i := b)) (kE m p))" for env b c
      using eq [of "env(?x := c)" b] unfolding up by simp
    have "depends m p i" if "depends m (kT m p) i"
    proof -
      obtain env where "sem m (env(i := True)) (kT m p) \<noteq> sem m (env(i := False)) (kT m p)"
        using \<open>depends m (kT m p) i\<close> by (auto simp: depends_def)
      then show ?thesis
        unfolding depends_def by (intro exI [of _ "env(?x := True)"]) (simp only: at if_True not_False_eq_True)
    qed
    moreover have "depends m p i" if "depends m (kE m p) i"
    proof -
      obtain env where "sem m (env(i := True)) (kE m p) \<noteq> sem m (env(i := False)) (kE m p)"
        using \<open>depends m (kE m p) i\<close> by (auto simp: depends_def)
      then show ?thesis
        unfolding depends_def by (intro exI [of _ "env(?x := False)"]) (simp only: at if_False not_False_eq_True)
    qed
    moreover have "depends m (kT m p) i \<or> depends m (kE m p) i" if "depends m p i"
    proof -
      obtain env where "sem m (env(i := True)) p \<noteq> sem m (env(i := False)) p"
        using \<open>depends m p i\<close> by (auto simp: depends_def)
      then show ?thesis unfolding depends_def eq by (cases "env ?x") auto
    qed
    ultimately show ?thesis using False by blast
  qed
qed

lemma support_one: "store_ok m \<Longrightarrow> support_of m (DD_ONE m) = {}"
  by (simp add: support_of_def depends_one)

lemma support_Regular: "support_of m (Cudd_Regular e) = support_of m e"
  by (simp add: support_of_def depends_Regular)

lemma support_node:
  assumes "store_ok m" "p \<in> tabnodes m" "heap m p = Some n"
  shows "support_of m p = insert (index n) (support_of m (kT m p) \<union> support_of m (Cudd_Regular (kE m p)))"
proof -
  have "i = index n \<longleftrightarrow> unat i = nidx m p" for i
    using tab_heap(2) [OF assms] by (simp add: word_unat_eq_iff)
  moreover have "unat (index n) = nidx m p" by (rule tab_heap(2) [OF assms])
  ultimately show ?thesis
    using depends_node [OF assms(1,2)] tabnode(2) [OF assms(1,2)]
    by (auto simp: support_Regular) (auto simp: support_of_def)
qed

text \<open>The nodes below a node.\<close>

lemma below_one: "store_ok m \<Longrightarrow> reach m {DD_ONE m} = {DD_ONE m}"
proof -
  assume s: "store_ok m"
  have "p = DD_ONE m" if "p \<in> reach m {DD_ONE m}" for p
    using that by induction (use tabnode(5) [OF s] in auto)
  then show ?thesis by (auto intro: reach.base)
qed

lemma below_node:
  assumes "p \<in> tabnodes m"
  shows "reach m {p} = insert p (reach m {kT m p} \<union> reach m {Cudd_Regular (kE m p)})"
proof (intro equalityI subsetI)
  fix q assume "q \<in> reach m {p}"
  then show "q \<in> insert p (reach m {kT m p} \<union> reach m {Cudd_Regular (kE m p)})"
    by induction (auto intro: reach.intros)
next
  fix q assume q: "q \<in> insert p (reach m {kT m p} \<union> reach m {Cudd_Regular (kE m p)})"
  have p: "p \<in> reach m {p}" by (simp add: reach.base)
  have "q \<in> reach m {p}" if "q \<in> reach m {c}" "c \<in> reach m {p}" for c
    using that(1) by induction (use that(2) in \<open>auto intro: reach.intros\<close>)
  then show "q \<in> reach m {p}"
    using q p reach.reach_T [OF p assms] reach.reach_E [OF p assms] by blast
qed

lemma below_level:
  assumes "store_ok m" "q \<in> reach m {p}"
  shows "lev m p \<le> lev m q"
  using assms(2) by induction (use nodeD(7,8) [OF assms(1)] in fastforce)+

lemma below_trans: "q \<in> reach m {p} \<Longrightarrow> r \<in> reach m {q} \<Longrightarrow> r \<in> reach m {p}"
proof -
  assume q: "q \<in> reach m {p}" and r: "r \<in> reach m {q}"
  show ?thesis using r by induction (use q in \<open>auto intro: reach.intros\<close>)
qed

lemma node_induct [consumes 2, case_names one node]:
  assumes s: "store_ok m" and p: "p \<in> nodes m"
    and one: "P (DD_ONE m)"
    and node: "\<And>p. p \<in> tabnodes m \<Longrightarrow> P (kT m p) \<Longrightarrow> P (Cudd_Regular (kE m p)) \<Longrightarrow> P p"
  shows "P p"
  using p
proof (induction "dsize m - lev m p" arbitrary: p rule: less_induct)
  case less
  show ?case
  proof (cases "p = DD_ONE m")
    case False
    then have t: "p \<in> tabnodes m" using less.prems by (simp add: nodes_def)
    note n = nodeD(5-8) [OF s t] and l = tabnode(4) [OF s t]
    show ?thesis using n l by (intro node [OF t] less.hyps) auto
  qed (use one in simp)
qed

text \<open>The marks are on non-constant nodes and closed downwards, and the indices below them are found.\<close>

definition marks_ok :: "DdManager \<Rightarrow> ptr set \<times> DdHalfWord set \<Rightarrow> bool" where
  "marks_ok m st \<longleftrightarrow> (\<forall>p \<in> fst st. p \<in> tabnodes m \<and>
     reach m {p} \<inter> tabnodes m \<subseteq> fst st \<and> support_of m p \<subseteq> snd st)"

lemma BddSupportStep_ok:
  assumes s: "store_ok m" and p: "p \<in> nodes m" and st: "marks_ok m st"
  shows "BddSupportStep m p st = Some (fst st \<union> reach m {p} \<inter> tabnodes m, snd st \<union> support_of m p)"
  using s p st
proof (induction arbitrary: st rule: node_induct)
  case one
  obtain n where n: "heap m (DD_ONE m) = Some n" by (rule nodes_heap [OF s one_nodes])
  have "cuddIsConstant n"
    using s n by (auto simp: store_ok_def one_ok_def cont_def cuddIsConstant_def)
  then show ?case
    using n one_not_tab [OF s]
    by (subst BddSupportStep.simps) (simp add: support_one [OF s] below_one [OF s] Int_insert_left)
next
  case (node p)
  obtain n where n: "heap m p = Some n" using nodes_heap [OF s tab_nodes [OF node(1)]] .
  note h = tab_heap [OF s node(1) n]
  show ?case
  proof (cases "p \<in> fst st")
    case True
    then show ?thesis
      using node(4) n
      by (subst BddSupportStep.simps) (simp add: marks_ok_def Un_absorb2 prod_eq_iff)
  next
    case False
    let ?e = "Cudd_Regular (kE m p)"
    let ?st = "(fst st, insert (index n) (snd st))"
    let ?R = "\<lambda>q. reach m {q} \<inter> tabnodes m"
    have m1: "marks_ok m ?st" using node(4) by (auto simp: marks_ok_def)
    let ?s1 = "(fst ?st \<union> ?R (kT m p), snd ?st \<union> support_of m (kT m p))"
    have supp: "support_of m r \<subseteq> support_of m q" if "r \<in> reach m {q}" for q r
      using that
    proof induction
      case (reach_T r)
      obtain k where "heap m r = Some k" using nodes_heap [OF s tab_nodes [OF reach_T(2)]] .
      then show ?case using support_node [OF s reach_T(2)] reach_T(3) by blast
    next
      case (reach_E r)
      obtain k where "heap m r = Some k" using nodes_heap [OF s tab_nodes [OF reach_E(2)]] .
      then show ?case using support_node [OF s reach_E(2)] reach_E(3) by blast
    qed simp
    have m2: "marks_ok m ?s1"
      using m1 below_trans supp by (fastforce simp: marks_ok_def)
    show ?thesis
      using False n h(3-5) node(2) [OF m1] node(3) [OF m2]
      by (subst BddSupportStep.simps)
        (auto simp: support_node [OF s node(1) n] below_node [OF node(1)] node(1))
  qed
qed

text \<open>Clearing: no marked node is below an unmarked one, when the walk starts.\<close>

lemma ddClearFlag_ok:
  assumes s: "store_ok m" and p: "p \<in> nodes m" and c: "DD_ONE m \<notin> K"
    and top: "\<And>q. q \<in> reach m {p} \<Longrightarrow> q \<notin> K \<Longrightarrow> reach m {q} \<inter> K = {}"
  shows "ddClearFlag m p K = Some (K - reach m {p})"
  using s p c top
proof (induction arbitrary: K rule: node_induct)
  case one
  then show ?case by (subst ddClearFlag.simps) (auto simp: below_one [OF s])
next
  case (node p)
  show ?case
  proof (cases "p \<in> K")
    case False
    have "reach m {p} \<inter> K = {}" using node(5) [OF _ False] reach.base by blast
    then show ?thesis using False by (subst ddClearFlag.simps) auto
  next
    case True
    obtain n where n: "heap m p = Some n" using nodes_heap [OF s tab_nodes [OF node(1)]] .
    note h = tab_heap [OF s node(1) n]
    let ?e = "Cudd_Regular (kE m p)"
    let ?T = "reach m {kT m p}" and ?E = "reach m {?e}"
    have np: "p \<notin> ?T" "p \<notin> ?E"
      using below_level [OF s, of p] nodeD(7,8) [OF s node(1)] by fastforce+
    have sub: "?T \<subseteq> reach m {p}" "?E \<subseteq> reach m {p}" using below_node [OF node(1)] by auto
    let ?K1 = "K - {p}" and ?K2 = "K - {p} - ?T"
    have "ddClearFlag m (kT m p) ?K1 = Some ?K2"
    proof (rule node(2))
      fix q assume q: "q \<in> ?T" "q \<notin> ?K1"
      then have "q \<notin> K" using np(1) by blast
      then have "reach m {q} \<inter> K = {}" using node(5) sub(1) q(1) by blast
      then show "reach m {q} \<inter> ?K1 = {}" by blast
    qed (use node(4) in simp)
    moreover have "ddClearFlag m ?e ?K2 = Some (?K2 - ?E)"
    proof (rule node(3))
      fix q assume q: "q \<in> ?E" "q \<notin> ?K2"
      show "reach m {q} \<inter> ?K2 = {}"
      proof (cases "q \<in> ?T")
        case True
        then show ?thesis using below_trans by blast
      next
        case False
        then have "q \<notin> K" using q np(2) by blast
        then have "reach m {q} \<inter> K = {}" using node(5) sub(2) q(1) by blast
        then show ?thesis by blast
      qed
    qed (use node(4) in simp)
    moreover have "?K2 - ?E = K - reach m {p}" by (auto simp: below_node [OF node(1)])
    ultimately show ?thesis using True n h(3-5) by (subst ddClearFlag.simps) simp
  qed
qed

lemma BddSupport_ok:
  assumes "store_ok m" "f \<in> edges m"
  shows "BddSupport m f ({}, S) = Some ({}, S \<union> support_of m f)"
proof -
  let ?p = "Cudd_Regular f"
  have p: "?p \<in> nodes m" using assms(2) by (simp add: edges_def)
  let ?K = "reach m {?p} \<inter> tabnodes m"
  have st: "BddSupportStep m ?p ({}, S) = Some (?K, S \<union> support_of m f)"
    using BddSupportStep_ok [OF assms(1) p, of "({}, S)"] by (simp add: marks_ok_def support_Regular)
  have "reach m {q} \<inter> ?K = {}" if q: "q \<in> reach m {?p}" "q \<notin> ?K" for q
  proof -
    have "q = DD_ONE m"
      using q reach_nodes [OF assms(1) _ q(1)] p by (simp add: nodes_def)
    then show ?thesis using below_one [OF assms(1)] one_not_tab [OF assms(1)] by auto
  qed
  then have "ddClearFlag m ?p ?K = Some (?K - reach m {?p})"
    using ddClearFlag_ok [OF assms(1) p, of ?K] one_not_tab [OF assms(1)] by blast
  then show ?thesis by (auto simp: BddSupport_def st)
qed

end
