(* ===== verification/CondSession.thy ===== *)
theory CondSession
  imports BddCond
begin

text \<open>
  A run of the analysis as the condition manager sees it: any sequence of new variables,
  constants, conjunctions, disjunctions and negations, on conditions obtained before. Each condition
  is paired with the formula it was asked for. The invariant says that the manager stays
  consistent, that every condition handed out stays valid, and that a condition is never stronger
  than its formula as long as negation is applied to exact conditions only.
\<close>

subsection \<open>What a condition was asked for\<close>

datatype form = FTrue | FFalse | FVar uint32 | FAnd form form | FOr form form | FNeg form

primrec meaning :: "form \<Rightarrow> (nat \<Rightarrow> bool) \<Rightarrow> bool" where
  "meaning FTrue env = True"
| "meaning FFalse env = False"
| "meaning (FVar i) env = env (unat i)"
| "meaning (FAnd F G) env = (meaning F env \<and> meaning G env)"
| "meaning (FOr F G) env = (meaning F env \<or> meaning G env)"
| "meaning (FNeg F) env = (\<not> meaning F env)"

text \<open>
  Conjunction and disjunction may hit the limit and answer something weaker; a formula
  without them is represented exactly.
\<close>

primrec exact :: "form \<Rightarrow> bool" where
  "exact FTrue = True"
| "exact FFalse = True"
| "exact (FVar i) = True"
| "exact (FAnd F G) = False"
| "exact (FOr F G) = False"
| "exact (FNeg F) = exact F"

primrec weakens :: "form \<Rightarrow> bool" where
  "weakens FTrue = True"
| "weakens FFalse = True"
| "weakens (FVar i) = True"
| "weakens (FAnd F G) = (weakens F \<and> weakens G)"
| "weakens (FOr F G) = (weakens F \<and> weakens G)"
| "weakens (FNeg F) = exact F"

subsection \<open>The steps of a run\<close>

text \<open>
  \<open>createNewCond\<close> enters what the library returns into its map, \<open>NULL\<close> too. For an index from
  \<open>CUDD_MAXINDEX - 1\<close> on it is always \<open>NULL\<close>, and the run goes on without that condition
  (\<open>refused\<close>); asking for it with \<open>getCond\<close> gives no condition that could be an operand. \<open>NULL\<close> for a
  smaller index means that memory or time are exhausted, and is the end of a run: with the
  default handler the process has already ended, and with one that returns the counts of the unique
  table are left wrong (\<open>ddResizeTable\<close>, \<open>cuddTable.c\<close> line 2759).
  \<open>markForRelease\<close> is no step: its only two callers in the repository are commented out
  (\<open>ProgSlice.cpp\<close>), and a condition that has been released may not be used any more.
\<close>

type_synonym session = "BddCondManager \<times> (ptr \<times> form) list"

inductive cond_step :: "uint32 \<Rightarrow> session \<Rightarrow> session \<Rightarrow> bool" for limit where
  create: "createNewCond i b = Some (d, b') \<Longrightarrow> d \<noteq> NULL \<Longrightarrow> cond_step limit (b, cs) (b', (d, FVar i) # cs)"
| refused: "65534 \<le> unat i \<Longrightarrow> createNewCond i b = Some (NULL, b') \<Longrightarrow> cond_step limit (b, cs) (b', cs)"
| get: "getCond i b = Some d \<Longrightarrow> d \<noteq> NULL \<Longrightarrow> cond_step limit (b, cs) (b, (d, FVar i) # cs)"
| true: "cond_step limit (b, cs) (b, (getTrueCond (m_bdd_mgr b), FTrue) # cs)"
| false: "cond_step limit (b, cs) (b, (getFalseCond (m_bdd_mgr b), FFalse) # cs)"
| conj: "(f, F) \<in> set cs \<Longrightarrow> (g, G) \<in> set cs \<Longrightarrow> cond_AND limit f g (m_bdd_mgr b) = Some (d, m) \<Longrightarrow>
    cond_step limit (b, cs) (b\<lparr>m_bdd_mgr := m\<rparr>, (d, FAnd F G) # cs)"
| disj: "(f, F) \<in> set cs \<Longrightarrow> (g, G) \<in> set cs \<Longrightarrow> cond_OR limit f g (m_bdd_mgr b) = Some (d, m) \<Longrightarrow>
    cond_step limit (b, cs) (b\<lparr>m_bdd_mgr := m\<rparr>, (d, FOr F G) # cs)"
| neg: "(f, F) \<in> set cs \<Longrightarrow> cond_step limit (b, cs) (b, (cond_NEG f (m_bdd_mgr b), FNeg F) # cs)"

inductive reachable :: "uint32 \<Rightarrow> session \<Rightarrow> bool" for limit where
  start: "env_ok e \<Longrightarrow> new_BddCondManager mem e = Some (Some b) \<Longrightarrow> reachable limit (b, [])"
| step: "reachable limit s \<Longrightarrow> cond_step limit s s' \<Longrightarrow> reachable limit s'"

subsection \<open>The invariant\<close>

text \<open>A condition that the caller holds, and how it stands to its formula.\<close>

definition stands :: "ptr multiset \<Rightarrow> DdManager \<Rightarrow> ptr \<times> form \<Rightarrow> bool" where
  "stands ext m c \<longleftrightarrow> held ext m (fst c) \<and>
     (exact (snd c) \<longrightarrow> (\<forall>env. sem m env (fst c) = meaning (snd c) env)) \<and>
     (weakens (snd c) \<longrightarrow> (\<forall>env. meaning (snd c) env \<longrightarrow> sem m env (fst c)))"

definition session_ok :: "ptr multiset \<Rightarrow> session \<Rightarrow> bool" where
  "session_ok ext s \<longleftrightarrow> (case s of (b, cs) \<Rightarrow>
     mgr_ok ext {} (m_bdd_mgr b) \<and> vars_ok ext (m_bdd_mgr b) \<and>
     (\<forall>c \<in> set cs. stands ext (m_bdd_mgr b) c) \<and>
     (\<forall>i d. indexToDDNodeMap b i = Some d \<longrightarrow> d \<noteq> NULL \<longrightarrow> stands ext (m_bdd_mgr b) (d, FVar i)))"

lemma exact_weakens: "exact F \<Longrightarrow> weakens F"
  by (induction F) simp_all

text \<open>Nothing that was held is lost or changed when the manager moves on.\<close>

definition moves_on :: "ptr multiset \<Rightarrow> DdManager \<Rightarrow> ptr multiset \<Rightarrow> DdManager \<Rightarrow> bool" where
  "moves_on ext m ext' m' \<longleftrightarrow> mgr_ok ext' {} m' \<and> vars_ok ext' m' \<and>
     (\<forall>e. held ext m e \<longrightarrow> held ext' m' e \<and> (\<forall>env. sem m' env e = sem m env e))"

lemma moves_on_refl: "mgr_ok ext {} m \<Longrightarrow> vars_ok ext m \<Longrightarrow> moves_on ext m ext m"
  by (simp add: moves_on_def)

lemma stands_moves: "moves_on ext m ext' m' \<Longrightarrow> stands ext m c \<Longrightarrow> stands ext' m' c"
  by (simp add: moves_on_def stands_def)

text \<open>What a step does to a session: the caller has other references, the invariant holds, all conditions stay.\<close>

definition advances :: "ptr multiset \<Rightarrow> session \<Rightarrow> session \<Rightarrow> bool" where
  "advances ext s s' \<longleftrightarrow> (\<exists>ext'. session_ok ext' s' \<and>
     moves_on ext (m_bdd_mgr (fst s)) ext' (m_bdd_mgr (fst s')) \<and> set (snd s) \<subseteq> set (snd s'))"

lemma session_okD:
  assumes "session_ok ext (b, cs)"
  shows "mgr_ok ext {} (m_bdd_mgr b)" "vars_ok ext (m_bdd_mgr b)"
    "(d, F) \<in> set cs \<Longrightarrow> stands ext (m_bdd_mgr b) (d, F)"
    "indexToDDNodeMap b i = Some d \<Longrightarrow> d \<noteq> NULL \<Longrightarrow> stands ext (m_bdd_mgr b) (d, FVar i)"
  using assms by (auto simp: session_ok_def)

lemma session_moves:
  assumes "session_ok ext (b, cs)" "moves_on ext (m_bdd_mgr b) ext' m'" "stands ext' m' c"
  shows "session_ok ext' (b\<lparr>m_bdd_mgr := m'\<rparr>, c # cs)"
    "advances ext (b, cs) (b\<lparr>m_bdd_mgr := m'\<rparr>, c # cs)"
proof -
  show s: "session_ok ext' (b\<lparr>m_bdd_mgr := m'\<rparr>, c # cs)"
    using assms stands_moves [OF assms(2)] by (auto simp: session_ok_def moves_on_def)
  then show "advances ext (b, cs) (b\<lparr>m_bdd_mgr := m'\<rparr>, c # cs)"
    using assms(2) by (auto simp: advances_def)
qed

lemma session_add:
  assumes "session_ok ext (b, cs)" "stands ext (m_bdd_mgr b) c"
  shows "advances ext (b, cs) (b, c # cs)"
  using session_moves(2) [OF assms(1) moves_on_refl [OF session_okD(1,2) [OF assms(1)]] assms(2)] by simp

lemma handed_moves:
  assumes ok: "mgr_ok ext {} m" "vars_ok ext m" and h: "handed ext m call P Q (Some (r, m'))"
  shows "\<exists>ext'. moves_on ext m ext' m' \<and> held ext' m' r \<and>
    ((\<forall>env. sem m' env r = P env) \<or> (\<forall>env. sem m' env r = Q env))"
proof -
  obtain ext' where r: "mgr_ok ext' {} m'" "ext' = ext \<or> ext' = add_mset (Cudd_Regular r) ext"
    "keep (set_mset ext) (m\<lparr>reordered := reordered m'\<rparr>) m'" "held ext' m' r"
    "(\<forall>env. sem m' env r = P env) \<or> (\<forall>env. sem m' env r = Q env)"
    using h by (auto simp: handed_def)
  let ?m = "m\<lparr>reordered := reordered m'\<rparr>"
  have k: "mgr_ok ext {} ?m" using ok(1) by (simp add: reordered_ok(3))
  have v: "vars_ok ext ?m"
    using ok(2) by (simp add: vars_ok_def proj_def store_cong [OF reordered_ok(1)])
  have sub: "ext \<subseteq># ext'" using r(2) by auto
  have ex: "extends (set_mset ext) (dsize ?m) ?m m'" by (rule keep_extends [OF r(3)])
  have "dsize m' = dsize ?m" using orderD [OF keepD(3) [OF r(3)]] by simp
  from vars_ok_step [OF v ex mgr_okD(5) [OF k] this sub] have v': "vars_ok ext' m'" .
  have "held ext' m' e \<and> sem m' env e = sem m env e" if "held ext m e" for e env
  proof -
    have "held ext ?m e" using that held_store [OF reordered_ok(1)] by simp
    from held_extends [OF k r(1) ex sub this] show ?thesis using sem_cong_store [OF reordered_ok(1)] by simp
  qed
  then show ?thesis using r(1,4,5) v' unfolding moves_on_def by blast
qed

subsection \<open>Every step keeps it\<close>

lemma create_ok:
  assumes "session_ok ext (b, cs)" "createNewCond i b = Some (d, b')" "d \<noteq> NULL"
  shows "advances ext (b, cs) (b', (d, FVar i) # cs)"
proof -
  let ?m = "m_bdd_mgr b"
  have ok: "mgr_ok ext {} ?m" "vars_ok ext ?m" using assms(1) by (simp_all add: session_ok_def)
  obtain m' where r: "Cudd_bddIthVar (unat i) ?m = Some (d, m')"
    "b' = b\<lparr>m_bdd_mgr := m', indexToDDNodeMap := (indexToDDNodeMap b)(i \<mapsto> d)\<rparr>"
    using assms(2) by (auto simp: createNewCond_def split: option.splits bind_splits)
  obtain ext' where e: "ext \<subseteq># ext'" "mgr_ok ext' {} m'" "vars_ok ext' m'"
    "extends (set_mset ext) (dsize ?m) ?m m'" "held ext' m' d" "\<forall>env. sem m' env d = env (unat i)"
    using Cudd_bddIthVar_ok [OF ok, of "unat i"] r(1) assms(3) by auto
  have mv: "moves_on ext ?m ext' m'"
    using e(2,3) held_extends [OF ok(1) e(2,4,1)] by (simp add: moves_on_def)
  have st: "stands ext' m' (d, FVar i)" using e(5,6) by (simp add: stands_def)
  have "session_ok ext' (b\<lparr>m_bdd_mgr := m'\<rparr>, (d, FVar i) # cs)" by (rule session_moves [OF assms(1) mv st])
  then have "session_ok ext' (b', (d, FVar i) # cs)" using st by (auto simp: session_ok_def r(2))
  then show ?thesis using mv by (auto simp: advances_def r(2))
qed

lemma refused_ok:
  assumes "session_ok ext (b, cs)" "createNewCond i b = Some (NULL, b')" "65534 \<le> unat i"
  shows "advances ext (b, cs) (b', cs)"
proof -
  have "Cudd_bddIthVar (unat i) (m_bdd_mgr b) = Some (NULL, m_bdd_mgr b)"
    using assms(3) by (simp add: Cudd_bddIthVar_def const_index)
  then have "b' = b\<lparr>indexToDDNodeMap := (indexToDDNodeMap b)(i \<mapsto> NULL)\<rparr>"
    using assms(2) by (auto simp: createNewCond_def split: option.splits)
  then show ?thesis
    using assms(1) moves_on_refl [OF session_okD(1,2) [OF assms(1)]]
    by (auto simp: advances_def session_ok_def)
qed

lemma handed_session:
  assumes "session_ok ext (b, cs)" "handed ext (m_bdd_mgr b) call P Q (Some (d, m'))"
    and "\<And>env. meaning F env \<Longrightarrow> weakens F \<Longrightarrow> P env \<and> Q env" "\<not> exact F"
  shows "advances ext (b, cs) (b\<lparr>m_bdd_mgr := m'\<rparr>, (d, F) # cs)"
proof -
  obtain ext' where e: "moves_on ext (m_bdd_mgr b) ext' m'" "held ext' m' d"
    "(\<forall>env. sem m' env d = P env) \<or> (\<forall>env. sem m' env d = Q env)"
    using handed_moves [OF session_okD(1,2) [OF assms(1)] assms(2)] by blast
  have "stands ext' m' (d, F)" using e(2,3) assms(3,4) by (auto simp: stands_def)
  from session_moves(2) [OF assms(1) e(1) this] show ?thesis .
qed

lemma stands_held: "stands ext m (f, F) \<Longrightarrow> held ext m f"
  by (simp add: stands_def)

lemma stands_weakens: "stands ext m (f, F) \<Longrightarrow> weakens F \<Longrightarrow> meaning F env \<Longrightarrow> sem m env f"
  by (simp add: stands_def)

lemma AND_session:
  assumes s: "session_ok ext (b, cs)" and f: "(f, F) \<in> set cs" and g: "(g, G) \<in> set cs"
    and r: "cond_AND limit f g (m_bdd_mgr b) = Some (d, m)"
  shows "advances ext (b, cs) (b\<lparr>m_bdd_mgr := m\<rparr>, (d, FAnd F G) # cs)"
proof -
  note st = session_okD(3) [OF s f] session_okD(3) [OF s g]
  from cond_AND_ok [OF session_okD(1) [OF s] stands_held [OF st(1)] stands_held [OF st(2)], of limit]
  show ?thesis unfolding r
    by (rule handed_session [OF s]) (use stands_weakens [OF st(1)] stands_weakens [OF st(2)] in auto)
qed

lemma OR_session:
  assumes s: "session_ok ext (b, cs)" and f: "(f, F) \<in> set cs" and g: "(g, G) \<in> set cs"
    and r: "cond_OR limit f g (m_bdd_mgr b) = Some (d, m)"
  shows "advances ext (b, cs) (b\<lparr>m_bdd_mgr := m\<rparr>, (d, FOr F G) # cs)"
proof -
  note st = session_okD(3) [OF s f] session_okD(3) [OF s g]
  from cond_OR_ok [OF session_okD(1) [OF s] stands_held [OF st(1)] stands_held [OF st(2)], of limit]
  show ?thesis unfolding r
    by (rule handed_session [OF s]) (use stands_weakens [OF st(1)] stands_weakens [OF st(2)] in auto)
qed

lemma NEG_session:
  assumes s: "session_ok ext (b, cs)" and f: "(f, F) \<in> set cs"
  shows "advances ext (b, cs) (b, (cond_NEG f (m_bdd_mgr b), FNeg F) # cs)"
proof (rule session_add [OF s])
  note k = session_okD(1) [OF s] and st = session_okD(3) [OF s f]
  show "stands ext (m_bdd_mgr b) (cond_NEG f (m_bdd_mgr b), FNeg F)"
    using st cond_NEG_ok [OF k stands_held [OF st]] by (auto simp: stands_def)
qed

lemma cond_step_ok:
  assumes "cond_step limit s s'" "session_ok ext s"
  shows "advances ext s s'"
  using assms
proof (induction rule: cond_step.induct)
  case (create i b d b' cs)
  then show ?case by (intro create_ok)
next
  case (refused i b b' cs)
  then show ?case by (intro refused_ok)
next
  case (get i b d cs)
  then have "stands ext (m_bdd_mgr b) (d, FVar i)" using session_okD(4) by (simp add: getCond_def)
  from session_add [OF get.prems this] show ?case .
next
  case (true b cs)
  have "stands ext (m_bdd_mgr b) (getTrueCond (m_bdd_mgr b), FTrue)"
    using cond_constants [OF session_okD(1) [OF true]] by (simp add: stands_def)
  from session_add [OF true this] show ?case .
next
  case (false b cs)
  have "stands ext (m_bdd_mgr b) (getFalseCond (m_bdd_mgr b), FFalse)"
    using cond_constants [OF session_okD(1) [OF false]] by (simp add: stands_def)
  from session_add [OF false this] show ?case .
next
  case (conj f F cs g G b d m)
  show ?case by (rule AND_session [OF conj.prems conj.hyps])
next
  case (disj f F cs g G b d m)
  show ?case by (rule OR_session [OF disj.prems disj.hyps])
next
  case (neg f F cs b)
  from NEG_session [OF neg.prems neg.hyps] show ?case .
qed

text \<open>The constructor gives a manager without variables.\<close>

lemma slots_bounds: "unat CUDD_UNIQUE_SLOTS \<le> 2 ^ 8" "(3 :: nat) \<le> 8" "Suc 0 * 2 ^ 8 < (2 :: nat) ^ 28" "unat CUDD_CACHE_SLOTS < 2 ^ 27"
  by (simp_all add: CUDD_UNIQUE_SLOTS_def CUDD_CACHE_SLOTS_def)

lemma new_manager_ok:
  assumes "env_ok e"
  shows "\<exists>res. new_BddCondManager mem e = Some res \<and>
    (\<forall>b. res = Some b \<longrightarrow> session_ok {# DD_ONE (m_bdd_mgr b) #} (b, [])) \<and> (env_rich e \<longrightarrow> res \<noteq> None)"
proof -
  obtain res where r: "Cudd_Init 0 CUDD_UNIQUE_SLOTS CUDD_CACHE_SLOTS 0 mem e = Some res"
    "\<And>m. res = Some m \<Longrightarrow> mgr_ok {# DD_ONE m #} {} m \<and> vars_ok {# DD_ONE m #} m"
    "env_rich e \<Longrightarrow> res \<noteq> None"
    using Cudd_Init_ok [OF assms _ slots_bounds, where maxMemory = 0 and limit = mem] by auto
  have "session_ok {# DD_ONE (m_bdd_mgr b) #} (b, [])"
    if "map_option (\<lambda>m. \<lparr>m_bdd_mgr = m, indexToDDNodeMap = Map.empty\<rparr>) res = Some b" for b
    using that r(2) by (auto simp: session_ok_def)
  then show ?thesis using r(1,3) by (auto simp: new_BddCondManager_def)
qed

lemma reachable_ok: "reachable limit s \<Longrightarrow> \<exists>ext. session_ok ext s"
proof (induction rule: reachable.induct)
  case (start e mem b)
  then show ?case using new_manager_ok [of e mem] by auto
next
  case (step s s')
  then show ?case using cond_step_ok by (meson advances_def)
qed

subsection \<open>A condition once handed out\<close>

text \<open>Later steps leave it in the list, with its function.\<close>

lemma steps_keep:
  assumes "(cond_step limit)\<^sup>*\<^sup>* s s'" "session_ok ext s" "c \<in> set (snd s)"
  shows "c \<in> set (snd s') \<and> (\<forall>env. sem (m_bdd_mgr (fst s')) env (fst c) = sem (m_bdd_mgr (fst s)) env (fst c))"
  using assms
proof (induction arbitrary: ext rule: converse_rtranclp_induct)
  case base
  then show ?case by simp
next
  case (step s t)
  obtain ext' where t: "session_ok ext' t" "moves_on ext (m_bdd_mgr (fst s)) ext' (m_bdd_mgr (fst t))"
    "set (snd s) \<subseteq> set (snd t)"
    using cond_step_ok [OF step.hyps(1) step.prems(1)] by (auto simp: advances_def)
  have "held ext (m_bdd_mgr (fst s)) (fst c)"
    using step.prems session_okD(3) [of ext "fst s" "snd s" "fst c" "snd c"] by (simp add: stands_def)
  then have "sem (m_bdd_mgr (fst t)) env (fst c) = sem (m_bdd_mgr (fst s)) env (fst c)" for env
    using t(2) by (simp add: moves_on_def)
  then show ?case using step.IH [OF t(1)] t(3) step.prems(2) by auto
qed

lemma condition_stands:
  assumes "reachable limit (b, cs)" "(d, F) \<in> set cs"
  obtains ext where "mgr_ok ext {} (m_bdd_mgr b)" "vars_ok ext (m_bdd_mgr b)" "stands ext (m_bdd_mgr b) (d, F)"
    "held ext (m_bdd_mgr b) d" "session_ok ext (b, cs)"
  using reachable_ok [OF assms(1)] session_okD assms(2) stands_held by metis

subsection \<open>The nodes of a condition\<close>

text \<open>
  What an operation reads when it visits a node: a record with an index; a constant, which is
  the node one, or the index of a variable and two different children, the first one regular, which
  are nodes too.
\<close>

definition well_typed :: "DdManager \<Rightarrow> ptr \<Rightarrow> bool" where
  "well_typed m p \<longleftrightarrow> p \<noteq> NULL \<and> p AND 15 = 0 \<and> (case heap m p of
     None \<Rightarrow> False
   | Some n \<Rightarrow> (case type n of
       Value w \<Rightarrow> p = DD_ONE m \<and> index n = CUDD_CONST_INDEX
     | Kids T E \<Rightarrow> unat (index n) < dsize m \<and> \<not> Cudd_IsComplement T \<and> T \<noteq> E \<and>
         heap m T \<noteq> None \<and> heap m (Cudd_Regular E) \<noteq> None))"

lemma node_well_typed:
  assumes s: "store_ok m" and p: "p \<in> nodes m"
  shows "well_typed m p"
proof (cases "p = DD_ONE m")
  case True
  then show ?thesis using s by (auto simp: well_typed_def store_ok_def one_ok_def cont_def)
next
  case False
  then have t: "p \<in> tabnodes m" using p by (simp add: nodes_def)
  obtain n where n: "heap m p = Some n" "type n = Kids (kT m p) (kE m p)" "unat (index n) = nidx m p"
    using tabnode(1) [OF s t] by (auto simp: cont_def)
  have "heap m (kT m p) \<noteq> None" "heap m (Cudd_Regular (kE m p)) \<noteq> None"
    using nodes_heap [OF s nodeD(5) [OF s t]] nodes_heap [OF s nodeD(6) [OF s t]] option.distinct(1) by metis+
  then show ?thesis using n nodeD(1-4) [OF s t] tabnode(2) [OF s t] by (simp add: well_typed_def)
qed

lemma held_well_typed:
  assumes "mgr_ok ext F m" "held ext m d" "p \<in> reach m {Cudd_Regular d}"
  shows "well_typed m p"
proof -
  note g = mgr_okD [OF assms(1)]
  have "Cudd_Regular d \<in> nodes m" using reach_nodes [OF g(5,8)] assms(2) by (simp add: held_def)
  then have "p \<in> nodes m" using reach_nodes [OF g(5) _ assms(3)] by simp
  then show ?thesis by (rule node_well_typed [OF g(5)])
qed

subsection \<open>No operation fails\<close>

lemma handed_returns: "handed ext m call P Q res \<Longrightarrow> \<exists>d m'. res = Some (d, m') \<and> d \<noteq> NULL"
  using heldD(3) unfolding handed_def by blast

lemma operations_return:
  assumes ok: "mgr_ok ext {} m" "vars_ok ext m" and h: "held ext m f" "held ext m g"
  shows "\<exists>d m'. cond_AND limit f g m = Some (d, m') \<and> d \<noteq> NULL"
    "\<exists>d m'. cond_OR limit f g m = Some (d, m') \<and> d \<noteq> NULL" "Cudd_bddIthVar i m \<noteq> None"
    "BddSupport m f ({}, {}) \<noteq> None"
proof -
  show "\<exists>d m'. cond_AND limit f g m = Some (d, m') \<and> d \<noteq> NULL" by (rule handed_returns [OF cond_AND_ok [OF ok(1) h]])
  show "\<exists>d m'. cond_OR limit f g m = Some (d, m') \<and> d \<noteq> NULL" by (rule handed_returns [OF cond_OR_ok [OF ok(1) h]])
  show "Cudd_bddIthVar i m \<noteq> None" using Cudd_bddIthVar_ok [OF ok, of i] by (metis option.distinct(1))
  have "f \<in> edges m" using heldD [OF h(1) ok(1)] by simp
  then show "BddSupport m f ({}, {}) \<noteq> None" using BddSupport_ok [OF mgr_okD(5) [OF ok(1)]] by simp
qed

text \<open>The making of a variable that is not in the map.\<close>

lemma create_returns:
  assumes "session_ok ext (b, cs)" "indexToDDNodeMap b i = None"
  shows "\<exists>d b'. createNewCond i b = Some (d, b') \<and>
    (65534 \<le> unat i \<longrightarrow> d = NULL \<and> m_bdd_mgr b' = m_bdd_mgr b) \<and>
    (d \<noteq> NULL \<longrightarrow> (\<forall>env. sem (m_bdd_mgr b') env d = env (unat i)))"
proof -
  note ok = session_okD(1,2) [OF assms(1)]
  obtain v m' where r: "Cudd_bddIthVar (unat i) (m_bdd_mgr b) = Some (v, m')"
    "v \<noteq> NULL \<longrightarrow> (\<forall>env. sem m' env v = env (unat i))"
    using Cudd_bddIthVar_ok [OF ok, of "unat i"] by blast
  have "v = NULL \<and> m' = m_bdd_mgr b" if "65534 \<le> unat i"
    using r(1) that by (simp add: Cudd_bddIthVar_def const_index)
  then show ?thesis using r assms(2)
    by (intro exI [of _ v] exI [of _ "b\<lparr>m_bdd_mgr := m', indexToDDNodeMap := (indexToDDNodeMap b)(i \<mapsto> v)\<rparr>"])
      (simp add: createNewCond_def)
qed

text \<open>Two exact conditions are the same pointer only if the formulas agree, and conversely.\<close>

lemma stands_equal:
  assumes "mgr_ok ext {} m" "stands ext m (d, F)" "stands ext m (e, G)" "exact F" "exact G"
  shows "d = e \<longleftrightarrow> (\<forall>env. meaning F env = meaning G env)"
proof -
  have "d \<in> edges m" "e \<in> edges m" using heldD [OF _ assms(1)] stands_held assms(2,3) by blast+
  then have c: "d = e \<longleftrightarrow> (\<forall>env. sem m env d = sem m env e)"
    using canonical [OF mgr_okD(5) [OF assms(1)], of d e] by blast
  have "sem m env d = meaning F env" "sem m env e = meaning G env" for env
    using assms(2-5) by (simp_all add: stands_def)
  then show ?thesis unfolding c by simp
qed

subsection \<open>A run that starts\<close>

text \<open>One block of memory at \<open>0x1000\<close>, and memory for every array.\<close>

definition demo_env :: DdEnv where
  "demo_env = \<lparr>sizeof_DdManager = 500, env_chunks = [0x1000], env_allocs = replicate 13 True, env_clock = [0]\<rparr>"

lemma demo_env_ok: "env_ok demo_env" "env_rich demo_env"
proof -
  have f: "chunk_fits 0x1000" by (simp add: chunk_fits_def DD_MEM_CHUNK_def)
  then show "env_ok demo_env" using chunk_slots_distinct [OF f] by (simp add: env_ok_def demo_env_def)
  show "env_rich demo_env" by (simp add: env_rich_def demo_env_def)
qed

lemma demo_starts: "\<exists>b. new_BddCondManager mem demo_env = Some (Some b) \<and> reachable limit (b, [])"
  using new_manager_ok [OF demo_env_ok(1), of mem] demo_env_ok reachable.start [OF demo_env_ok(1), of mem]
  by (metis not_None_eq)

lemma demo_run:
  obtains b where "reachable limit
    (b, [(cond_NEG (getTrueCond (m_bdd_mgr b)) (m_bdd_mgr b), FNeg FTrue), (getTrueCond (m_bdd_mgr b), FTrue)])"
proof -
  obtain b where b: "reachable limit (b, [])" using demo_starts by blast
  let ?t = "(getTrueCond (m_bdd_mgr b), FTrue)"
  have "reachable limit (b, [?t])" by (rule reachable.step [OF b cond_step.true])
  then have "reachable limit (b, [(cond_NEG (fst ?t) (m_bdd_mgr b), FNeg FTrue), ?t])"
    by (rule reachable.step) (rule cond_step.neg, simp)
  then show ?thesis using that by simp
qed

end
