(* ===== verification/StTable.thy ===== *)
theory StTable
  imports Prelude "HOL-Library.Multiset"
begin

text \<open>
  The hash table of the package: \<open>lib/SVF/CUDD/st.c\<close> with \<open>include/SVF/CUDD/st.h\<close>. A table is an
  array of bins, a bin is a linked list of entries; the list of a bin is a list here, head
  first. Keys and records are \<open>char *\<close> in the code and two types here; the comparison and the
  hash function are fields of the table, as in the code. An \<open>int\<close> is an integer whose overflow,
  undefined in C, has no value (\<open>None\<close>); so has an array whose size in bytes is not a \<open>long\<close> of 32
  bits, and a bin index outside the array. \<open>mem\<close> is the sequence of answers of
  \<open>ALLOC\<close>, \<open>False\<close> for \<open>NULL\<close>; an exhausted sequence answers \<open>NULL\<close>.
\<close>

subsection \<open>Data\<close>

record ('k, 'v) st_table =
  compare :: "'k \<Rightarrow> 'k \<Rightarrow> int"
  hash :: "'k \<Rightarrow> int \<Rightarrow> int"
  num_bins :: int
  num_entries :: int
  max_density :: int
  reorder_flag :: bool
  grow_factor :: rat
  bins :: "('k \<times> 'v) list list"

datatype st_retval = ST_CONTINUE | ST_STOP | ST_DELETE

definition ST_OUT_OF_MEM :: int where
  "ST_OUT_OF_MEM = -10000"

definition ST_DEFAULT_MAX_DENSITY :: int where
  "ST_DEFAULT_MAX_DENSITY = 5"

definition ST_DEFAULT_INIT_TABLE_SIZE :: int where
  "ST_DEFAULT_INIT_TABLE_SIZE = 11"

definition ST_DEFAULT_GROW_FACTOR :: rat where
  "ST_DEFAULT_GROW_FACTOR = 2"

definition alloc :: "bool list \<Rightarrow> bool \<times> bool list" where
  "alloc mem = (case mem of [] \<Rightarrow> (False, []) | b # bs \<Rightarrow> (b, bs))"

text \<open>The values of an \<open>int\<close>, and the sizes of an array of pointers that \<open>ALLOC\<close> can compute.\<close>

definition c_int :: "int \<Rightarrow> int option" where
  "c_int n = (if - (2 ^ 31) \<le> n \<and> n < 2 ^ 31 then Some n else None)"

definition bins_fit :: "int \<Rightarrow> bool" where
  "bins_fit n \<longleftrightarrow> 4 * n < 2 ^ 31"

subsection \<open>Predefined comparison and hash functions\<close>

definition st_numcmp :: "ptr \<Rightarrow> ptr \<Rightarrow> int" where
  "st_numcmp x y = (if x \<noteq> y then 1 else 0)"

definition st_ptrcmp :: "ptr \<Rightarrow> ptr \<Rightarrow> int" where
  "st_ptrcmp x y = (if x \<noteq> y then 1 else 0)"

definition st_numhash :: "ptr \<Rightarrow> int \<Rightarrow> int" where
  "st_numhash x sz = uint x mod sz"

definition st_ptrhash :: "ptr \<Rightarrow> int \<Rightarrow> int" where
  "st_ptrhash x sz = uint (drop_bit 2 x) mod sz"

text \<open>
  The string hash computes in \<open>int\<close> without a test: for a long string the value overflows, which
  is undefined.
\<close>

fun strhash_loop :: "8 word list \<Rightarrow> int \<Rightarrow> int option" where
  "strhash_loop [] val = Some val"
| "strhash_loop (c # cs) val = do {
     val \<leftarrow> c_int (val * 997);
     val \<leftarrow> c_int (val + sint c);
     strhash_loop cs val }"

definition st_strhash :: "8 word list \<Rightarrow> int \<Rightarrow> int option" where
  "st_strhash str modulus = do {
     val \<leftarrow> strhash_loop str 0;
     val \<leftarrow> (if val < 0 then c_int (- val) else Some val);
     Some (val mod modulus) }"

subsection \<open>Finding an entry\<close>

definition do_hash :: "'k \<Rightarrow> ('k, 'v) st_table \<Rightarrow> int" where
  "do_hash key table = hash table key (num_bins table)"

definition bin_at :: "('k, 'v) st_table \<Rightarrow> int \<Rightarrow> ('k \<times> 'v) list option" where
  "bin_at table h = (if h < 0 then None else nth_opt (bins table) (nat h))"

definition set_bin :: "int \<Rightarrow> ('k \<times> 'v) list \<Rightarrow> ('k, 'v) st_table \<Rightarrow> ('k, 'v) st_table" where
  "set_bin h es table = table\<lparr>bins := (bins table)[nat h := es]\<rparr>"

text \<open>The walk along a bin: the entries passed, the entry with an equal key, the entries after it.\<close>

fun walk :: "('k \<Rightarrow> 'k \<Rightarrow> int) \<Rightarrow> 'k \<Rightarrow> ('k \<times> 'v) list \<Rightarrow>
    (('k \<times> 'v) list \<times> ('k \<times> 'v) \<times> ('k \<times> 'v) list) option" where
  "walk cmp key [] = None"
| "walk cmp key (e # es) =
     (if cmp key (fst e) \<noteq> 0 then map_option (\<lambda>(b, x, a). (e # b, x, a)) (walk cmp key es)
      else Some ([], e, es))"

text \<open>
  With the reorder flag the entry found is moved to the head of its bin. The result is the
  table with the place of the entry (\<open>None\<close> when there is none): what was before and after it.
\<close>

definition rebin :: "bool \<Rightarrow> ('k \<times> 'v) list \<Rightarrow> 'k \<times> 'v \<Rightarrow> ('k \<times> 'v) list \<Rightarrow> ('k \<times> 'v) list" where
  "rebin reorder b e a = (if reorder then e # b @ a else b @ e # a)"

definition FIND_ENTRY :: "('k, 'v) st_table \<Rightarrow> int \<Rightarrow> 'k \<Rightarrow>
    (('k, 'v) st_table \<times> (('k \<times> 'v) list \<times> ('k \<times> 'v) \<times> ('k \<times> 'v) list) option) option" where
  "FIND_ENTRY table hash_val key = do {
     bin \<leftarrow> bin_at table hash_val;
     Some (case walk (compare table) key bin of
        None \<Rightarrow> (table, None)
      | Some (b, e, a) \<Rightarrow>
          (set_bin hash_val (rebin (reorder_flag table) b e a) table, Some (b, e, a))) }"

subsection \<open>Creating a table\<close>

definition st_init_table_with_params ::
    "('k \<Rightarrow> 'k \<Rightarrow> int) \<Rightarrow> ('k \<Rightarrow> int \<Rightarrow> int) \<Rightarrow> int \<Rightarrow> int \<Rightarrow> rat \<Rightarrow> bool \<Rightarrow> bool list \<Rightarrow>
     (('k, 'v) st_table option \<times> bool list) option" where
  "st_init_table_with_params cmp hsh sz density growth reorder mem = (
     let (ok, mem) = alloc mem in
     if \<not> ok then Some (None, mem)
     else let sz = (if sz \<le> 0 then 1 else sz) in
          if \<not> bins_fit sz then None
          else let (ok, mem) = alloc mem in
          if \<not> ok then Some (None, mem)
          else Some (Some \<lparr>compare = cmp, hash = hsh, num_bins = sz, num_entries = 0,
                  max_density = density, reorder_flag = reorder, grow_factor = growth,
                  bins = replicate (nat sz) []\<rparr>, mem))"

definition st_init_table ::
    "('k \<Rightarrow> 'k \<Rightarrow> int) \<Rightarrow> ('k \<Rightarrow> int \<Rightarrow> int) \<Rightarrow> bool list \<Rightarrow>
     (('k, 'v) st_table option \<times> bool list) option" where
  "st_init_table cmp hsh mem = st_init_table_with_params cmp hsh ST_DEFAULT_INIT_TABLE_SIZE
     ST_DEFAULT_MAX_DENSITY ST_DEFAULT_GROW_FACTOR False mem"

subsection \<open>Growing\<close>

text \<open>\<open>num_entries++\<close>, and the entries of the old bins pushed one by one on the new bins.\<close>

definition count_entry :: "('k, 'v) st_table \<Rightarrow> ('k, 'v) st_table option" where
  "count_entry table = do {
     n \<leftarrow> c_int (num_entries table + 1);
     Some (table\<lparr>num_entries := n\<rparr>) }"

fun move_chain :: "('k \<times> 'v) list \<Rightarrow> ('k, 'v) st_table \<Rightarrow> ('k, 'v) st_table option" where
  "move_chain [] table = Some table"
| "move_chain (e # es) table = do {
     let hash_val = do_hash (fst e) table;
     bin \<leftarrow> bin_at table hash_val;
     table \<leftarrow> count_entry (set_bin hash_val (e # bin) table);
     move_chain es table }"

text \<open>
  \<open>(int) (grow_factor * num_bins)\<close> truncates towards zero, and is undefined when the truncated value
  is no \<open>int\<close>; an even number of bins is made odd.
\<close>

definition grown :: "rat \<Rightarrow> int \<Rightarrow> int option" where
  "grown growth n = do {
     let x = growth * of_int n;
     n \<leftarrow> c_int (if x < 0 then \<lceil>x\<rceil> else \<lfloor>x\<rfloor>);
     if n mod 2 = 0 then c_int (n + 1) else Some n }"

definition rehash :: "('k, 'v) st_table \<Rightarrow> bool list \<Rightarrow> (int \<times> ('k, 'v) st_table \<times> bool list) option" where
  "rehash table mem = do {
     n \<leftarrow> grown (grow_factor table) (num_bins table);
     if \<not> bins_fit n then None
     else let (ok, mem) = alloc mem in
     if \<not> ok then Some (ST_OUT_OF_MEM, table, mem)
     else do {
       table \<leftarrow> move_chain (concat (bins table))
         (table\<lparr>num_bins := n, num_entries := 0, bins := replicate (nat n) []\<rparr>);
       Some (1, table, mem) } }"

subsection \<open>Lookup, insertion, deletion\<close>

definition st_lookup :: "('k, 'v) st_table \<Rightarrow> 'k \<Rightarrow> ('v option \<times> ('k, 'v) st_table) option" where
  "st_lookup table key = do {
     (table, found) \<leftarrow> FIND_ENTRY table (do_hash key table) key;
     Some (map_option (\<lambda>(_, e, _). snd e) found, table) }"

text \<open>A new entry at the head of its bin, after growing the table when it is too dense.\<close>

definition push_entry :: "'k \<Rightarrow> 'v \<Rightarrow> ('k, 'v) st_table \<Rightarrow> bool list \<Rightarrow>
    (bool \<times> ('k, 'v) st_table \<times> bool list) option" where
  "push_entry key value table mem = do {
     (rc, table, mem) \<leftarrow>
       (if num_entries table div num_bins table \<ge> max_density table then rehash table mem
        else Some (1, table, mem));
     if rc = ST_OUT_OF_MEM then Some (False, table, mem)
     else let hash_val = do_hash key table; (ok, mem) = alloc mem in
       if \<not> ok then Some (False, table, mem)
       else do {
         bin \<leftarrow> bin_at table hash_val;
         table \<leftarrow> count_entry (set_bin hash_val ((key, value) # bin) table);
         Some (True, table, mem) } }"

definition st_insert :: "('k, 'v) st_table \<Rightarrow> 'k \<Rightarrow> 'v \<Rightarrow> bool list \<Rightarrow>
    (int \<times> ('k, 'v) st_table \<times> bool list) option" where
  "st_insert table key value mem = do {
     let hash_val = do_hash key table;
     (table, found) \<leftarrow> FIND_ENTRY table hash_val key;
     case found of
       None \<Rightarrow> do {
         (ok, table, mem) \<leftarrow> push_entry key value table mem;
         Some (if ok then 0 else ST_OUT_OF_MEM, table, mem) }
     | Some (b, e, a) \<Rightarrow>
         Some (1, set_bin hash_val (rebin (reorder_flag table) b (fst e, value) a) table, mem) }"

definition st_add_direct :: "('k, 'v) st_table \<Rightarrow> 'k \<Rightarrow> 'v \<Rightarrow> bool list \<Rightarrow>
    (int \<times> ('k, 'v) st_table \<times> bool list) option" where
  "st_add_direct table key value mem = do {
     (ok, table, mem) \<leftarrow> push_entry key value table mem;
     Some (if ok then 1 else ST_OUT_OF_MEM, table, mem) }"

text \<open>
  The slot these two return is the address of the record of an entry: its bin and its
  position there. \<open>zero\<close> is the null record a new entry gets.
\<close>

definition st_find_or_add :: "'v \<Rightarrow> ('k, 'v) st_table \<Rightarrow> 'k \<Rightarrow> bool list \<Rightarrow>
    (int \<times> (int \<times> nat) option \<times> ('k, 'v) st_table \<times> bool list) option" where
  "st_find_or_add zero table key mem = do {
     let hash_val = do_hash key table;
     (table, found) \<leftarrow> FIND_ENTRY table hash_val key;
     case found of
       None \<Rightarrow> do {
         (ok, table, mem) \<leftarrow> push_entry key zero table mem;
         Some (if ok then (0, Some (do_hash key table, 0), table, mem)
               else (ST_OUT_OF_MEM, None, table, mem)) }
     | Some (b, e, a) \<Rightarrow>
         Some (1, Some (hash_val, if reorder_flag table then 0 else length b), table, mem) }"

definition st_find :: "('k, 'v) st_table \<Rightarrow> 'k \<Rightarrow> (bool \<times> (int \<times> nat) option \<times> ('k, 'v) st_table) option" where
  "st_find table key = do {
     let hash_val = do_hash key table;
     (table, found) \<leftarrow> FIND_ENTRY table hash_val key;
     Some (case found of
        None \<Rightarrow> (False, None, table)
      | Some (b, e, a) \<Rightarrow>
          (True, Some (hash_val, if reorder_flag table then 0 else length b), table)) }"

definition write_slot :: "int \<times> nat \<Rightarrow> 'v \<Rightarrow> ('k, 'v) st_table \<Rightarrow> ('k, 'v) st_table option" where
  "write_slot slot value table = (case slot of (h, i) \<Rightarrow> do {
     bin \<leftarrow> bin_at table h;
     e \<leftarrow> nth_opt bin i;
     Some (set_bin h (bin[i := (fst e, value)]) table) })"

text \<open>
  Deletion unlinks the entry through the link \<open>last\<close> that the search followed. When the
  search has moved the entry to the head, \<open>last\<close> is the link of its former predecessor, so
  that the assignment \<open>*last = ptr->next\<close> makes the predecessor point to the former head and
  leaves the freed entry at the head of the bin: from then on the bin has no value.
\<close>

definition st_delete :: "('k, 'v) st_table \<Rightarrow> 'k \<Rightarrow> ((('k \<times> 'v) option) \<times> ('k, 'v) st_table) option" where
  "st_delete table key = do {
     let hash_val = do_hash key table;
     (table, found) \<leftarrow> FIND_ENTRY table hash_val key;
     case found of
       None \<Rightarrow> Some (None, table)
     | Some (b, e, a) \<Rightarrow>
         if reorder_flag table \<and> b \<noteq> [] then None
         else Some (Some e, (set_bin hash_val (b @ a) table)\<lparr>num_entries := num_entries table - 1\<rparr>) }"

subsection \<open>Copies and iteration\<close>

fun allocs :: "nat \<Rightarrow> bool list \<Rightarrow> bool \<times> bool list" where
  "allocs 0 mem = (True, mem)"
| "allocs (Suc n) mem = (let (ok, mem) = alloc mem in if ok then allocs n mem else (False, mem))"

definition st_copy :: "('k, 'v) st_table \<Rightarrow> bool list \<Rightarrow> ('k, 'v) st_table option \<times> bool list" where
  "st_copy old_table mem = (
     let (ok, mem) = allocs (2 + length (concat (bins old_table))) mem in
     (if ok then Some (old_table\<lparr>bins := map rev (bins old_table)\<rparr>) else None, mem))"

fun foreach_bin :: "('k \<Rightarrow> 'v \<Rightarrow> 'a \<Rightarrow> st_retval \<times> 'a) \<Rightarrow> ('k \<times> 'v) list \<Rightarrow> 'a \<Rightarrow>
    bool \<times> ('k \<times> 'v) list \<times> nat \<times> 'a" where
  "foreach_bin func [] arg = (True, [], 0, arg)"
| "foreach_bin func (e # es) arg = (case func (fst e) (snd e) arg of
     (ST_CONTINUE, arg) \<Rightarrow> let (go, es', d, arg) = foreach_bin func es arg in (go, e # es', d, arg)
   | (ST_STOP, arg) \<Rightarrow> (False, e # es, 0, arg)
   | (ST_DELETE, arg) \<Rightarrow> let (go, es', d, arg) = foreach_bin func es arg in (go, es', d + 1, arg))"

fun foreach_bins :: "('k \<Rightarrow> 'v \<Rightarrow> 'a \<Rightarrow> st_retval \<times> 'a) \<Rightarrow> ('k \<times> 'v) list list \<Rightarrow> 'a \<Rightarrow>
    bool \<times> ('k \<times> 'v) list list \<times> nat \<times> 'a" where
  "foreach_bins func [] arg = (True, [], 0, arg)"
| "foreach_bins func (b # bs) arg = (
     let (go, b', d, arg) = foreach_bin func b arg in
     if \<not> go then (False, b' # bs, d, arg)
     else let (go, bs', d', arg) = foreach_bins func bs arg in (go, b' # bs', d + d', arg))"

definition st_foreach :: "('k, 'v) st_table \<Rightarrow> ('k \<Rightarrow> 'v \<Rightarrow> 'a \<Rightarrow> st_retval \<times> 'a) \<Rightarrow> 'a \<Rightarrow>
    bool \<times> ('k, 'v) st_table \<times> 'a" where
  "st_foreach table func arg = (
     let (go, bs, d, arg) = foreach_bins func (bins table) arg in
     (go, table\<lparr>bins := bs, num_entries := num_entries table - int d\<rparr>, arg))"

text \<open>A generator: the rest of the bin it is in, and the index of the next bin.\<close>

record ('k, 'v) st_generator =
  gen_table :: "('k, 'v) st_table"
  entry :: "('k \<times> 'v) list"
  gen_index :: nat

definition st_init_gen :: "('k, 'v) st_table \<Rightarrow> bool list \<Rightarrow> ('k, 'v) st_generator option \<times> bool list" where
  "st_init_gen table mem = (let (ok, mem) = alloc mem in
     (if ok then Some \<lparr>gen_table = table, entry = [], gen_index = 0\<rparr> else None, mem))"

fun next_bin :: "('k \<times> 'v) list list \<Rightarrow> nat \<Rightarrow> (nat \<times> ('k \<times> 'v) list) option" where
  "next_bin [] i = None"
| "next_bin (b # bs) i = (if b \<noteq> [] then Some (i + 1, b) else next_bin bs (i + 1))"

definition st_gen :: "('k, 'v) st_generator \<Rightarrow> ('k \<times> 'v) option \<times> ('k, 'v) st_generator" where
  "st_gen gen = (
     let gen = (if entry gen = []
       then (case next_bin (drop (gen_index gen) (bins (gen_table gen))) (gen_index gen) of
               None \<Rightarrow> gen
             | Some (i, b) \<Rightarrow> gen\<lparr>gen_index := i, entry := b\<rparr>)
       else gen)
     in case entry gen of
          [] \<Rightarrow> (None, gen)
        | e # es \<Rightarrow> (Some e, gen\<lparr>entry := es\<rparr>))"

text \<open>The variants for records that are integers, read out of the pointer-sized record.\<close>

definition record_int :: "ptr \<Rightarrow> int" where
  "record_int r = sint r"

definition st_lookup_int :: "('k, ptr) st_table \<Rightarrow> 'k \<Rightarrow> (int option \<times> ('k, ptr) st_table) option" where
  "st_lookup_int table key = do {
     (table, found) \<leftarrow> FIND_ENTRY table (do_hash key table) key;
     Some (map_option (\<lambda>(_, e, _). record_int (snd e)) found, table) }"

definition st_delete_int :: "('k, ptr) st_table \<Rightarrow> 'k \<Rightarrow> ((('k \<times> int) option) \<times> ('k, ptr) st_table) option" where
  "st_delete_int table key = do {
     let hash_val = do_hash key table;
     (table, found) \<leftarrow> FIND_ENTRY table hash_val key;
     case found of
       None \<Rightarrow> Some (None, table)
     | Some (b, e, a) \<Rightarrow>
         if reorder_flag table \<and> b \<noteq> [] then None
         else Some (Some (fst e, record_int (snd e)),
           (set_bin hash_val (b @ a) table)\<lparr>num_entries := num_entries table - 1\<rparr>) }"

definition st_gen_int :: "('k, ptr) st_generator \<Rightarrow> ('k \<times> int) option \<times> ('k, ptr) st_generator" where
  "st_gen_int gen = (
     let gen = (if entry gen = []
       then (case next_bin (drop (gen_index gen) (bins (gen_table gen))) (gen_index gen) of
               None \<Rightarrow> gen
             | Some (i, b) \<Rightarrow> gen\<lparr>gen_index := i, entry := b\<rparr>)
       else gen)
     in case entry gen of
          [] \<Rightarrow> (None, gen)
        | e # es \<Rightarrow> (Some (fst e, record_int (snd e)), gen\<lparr>entry := es\<rparr>))"

subsection \<open>The invariant and the abstract map\<close>

text \<open>
  A table stands for a finite map: the record of the entry whose key is equal, by the table's
  comparison, to the key asked for. The invariant says that each entry is in the bin of its
  key, that no two entries have equal keys and that the counter of entries is exact.
\<close>

definition entries :: "('k, 'v) st_table \<Rightarrow> ('k \<times> 'v) multiset" where
  "entries t = mset (concat (bins t))"

definition matching :: "('k, 'v) st_table \<Rightarrow> 'k \<Rightarrow> ('k \<times> 'v) multiset" where
  "matching t k = filter_mset (\<lambda>e. compare t k (fst e) = 0) (entries t)"

definition in_bins :: "('k, 'v) st_table \<Rightarrow> bool" where
  "in_bins t \<longleftrightarrow> 0 < num_bins t \<and> length (bins t) = nat (num_bins t) \<and> 1 \<le> grow_factor t \<and>
     (\<forall>i < length (bins t). \<forall>e \<in> set (bins t ! i). do_hash (fst e) t = int i)"

definition st_ok :: "('k, 'v) st_table \<Rightarrow> bool" where
  "st_ok t \<longleftrightarrow> in_bins t \<and> num_entries t = int (size (entries t)) \<and> (\<forall>k. size (matching t k) \<le> 1)"

definition st_map :: "('k, 'v) st_table \<Rightarrow> 'k \<Rightarrow> 'v option" where
  "st_map t k = map_option snd (find (\<lambda>e. compare t k (fst e) = 0) (concat (bins t)))"

lemma matching_filter: "matching t k = mset (filter (\<lambda>e. compare t k (fst e) = 0) (concat (bins t)))"
  by (simp only: matching_def entries_def mset_filter)

lemma st_map_None: "matching t k = {#} \<Longrightarrow> st_map t k = None"
proof -
  assume "matching t k = {#}"
  then have "\<forall>x \<in> set (concat (bins t)). compare t k (fst x) \<noteq> 0"
    unfolding matching_filter mset_zero_iff filter_empty_conv .
  then have "find (\<lambda>e. compare t k (fst e) = 0) (concat (bins t)) = None"
    unfolding find_None_iff by blast
  then show ?thesis by (simp add: st_map_def)
qed

lemma st_map_Some:
  assumes "matching t k = {# e #}"
  shows "st_map t k = Some (snd e)"
proof (cases "find (\<lambda>e. compare t k (fst e) = 0) (concat (bins t))")
  case None
  then have "matching t k = {#}"
    by (auto simp: matching_filter find_None_iff filter_empty_conv)
  then show ?thesis using assms by simp
next
  case (Some x)
  then have "x \<in> set (concat (bins t))" "compare t k (fst x) = 0"
    by (auto simp only: find_Some_iff nth_mem)
  then have "x \<in># matching t k" by (simp add: matching_def entries_def)
  then show ?thesis using assms Some by (simp add: st_map_def)
qed

lemma matching_cases:
  assumes "st_ok t"
  obtains "matching t k = {#}" "st_map t k = None"
  | e where "matching t k = {# e #}" "st_map t k = Some (snd e)"
proof -
  have "size (matching t k) = 0 \<or> size (matching t k) = 1" using assms by (simp add: st_ok_def le_Suc_eq)
  then show ?thesis using that st_map_None st_map_Some by (metis size_1_singleton_mset size_eq_0_iff_empty)
qed

lemma walk_Some:
  "walk c k es = Some (b, e, a) \<Longrightarrow> es = b @ e # a \<and> c k (fst e) = 0 \<and> (\<forall>x \<in> set b. c k (fst x) \<noteq> 0)"
proof (induction es arbitrary: b)
  case (Cons x es)
  show ?case
  proof (cases "c k (fst x) = 0")
    case False
    then obtain b' where b: "walk c k es = Some (b', e, a)" "b = x # b'"
      using Cons.prems by auto
    show ?thesis using Cons.IH [OF b(1)] b(2) False by simp
  qed (use Cons.prems in simp)
qed simp

lemma walk_None: "walk c k es = None \<longleftrightarrow> (\<forall>x \<in> set es. c k (fst x) \<noteq> 0)"
  by (induction es) auto

text \<open>Replacing one bin.\<close>

lemma mset_concat_update:
  "i < length bs \<Longrightarrow> mset (concat (bs[i := b])) + mset (bs ! i) = mset (concat bs) + mset b"
  by (induction bs arbitrary: i) (auto split: nat.splits simp: ac_simps)

lemma entries_set_bin:
  assumes "i < length (bins t)"
  shows "entries (set_bin (int i) b t) + mset (bins t ! i) = entries t + mset b"
  using mset_concat_update [OF assms] by (simp add: entries_def set_bin_def)

lemma set_bin_fields [simp]:
  "compare (set_bin h b t) = compare t" "hash (set_bin h b t) = hash t"
  "num_bins (set_bin h b t) = num_bins t" "num_entries (set_bin h b t) = num_entries t"
  "max_density (set_bin h b t) = max_density t" "reorder_flag (set_bin h b t) = reorder_flag t"
  "grow_factor (set_bin h b t) = grow_factor t" "length (bins (set_bin h b t)) = length (bins t)"
  "do_hash k (set_bin h b t) = do_hash k t"
  by (simp_all add: set_bin_def do_hash_def)

lemma in_bins_set_bin:
  assumes "in_bins t" "i < length (bins t)" "\<And>e. e \<in> set b \<Longrightarrow> do_hash (fst e) t = int i"
  shows "in_bins (set_bin (int i) b t)"
  using assms by (auto simp: in_bins_def set_bin_def do_hash_def nth_list_update)

lemma in_bins_num [simp]: "in_bins (t\<lparr>num_entries := n\<rparr>) = in_bins t"
  by (simp add: in_bins_def do_hash_def)

lemma entries_num [simp]: "entries (t\<lparr>num_entries := n\<rparr>) = entries t"
  "matching (t\<lparr>num_entries := n\<rparr>) k = matching t k"
  by (simp_all add: entries_def matching_def)

subsection \<open>The contract of the comparison and the hash function\<close>

text \<open>
  What \<open>st_init_table\<close> asks of the two functions: equal keys have the same hash value, which is
  a bin of the table. Equality by the comparison is an equivalence.
\<close>

locale st_keys =
  fixes cmp :: "'k \<Rightarrow> 'k \<Rightarrow> int" and hsh :: "'k \<Rightarrow> int \<Rightarrow> int"
  assumes cmp_refl: "cmp x x = 0"
    and cmp_sym: "cmp x y = 0 \<Longrightarrow> cmp y x = 0"
    and cmp_trans: "cmp x y = 0 \<Longrightarrow> cmp y z = 0 \<Longrightarrow> cmp x z = 0"
    and hash_range: "0 < n \<Longrightarrow> 0 \<le> hsh x n \<and> hsh x n < n"
    and hash_cong: "cmp x y = 0 \<Longrightarrow> hsh x n = hsh y n"
begin

lemma hash_bin:
  assumes "in_bins t" "hash t = hsh"
  obtains i where "do_hash k t = int i" "i < length (bins t)" "bin_at t (do_hash k t) = Some (bins t ! i)"
proof -
  have "0 \<le> do_hash k t" "do_hash k t < num_bins t"
    using hash_range assms by (simp_all add: do_hash_def in_bins_def)
  then show ?thesis
    using that [of "nat (do_hash k t)"] assms(1) by (simp add: bin_at_def in_bins_def nth_opt_def)
qed

lemma matching_bin:
  assumes "in_bins t" "hash t = hsh" "compare t = cmp" "do_hash k t = int i" "i < length (bins t)"
  shows "matching t k = filter_mset (\<lambda>e. cmp k (fst e) = 0) (mset (bins t ! i))"
proof -
  have o: "filter (\<lambda>e. cmp k (fst e) = 0) b = []" if "j < length (bins t)" "j \<noteq> i" "b = bins t ! j" for j b
  proof -
    have "do_hash (fst e) t = do_hash k t" if "cmp k (fst e) = 0" for e :: "'k \<times> 'b"
      using hash_cong [OF that] assms(2) by (simp add: do_hash_def)
    then show ?thesis
      using that assms(1,4) by (fastforce simp: in_bins_def filter_empty_conv)
  qed
  have "concat (map (filter (\<lambda>e. cmp k (fst e) = 0)) (bins t)) = filter (\<lambda>e. cmp k (fst e) = 0) (bins t ! i)"
  proof -
    let ?f = "filter (\<lambda>e. cmp k (fst e) = 0)"
    have "map ?f (bins t) = map ?f (take i (bins t)) @ ?f (bins t ! i) # map ?f (drop (Suc i) (bins t))"
      by (subst id_take_nth_drop [OF assms(5)]) simp
    moreover have "concat (map ?f (take i (bins t))) = []" "concat (map ?f (drop (Suc i) (bins t))) = []"
      using o assms(5) by (auto simp: in_set_conv_nth)
    ultimately show ?thesis by (simp only: concat_append concat.simps append_Nil append_Nil2)
  qed
  then show ?thesis
    by (simp add: matching_def entries_def assms(3) filter_concat flip: mset_filter)
qed

text \<open>The search.\<close>

lemma FIND_ENTRY_ok:
  assumes "st_ok t" "compare t = cmp" "hash t = hsh"
  obtains (absent) i where "do_hash k t = int i" "i < length (bins t)" "matching t k = {#}"
      "FIND_ENTRY t (do_hash k t) k = Some (t, None)"
  | (found) i b e a where "do_hash k t = int i" "i < length (bins t)" "matching t k = {# e #}"
      "bins t ! i = b @ e # a"
      "FIND_ENTRY t (do_hash k t) k = Some (set_bin (int i) (rebin (reorder_flag t) b e a) t, Some (b, e, a))"
proof -
  have ib: "in_bins t" "size (matching t k) \<le> 1" using assms(1) by (simp_all add: st_ok_def)
  obtain i where i: "do_hash k t = int i" "i < length (bins t)" "bin_at t (do_hash k t) = Some (bins t ! i)"
    using hash_bin [OF ib(1) assms(3)] .
  note m = matching_bin [OF ib(1) assms(3,2) i(1,2)]
  show ?thesis
  proof (cases "walk cmp k (bins t ! i)")
    case None
    then have "filter (\<lambda>e. cmp k (fst e) = 0) (bins t ! i) = []" by (simp add: walk_None filter_empty_conv)
    then have "matching t k = {#}" unfolding m by (simp flip: mset_filter)
    then show ?thesis using absent i None assms(2) by (simp add: FIND_ENTRY_def)
  next
    case (Some w)
    obtain b e a where w: "w = (b, e, a)" by (cases w)
    note wk = walk_Some [OF Some [unfolded w]]
    then have "e \<in># matching t k" unfolding m by simp
    then have "matching t k = {# e #}"
      using ib(2) by (metis le_Suc_eq One_nat_def le_zero_eq size_1_singleton_mset size_eq_0_iff_empty set_mset_single singletonD empty_iff set_mset_empty)
    then show ?thesis using found i Some w wk assms(2) by (simp add: FIND_ENTRY_def)
  qed
qed

end

lemma rebin_mset [simp]: "mset (rebin r b e a) = add_mset e (mset b + mset a)"
  by (simp add: rebin_def)

lemma rebin_set [simp]: "set (rebin r b e a) = insert e (set b \<union> set a)"
  by (auto simp: rebin_def)

text \<open>Moving the entry found to the head changes nothing that the invariant or the map reads.\<close>

lemma st_map_cong:
  assumes "st_ok t" "st_ok t'" "entries t' = entries t" "compare t' = compare t"
  shows "st_map t' = st_map t"
proof
  fix k
  have m: "matching t' k = matching t k" by (simp add: matching_def assms(3,4))
  show "st_map t' k = st_map t k"
    by (rule matching_cases [OF assms(1), of k]) (simp_all add: st_map_None st_map_Some m)
qed

lemma rebin_ok:
  assumes "st_ok t" "i < length (bins t)" "bins t ! i = b @ e # a"
  shows "st_ok (set_bin (int i) (rebin r b e a) t)" "entries (set_bin (int i) (rebin r b e a) t) = entries t"
    "st_map (set_bin (int i) (rebin r b e a) t) = st_map t"
proof -
  let ?t = "set_bin (int i) (rebin r b e a) t"
  show e: "entries ?t = entries t"
    using entries_set_bin [OF assms(2), of "rebin r b e a"] assms(3) by simp
  have "do_hash (fst x) t = int i" if "x \<in> set (rebin r b e a)" for x
    using assms that by (auto simp: st_ok_def in_bins_def)
  then have "in_bins ?t" using in_bins_set_bin [of t i "rebin r b e a"] assms(1,2) unfolding st_ok_def by blast
  then show ok: "st_ok ?t" using assms(1) e by (simp add: st_ok_def matching_def)
  show "st_map ?t = st_map t" by (rule st_map_cong [OF assms(1) ok e]) simp
qed

subsection \<open>The operations implement the map\<close>

definition st_valid :: "('k \<Rightarrow> 'k \<Rightarrow> int) \<Rightarrow> ('k \<Rightarrow> int \<Rightarrow> int) \<Rightarrow> ('k, 'v) st_table \<Rightarrow> bool" where
  "st_valid cmp hsh t \<longleftrightarrow> st_ok t \<and> compare t = cmp \<and> hash t = hsh"

lemma st_validD:
  assumes "st_valid cmp hsh t"
  shows "st_ok t" "compare t = cmp" "hash t = hsh" "in_bins t"
  using assms by (simp_all add: st_valid_def st_ok_def)

text \<open>
  The next size is a number of bins that can be allocated. A negative factor never passes \<open>in_bins\<close>.
\<close>

definition can_grow :: "('k, 'v) st_table \<Rightarrow> bool" where
  "can_grow t \<longleftrightarrow> grow_factor t * of_int (num_bins t) < 2 ^ 29 - 1"

text \<open>One more entry can be counted, and its insertion can grow the table if it has to.\<close>

definition has_room :: "('k, 'v) st_table \<Rightarrow> bool" where
  "has_room t \<longleftrightarrow> num_entries t + 1 < 2 ^ 31 \<and> (max_density t \<le> num_entries t div num_bins t \<longrightarrow> can_grow t)"

lemma grown_fits:
  assumes "1 \<le> g" "0 < n" "g * of_int n < 2 ^ 29 - 1"
  shows "\<exists>n'. grown g n = Some n' \<and> 0 < n' \<and> bins_fit n'"
proof -
  define m where "m = \<lfloor>g * of_int n\<rfloor>"
  have "of_int n \<le> g * of_int n" using mult_right_mono [OF assms(1), of "of_int n"] assms(2) by simp
  then have l: "n \<le> m" by (simp only: m_def le_floor_iff)
  have p: "\<not> g * of_int n < 0" using assms by (simp add: not_less)
  have u: "m < 2 ^ 29 - 1" using assms(3) by (simp add: m_def floor_less_iff)
  have c: "c_int m = Some m" "c_int (m + 1) = Some (m + 1)" using l u assms(2) by (simp_all add: c_int_def)
  have "grown g n = Some (if m mod 2 = 0 then m + 1 else m)" using p c by (simp add: grown_def Let_def flip: m_def)
  then show ?thesis using l u assms(2) by (simp add: bins_fit_def)
qed

lemma filter_mset_none: "(\<And>e. e \<in># M \<Longrightarrow> \<not> P e) \<Longrightarrow> filter_mset P M = {#}"
  by (induction M) auto

lemma st_map_member:
  assumes "st_ok t" "e \<in># entries t" "compare t k (fst e) = 0"
  shows "st_map t k = Some (snd e)"
proof -
  have "e \<in># matching t k" using assms(2,3) by (simp add: matching_def)
  then show ?thesis using matching_cases [OF assms(1), of k] by (metis empty_iff set_mset_add_mset_insert set_mset_empty singletonD)
qed

lemma st_map_matching:
  assumes "st_ok t" "st_ok t'" "matching t' k = matching t k"
  shows "st_map t' k = st_map t k"
  using matching_cases [OF assms(1), of k] assms(3) st_map_None st_map_Some by metis

context st_keys begin

lemma cmp_cong: "cmp x k = 0 \<Longrightarrow> cmp x y = 0 \<longleftrightarrow> cmp k y = 0"
  using cmp_trans cmp_sym by blast

lemma st_map_upd:
  assumes "st_ok t" "st_ok t'" "compare t = cmp" "compare t' = cmp"
    and "entries t = N + M" "entries t' = add_mset (k0, v) M"
    and "\<And>e. e \<in># N \<Longrightarrow> cmp k (fst e) = 0" "cmp k k0 = 0"
  shows "st_map t' = (\<lambda>x. if cmp x k = 0 then Some v else st_map t x)"
proof
  fix x
  show "st_map t' x = (if cmp x k = 0 then Some v else st_map t x)"
  proof (cases "cmp x k = 0")
    case True
    then show ?thesis
      using st_map_member [OF assms(2), of "(k0, v)" x] assms(4,6,8) cmp_trans by simp
  next
    case False
    have "\<not> cmp x (fst e) = 0" if "e \<in># N" for e
      using assms(7) [OF that] False cmp_sym cmp_trans by blast
    then have "filter_mset (\<lambda>e. cmp x (fst e) = 0) N = {#}" by (rule filter_mset_none)
    moreover have "cmp x k0 \<noteq> 0" using False assms(8) cmp_sym cmp_trans by blast
    ultimately have "matching t' x = matching t x" by (simp add: matching_def assms(3-6))
    then show ?thesis using False st_map_matching [OF assms(1,2)] by simp
  qed
qed

lemma st_map_remove:
  assumes "st_ok t" "st_ok t'" "compare t = cmp" "compare t' = cmp"
    and "entries t = add_mset e (entries t')" "cmp k (fst e) = 0"
  shows "st_map t' = (\<lambda>x. if cmp x k = 0 then None else st_map t x)"
proof
  fix x
  show "st_map t' x = (if cmp x k = 0 then None else st_map t x)"
  proof (cases "cmp x k = 0")
    case True
    then have "cmp x (fst e) = 0" using cmp_trans assms(6) by blast
    then have "matching t x = add_mset e (matching t' x)" by (simp add: matching_def assms(3-5))
    moreover have "size (matching t x) \<le> 1" using assms(1) by (simp add: st_ok_def)
    ultimately have "matching t' x = {#}" by simp
    then show ?thesis using True st_map_None by simp
  next
    case False
    then have "cmp x (fst e) \<noteq> 0" using assms(6) cmp_sym cmp_trans by blast
    then have "matching t' x = matching t x" by (simp add: matching_def assms(3-5))
    then show ?thesis using False st_map_matching [OF assms(1,2)] by simp
  qed
qed

lemma lookup_ok:
  assumes "st_valid cmp hsh t"
  shows "\<exists>t'. st_lookup t k = Some (st_map t k, t') \<and> st_valid cmp hsh t' \<and> st_map t' = st_map t"
proof -
  note v = st_validD [OF assms]
  show ?thesis
  proof (cases rule: FIND_ENTRY_ok [OF v(1-3), where k = k])
    case (1 i)
    then show ?thesis using assms by (simp add: st_lookup_def st_map_None)
  next
    case (2 i b e a)
    then show ?thesis
      using rebin_ok [OF v(1) 2(2,4), of "reorder_flag t"] v(2,3)
      by (simp add: st_lookup_def st_map_Some st_valid_def)
  qed
qed

lemma move_chain_ok:
  assumes "in_bins t" "hash t = hsh" "0 \<le> num_entries t" "num_entries t + int (length es) < 2 ^ 31"
  shows "\<exists>t'. move_chain es t = Some t' \<and> in_bins t' \<and> entries t' = entries t + mset es \<and>
    num_entries t' = num_entries t + int (length es) \<and> compare t' = compare t \<and> hash t' = hsh"
  using assms
proof (induction es arbitrary: t)
  case (Cons e es)
  obtain i where i: "do_hash (fst e) t = int i" "i < length (bins t)"
    "bin_at t (do_hash (fst e) t) = Some (bins t ! i)"
    using hash_bin [OF Cons.prems(1,2)] .
  have ct: "count_entry (set_bin (int i) (e # bins t ! i) t) =
      Some ((set_bin (int i) (e # bins t ! i) t)\<lparr>num_entries := num_entries t + 1\<rparr>)"
    using Cons.prems(3,4) by (simp add: count_entry_def c_int_def)
  let ?t = "(set_bin (int i) (e # bins t ! i) t)\<lparr>num_entries := num_entries t + 1\<rparr>"
  have "in_bins (set_bin (int i) (e # bins t ! i) t)"
    by (rule in_bins_set_bin [OF Cons.prems(1) i(2)]) (use Cons.prems(1) i(1,2) in \<open>auto simp: in_bins_def\<close>)
  then have "in_bins ?t" "hash ?t = hsh" "0 \<le> num_entries ?t" "num_entries ?t + int (length es) < 2 ^ 31"
    using Cons.prems(2-4) by simp_all
  from Cons.IH [OF this] obtain t' where t': "move_chain es ?t = Some t'" "in_bins t'"
    "entries t' = entries (set_bin (int i) (e # bins t ! i) t) + mset es"
    "num_entries t' = num_entries t + 1 + int (length es)" "compare t' = compare t" "hash t' = hsh" by auto
  have "entries (set_bin (int i) (e # bins t ! i) t) = add_mset e (entries t)"
    using entries_set_bin [OF i(2), of "e # bins t ! i"] by simp
  then show ?case using t' i(1,3) ct by (simp add: Let_def)
qed simp

lemma rehash_ok:
  assumes "st_valid cmp hsh t" "can_grow t" "num_entries t < 2 ^ 31"
  shows "\<exists>rc t' mem'. rehash t mem = Some (rc, t', mem') \<and> st_valid cmp hsh t' \<and>
    entries t' = entries t \<and> num_entries t' = num_entries t \<and> (rc = ST_OUT_OF_MEM \<and> t' = t \<or> rc = 1)"
proof -
  note v = st_validD [OF assms(1)]
  obtain n where n: "grown (grow_factor t) (num_bins t) = Some n" "0 < n" "bins_fit n"
    using grown_fits [of "grow_factor t" "num_bins t"] v(4) assms(2) by (auto simp: in_bins_def can_grow_def)
  have ln: "int (length (concat (bins t))) = num_entries t" using v(1) by (simp add: st_ok_def entries_def)
  let ?t = "t\<lparr>num_bins := n, num_entries := 0, bins := replicate (nat n) []\<rparr>"
  have "in_bins ?t" "hash ?t = hsh" "entries ?t = {#}"
    using n(2) v(3,4) by (auto simp: in_bins_def entries_def)
  then obtain t' where t': "move_chain (concat (bins t)) ?t = Some t'" "in_bins t'"
    "entries t' = entries t" "num_entries t' = int (size (entries t))" "compare t' = cmp" "hash t' = hsh"
    using move_chain_ok [of ?t "concat (bins t)"] v(2) assms(3) ln by (auto simp: entries_def)
  then have "st_valid cmp hsh t'"
    using v by (simp add: st_valid_def st_ok_def matching_def)
  then show ?thesis
    using t'(1,3,4) n(1,3) assms(1) v(1) by (cases "alloc mem") (auto simp: rehash_def Let_def st_ok_def)
qed

lemma matching_single:
  assumes "matching t k = {# e #}"
  shows "e \<in># entries t" "compare t k (fst e) = 0"
proof -
  have "e \<in># matching t k" by (simp add: assms)
  then show "e \<in># entries t" "compare t k (fst e) = 0" by (simp_all add: matching_def)
qed

text \<open>Writing the record of an entry.\<close>

lemma record_ok:
  assumes "st_valid cmp hsh t" "i < length (bins t)" "bins t ! i = b @ e # a" "mset c = add_mset (fst e, v) (mset (b @ a))"
  shows "st_valid cmp hsh (set_bin (int i) c t)"
    "st_map (set_bin (int i) c t) = (\<lambda>x. if cmp x (fst e) = 0 then Some v else st_map t x)"
proof -
  let ?t = "set_bin (int i) c t"
  note v = st_validD [OF assms(1)]
  have "entries ?t + mset (bins t ! i) = entries t + mset c" by (rule entries_set_bin [OF assms(2)])
  then have "entries ?t + {# e #} = entries t + {# (fst e, v) #}" by (simp add: assms(3,4))
  moreover have "e \<in># entries t" using nth_mem [OF assms(2)] assms(3) by (auto simp: entries_def intro!: bexI [of _ "b @ e # a"])
  then obtain M where M: "entries t = add_mset e M" by (metis insert_DiffM)
  ultimately have e: "entries ?t = add_mset (fst e, v) M" by simp
  have "set c = insert (fst e, v) (set b \<union> set a)" using arg_cong [OF assms(4), of set_mset] by simp
  then have "do_hash (fst x) t = int i" if "x \<in> set c" for x
    using that v(4) assms(2,3) by (auto simp: in_bins_def)
  then have "in_bins ?t" by (rule in_bins_set_bin [OF v(4) assms(2)])
  moreover have "size (matching ?t x) = size (matching t x)" for x
    by (simp add: matching_def e M)
  ultimately show ok: "st_valid cmp hsh ?t"
    using v(1-3) by (simp add: st_valid_def st_ok_def) (simp add: e M)
  show "st_map ?t = (\<lambda>x. if cmp x (fst e) = 0 then Some v else st_map t x)"
    by (rule st_map_upd [OF v(1) st_validD(1) [OF ok] v(2) _ _ e, where N = "{# e #}"])
      (use M cmp_refl v(2) in simp_all)
qed

text \<open>A new key.\<close>

lemma push_entry_ok:
  assumes "st_valid cmp hsh t" "has_room t" "matching t k = {#}"
  shows "\<exists>ok t' mem'. push_entry k v t mem = Some (ok, t', mem') \<and> st_valid cmp hsh t' \<and>
    entries t' = (if ok then add_mset (k, v) (entries t) else entries t) \<and>
    (ok \<longrightarrow> (\<exists>rest. bin_at t' (do_hash k t') = Some ((k, v) # rest)))"
proof -
  note v0 = st_validD [OF assms(1)]
  define p where "p = (if num_entries t div num_bins t \<ge> max_density t then rehash t mem else Some (1, t, mem))"
  obtain rc t1 mem1 where p1: "p = Some (rc, t1, mem1)" "st_valid cmp hsh t1" "entries t1 = entries t"
    "num_entries t1 = num_entries t"
    using rehash_ok [OF assms(1), of mem] assms(1,2) unfolding has_room_def
    by (cases "num_entries t div num_bins t \<ge> max_density t") (auto simp: p_def)
  note v = st_validD [OF p1(2)]
  obtain got mem2 where al: "alloc mem1 = (got, mem2)" by force
  obtain i where i: "do_hash k t1 = int i" "i < length (bins t1)" "bin_at t1 (do_hash k t1) = Some (bins t1 ! i)"
    using hash_bin [OF v(4,3)] .
  let ?s = "set_bin (int i) ((k, v) # bins t1 ! i) t1"
  let ?t = "?s\<lparr>num_entries := num_entries t1 + 1\<rparr>"
  have "0 \<le> num_entries t1" using v(1) by (simp add: st_ok_def)
  then have ct: "count_entry ?s = Some ?t" using p1(4) assms(2) by (simp add: count_entry_def c_int_def has_room_def)
  have run: "push_entry k v t mem =
    (if rc = ST_OUT_OF_MEM then Some (False, t1, mem1)
     else if \<not> got then Some (False, t1, mem2) else Some (True, ?t, mem2))"
    using p1(1) al i(1,3) ct by (simp add: push_entry_def Let_def flip: p_def)
  have e: "entries ?s = add_mset (k, v) (entries t1)"
    using entries_set_bin [OF i(2), of "(k, v) # bins t1 ! i"] by simp
  have "in_bins ?s"
    by (rule in_bins_set_bin [OF v(4) i(2)]) (use v(4) i(1,2) in \<open>auto simp: in_bins_def\<close>)
  moreover have "size (matching ?t x) \<le> 1" for x
  proof (cases "cmp x k = 0")
    case True
    then have "matching t1 x = {#}"
      using assms(3) cmp_cong [OF True] v0(2) v(2) by (simp add: matching_def p1(3))
    moreover have "matching ?t x = add_mset (k, v) (matching t1 x)"
      using True v(2) by (simp add: matching_def e)
    ultimately show ?thesis by simp
  next
    case False
    then show ?thesis using v(1,2) by (simp add: matching_def e st_ok_def)
  qed
  moreover have "num_entries t1 = int (size (entries t1))" using v(1) by (simp add: st_ok_def)
  ultimately have ok: "st_valid cmp hsh ?t" using v(2,3) e by (simp add: st_valid_def st_ok_def)
  have "bin_at ?t (do_hash k ?t) = Some ((k, v) # bins t1 ! i)"
    using i(1,2) by (simp add: bin_at_def do_hash_def set_bin_def)
  then show ?thesis using run ok e p1(2,3) by auto
qed

lemma insert_ok:
  assumes "st_valid cmp hsh t" "has_room t"
  shows "\<exists>rc t' mem'. st_insert t k v mem = Some (rc, t', mem') \<and> st_valid cmp hsh t' \<and>
    (rc = ST_OUT_OF_MEM \<and> st_map t k = None \<and> st_map t' = st_map t \<or>
     rc = (if st_map t k = None then 0 else 1) \<and>
       st_map t' = (\<lambda>x. if cmp x k = 0 then Some v else st_map t x))"
proof -
  note v = st_validD [OF assms(1)]
  show ?thesis
  proof (cases rule: FIND_ENTRY_ok [OF v(1-3), where k = k])
    case (1 i)
    obtain ok t' mem' where p: "push_entry k v t mem = Some (ok, t', mem')" "st_valid cmp hsh t'"
      "entries t' = (if ok then add_mset (k, v) (entries t) else entries t)"
      using push_entry_ok [OF assms 1(3)] by blast
    note v' = st_validD [OF p(2)]
    have n: "st_map t k = None" using 1(3) by (rule st_map_None)
    have run: "st_insert t k v mem = Some (if ok then 0 else ST_OUT_OF_MEM, t', mem')"
      using 1(4) p(1) by (simp add: st_insert_def Let_def)
    show ?thesis
    proof (cases ok)
      case True
      have "st_map t' = (\<lambda>x. if cmp x k = 0 then Some v else st_map t x)"
        by (rule st_map_upd [OF v(1) v'(1) v(2) v'(2), where N = "{#}"]) (use p(3) True cmp_refl in simp_all)
      then show ?thesis using run p(2) n True by simp
    next
      case False
      then have "st_map t' = st_map t" using st_map_cong [OF v(1) v'(1)] p(3) v(2) v'(2) by simp
      then show ?thesis using run p(2) n False by simp
    qed
  next
    case (2 i b e a)
    let ?r = "reorder_flag t"
    let ?t = "set_bin (int i) (rebin ?r b (fst e, v) a) (set_bin (int i) (rebin ?r b e a) t)"
    have t: "?t = set_bin (int i) (rebin ?r b (fst e, v) a) t" by (simp add: set_bin_def)
    have ek: "cmp k (fst e) = 0" using matching_single(2) [OF 2(3)] v(2) by simp
    note r = record_ok [OF assms(1) 2(2,4), of "rebin ?r b (fst e, v) a" v]
    have "cmp x (fst e) = 0 \<longleftrightarrow> cmp x k = 0" for x using ek cmp_sym cmp_trans by blast
    then have "(\<lambda>x. if cmp x (fst e) = 0 then Some v else st_map t x) = (\<lambda>x. if cmp x k = 0 then Some v else st_map t x)"
      by simp
    moreover have "st_insert t k v mem = Some (1, set_bin (int i) (rebin ?r b (fst e, v) a) t, mem)"
      using 2(1,5) by (simp add: st_insert_def Let_def t)
    ultimately show ?thesis using r st_map_Some [OF 2(3)] by simp
  qed
qed

lemma delete_ok:
  assumes "st_valid cmp hsh t" "\<not> reorder_flag t"
  shows "\<exists>res t'. st_delete t k = Some (res, t') \<and> st_valid cmp hsh t' \<and> map_option snd res = st_map t k \<and>
    st_map t' = (\<lambda>x. if cmp x k = 0 then None else st_map t x)"
proof -
  note v = st_validD [OF assms(1)]
  show ?thesis
  proof (cases rule: FIND_ENTRY_ok [OF v(1-3), where k = k])
    case (1 i)
    have "st_map t x = None" if "cmp x k = 0" for x
    proof -
      have "matching t x = {#}" using 1(3) cmp_cong [OF that] v(2) by (simp add: matching_def)
      then show ?thesis by (rule st_map_None)
    qed
    then have "st_map t = (\<lambda>x. if cmp x k = 0 then None else st_map t x)" by auto
    then show ?thesis using 1(4) assms(1) st_map_None [OF 1(3)] by (simp add: st_delete_def Let_def)
  next
    case (2 i b e a)
    let ?s = "set_bin (int i) (b @ a) t"
    let ?t = "?s\<lparr>num_entries := num_entries t - 1\<rparr>"
    have "set_bin (int i) (b @ a) (set_bin (int i) (rebin (reorder_flag t) b e a) t) = ?s" by (simp add: set_bin_def)
    then have run: "st_delete t k = Some (Some e, ?t)"
      using 2(1,5) assms(2) by (simp add: st_delete_def Let_def)
    have e: "entries t = add_mset e (entries ?s)"
      using entries_set_bin [OF 2(2), of "b @ a"] by (simp add: 2(4))
    have "in_bins ?s"
      by (rule in_bins_set_bin [OF v(4) 2(2)]) (use v(4) 2(2,4) in \<open>auto simp: in_bins_def\<close>)
    moreover have "size (matching ?s x) \<le> 1" for x
    proof -
      have "size (matching ?s x) \<le> size (matching t x)" by (simp add: matching_def e)
      then show ?thesis using v(1) by (auto simp: st_ok_def intro: order_trans)
    qed
    ultimately have ok: "st_valid cmp hsh ?t"
      using v(1-3) e by (simp add: st_valid_def st_ok_def)
    have "st_map ?t = (\<lambda>x. if cmp x k = 0 then None else st_map t x)"
      by (rule st_map_remove [OF v(1) st_validD(1) [OF ok] v(2)])
        (use e v(2) matching_single(2) [OF 2(3)] in simp_all)
    then show ?thesis using run ok st_map_Some [OF 2(3)] by (cases e) simp
  qed
qed

lemma find_or_add_ok:
  assumes "st_valid cmp hsh t" "has_room t"
  shows "\<exists>rc slot t' mem'. st_find_or_add z t k mem = Some (rc, slot, t', mem') \<and> st_valid cmp hsh t' \<and>
    (slot = None \<and> rc = ST_OUT_OF_MEM \<and> st_map t' = st_map t \<or>
     st_map t' = (\<lambda>x. if cmp x k = 0 \<and> st_map t k = None then Some z else st_map t x) \<and>
     rc = (if st_map t k = None then 0 else 1) \<and>
     (\<exists>s. slot = Some s \<and> (\<forall>w. \<exists>t''. write_slot s w t' = Some t'' \<and> st_valid cmp hsh t'' \<and>
        st_map t'' = (\<lambda>x. if cmp x k = 0 then Some w else st_map t x))))"
proof -
  note v = st_validD [OF assms(1)]
  show ?thesis
  proof (cases rule: FIND_ENTRY_ok [OF v(1-3), where k = k])
    case (1 i)
    obtain ok t' mem' where p: "push_entry k z t mem = Some (ok, t', mem')" "st_valid cmp hsh t'"
      "entries t' = (if ok then add_mset (k, z) (entries t) else entries t)"
      "ok \<Longrightarrow> \<exists>rest. bin_at t' (do_hash k t') = Some ((k, z) # rest)"
      using push_entry_ok [OF assms 1(3), of z mem] by blast
    note v' = st_validD [OF p(2)]
    have run: "st_find_or_add z t k mem = Some (if ok then (0, Some (do_hash k t', 0), t', mem')
        else (ST_OUT_OF_MEM, None, t', mem'))"
      using 1(4) p(1) by (simp add: st_find_or_add_def Let_def)
    show ?thesis
    proof (cases ok)
      case True
      obtain j where j: "do_hash k t' = int j" "j < length (bins t')" "bin_at t' (do_hash k t') = Some (bins t' ! j)"
        using hash_bin [OF v'(4,3)] .
      obtain rest where b: "bins t' ! j = [] @ (k, z) # rest" using p(4) [OF True] j(3) by auto
      have m: "st_map t' = (\<lambda>x. if cmp x k = 0 then Some z else st_map t x)"
        by (rule st_map_upd [OF v(1) v'(1) v(2) v'(2), where N = "{#}"]) (use p(3) True cmp_refl in simp_all)
      have "\<exists>t''. write_slot (do_hash k t', 0) w t' = Some t'' \<and> st_valid cmp hsh t'' \<and>
        st_map t'' = (\<lambda>x. if cmp x k = 0 then Some w else st_map t x)" for w
      proof -
        have w: "write_slot (do_hash k t', 0) w t' = Some (set_bin (int j) ((k, w) # rest) t')"
          using j b by (simp add: write_slot_def nth_opt_def)
        show ?thesis
          unfolding w using record_ok [OF p(2) j(2) b, of "(k, w) # rest" w] m by (simp add: fun_eq_iff)
      qed
      then show ?thesis using run True p(2) m st_map_None [OF 1(3)] by simp
    next
      case False
      then have "st_map t' = st_map t" using st_map_cong [OF v(1) v'(1)] p(3) v(2) v'(2) by simp
      then show ?thesis using run p(2) False by simp
    qed
  next
    case (2 i b e a)
    let ?r = "reorder_flag t" and ?t = "set_bin (int i) (rebin (reorder_flag t) b e a) t"
    let ?n = "if reorder_flag t then 0 else length b"
    note rb = rebin_ok [OF v(1) 2(2,4), of ?r]
    have val: "st_valid cmp hsh ?t" using rb(1) v(2,3) by (simp add: st_valid_def)
    have ek: "cmp k (fst e) = 0" using matching_single(2) [OF 2(3)] v(2) by simp
    then have ke: "cmp x (fst e) = 0 \<longleftrightarrow> cmp x k = 0" for x using cmp_sym cmp_trans by blast
    have ln: "i < length (bins ?t)" "bins ?t ! i = (if ?r then [] else b) @ e # (if ?r then b @ a else a)"
      using 2(2) by (simp_all add: set_bin_def rebin_def)
    have "\<exists>t''. write_slot (int i, ?n) w ?t = Some t'' \<and> st_valid cmp hsh t'' \<and>
        st_map t'' = (\<lambda>x. if cmp x k = 0 then Some w else st_map t x)" for w
    proof -
      have "rebin ?r b e a ! ?n = e" "?n < length (rebin ?r b e a)" "(rebin ?r b e a)[?n := (fst e, w)] = rebin ?r b (fst e, w) a"
        by (simp_all add: rebin_def)
      moreover have "bin_at ?t (int i) = Some (rebin ?r b e a)"
        using 2(2) by (simp add: bin_at_def set_bin_def)
      ultimately have w: "write_slot (int i, ?n) w ?t = Some (set_bin (int i) (rebin ?r b (fst e, w) a) ?t)"
        by (simp add: write_slot_def)
      have mm: "mset (rebin ?r b (fst e, w) a) = add_mset (fst e, w) (mset ((if ?r then [] else b) @ (if ?r then b @ a else a)))"
        by simp
      show ?thesis
        unfolding w using record_ok [OF val ln mm] unfolding rb(3) ke by simp
    qed
    moreover have "st_find_or_add z t k mem = Some (1, Some (int i, ?n), ?t, mem)"
      using 2(1,5) by (simp add: st_find_or_add_def Let_def)
    ultimately show ?thesis using val rb(3) st_map_Some [OF 2(3)] by simp
  qed
qed

lemma copy_ok:
  assumes "st_valid cmp hsh t"
  shows "case st_copy t mem of (None, _) \<Rightarrow> True | (Some t', _) \<Rightarrow> st_valid cmp hsh t' \<and> st_map t' = st_map t"
proof -
  note v = st_validD [OF assms]
  let ?t = "t\<lparr>bins := map rev (bins t)\<rparr>"
  have e: "entries ?t = entries t"
  proof -
    have "mset (concat (map rev bs)) = mset (concat bs)" for bs :: "('k \<times> 'b) list list"
      by (induction bs) simp_all
    then show ?thesis by (simp add: entries_def)
  qed
  have "in_bins ?t" using v(4) by (simp add: in_bins_def do_hash_def)
  then have ok: "st_ok ?t" using v(1) e by (simp add: st_ok_def matching_def)
  then show ?thesis
    using v(2,3) st_map_cong [OF v(1) ok e]
    by (cases "allocs (2 + length (concat (bins t))) mem") (simp add: st_copy_def Let_def st_valid_def)
qed

lemma init_ok:
  assumes "1 \<le> growth" "sz < 2 ^ 29"
  shows "case st_init_table_with_params cmp hsh sz density growth reorder mem of None \<Rightarrow> False
    | Some (None, _) \<Rightarrow> True | Some (Some t, _) \<Rightarrow> st_valid cmp hsh t \<and> st_map t = Map.empty"
proof -
  let ?n = "if sz \<le> 0 then 1 else sz"
  let ?t = "\<lparr>compare = cmp, hash = hsh, num_bins = ?n, num_entries = 0, max_density = density,
    reorder_flag = reorder, grow_factor = growth, bins = replicate (nat ?n) []\<rparr> :: ('k, 'b) st_table"
  have e: "entries ?t = {#}" by (simp add: entries_def)
  have "in_bins ?t" using assms by (auto simp: in_bins_def)
  then have ok: "st_valid cmp hsh ?t" by (simp add: st_valid_def st_ok_def e matching_def)
  have "st_map ?t = Map.empty" by (rule ext, rule st_map_None) (simp add: matching_def e)
  then show ?thesis
    using ok assms(2) by (auto simp: st_init_table_with_params_def bins_fit_def Let_def split: prod.splits)
qed

end

subsection \<open>Iteration\<close>

lemma subset_mset_add: "M \<subseteq># add_mset e M"
  by (metis add_mset_add_single mset_subset_eq_add_left)

lemma foreach_bin_ok:
  "foreach_bin func b arg = (go, b', d, arg') \<Longrightarrow> mset b' \<subseteq># mset b \<and> length b = length b' + d"
proof (induction b arbitrary: arg go b' d arg')
  case (Cons e es)
  obtain rv arg1 where f: "func (fst e) (snd e) arg = (rv, arg1)" by force
  obtain go1 es1 d1 arg2 where r: "foreach_bin func es arg1 = (go1, es1, d1, arg2)" by (metis prod_cases4)
  note IH = Cons.IH [OF r]
  show ?case using Cons.prems f r IH by (cases rv) (auto intro: subset_mset.order_trans [OF _ subset_mset_add] )
qed simp

lemma foreach_bins_ok:
  "foreach_bins func bs arg = (go, bs', d, arg') \<Longrightarrow> length bs' = length bs \<and>
    (\<forall>i < length bs. mset (bs' ! i) \<subseteq># mset (bs ! i)) \<and>
    mset (concat bs') \<subseteq># mset (concat bs) \<and> length (concat bs) = length (concat bs') + d"
proof (induction bs arbitrary: arg go bs' d arg')
  case (Cons b bs)
  obtain go1 b1 d1 arg1 where f: "foreach_bin func b arg = (go1, b1, d1, arg1)" by (metis prod_cases4)
  obtain go2 bs2 d2 arg2 where r: "foreach_bins func bs arg1 = (go2, bs2, d2, arg2)" by (metis prod_cases4)
  note h = foreach_bin_ok [OF f]
  show ?case
  proof (cases go1)
    case True
    then have "bs' = b1 # bs2" "d = d1 + d2" using Cons.prems f r by simp_all
    then show ?thesis
      using h Cons.IH [OF r] by (auto simp: nth_Cons split: nat.splits intro: subset_mset.add_mono)
  next
    case False
    then have "bs' = b1 # bs" "d = d1" using Cons.prems f by simp_all
    then show ?thesis using h by (auto simp: nth_Cons split: nat.splits intro: subset_mset.add_mono)
  qed
qed simp

text \<open>
  Whatever the callback answers, the table stays valid and only loses entries.
\<close>

lemma foreach_ok:
  assumes "st_valid cmp hsh t" "st_foreach t func arg = (go, t', arg')"
  shows "st_valid cmp hsh t'" "entries t' \<subseteq># entries t"
proof -
  note v = st_validD [OF assms(1)]
  obtain bs d where f: "foreach_bins func (bins t) arg = (go, bs, d, arg')"
    "t' = t\<lparr>bins := bs, num_entries := num_entries t - int d\<rparr>"
    using assms(2) by (auto simp: st_foreach_def Let_def split: prod.splits)
  note h = foreach_bins_ok [OF f(1)]
  show sub: "entries t' \<subseteq># entries t" using h by (simp add: entries_def f(2))
  have sb: "set (bs ! i) \<subseteq> set (bins t ! i)" if "i < length (bins t)" for i
  proof -
    have "mset (bs ! i) \<subseteq># mset (bins t ! i)" using h that by blast
    from set_mset_mono [OF this] show ?thesis by simp
  qed
  have "hash t (fst e) (num_bins t) = int i" if "i < length bs" "e \<in> set (bs ! i)" for i e
    using v(4) sb that h by (auto simp: in_bins_def do_hash_def subset_eq)
  then have "in_bins t'" using v(4) h by (simp add: in_bins_def f(2) do_hash_def)
  moreover have "size (matching t' k) \<le> size (matching t k)" for k
    using sub by (simp add: matching_def f(2) size_mset_mono multiset_filter_mono)
  then have "size (matching t' k) \<le> 1" for k using v(1) by (meson order_trans st_ok_def)
  moreover have "num_entries t' = int (size (entries t'))"
    using v(1) h by (simp add: st_ok_def f(2) entries_def)
  ultimately show "st_valid cmp hsh t'" using v(2,3) by (simp add: st_valid_def st_ok_def f(2))
qed

text \<open>The entries a generator has still to produce, and that it produces them.\<close>

definition gen_rest :: "('k, 'v) st_generator \<Rightarrow> ('k \<times> 'v) list" where
  "gen_rest g = entry g @ concat (drop (gen_index g) (bins (gen_table g)))"

lemma next_bin_ok:
  "next_bin bs i = None \<Longrightarrow> concat bs = []"
  "next_bin bs i = Some (j, b) \<Longrightarrow> i < j \<and> b \<noteq> [] \<and> concat bs = b @ concat (drop (j - i) bs)"
proof (induction bs arbitrary: i)
  case (Cons c bs)
  case 2
  show ?case
  proof (cases "c = []")
    case True
    then have n: "next_bin bs (Suc i) = Some (j, b)" using 2 by simp
    from Cons(2) [OF this] have "Suc i < j" "b \<noteq> []" "concat bs = b @ concat (drop (j - Suc i) bs)" by simp_all
    moreover have "j - i = Suc (j - Suc i)" using calculation(1) by simp
    ultimately show ?thesis using True by simp
  qed (use 2 in auto)
qed (auto split: if_splits)

lemma st_gen_ok:
  "st_gen g = (case gen_rest g of [] \<Rightarrow> (None, g)
     | e # es \<Rightarrow> (Some e, snd (st_gen g)))"
  "gen_rest g \<noteq> [] \<Longrightarrow> gen_rest (snd (st_gen g)) = tl (gen_rest g)"
proof -
  let ?n = "next_bin (drop (gen_index g) (bins (gen_table g))) (gen_index g)"
  have "st_gen g = (case gen_rest g of [] \<Rightarrow> (None, g) | e # es \<Rightarrow> (Some e, snd (st_gen g))) \<and>
    (gen_rest g \<noteq> [] \<longrightarrow> gen_rest (snd (st_gen g)) = tl (gen_rest g))"
  proof (cases "entry g")
    case Nil
    show ?thesis
    proof (cases ?n)
      case None
      have "gen_rest g = []" using Nil next_bin_ok(1) [OF None] unfolding gen_rest_def by simp
      then show ?thesis using Nil None by (simp add: st_gen_def)
    next
      case (Some p)
      obtain j b where p: "p = (j, b)" by force
      note nb = next_bin_ok(2) [OF Some [unfolded p]]
      then have "gen_rest g = b @ concat (drop j (bins (gen_table g)))" using Nil by (simp add: gen_rest_def)
      moreover obtain e es where "b = e # es" using nb by (cases b) auto
      ultimately show ?thesis using Nil Some p by (simp add: st_gen_def gen_rest_def)
    qed
  next
    case (Cons e es)
    then show ?thesis by (simp add: st_gen_def gen_rest_def)
  qed
  then show "st_gen g = (case gen_rest g of [] \<Rightarrow> (None, g) | e # es \<Rightarrow> (Some e, snd (st_gen g)))"
    "gen_rest g \<noteq> [] \<Longrightarrow> gen_rest (snd (st_gen g)) = tl (gen_rest g)" by simp_all
qed

text \<open>Calling the generator \<open>n\<close> times.\<close>

fun gen_items :: "nat \<Rightarrow> ('k, 'v) st_generator \<Rightarrow> ('k \<times> 'v) option list" where
  "gen_items 0 g = []"
| "gen_items (Suc n) g = (case st_gen g of (r, g') \<Rightarrow> r # gen_items n g')"

lemma gen_items_rest:
  "gen_items (length (gen_rest g) + n) g = map Some (gen_rest g) @ replicate n None"
proof (induction "length (gen_rest g) + n" arbitrary: g n)
  case (Suc k)
  show ?case
  proof (cases "gen_rest g")
    case Nil
    then obtain n' where n': "n = Suc n'" using Suc(2) by (cases n) auto
    have "gen_items (length (gen_rest g) + n') g = map Some (gen_rest g) @ replicate n' None"
      using Suc(1) [of g n'] Suc(2) n' by simp
    then show ?thesis using st_gen_ok(1) [of g] Nil n' by simp
  next
    case (Cons e es)
    let ?g = "snd (st_gen g)"
    have r: "gen_rest ?g = es" "st_gen g = (Some e, ?g)" using st_gen_ok [of g] Cons by simp_all
    then have "gen_items (length es + n) ?g = map Some es @ replicate n None"
      using Suc(1) [of ?g n] Suc(2) Cons by simp
    then show ?thesis using Cons r(2) by (metis (no_types, lifting) add_Suc append_Cons case_prod_conv gen_items.simps(2) length_Cons list.simps(9))
  qed
qed simp

subsection \<open>The predefined functions have the contract\<close>

interpretation num_keys: st_keys st_numcmp st_numhash
  by unfold_locales (auto simp: st_numcmp_def st_numhash_def split: if_splits)

interpretation ptr_keys: st_keys st_ptrcmp st_ptrhash
  by unfold_locales (auto simp: st_ptrcmp_def st_ptrhash_def split: if_splits)

subsection \<open>A concrete table\<close>

definition st_demo :: "(ptr, ptr) st_table" where
  "st_demo = \<lparr>compare = st_ptrcmp, hash = st_ptrhash, num_bins = 11, num_entries = 0,
     max_density = 5, reorder_flag = False, grow_factor = 2, bins = replicate 11 []\<rparr>"

lemma st_demo_init: "st_init_table st_ptrcmp st_ptrhash [True, True] = Some (Some st_demo, [])"
  by (simp add: bins_fit_def st_init_table_def st_init_table_with_params_def alloc_def st_demo_def
      ST_DEFAULT_INIT_TABLE_SIZE_def ST_DEFAULT_MAX_DENSITY_def ST_DEFAULT_GROW_FACTOR_def)

lemma st_demo_ok: "st_valid st_ptrcmp st_ptrhash st_demo" "st_map st_demo = Map.empty" "\<not> reorder_flag st_demo"
proof -
  have "case st_init_table st_ptrcmp st_ptrhash [True, True] of None \<Rightarrow> False
      | Some (None, _) \<Rightarrow> True | Some (Some t, _) \<Rightarrow> st_valid st_ptrcmp st_ptrhash t \<and> st_map t = (Map.empty :: ptr \<Rightarrow> ptr option)"
    unfolding st_init_table_def by (rule ptr_keys.init_ok) (simp_all add: ST_DEFAULT_GROW_FACTOR_def ST_DEFAULT_INIT_TABLE_SIZE_def)
  then show "st_valid st_ptrcmp st_ptrhash st_demo" "st_map st_demo = Map.empty"
    unfolding st_demo_init by simp_all
  show "\<not> reorder_flag st_demo" by (simp add: st_demo_def)
qed

lemma st_demo_room: "has_room st_demo" "can_grow st_demo" "num_entries st_demo < 2 ^ 31"
  by (simp_all add: has_room_def can_grow_def st_demo_def)

lemma ptrcmp_0 [simp]: "st_ptrcmp x y = 0 \<longleftrightarrow> x = y"
  by (simp add: st_ptrcmp_def)

subsection \<open>The integer variants\<close>

lemma int_variants:
  "st_lookup_int t k = map_option (\<lambda>(r, t'). (map_option record_int r, t')) (st_lookup t k)"
  "st_delete_int t k = map_option (\<lambda>(r, t'). (map_option (map_prod id record_int) r, t')) (st_delete t k)"
  "st_gen_int g = (case st_gen g of (r, g') \<Rightarrow> (map_option (map_prod id record_int) r, g'))"
  by (auto simp: st_lookup_int_def st_lookup_def st_delete_int_def st_delete_def st_gen_int_def st_gen_def Let_def
      option.map_comp comp_def case_prod_beta' split: Option.bind_splits option.splits list.splits)

end
