(* ===== verification/CuddLeq.thy ===== *)
theory CuddLeq
  imports CuddOps
begin

text \<open>
  Correctness of the operations of \<open>cuddBddIte.c\<close> that compare diagrams: the containment test
  \<open>Cudd_bddLeq\<close>, which builds no node, and \<open>Cudd_bddIntersect\<close>, which gives a witness of an
  intersection.
\<close>

subsection \<open>The containment test\<close>

definition leq :: "DdManager \<Rightarrow> ptr \<Rightarrow> ptr \<Rightarrow> bool" where
  "leq m f g \<longleftrightarrow> (\<forall>env. sem m env f \<longrightarrow> sem m env g)"

text \<open>A test answers the question, and leaves a consistent manager with all that is held.\<close>

definition tested :: "ptr multiset \<Rightarrow> DdManager \<Rightarrow> bool \<Rightarrow> bool result \<Rightarrow> bool" where
  "tested ext m P res \<longleftrightarrow> (\<exists>m'. res = Some (P, m') \<and> keep (set_mset ext) m m' \<and> mgr_ok ext {} m')"

lemma tested_same: "mgr_ok ext {} m \<Longrightarrow> P = b \<Longrightarrow> tested ext m P (Some (b, m))"
  using keep_refl by (simp add: tested_def)

lemma tested_step: "tested ext m' P res \<Longrightarrow> keep (set_mset ext) m m' \<Longrightarrow> store_ok m \<Longrightarrow> tested ext m P res"
proof -
  assume "tested ext m' P res" and k: "keep (set_mset ext) m m'" "store_ok m"
  then obtain m2 where m2: "res = Some (P, m2)" "keep (set_mset ext) m' m2" "mgr_ok ext {} m2"
    by (auto simp: tested_def)
  from keep_trans [OF k(1) m2(2) k(2)] m2(1,3) show ?thesis by (simp add: tested_def)
qed

lemma leq_data: "Cudd_NotCond x (\<exists>env. sem m env f \<and> \<not> sem m env g) = (if leq m f g then x else Cudd_Not x)"
proof -
  have "(\<exists>env. sem m env f \<and> \<not> sem m env g) = (\<not> leq m f g)" by (auto simp: leq_def)
  then show ?thesis by simp
qed

lemma leq_store:
  assumes "store m' = store m"
  shows "leq m' f g = leq m f g"
  by (simp add: leq_def sem_cong_store [OF assms])

text \<open>Two questions, the second asked only when the answer to the first is yes.\<close>

lemma tested_both:
  assumes "tested ext m P A" "\<And>m'. mgr_ok ext {} m' \<Longrightarrow> keep (set_mset ext) m m' \<Longrightarrow> tested ext m' Q (B m')"
    and "\<And>m'. mgr_ok ext {} m' \<Longrightarrow> keep (set_mset ext) m m' \<Longrightarrow> tested ext m R (K (P \<and> Q) m')"
    and "store_ok m"
  shows "tested ext m R (A \<bind> (\<lambda>(p, m'). (if p then B m' else Some (False, m')) \<bind> (\<lambda>(q, m'). K q m')))"
proof -
  obtain m1 where a: "A = Some (P, m1)" "keep (set_mset ext) m m1" "mgr_ok ext {} m1"
    using assms(1) by (auto simp: tested_def)
  show ?thesis
  proof (cases P)
    case True
    obtain m2 where b: "B m1 = Some (Q, m2)" "keep (set_mset ext) m1 m2" "mgr_ok ext {} m2"
      using assms(2) [OF a(3,2)] by (auto simp: tested_def)
    from assms(3) [OF b(3) keep_trans [OF a(2) b(2) assms(4)]] show ?thesis using True a(1) b(1) by simp
  next
    case False
    from assms(3) [OF a(3,2)] show ?thesis using False a(1) by simp
  qed
qed

lemma all_split:
  assumes "indep m l P" "indep m l Q" "store_ok m" "l < dsize m"
  shows "(\<forall>env. if env (invperm m ! l) then P env else Q env) \<longleftrightarrow> (\<forall>env. P env) \<and> (\<forall>env. Q env)"
proof -
  let ?i = "invperm m ! l"
  have i: "?i < dsize m" "perm m ! ?i = l" using order_okD(6,7) [OF assms(3,4)] by simp_all
  have u: "P (env(?i := b)) = P env" "Q (env(?i := b)) = Q env" for env b
    using assms(1,2) i by (simp_all add: indep_def)
  show ?thesis
  proof (intro iffI conjI allI)
    fix env assume a: "\<forall>env. if env ?i then P env else Q env"
    show "P env" using a [rule_format, of "env(?i := True)"] u(1) by simp
    show "Q env" using a [rule_format, of "env(?i := False)"] u(2) by simp
  qed auto
qed

lemma leq_one: "store_ok m \<Longrightarrow> leq m f (DD_ONE m)" "store_ok m \<Longrightarrow> leq m (Cudd_Not (DD_ONE m)) g"
  by (simp_all add: leq_def)

lemma leq_swap: "leq m (Cudd_Not g) (Cudd_Not f) = leq m f g"
  by (auto simp: leq_def)

lemma not_leq:
  assumes "store_ok m" "f \<in> edges m" "g \<in> edges m"
  shows "Cudd_IsComplement g \<Longrightarrow> \<not> Cudd_IsComplement f \<Longrightarrow> \<not> leq m f g"
    "g \<noteq> DD_ONE m \<Longrightarrow> \<not> leq m (DD_ONE m) g"
    "g \<noteq> DD_ONE m \<Longrightarrow> Cudd_Not f = g \<Longrightarrow> \<not> leq m f g"
proof -
  show "Cudd_IsComplement g \<Longrightarrow> \<not> Cudd_IsComplement f \<Longrightarrow> \<not> leq m f g"
    using sem_all_true [OF assms(1,2)] sem_all_true [OF assms(1,3)] by (auto simp: leq_def)
  show one: "\<not> leq m (DD_ONE m) g" if "g \<noteq> DD_ONE m"
    using canonical [OF assms(1,3) one_edges [OF assms(1)]] that assms(1) by (auto simp: leq_def)
  show "\<not> leq m f g" if n: "g \<noteq> DD_ONE m" "Cudd_Not f = g"
  proof
    assume "leq m f g"
    then have "sem m env g" for env using n(2) by (auto simp: leq_def)
    then have "leq m (DD_ONE m) g" by (simp add: leq_def)
    with one [OF n(1)] show False by simp
  qed
qed

lemma leq_entry:
  assumes "store_ok m" "f \<in> edges m" "g \<in> edges m"
  shows "entry_ok m \<lparr>c_f = f, c_g = g, c_h = fp_Cudd_bddLeq,
    c_data = (if leq m f g then DD_ONE m else Cudd_Not (DD_ONE m))\<rparr>"
  using assms one_edges [OF assms(1)] by (simp add: entry_ok_def entry2_ok_def fp_defs leq_data)

text \<open>The recursive case, both operands labelled with variables and the second one regular.\<close>

lemma leq_general_ok:
  assumes ok: "mgr_ok ext {} m" and h: "held ext m f" "held ext m g"
    and t: "Cudd_Regular f \<in> tabnodes m" "g \<in> tabnodes m" "Cudd_Regular g = g"
    and rec: "\<And>a b m'. mgr_ok ext {} m' \<Longrightarrow> held ext m' a \<Longrightarrow> held ext m' b \<Longrightarrow>
      dsize m' - min (elev m' a) (elev m' b) < dsize m - min (elev m f) (elev m g) \<Longrightarrow>
      tested ext m' (leq m' a b) (Cudd_bddLeq a b m')"
    and n: "heap m (Cudd_Regular f) = Some nF" "heap m g = Some nG"
    and one: "one = DD_ONE m"
  shows "tested ext m (leq m f g)
    (nth_opt (perm m) (unat (index nF)) \<bind> (\<lambda>topf. nth_opt (perm m) (unat (index nG)) \<bind> (\<lambda>topg.
     cofactors f nF (topf \<le> topg) \<bind> (\<lambda>(fv, fvn). cofactors g nG (topg \<le> topf) \<bind> (\<lambda>(gv, gvn).
     Cudd_bddLeq fvn gvn m \<bind> (\<lambda>(res1, dd). (if res1 then Cudd_bddLeq fv gv dd else Some (False, dd)) \<bind>
      (\<lambda>(res, dd). cuddCacheInsert2 fp_Cudd_bddLeq f g (if res then one else Cudd_Not one) dd \<bind>
        (\<lambda>dd. Some (res, dd)))))))))"
proof -
  note s = mgr_okD(5) [OF ok]
  have c: "cont m (Cudd_Regular f) = Some (index nF, type nF)" "cont m (Cudd_Regular g) = Some (index nG, type nG)"
    using n t(3) by (simp_all add: cont_def)
  have tg: "Cudd_Regular g \<in> tabnodes m" using t(2,3) by simp
  define l where "l = min (elev m f) (elev m g)"
  have l: "l \<le> elev m f" "l \<le> elev m g" "elev m f \<le> elev m g \<longleftrightarrow> elev m f = l"
    "elev m g \<le> elev m f \<longleftrightarrow> elev m g = l" "l < dsize m"
    using node_level(2) [OF ok t(1) c(1)] by (auto simp: l_def)
  define i where "i = invperm m ! l"
  obtain fv fnv where cf: "cofactors f nF (elev m f \<le> elev m g) = Some (fv, fnv)"
    "held ext m fv" "held ext m fnv" "l < elev m fv" "l < elev m fnv"
    "\<And>env. sem m env f = (if env i then sem m env fv else sem m env fnv)"
    using cofactors_ok [OF ok h(1) c(1) l(1,3,5)] i_def by metis
  obtain gv gnv where cg: "cofactors g nG (elev m g \<le> elev m f) = Some (gv, gnv)"
    "held ext m gv" "held ext m gnv" "l < elev m gv" "l < elev m gnv"
    "\<And>env. sem m env g = (if env i then sem m env gv else sem m env gnv)"
    using cofactors_ok [OF ok h(2) c(2) l(2,4,5)] i_def by metis
  have rec_call: "tested ext m' (leq m a b) (Cudd_bddLeq a b m')"
    if "mgr_ok ext {} m'" "keep (set_mset ext) m m'" "held ext m a" "l < elev m a" "held ext m b" "l < elev m b" for a b m'
  proof -
    note s' = mgr_okD(5) [OF that(1)]
    note a = held_keep [OF that(3) ok that(2) s'] and b = held_keep [OF that(5) ok that(2) s']
    have "dsize m' - min (elev m' a) (elev m' b) < dsize m - min (elev m f) (elev m g)"
      using that(4,6) l(5) l_def orderD(3) [OF keepD(3) [OF that(2)]] by (auto simp: a(3) b(3))
    from rec [OF that(1) a(1) b(1) this] show ?thesis by (simp add: leq_def a(2) b(2))
  qed
  have ind: "indep m l (\<lambda>env. sem m env fv \<longrightarrow> sem m env gv)" "indep m l (\<lambda>env. sem m env fnv \<longrightarrow> sem m env gnv)"
    using indep_comb [where f = "(\<longrightarrow>)", OF indep_sem [OF s] indep_sem [OF s]] cf(2-5) cg(2-5) heldD(1) [OF _ ok]
    by simp_all
  have "leq m f g \<longleftrightarrow> (\<forall>env. if env i then sem m env fv \<longrightarrow> sem m env gv else sem m env fnv \<longrightarrow> sem m env gnv)"
    unfolding leq_def cf(6) cg(6) by (auto split: if_splits)
  then have eq: "leq m f g \<longleftrightarrow> leq m fnv gnv \<and> leq m fv gv"
    using all_split [OF ind s l(5)] unfolding leq_def i_def by blast
  have fin: "tested ext m (leq m f g) (cuddCacheInsert2 fp_Cudd_bddLeq f g (if q then one else Cudd_Not one) m' \<bind>
      (\<lambda>dd. Some (q, dd)))" if k: "mgr_ok ext {} m'" "keep (set_mset ext) m m'" and q: "q = leq m f g" for m' q
  proof -
    note s' = mgr_okD(5) [OF k(1)]
    note a = held_keep [OF h(1) ok k(2) s'] and b = held_keep [OF h(2) ok k(2) s']
    have "leq m' f g = q" "DD_ONE m' = one" using q one orderD(4) [OF keepD(3) [OF k(2)]] by (simp_all add: leq_def a(2) b(2))
    then have "entry_ok m' \<lparr>c_f = f, c_g = g, c_h = fp_Cudd_bddLeq, c_data = (if q then one else Cudd_Not one)\<rparr>"
      using leq_entry [OF s' heldD(1) [OF a(1) k(1)] heldD(1) [OF b(1) k(1)]] by (simp cong: if_cong)
    from cuddCacheInsert2_ok [OF k(1) this] obtain m2 where m2:
      "cuddCacheInsert2 fp_Cudd_bddLeq f g (if q then one else Cudd_Not one) m' = Some m2" "core m2 = core m'"
      "mgr_ok ext {} m2" by blast
    have "keep (set_mset ext) m m2"
      by (rule keep_trans [OF k(2) core_ok(4) [OF m2(2) mgr_okD(5,8) [OF k(1)]] s])
    then show ?thesis using m2 q by (simp add: tested_def)
  qed
  show ?thesis
    apply (simp only: node_level(1) [OF ok t(1) c(1)] node_level(1) [OF ok tg c(2)]
        Option.bind.bind_lunit cf(1) cg(1) prod.case)
    apply (rule tested_both [where Q = "leq m fv gv", OF rec_call [OF ok keep_refl [OF ok] cf(3,5) cg(3,5)] _ _ s])
    subgoal premises p for m' by (rule rec_call [OF p cf(2,4) cg(2,4)])
    subgoal premises p for m' by (rule fin [OF p]) (simp add: eq)
    done
qed

lemma Cudd_bddLeq_ok:
  "mgr_ok ext {} m \<Longrightarrow> held ext m f \<Longrightarrow> held ext m g \<Longrightarrow> tested ext m (leq m f g) (Cudd_bddLeq f g m)"
proof (induction "dsize m - min (elev m f) (elev m g)" arbitrary: ext m f g rule: less_induct)
  case less
  note ok = less.prems(1)
  note s = mgr_okD(5) [OF ok]
  let ?one = "DD_ONE m"
  have e: "f \<in> edges m" "g \<in> edges m" using heldD(1) [OF _ ok] less.prems(2,3) by blast+
  show ?case
  proof (cases "f = g \<or> (Cudd_IsComplement g \<and> \<not> Cudd_IsComplement f)")
    case True
    then show ?thesis using not_leq(1) [OF s e]
      by (subst Cudd_bddLeq.simps) (auto simp: leq_def intro!: tested_same [OF ok])
  next
    case False
    then have ne: "f \<noteq> g" "\<not> (Cudd_IsComplement g \<and> \<not> Cudd_IsComplement f)" by simp_all
    define sw where "sw \<longleftrightarrow> Cudd_IsComplement g \<or> (Cudd_IsComplement f \<and> g < f)"
    define f' g' where fg: "f' = (if sw then Cudd_Not g else f)" "g' = (if sw then Cudd_Not f else g)"
    have L: "leq m f g = leq m f' g'" by (simp add: fg leq_swap)
    have h: "held ext m f'" "held ext m g'" using less.prems(2,3) by (simp_all add: fg)
    have e': "f' \<in> edges m" "g' \<in> edges m" using heldD(1) [OF _ ok] h by blast+
    have rg: "\<not> Cudd_IsComplement g'" using ne(2) by (auto simp: fg sw_def)
    have l: "min (elev m f') (elev m g') = min (elev m f) (elev m g)" by (simp add: fg min.commute)
    show ?thesis
    proof (cases "g' = ?one \<or> f' = ?one \<or> Cudd_Not f' = g' \<or> f' = Cudd_Not ?one")
      case True
      then show ?thesis
        using ne leq_one [OF s] not_leq(2,3) [OF s e'] L
        apply (subst Cudd_bddLeq.simps)
        apply (simp only: Let_def sw_def [symmetric] fg [symmetric] ne if_False)
        apply (auto intro!: tested_same [OF ok])
        done
    next
      case False
      then have n1: "g' \<noteq> ?one" "f' \<noteq> ?one" "Cudd_Not f' \<noteq> g'" "f' \<noteq> Cudd_Not ?one" by simp_all
      have t: "Cudd_Regular f' \<in> tabnodes m" "g' \<in> tabnodes m"
        using heldD(2) [OF h(1) ok] heldD(2) [OF h(2) ok] n1 rg const_edges [OF _ s, of f'] by (auto simp: nodes_def)
      have lk: "looked_up ext m (\<lambda>r. entry2_ok m \<lparr>c_f = f', c_g = g', c_h = fp_Cudd_bddLeq, c_data = r\<rparr>)
        (cuddCacheLookup2 fp_Cudd_bddLeq f' g' m)" by (rule cuddCacheLookup2_ok [OF ok e'(1)])
      then obtain r m1 where r: "cuddCacheLookup2 fp_Cudd_bddLeq f' g' m = Some (r, m1)" "store m1 = store m"
        "keep (set_mset ext) m m1" "r = NULL \<and> mgr_ok ext {} m1 \<or> r \<in> edges m \<and>
          entry2_ok m \<lparr>c_f = f', c_g = g', c_h = fp_Cudd_bddLeq, c_data = r\<rparr> \<and> mgr_ok ext {Cudd_Regular r} m1"
        unfolding looked_up_def by blast
      have "tested ext m (leq m f' g') (Cudd_bddLeq f g m)"
      proof (cases "r = NULL")
        case False
        then have x: "entry2_ok m \<lparr>c_f = f', c_g = g', c_h = fp_Cudd_bddLeq, c_data = r\<rparr>"
          "mgr_ok ext {Cudd_Regular r} m1" using r(4) by blast+
        have "r = (if leq m f' g' then ?one else Cudd_Not ?one)"
          using x(1) by (simp add: entry2_ok_def fp_defs leq_data)
        note d = this x(2)
        have one1: "DD_ONE m1 = ?one" using orderD(4) [OF keepD(3) [OF r(3)]] .
        have "Cudd_Regular r = ?one" using d(1) oneD(3) [OF s] by (simp split: if_splits)
        then have "mgr_ok ext {} m1"
          using d(2) mgr_unfloat [of m1 ?one ext "{}"] heldD(4) [OF held_one [OF d(2)] d(2)] one1 oneD(3) [OF s] by simp
        moreover have "(r = ?one) = leq m f' g'" using d(1) by simp
        ultimately show ?thesis using r(1,3) False n1 ne
          apply (subst Cudd_bddLeq.simps)
          apply (simp only: Let_def sw_def [symmetric] fg [symmetric] ne n1 if_False Option.bind.bind_lunit prod.case)
          apply (simp add: tested_def)
          done
      next
        case True
        then have k1: "mgr_ok ext {} m1" using r(4) edges_nonnull [OF s] by auto
        note c = store_cong [OF r(2)] and s1 = mgr_okD(5) [OF k1]
        note hm = held_keep(1) [OF _ ok r(3) s1]
        have t1: "Cudd_Regular f' \<in> tabnodes m1" "g' \<in> tabnodes m1" "Cudd_Regular g' = g'" using t rg by (simp_all add: c)
        obtain nF nG where n: "heap m1 (Cudd_Regular f') = Some nF" "heap m1 g' = Some nG"
          using held_node [OF hm [OF h(1)] k1] held_node [OF hm [OF h(2)] k1] t1(3) by metis
        have one1: "?one = DD_ONE m1" using orderD(4) [OF keepD(3) [OF r(3)]] by simp
        have rc: "tested ext m' (leq m' a b) (Cudd_bddLeq a b m')"
          if "mgr_ok ext {} m'" "held ext m' a" "held ext m' b"
            "dsize m' - min (elev m' a) (elev m' b) < dsize m1 - min (elev m1 f') (elev m1 g')" for a b m'
          using less.hyps [OF _ that(1-3)] that(4) l by (simp add: c)
        have "tested ext m1 (leq m1 f' g')
          (nth_opt (perm m1) (unat (index nF)) \<bind> (\<lambda>topf. nth_opt (perm m1) (unat (index nG)) \<bind> (\<lambda>topg.
           cofactors f' nF (topf \<le> topg) \<bind> (\<lambda>(fv, fvn). cofactors g' nG (topg \<le> topf) \<bind> (\<lambda>(gv, gvn).
           Cudd_bddLeq fvn gvn m1 \<bind> (\<lambda>(res1, dd). (if res1 then Cudd_bddLeq fv gv dd else Some (False, dd)) \<bind>
            (\<lambda>(res, dd). cuddCacheInsert2 fp_Cudd_bddLeq f' g' (if res then ?one else Cudd_Not ?one) dd \<bind>
              (\<lambda>dd. Some (res, dd)))))))))"
          by (rule leq_general_ok [OF k1 hm [OF h(1)] hm [OF h(2)] t1 rc n one1])
        from tested_step [OF this r(3) s] show ?thesis
          unfolding leq_store [OF r(2)]
          apply (subst Cudd_bddLeq.simps)
          apply (simp only: Let_def sw_def [symmetric] fg [symmetric] ne n1 if_False r(1) True n
              Option.bind.bind_lunit prod.case simp_thms)
          done
      qed
      then show ?thesis by (simp add: L)
    qed
  qed
qed

subsection \<open>A witness of an intersection\<close>

text \<open>
  The result lies below both operands and is satisfiable when their conjunction is; it
  depends on no variable above both.
\<close>

definition meets :: "DdManager \<Rightarrow> ptr \<Rightarrow> ptr \<Rightarrow> ((nat \<Rightarrow> bool) \<Rightarrow> bool) \<Rightarrow> bool" where
  "meets m f g P \<longleftrightarrow> (\<forall>env. P env \<longrightarrow> sem m env f \<and> sem m env g) \<and>
     ((\<exists>env. sem m env f \<and> sem m env g) \<longrightarrow> (\<exists>env. P env)) \<and>
     (\<forall>l < min (elev m f) (elev m g). indep m l P)"

lemma meets_keep:
  assumes "mgr_ok ext F m" "keep (set_mset ext) m m'" "store_ok m'" "held ext m f" "held ext m g"
  shows "meets m' f g = meets m f g"
  using held_keep(2,3) [OF _ assms(1-3)] assms(4,5) orderD(1,3) [OF keepD(3) [OF assms(2)]]
  by (simp add: meets_def indep_def fun_eq_iff)

lemma meets_store:
  assumes "store m' = store m"
  shows "meets m' f g = meets m f g"
  using store_cong [OF assms] by (simp add: meets_def indep_def fun_eq_iff sem_cong_store [OF assms])

lemma meets_swap: "meets m g f = meets m f g"
  by (auto simp: meets_def fun_eq_iff min.commute)

lemma meets_sem:
  assumes "store_ok m" "r \<in> edges m" "min (elev m f) (elev m g) \<le> elev m r"
    and "\<And>env. sem m env r \<Longrightarrow> sem m env f \<and> sem m env g" "(\<exists>env. sem m env f \<and> sem m env g) \<Longrightarrow> \<exists>env. sem m env r"
  shows "meets m f g (\<lambda>env. sem m env r)"
  using assms(4,5) indep_sem [OF assms(1,2)] assms(3) by (auto simp: meets_def)

lemma meets_False:
  assumes "\<nexists>env. sem m env f \<and> sem m env g"
  shows "meets m f g (\<lambda>_. False)"
  using assms by (auto simp: meets_def indep_def)

text \<open>The results for the cofactors, the second one only sought when the first is empty.\<close>

definition second :: "DdManager \<Rightarrow> ((nat \<Rightarrow> bool) \<Rightarrow> bool) \<Rightarrow> ptr \<Rightarrow> ptr \<Rightarrow> ((nat \<Rightarrow> bool) \<Rightarrow> bool) \<Rightarrow> bool" where
  "second m P f g Q \<longleftrightarrow> (if \<exists>env. P env then Q = (\<lambda>_. False) else meets m f g Q)"

lemma meets_some: "store_ok m \<Longrightarrow> f \<in> edges m \<Longrightarrow> g \<in> edges m \<Longrightarrow> meets m f g (\<lambda>env. sem m env f \<and> sem m env g)"
  using indep_comb [where f = "(\<and>)", OF indep_sem indep_sem] by (auto simp: meets_def)

lemma second_some: "store_ok m \<Longrightarrow> f \<in> edges m \<Longrightarrow> g \<in> edges m \<Longrightarrow> \<exists>Q. second m P f g Q"
  using meets_some by (cases "\<exists>env. P env") (auto simp: second_def)

lemma second_indep: "second m P f g Q \<Longrightarrow> l < min (elev m f) (elev m g) \<Longrightarrow> indep m l Q"
  by (auto simp: second_def meets_def indep_def split: if_splits)

lemma meets_split:
  assumes P: "meets m fv gv P" and Q: "second m P fnv gnv Q"
    and s: "store_ok m" "l < dsize m" "l < min (elev m fv) (elev m gv)" "l < min (elev m fnv) (elev m gnv)"
    and f: "\<And>env. sem m env f = (if env (invperm m ! l) then sem m env fv else sem m env fnv)"
    and g: "\<And>env. sem m env g = (if env (invperm m ! l) then sem m env gv else sem m env gnv)"
    and l: "min (elev m f) (elev m g) = l"
  shows "meets m f g (\<lambda>env. if env (invperm m ! l) then P env else Q env)"
proof -
  let ?i = "invperm m ! l"
  have i: "?i < dsize m" "perm m ! ?i = l" using order_okD(6,7) [OF s(1,2)] by simp_all
  have ind: "indep m l' P" "indep m l' Q" if "l' \<le> l" for l'
    using P that s(3,4) second_indep [OF Q] by (auto simp: meets_def)
  have u: "P (env(?i := b)) = P env" "Q (env(?i := b)) = Q env" for env b
    using ind [OF order_refl] i by (simp_all add: indep_def)
  have Qb: "Q env \<Longrightarrow> sem m env fnv \<and> sem m env gnv" for env
    using Q by (auto simp: second_def meets_def split: if_splits)
  have below: "(if env ?i then P env else Q env) \<Longrightarrow> sem m env f \<and> sem m env g" for env
    using P Qb [of env] by (auto simp: f g meets_def split: if_splits)
  have sat: "\<exists>env. if env ?i then P env else Q env" if "sem m env f \<and> sem m env g" for env
  proof (cases "\<exists>env. P env")
    case True
    then obtain e where "P e" by blast
    then have "P (e(?i := True))" by (simp add: u)
    then show ?thesis by (intro exI [of _ "e(?i := True)"]) simp
  next
    case False
    then have "\<not> env ?i" using that P by (auto simp: f g meets_def)
    then have "sem m env fnv \<and> sem m env gnv" using that by (simp add: f g)
    then obtain e where "Q e" using Q False by (auto simp: second_def meets_def)
    then have "Q (e(?i := False))" by (simp add: u)
    then show ?thesis by (intro exI [of _ "e(?i := False)"]) simp
  qed
  have "indep m l' (\<lambda>env. if env ?i then P env else Q env)" if "l' < l" for l'
  proof -
    have "j \<noteq> ?i" if "perm m ! j \<le> l'" for j using that \<open>l' < l\<close> i(2) by auto
    then have "(env(j := b)) ?i = env ?i" if "perm m ! j \<le> l'" for j b and env :: "nat \<Rightarrow> bool" using that by force
    then show ?thesis using ind [OF less_imp_le [OF that]] by (simp add: indep_def del: fun_upd_apply)
  qed
  then show ?thesis using below sat l unfolding meets_def by blast
qed

lemma meet_entry:
  assumes "store_ok m" "f \<in> edges m" "g \<in> edges m" "r \<in> edges m" "meets m f g (\<lambda>env. sem m env r)"
  shows "entry_ok m \<lparr>c_f = f, c_g = g, c_h = fp_Cudd_bddIntersect, c_data = r\<rparr>"
proof -
  have "min (elev m f) (elev m g) \<le> elev m r"
  proof (rule ccontr)
    assume a: "\<not> min (elev m f) (elev m g) \<le> elev m r"
    then have lt: "elev m r < min (elev m f) (elev m g)" by (simp only: not_le)
    then have "indep m (elev m r) (\<lambda>env. sem m env r)" using assms(5) by (simp add: meets_def)
    have "elev m f \<le> dsize m" using lev_le [OF assms(1)] assms(2) by (simp add: edges_def elev_def)
    then have "elev m r < dsize m" using lt \<open>elev m f \<le> dsize m\<close> by linarith
    from indep_level [OF assms(1,4) \<open>indep m (elev m r) (\<lambda>env. sem m env r)\<close> this] show False by simp
  qed
  then show ?thesis using assms by (simp add: entry_ok_def entry2_ok_def fp_defs meets_def)
qed

text \<open>The recursive case.\<close>

lemma meet_general_ok:
  assumes ok: "mgr_ok ext {} m" and h: "held ext m f" "held ext m g"
    and t: "Cudd_Regular f \<in> tabnodes m" "Cudd_Regular g \<in> tabnodes m"
    and rec: "\<And>a b ext' m'. mgr_ok ext' {} m' \<Longrightarrow> held ext' m' a \<Longrightarrow> held ext' m' b \<Longrightarrow>
      dsize m' - min (elev m' a) (elev m' b) < dsize m - min (elev m f) (elev m g) \<Longrightarrow>
      \<exists>P. meets m' a b P \<and> delivered ext' m' P (cuddBddIntersectRecur a b m')"
    and n: "heap m (Cudd_Regular f) = Some nF" "heap m (Cudd_Regular g) = Some nG"
    and zero: "zero = Cudd_Not (DD_ONE m)"
  shows "\<exists>P. meets m f g P \<and> delivered ext m P
    (nth_opt (perm m) (unat (index nF)) \<bind> (\<lambda>topf. nth_opt (perm m) (unat (index nG)) \<bind> (\<lambda>topg.
     cofactors f nF (topf \<le> topg) \<bind> (\<lambda>(fv, fnv). cofactors g nG (topg \<le> topf) \<bind> (\<lambda>(gv, gnv).
     cuddBddIntersectRecur fv gv m \<bind> (\<lambda>(t, m1). if t = NULL then Some (NULL, m1)
    else cuddRef t m1 \<bind> (\<lambda>m1. (if t \<noteq> zero then Some (zero, m1) else cuddBddIntersectRecur fnv gnv m1) \<bind> (\<lambda>(e, m1).
      if e = NULL then Cudd_IterDerefBdd t m1 \<bind> (\<lambda>m1. Some (NULL, m1))
      else cuddRef e m1 \<bind> (\<lambda>m1. combine (if topf \<le> topg then index nF else index nG) t e m1 \<bind>
        (\<lambda>(r, m1). if r = NULL then Some (NULL, m1)
        else cuddDeref e m1 \<bind> (\<lambda>m1. cuddDeref t m1 \<bind> (\<lambda>m1.
          cuddCacheInsert2 fp_Cudd_bddIntersect f g r m1 \<bind> (\<lambda>m1. Some (r, m1))))))))))))))"
proof -
  note s = mgr_okD(5) [OF ok]
  have c: "cont m (Cudd_Regular f) = Some (index nF, type nF)" "cont m (Cudd_Regular g) = Some (index nG, type nG)"
    using n by (simp_all add: cont_def)
  define l where "l = min (elev m f) (elev m g)"
  have l: "l \<le> elev m f" "l \<le> elev m g" "elev m f \<le> elev m g \<longleftrightarrow> elev m f = l"
    "elev m g \<le> elev m f \<longleftrightarrow> elev m g = l" "l < dsize m"
    using node_level(2) [OF ok t(1) c(1)] by (auto simp: l_def)
  define i where "i = invperm m ! l"
  obtain fv fnv where cf: "cofactors f nF (elev m f \<le> elev m g) = Some (fv, fnv)"
    "held ext m fv" "held ext m fnv" "l < elev m fv" "l < elev m fnv"
    "\<And>env. sem m env f = (if env i then sem m env fv else sem m env fnv)"
    using cofactors_ok [OF ok h(1) c(1) l(1,3,5)] i_def by metis
  obtain gv gnv where cg: "cofactors g nG (elev m g \<le> elev m f) = Some (gv, gnv)"
    "held ext m gv" "held ext m gnv" "l < elev m gv" "l < elev m gnv"
    "\<And>env. sem m env g = (if env i then sem m env gv else sem m env gnv)"
    using cofactors_ok [OF ok h(2) c(2) l(2,4,5)] i_def by metis
  have rec_call: "\<exists>P. meets m a b P \<and> delivered ext' m' P (cuddBddIntersectRecur a b m')"
    if "mgr_ok ext' {} m'" "set_mset ext \<subseteq> set_mset ext'" "keep (set_mset ext) m m'"
      "held ext m a" "l < elev m a" "held ext m b" "l < elev m b" for a b ext' m'
  proof -
    note s' = mgr_okD(5) [OF that(1)]
    note a = held_keep [OF that(4) ok that(3) s'] and b = held_keep [OF that(6) ok that(3) s']
    have "dsize m' - min (elev m' a) (elev m' b) < dsize m - min (elev m f) (elev m g)"
      using that(5,7) l(5) l_def orderD(3) [OF keepD(3) [OF that(3)]] by (auto simp: a(3) b(3))
    from rec [OF that(1) held_mono [OF a(1) that(2)] held_mono [OF b(1) that(2)] this]
    show ?thesis unfolding meets_keep [OF ok that(3) s' that(4,6)] .
  qed
  obtain P where P: "meets m fv gv P" "delivered ext m P (cuddBddIntersectRecur fv gv m)"
    using rec_call [OF ok order_refl keep_refl [OF ok] cf(2,4) cg(2,4)] by blast
  have idx: "unat (if elev m f \<le> elev m g then index nF else index nG) = invperm m ! l"
    using node_level(3) [OF ok t(1) c(1)] node_level(3) [OF ok t(2) c(2)] by (simp add: l_def min_def)
  have lv: "l < min (elev m fv) (elev m gv)" "l < min (elev m fnv) (elev m gnv)" using cf(4,5) cg(4,5) by simp_all
  have indP: "indep m l P" using P(1) lv(1) by (simp add: meets_def)
  obtain Q0 where Q0: "second m P fnv gnv Q0"
    using second_some [OF s heldD(1) [OF cf(3) ok] heldD(1) [OF cg(3) ok]] by blast
  let ?R = "\<lambda>Q env. if env (invperm m ! l) then P env else Q env"
  have mt: "meets m f g (?R Q)" if "second m P fnv gnv Q" for Q
    by (rule meets_split [OF P(1) that s l(5) lv _ _ l_def [symmetric]]) (simp_all only: cf(6) cg(6) i_def)
  have "\<exists>Q. second m P fnv gnv Q \<and> delivered ext m (?R Q)
    (nth_opt (perm m) (unat (index nF)) \<bind> (\<lambda>topf. nth_opt (perm m) (unat (index nG)) \<bind> (\<lambda>topg.
     cofactors f nF (topf \<le> topg) \<bind> (\<lambda>(fv, fnv). cofactors g nG (topg \<le> topf) \<bind> (\<lambda>(gv, gnv).
     cuddBddIntersectRecur fv gv m \<bind> (\<lambda>(t, m1). if t = NULL then Some (NULL, m1)
    else cuddRef t m1 \<bind> (\<lambda>m1. (if t \<noteq> zero then Some (zero, m1) else cuddBddIntersectRecur fnv gnv m1) \<bind> (\<lambda>(e, m1).
      if e = NULL then Cudd_IterDerefBdd t m1 \<bind> (\<lambda>m1. Some (NULL, m1))
      else cuddRef e m1 \<bind> (\<lambda>m1. combine (if topf \<le> topg then index nF else index nG) t e m1 \<bind>
        (\<lambda>(r, m1). if r = NULL then Some (NULL, m1)
        else cuddDeref e m1 \<bind> (\<lambda>m1. cuddDeref t m1 \<bind> (\<lambda>m1.
          cuddCacheInsert2 fp_Cudd_bddIntersect f g r m1 \<bind> (\<lambda>m1. Some (r, m1))))))))))))))"
    apply (simp only: node_level(1) [OF ok t(1) c(1)] node_level(1) [OF ok t(2) c(2)]
        Option.bind.bind_lunit cf(1) cg(1) prod.case)
    apply (rule build_any_step [where R = ?R and S = "second m P fnv gnv" and
        B = "\<lambda>t m1. if t \<noteq> zero then Some (zero, m1) else cuddBddIntersectRecur fnv gnv m1",
        OF ok l(5) idx P(2) indP _ Q0])
    subgoal premises q for Q by (rule second_indep [OF q lv(2)])
    subgoal premises p for t ext' m'
    proof (cases "t = zero")
      case True
      have "\<not> P env" for env
        using p(5) [of env] True zero orderD(4) [OF keepD(3) [OF p(3)]] sem_one [OF mgr_okD(5) [OF p(1)]] by simp
      moreover obtain Q where "meets m fnv gnv Q" "delivered ext' m' Q (cuddBddIntersectRecur fnv gnv m')"
        using rec_call [OF p(1-3) cf(3,5) cg(3,5)] by blast
      ultimately show ?thesis using True by (auto simp: second_def)
    next
      case False
      note s' = mgr_okD(5) [OF p(1)]
      have one: "DD_ONE m' = DD_ONE m" using orderD(4) [OF keepD(3) [OF p(3)]] .
      have "\<exists>env. P env"
      proof (rule ccontr)
        assume "\<nexists>env. P env"
        then have "t = Cudd_Not (DD_ONE m')"
          using canonical [OF s' heldD(1) [OF p(4,1)], of "Cudd_Not (DD_ONE m')"] p(5) one_edges [OF s'] sem_one [OF s']
          by simp
        with False show False by (simp add: zero one)
      qed
      moreover have "delivered ext' m' (\<lambda>_. False) (Some (zero, m'))"
        by (rule delivered_held [OF _ p(1)]) (use held_one [OF p(1)] sem_one [OF s'] in \<open>simp_all add: zero flip: one\<close>)
      ultimately show ?thesis using False by (simp add: second_def)
    qed
    subgoal premises k for Q r m2
    proof -
      note s2 = mgr_okD(5) [OF k(2)]
      note hf = held_keep [OF h(1) ok k(3) s2] and hg = held_keep [OF h(2) ok k(3) s2]
      have "meets m2 f g (\<lambda>env. sem m2 env r)"
        unfolding meets_keep [OF ok k(3) s2 h] k(5) by (rule mt [OF k(1)])
      then have "entry_ok m2 \<lparr>c_f = f, c_g = g, c_h = fp_Cudd_bddIntersect, c_data = r\<rparr>"
        by (rule meet_entry [OF s2 heldD(1) [OF hf(1) k(2)] heldD(1) [OF hg(1) k(2)] k(4)])
      then show ?thesis by (rule insert2_step [OF k(2,3) s k(4,5)])
    qed
    done
  then show ?thesis using mt by blast
qed

lemma meets_terminal:
  assumes "mgr_ok ext {} m" "held ext m f" "held ext m g"
  shows "f = Cudd_Not (DD_ONE m) \<or> g = Cudd_Not (DD_ONE m) \<or> f = Cudd_Not g \<Longrightarrow>
      \<exists>P. meets m f g P \<and> delivered ext m P (Some (Cudd_Not (DD_ONE m), m))"
    "f = g \<or> g = DD_ONE m \<Longrightarrow> \<exists>P. meets m f g P \<and> delivered ext m P (Some (f, m))"
    "f = DD_ONE m \<Longrightarrow> \<exists>P. meets m f g P \<and> delivered ext m P (Some (g, m))"
proof -
  note s = mgr_okD(5) [OF assms(1)]
  note e = heldD(1) [OF assms(2,1)] heldD(1) [OF assms(3,1)]
  note one = sem_one [OF s]
  show "\<exists>P. meets m f g P \<and> delivered ext m P (Some (Cudd_Not (DD_ONE m), m))"
    if "f = Cudd_Not (DD_ONE m) \<or> g = Cudd_Not (DD_ONE m) \<or> f = Cudd_Not g"
  proof -
    have "\<nexists>env. sem m env f \<and> sem m env g" using that by (auto simp: one)
    from meets_False [OF this] show ?thesis
      using delivered_held [of ext m "Cudd_Not (DD_ONE m)" "\<lambda>_. False"] held_one [OF assms(1)] assms(1) one by auto
  qed
  have both: "\<exists>P. meets m f g P \<and> delivered ext m P (Some (r, m))"
    if "held ext m r" "\<And>env. sem m env r = (sem m env f \<and> sem m env g)" for r
    using meets_some [OF s e] delivered_held [OF that(1) assms(1) that(2)] by blast
  show "\<exists>P. meets m f g P \<and> delivered ext m P (Some (f, m))" if "f = g \<or> g = DD_ONE m"
    by (rule both [OF assms(2)]) (use that one in auto)
  show "\<exists>P. meets m f g P \<and> delivered ext m P (Some (g, m))" if "f = DD_ONE m"
    by (rule both [OF assms(3)]) (use that one in auto)
qed

lemma cuddBddIntersectRecur_ok:
  "mgr_ok ext {} m \<Longrightarrow> held ext m f \<Longrightarrow> held ext m g \<Longrightarrow>
   \<exists>P. meets m f g P \<and> delivered ext m P (cuddBddIntersectRecur f g m)"
proof (induction "dsize m - min (elev m f) (elev m g)" arbitrary: ext m f g rule: less_induct)
  case less
  note ok = less.prems(1)
  note s = mgr_okD(5) [OF ok]
  let ?one = "DD_ONE m"
  consider (zero) "f = Cudd_Not ?one \<or> g = Cudd_Not ?one \<or> f = Cudd_Not g"
    | (f) "\<not> (f = Cudd_Not ?one \<or> g = Cudd_Not ?one \<or> f = Cudd_Not g)" "f = g \<or> g = ?one"
    | (g) "\<not> (f = Cudd_Not ?one \<or> g = Cudd_Not ?one \<or> f = Cudd_Not g)" "\<not> (f = g \<or> g = ?one)" "f = ?one"
    | (rec) "\<not> (f = Cudd_Not ?one \<or> g = Cudd_Not ?one \<or> f = Cudd_Not g)" "\<not> (f = g \<or> g = ?one)" "f \<noteq> ?one" by blast
  then show ?case
  proof cases
    case zero
    show ?thesis using meets_terminal(1) [OF less.prems zero]
      by (subst cuddBddIntersectRecur.simps) (simp only: Let_def zero if_True)
  next
    case f
    show ?thesis using meets_terminal(2) [OF less.prems f(2)]
      by (subst cuddBddIntersectRecur.simps) (simp only: Let_def f if_True if_False)
  next
    case g
    show ?thesis using meets_terminal(3) [OF less.prems g(3)]
      apply (subst cuddBddIntersectRecur.simps)
      apply (simp only: Let_def g(1,2) if_False)
      apply (simp only: g(3) simp_thms if_True)
      done
  next
    case rec
    define f' g' where fg: "f' = (if f > g then g else f)" "g' = (if f > g then f else g)"
    have h: "held ext m f'" "held ext m g'" using less.prems(2,3) by (simp_all add: fg)
    have e: "f' \<in> edges m" "g' \<in> edges m" using heldD(1) [OF _ ok] h by blast+
    have t: "Cudd_Regular f' \<in> tabnodes m" "Cudd_Regular g' \<in> tabnodes m"
      using heldD(2) [OF h(1) ok] heldD(2) [OF h(2) ok] rec const_edges [OF _ s]
      by (auto simp: fg nodes_def split: if_splits)
    have l: "min (elev m f') (elev m g') = min (elev m f) (elev m g)" by (simp add: fg min.commute)
    have sw: "meets m f' g' = meets m f g" by (auto simp: fg meets_swap)
    have lk: "looked_up ext m (\<lambda>r. entry2_ok m \<lparr>c_f = f', c_g = g', c_h = fp_Cudd_bddIntersect, c_data = r\<rparr>)
      (cuddCacheLookup2 fp_Cudd_bddIntersect f' g' m)" by (rule cuddCacheLookup2_ok [OF ok e(1)])
    then obtain r m1 where r: "cuddCacheLookup2 fp_Cudd_bddIntersect f' g' m = Some (r, m1)" "store m1 = store m"
      "keep (set_mset ext) m m1" "r = NULL \<and> mgr_ok ext {} m1 \<or> r \<in> edges m \<and>
        entry2_ok m \<lparr>c_f = f', c_g = g', c_h = fp_Cudd_bddIntersect, c_data = r\<rparr> \<and> mgr_ok ext {Cudd_Regular r} m1"
      unfolding looked_up_def by blast
    show ?thesis
    proof (cases "r = NULL")
      case False
      then have x: "r \<in> edges m" "entry2_ok m \<lparr>c_f = f', c_g = g', c_h = fp_Cudd_bddIntersect, c_data = r\<rparr>"
        "mgr_ok ext {Cudd_Regular r} m1" using r(4) by blast+
      have "meets m f g (\<lambda>env. sem m env r)"
        unfolding sw [symmetric] by (rule meets_sem [OF s x(1)]) (use x(2) in \<open>simp_all add: entry2_ok_def fp_defs\<close>)
      moreover have "delivered ext m (\<lambda>env. sem m env r) (Some (r, m1))"
        by (rule delivered_edge [OF _ x(3) r(3)])
          (use x(1) in \<open>simp_all add: store_cong [OF r(2)] sem_cong_store [OF r(2)]\<close>)
      ultimately have "meets m f g (\<lambda>env. sem m env r) \<and> delivered ext m (\<lambda>env. sem m env r) (cuddBddIntersectRecur f g m)"
        apply (subst cuddBddIntersectRecur.simps)
        apply (simp only: Let_def fg [symmetric] rec if_False r(1) False Option.bind.bind_lunit prod.case simp_thms if_True)
        done
      then show ?thesis by (intro exI [of _ "\<lambda>env. sem m env r"])
    next
      case True
      then have k1: "mgr_ok ext {} m1" using r(4) edges_nonnull [OF s] by auto
      note c = store_cong [OF r(2)] and s1 = mgr_okD(5) [OF k1]
      note hm = held_keep(1) [OF _ ok r(3) s1]
      have t1: "Cudd_Regular f' \<in> tabnodes m1" "Cudd_Regular g' \<in> tabnodes m1" using t by (simp_all add: c)
      obtain nF nG where n: "heap m1 (Cudd_Regular f') = Some nF" "heap m1 (Cudd_Regular g') = Some nG"
        using held_node [OF hm [OF h(1)] k1] held_node [OF hm [OF h(2)] k1] by metis
      have z: "Cudd_Not ?one = Cudd_Not (DD_ONE m1)" using orderD(4) [OF keepD(3) [OF r(3)]] by simp
      have rc: "\<exists>P. meets m' a b P \<and> delivered ext' m' P (cuddBddIntersectRecur a b m')"
        if "mgr_ok ext' {} m'" "held ext' m' a" "held ext' m' b"
          "dsize m' - min (elev m' a) (elev m' b) < dsize m1 - min (elev m1 f') (elev m1 g')" for a b ext' m'
        using less.hyps [OF _ that(1-3)] that(4) l by (simp add: c)
      from meet_general_ok [OF k1 hm [OF h(1)] hm [OF h(2)] t1 rc n z]
      obtain P where P: "meets m1 f' g' P" "delivered ext m1 P
        (nth_opt (perm m1) (unat (index nF)) \<bind> (\<lambda>topf. nth_opt (perm m1) (unat (index nG)) \<bind> (\<lambda>topg.
         cofactors f' nF (topf \<le> topg) \<bind> (\<lambda>(fv, fnv). cofactors g' nG (topg \<le> topf) \<bind> (\<lambda>(gv, gnv).
         cuddBddIntersectRecur fv gv m1 \<bind> (\<lambda>(t, m1). if t = NULL then Some (NULL, m1)
        else cuddRef t m1 \<bind> (\<lambda>m1. (if t \<noteq> Cudd_Not ?one then Some (Cudd_Not ?one, m1) else cuddBddIntersectRecur fnv gnv m1) \<bind> (\<lambda>(e, m1).
          if e = NULL then Cudd_IterDerefBdd t m1 \<bind> (\<lambda>m1. Some (NULL, m1))
          else cuddRef e m1 \<bind> (\<lambda>m1. combine (if topf \<le> topg then index nF else index nG) t e m1 \<bind>
            (\<lambda>(r, m1). if r = NULL then Some (NULL, m1)
            else cuddDeref e m1 \<bind> (\<lambda>m1. cuddDeref t m1 \<bind> (\<lambda>m1.
              cuddCacheInsert2 fp_Cudd_bddIntersect f' g' r m1 \<bind> (\<lambda>m1. Some (r, m1))))))))))))))"
        by blast
      have "delivered ext m P (cuddBddIntersectRecur f g m)"
        using delivered_step [OF P(2) r(3) s]
        apply (subst cuddBddIntersectRecur.simps)
        apply (simp only: Let_def fg [symmetric] rec if_False r(1) True n Option.bind.bind_lunit prod.case simp_thms)
        done
      moreover have "meets m f g P" using P(1) sw by (simp add: meets_store [OF r(2)])
      ultimately show ?thesis by blast
    qed
  qed
qed

lemma Cudd_bddIntersect_answered:
  assumes "mgr_ok ext {} m" "held ext m f" "held ext m g"
  shows "\<exists>P. meets m f g P \<and> answered ext m P (Cudd_bddIntersect f g m)"
proof -
  let ?m = "m\<lparr>reordered := 0\<rparr>"
  note st = reordered_ok(1) [of 0 m]
  obtain P where P: "meets ?m f g P" "delivered ext ?m P (cuddBddIntersectRecur f g ?m)"
    using cuddBddIntersectRecur_ok [of ext ?m f g] assms by (auto simp: reordered_ok(3) held_store [OF st])
  then obtain r m' where r: "cuddBddIntersectRecur f g ?m = Some (r, m')" "keep (set_mset ext) ?m m'"
    unfolding delivered_def by blast
  have "reordered m' = 0" using keepD(4) [OF r(2)] by simp
  then have "Cudd_bddIntersect f g m = cuddBddIntersectRecur f g ?m"
    unfolding Cudd_bddIntersect_def by (subst retry_reordered.simps) (simp add: r(1))
  then show ?thesis using P by (auto simp: answered_def meets_store [OF st])
qed

end
