(* ===== verification/CuddBddAbs.thy ===== *)
theory CuddBddAbs
  imports CuddBddIte
begin

text \<open>
  Quantification of diagrams: \<open>lib/SVF/CUDD/cuddBddAbs.c\<close> and \<open>lib/SVF/CUDD/cuddAndAbs.c\<close>.
  The variables to abstract are given as a cube, the conjunction of their positive literals,
  which is a chain of then children. The Boolean difference and the test for dependence, for
  one variable, are in the same file of the code.
\<close>

subsection \<open>Cubes\<close>

text \<open>The check of the exported functions.\<close>

partial_function (option) bddCheckPositiveCube :: "ptr \<Rightarrow> DdManager \<Rightarrow> bool option" where
  "bddCheckPositiveCube cube manager =
     (if Cudd_IsComplement cube then Some False
      else if cube = DD_ONE manager then Some True
      else do {
        n \<leftarrow> heap manager cube;
        if cuddIsConstant n then Some False else do {
          E \<leftarrow> cuddE n;
          if E = Cudd_Not (DD_ONE manager) then do {
            T \<leftarrow> cuddT n;
            bddCheckPositiveCube T manager }
          else Some False } })"

text \<open>The loop over the variables of the cube above a level; \<open>DD_ONE\<close> when none is left.\<close>

partial_function (option) skip_above :: "nat \<Rightarrow> ptr \<Rightarrow> DdManager \<Rightarrow> ptr option" where
  "skip_above ltop cube manager = do {
     n \<leftarrow> heap manager cube;
     topcube \<leftarrow> nth_opt (perm manager) (unat (index n));
     if topcube < ltop then do {
       T \<leftarrow> cuddT n;
       if T = DD_ONE manager then Some T else skip_above ltop T manager }
     else Some cube }"

subsection \<open>Parts the procedures share\<close>

text \<open>
  The disjunction of two referenced results, as the complement of the conjunction of their
  complements; \<open>release\<close> gives them back once the new result is referenced.
\<close>

definition disjoin ::
    "(ptr \<Rightarrow> DdManager \<Rightarrow> DdManager option) \<Rightarrow> ptr \<Rightarrow> ptr \<Rightarrow> DdManager \<Rightarrow> ptr result" where
  "disjoin release res1 res2 manager = do {
     (res, manager) \<leftarrow> cuddBddAndRecur (Cudd_Not res1) (Cudd_Not res2) manager;
     if res = NULL then deref_both res1 res2 manager
     else do {
       let res = Cudd_Not res;
       manager \<leftarrow> cuddRef res manager;
       manager \<leftarrow> release res1 manager;
       manager \<leftarrow> release res2 manager;
       Some (res, manager) } }"

text \<open>The two results below a variable, put together by if-then-else on the variable.\<close>

definition ite_var :: "DdHalfWord \<Rightarrow> ptr \<Rightarrow> ptr \<Rightarrow> DdManager \<Rightarrow> ptr result" where
  "ite_var idx res1 res2 manager = do {
     v \<leftarrow> nth_opt (vars manager) (unat idx);
     (res, manager) \<leftarrow> cuddBddIteRecur v res1 res2 manager;
     if res = NULL then deref_both res1 res2 manager
     else do {
       manager \<leftarrow> cuddDeref res1 manager;
       manager \<leftarrow> cuddDeref res2 manager;
       Some (res, manager) } }"

text \<open>An entry of the computed table is only made for an operand that others refer to too.\<close>

definition insert_shared2 :: "ptr \<Rightarrow> ptr \<Rightarrow> ptr \<Rightarrow> ptr \<Rightarrow> DdManager \<Rightarrow> DdManager option" where
  "insert_shared2 opr f cube res manager = do {
     nF \<leftarrow> heap manager (Cudd_Regular f);
     if ref nF \<noteq> 1 then cuddCacheInsert2 opr f cube res manager else Some manager }"

definition insert_shared3 :: "ptr \<Rightarrow> ptr \<Rightarrow> ptr \<Rightarrow> ptr \<Rightarrow> ptr \<Rightarrow> DdManager \<Rightarrow> DdManager option" where
  "insert_shared3 opr f g cube res manager = do {
     nF \<leftarrow> heap manager (Cudd_Regular f);
     nG \<leftarrow> heap manager (Cudd_Regular g);
     if ref nF \<noteq> 1 \<or> ref nG \<noteq> 1 then cuddCacheInsert opr f g cube res manager else Some manager }"

subsection \<open>Existential abstraction\<close>

partial_function (option) cuddBddExistAbstractRecur :: "ptr \<Rightarrow> ptr \<Rightarrow> DdManager \<Rightarrow> ptr result" where
  "cuddBddExistAbstractRecur f cube manager = (
     let one = DD_ONE manager; F = Cudd_Regular f in
     if cube = one \<or> F = one then Some (f, manager)
     else do {
       nF \<leftarrow> heap manager F;
       topf \<leftarrow> nth_opt (perm manager) (unat (index nF));
       cube \<leftarrow> skip_above topf cube manager;
       if cube = one then Some (f, manager) else do {
       (res, manager) \<leftarrow> (if ref nF \<noteq> 1
         then cuddCacheLookup2 fp_Cudd_bddExistAbstract f cube manager else Some (NULL, manager));
       if res \<noteq> NULL then Some (res, manager) else do {
         nC \<leftarrow> heap manager cube;
         (T, E) \<leftarrow> cofactors f nF True;
         if index nF = index nC then
           if T = one \<or> E = one \<or> T = Cudd_Not E then Some (one, manager)
           else do {
             rest \<leftarrow> cuddT nC;
             (res1, manager) \<leftarrow> cuddBddExistAbstractRecur T rest manager;
             if res1 = NULL then Some (NULL, manager)
             else if res1 = one then do {
               manager \<leftarrow> insert_shared2 fp_Cudd_bddExistAbstract f cube one manager;
               Some (one, manager) }
             else do {
               manager \<leftarrow> cuddRef res1 manager;
               (res2, manager) \<leftarrow> cuddBddExistAbstractRecur E rest manager;
               if res2 = NULL then do {
                 manager \<leftarrow> Cudd_IterDerefBdd res1 manager;
                 Some (NULL, manager) }
               else do {
                 manager \<leftarrow> cuddRef res2 manager;
                 (res, manager) \<leftarrow> disjoin Cudd_IterDerefBdd res1 res2 manager;
                 if res = NULL then Some (NULL, manager) else do {
                   manager \<leftarrow> insert_shared2 fp_Cudd_bddExistAbstract f cube res manager;
                   manager \<leftarrow> cuddDeref res manager;
                   Some (res, manager) } } } }
         else do {
           (res1, manager) \<leftarrow> cuddBddExistAbstractRecur T cube manager;
           if res1 = NULL then Some (NULL, manager) else do {
             manager \<leftarrow> cuddRef res1 manager;
             (res2, manager) \<leftarrow> cuddBddExistAbstractRecur E cube manager;
             if res2 = NULL then do {
               manager \<leftarrow> Cudd_IterDerefBdd res1 manager;
               Some (NULL, manager) }
             else do {
               manager \<leftarrow> cuddRef res2 manager;
               (res, manager) \<leftarrow> ite_var (index nF) res1 res2 manager;
               if res = NULL then Some (NULL, manager) else do {
                 manager \<leftarrow> insert_shared2 fp_Cudd_bddExistAbstract f cube res manager;
                 Some (res, manager) } } } } } } })"

text \<open>The exported functions refuse what is not a positive cube.\<close>

definition on_cube :: "ptr \<Rightarrow> (DdManager \<Rightarrow> ptr result) \<Rightarrow> DdManager \<Rightarrow> ptr result" where
  "on_cube cube body manager = do {
     ok \<leftarrow> bddCheckPositiveCube cube manager;
     if \<not> ok then Some (NULL, manager\<lparr>errorCode := CUDD_INVALID_ARG\<rparr>) else body manager }"

definition Cudd_bddExistAbstract :: "ptr \<Rightarrow> ptr \<Rightarrow> DdManager \<Rightarrow> ptr result" where
  "Cudd_bddExistAbstract f cube = on_cube cube (retry_reordered (cuddBddExistAbstractRecur f cube))"

definition Cudd_bddExistAbstractLimit :: "ptr \<Rightarrow> ptr \<Rightarrow> uint32 \<Rightarrow> DdManager \<Rightarrow> ptr result" where
  "Cudd_bddExistAbstractLimit f cube limit =
     on_cube cube (with_limit limit (cuddBddExistAbstractRecur f cube))"

definition Cudd_bddUnivAbstract :: "ptr \<Rightarrow> ptr \<Rightarrow> DdManager \<Rightarrow> ptr result" where
  "Cudd_bddUnivAbstract f cube =
     on_cube cube (\<lambda>manager. not_result (retry_reordered (cuddBddExistAbstractRecur (Cudd_Not f) cube) manager))"

subsection \<open>Conjunction and abstraction at once\<close>

partial_function (option) cuddBddAndAbstractRecur :: "ptr \<Rightarrow> ptr \<Rightarrow> ptr \<Rightarrow> DdManager \<Rightarrow> ptr result" where
  "cuddBddAndAbstractRecur f g cube manager = (
     let one = DD_ONE manager; zero = Cudd_Not one in
     if f = zero \<or> g = zero \<or> f = Cudd_Not g then Some (zero, manager)
     else if f = one \<and> g = one then Some (one, manager)
     else if cube = one then cuddBddAndRecur f g manager
     else if f = one \<or> f = g then cuddBddExistAbstractRecur g cube manager
     else if g = one then cuddBddExistAbstractRecur f cube manager
     else let f0 = f; f = (if f > g then g else f); g = (if f0 > g then f0 else g);
              F = Cudd_Regular f; G = Cudd_Regular g in do {
       nF \<leftarrow> heap manager F;
       nG \<leftarrow> heap manager G;
       topf \<leftarrow> nth_opt (perm manager) (unat (index nF));
       topg \<leftarrow> nth_opt (perm manager) (unat (index nG));
       let ltop = ddMin topf topg;
       cube \<leftarrow> skip_above ltop cube manager;
       if cube = one then cuddBddAndRecur f g manager else do {
       (r, manager) \<leftarrow> (if ref nF \<noteq> 1 \<or> ref nG \<noteq> 1
         then cuddCacheLookup DD_BDD_AND_ABSTRACT_TAG f g cube manager else Some (NULL, manager));
       if r \<noteq> NULL then Some (r, manager) else do {
         nC \<leftarrow> heap manager cube;
         topcube \<leftarrow> nth_opt (perm manager) (unat (index nC));
         let idx = (if topf = ltop then index nF else index nG);
         (ft, fe) \<leftarrow> cofactors f nF (topf = ltop);
         (gt, ge) \<leftarrow> cofactors g nG (topg = ltop);
         if topcube = ltop then do {
           rest \<leftarrow> cuddT nC;
           (t, manager) \<leftarrow> cuddBddAndAbstractRecur ft gt rest manager;
           if t = NULL then Some (NULL, manager)
           else if t = one \<or> t = fe \<or> t = ge then do {
             manager \<leftarrow> insert_shared3 DD_BDD_AND_ABSTRACT_TAG f g cube t manager;
             Some (t, manager) }
           else do {
             manager \<leftarrow> cuddRef t manager;
             (e, manager) \<leftarrow> (if t = Cudd_Not fe then cuddBddExistAbstractRecur ge rest manager
               else if t = Cudd_Not ge then cuddBddExistAbstractRecur fe rest manager
               else cuddBddAndAbstractRecur fe ge rest manager);
             if e = NULL then do {
               manager \<leftarrow> Cudd_IterDerefBdd t manager;
               Some (NULL, manager) }
             else do {
               (r, manager) \<leftarrow> (if t = e then do {
                   manager \<leftarrow> cuddDeref t manager;
                   Some (t, manager) }
                 else do {
                   manager \<leftarrow> cuddRef e manager;
                   (r, manager) \<leftarrow> disjoin Cudd_DelayedDerefBdd t e manager;
                   if r = NULL then Some (NULL, manager) else do {
                     manager \<leftarrow> cuddDeref r manager;
                     Some (r, manager) } });
               if r = NULL then Some (NULL, manager) else do {
                 manager \<leftarrow> insert_shared3 DD_BDD_AND_ABSTRACT_TAG f g cube r manager;
                 Some (r, manager) } } } }
         else do {
           (t, manager) \<leftarrow> cuddBddAndAbstractRecur ft gt cube manager;
           if t = NULL then Some (NULL, manager) else do {
             manager \<leftarrow> cuddRef t manager;
             (e, manager) \<leftarrow> cuddBddAndAbstractRecur fe ge cube manager;
             if e = NULL then do {
               manager \<leftarrow> Cudd_IterDerefBdd t manager;
               Some (NULL, manager) }
             else do {
               (r, manager) \<leftarrow> (if t = e then do {
                   manager \<leftarrow> cuddDeref t manager;
                   Some (t, manager) }
                 else do {
                   manager \<leftarrow> cuddRef e manager;
                   (r, manager) \<leftarrow> combine idx t e manager;
                   if r = NULL then Some (NULL, manager) else do {
                     manager \<leftarrow> cuddDeref e manager;
                     manager \<leftarrow> cuddDeref t manager;
                     Some (r, manager) } });
               if r = NULL then Some (NULL, manager) else do {
                 manager \<leftarrow> insert_shared3 DD_BDD_AND_ABSTRACT_TAG f g cube r manager;
                 Some (r, manager) } } } } } } })"

definition Cudd_bddAndAbstract :: "ptr \<Rightarrow> ptr \<Rightarrow> ptr \<Rightarrow> DdManager \<Rightarrow> ptr result" where
  "Cudd_bddAndAbstract f g cube = retry_reordered (cuddBddAndAbstractRecur f g cube)"

definition Cudd_bddAndAbstractLimit :: "ptr \<Rightarrow> ptr \<Rightarrow> ptr \<Rightarrow> uint32 \<Rightarrow> DdManager \<Rightarrow> ptr result" where
  "Cudd_bddAndAbstractLimit f g cube limit = with_limit limit (cuddBddAndAbstractRecur f g cube)"

subsection \<open>Exclusive or and abstraction at once\<close>

partial_function (option) cuddBddXorExistAbstractRecur ::
    "ptr \<Rightarrow> ptr \<Rightarrow> ptr \<Rightarrow> DdManager \<Rightarrow> ptr result" where
  "cuddBddXorExistAbstractRecur f g cube manager = (
     let one = DD_ONE manager; zero = Cudd_Not one in
     if f = g then Some (zero, manager)
     else if f = Cudd_Not g then Some (one, manager)
     else if cube = one then cuddBddXorRecur f g manager
     else if f = one then cuddBddExistAbstractRecur (Cudd_Not g) cube manager
     else if g = one then cuddBddExistAbstractRecur (Cudd_Not f) cube manager
     else if f = zero then cuddBddExistAbstractRecur g cube manager
     else if g = zero then cuddBddExistAbstractRecur f cube manager
     else let f0 = f; f = (if f > g then g else f); g = (if f0 > g then f0 else g) in do {
       (r, manager) \<leftarrow> cuddCacheLookup DD_BDD_XOR_EXIST_ABSTRACT_TAG f g cube manager;
       if r \<noteq> NULL then Some (r, manager) else do {
         nF \<leftarrow> heap manager (Cudd_Regular f);
         topf \<leftarrow> nth_opt (perm manager) (unat (index nF));
         nG \<leftarrow> heap manager (Cudd_Regular g);
         topg \<leftarrow> nth_opt (perm manager) (unat (index nG));
         let ltop = ddMin topf topg;
         nC \<leftarrow> heap manager cube;
         topcube \<leftarrow> nth_opt (perm manager) (unat (index nC));
         if topcube < ltop then do {
           rest \<leftarrow> cuddT nC;
           cuddBddXorExistAbstractRecur f g rest manager }
         else do {
           let idx = (if topf = ltop then index nF else index nG);
           (fv, fnv) \<leftarrow> cofactors f nF (topf = ltop);
           (gv, gnv) \<leftarrow> cofactors g nG (topg = ltop);
           Cube \<leftarrow> (if topcube = ltop then cuddT nC else Some cube);
           (t, manager) \<leftarrow> cuddBddXorExistAbstractRecur fv gv Cube manager;
           if t = NULL then Some (NULL, manager)
           else if t = one \<and> topcube = ltop then do {
             manager \<leftarrow> cuddCacheInsert DD_BDD_XOR_EXIST_ABSTRACT_TAG f g cube one manager;
             Some (one, manager) }
           else do {
             manager \<leftarrow> cuddRef t manager;
             (e, manager) \<leftarrow> cuddBddXorExistAbstractRecur fnv gnv Cube manager;
             if e = NULL then do {
               manager \<leftarrow> Cudd_IterDerefBdd t manager;
               Some (NULL, manager) }
             else do {
               manager \<leftarrow> cuddRef e manager;
               (r, manager) \<leftarrow> (if topcube = ltop then do {
                   (r, manager) \<leftarrow> disjoin Cudd_IterDerefBdd t e manager;
                   if r = NULL then Some (NULL, manager) else do {
                     manager \<leftarrow> cuddDeref r manager;
                     Some (r, manager) } }
                 else do {
                   (r, manager) \<leftarrow> combine idx t e manager;
                   if r = NULL then Some (NULL, manager) else do {
                     manager \<leftarrow> cuddDeref e manager;
                     manager \<leftarrow> cuddDeref t manager;
                     Some (r, manager) } });
               if r = NULL then Some (NULL, manager) else do {
                 manager \<leftarrow> cuddCacheInsert DD_BDD_XOR_EXIST_ABSTRACT_TAG f g cube r manager;
                 Some (r, manager) } } } } } })"

definition Cudd_bddXorExistAbstract :: "ptr \<Rightarrow> ptr \<Rightarrow> ptr \<Rightarrow> DdManager \<Rightarrow> ptr result" where
  "Cudd_bddXorExistAbstract f g cube =
     on_cube cube (retry_reordered (cuddBddXorExistAbstractRecur f g cube))"

subsection \<open>The Boolean difference\<close>

partial_function (option) cuddBddBooleanDiffRecur :: "ptr \<Rightarrow> ptr \<Rightarrow> DdManager \<Rightarrow> ptr result" where
  "cuddBddBooleanDiffRecur f var manager = do {
     nF \<leftarrow> heap manager f;
     nV \<leftarrow> heap manager var;
     topf \<leftarrow> cuddI manager (index nF);
     level \<leftarrow> nth_opt (perm manager) (unat (index nV));
     if topf > level then Some (Cudd_Not (DD_ONE manager), manager)
     else do {
       T \<leftarrow> cuddT nF;
       E \<leftarrow> cuddE nF;
       if index nF = index nV then cuddBddXorRecur T E manager
       else do {
         (res, manager) \<leftarrow> cuddCacheLookup2 fp_cuddBddBooleanDiffRecur f var manager;
         if res \<noteq> NULL then Some (res, manager) else do {
           (res1, manager) \<leftarrow> cuddBddBooleanDiffRecur T var manager;
           if res1 = NULL then Some (NULL, manager) else do {
             manager \<leftarrow> cuddRef res1 manager;
             (res2, manager) \<leftarrow> cuddBddBooleanDiffRecur (Cudd_Regular E) var manager;
             if res2 = NULL then do {
               manager \<leftarrow> Cudd_IterDerefBdd res1 manager;
               Some (NULL, manager) }
             else do {
               manager \<leftarrow> cuddRef res2 manager;
               (res, manager) \<leftarrow> ite_var (index nF) res1 res2 manager;
               if res = NULL then Some (NULL, manager) else do {
                 manager \<leftarrow> cuddCacheInsert2 fp_cuddBddBooleanDiffRecur f var res manager;
                 Some (res, manager) } } } } } } }"

definition Cudd_bddBooleanDiff :: "ptr \<Rightarrow> nat \<Rightarrow> DdManager \<Rightarrow> ptr result" where
  "Cudd_bddBooleanDiff f x manager =
     (if x \<ge> dsize manager then Some (Cudd_Not (DD_ONE manager), manager)
      else do {
        var \<leftarrow> nth_opt (vars manager) x;
        retry_reordered (cuddBddBooleanDiffRecur (Cudd_Regular f) var) manager })"

subsection \<open>Dependence of a variable\<close>

partial_function (option) Cudd_bddVarIsDependent :: "ptr \<Rightarrow> ptr \<Rightarrow> DdManager \<Rightarrow> bool result" where
  "Cudd_bddVarIsDependent f var dd = (
     let zero = Cudd_Not (DD_ONE dd); F = Cudd_Regular f in do {
     nF \<leftarrow> heap dd F;
     if cuddIsConstant nF then Some (f = zero, dd) else do {
       topf \<leftarrow> nth_opt (perm dd) (unat (index nF));
       nV \<leftarrow> heap dd var;
       level \<leftarrow> nth_opt (perm dd) (unat (index nV));
       if topf > level then Some (False, dd) else do {
         (res, dd) \<leftarrow> cuddCacheLookup2 fp_Cudd_bddVarIsDependent f var dd;
         if res \<noteq> NULL then Some (res \<noteq> zero, dd) else do {
           (ft, fe) \<leftarrow> cofactors f nF True;
           (retval, dd) \<leftarrow> (if topf = level then Cudd_bddLeq ft (Cudd_Not fe) dd
             else do {
               (dep, dd) \<leftarrow> Cudd_bddVarIsDependent ft var dd;
               if dep then Cudd_bddVarIsDependent fe var dd else Some (False, dd) });
           dd \<leftarrow> cuddCacheInsert2 fp_Cudd_bddVarIsDependent f var (Cudd_NotCond zero retval) dd;
           Some (retval, dd) } } } })"

end
