(* ===== verification/CuddQuant.thy ===== *)
theory CuddQuant
  imports CuddLeq CuddBddAbs CuddResize
begin

text \<open>
  Correctness of quantification. A cube of the code stands for a set of variables; a
  procedure that gets it delivers the function with these variables abstracted.
\<close>

subsection \<open>Abstraction of functions\<close>

lemma quantify_empty [simp]: "quantify {} P env = P env"
proof -
  have "env' = env" if "\<forall>i. env' i = env i" for env' using that by blast
  then show ?thesis by (auto simp: quantify_def)
qed

lemma quantify_const [simp]: "quantify S (\<lambda>_. c) env = c"
  by (auto simp: quantify_def)

lemma quantify_self: "P env \<Longrightarrow> quantify S P env"
  by (auto simp: quantify_def)

lemma quantify_or: "quantify S (\<lambda>env. P env \<or> Q env) env = (quantify S P env \<or> quantify S Q env)"
  by (auto simp: quantify_def)

lemma quantify_twice: "quantify S (quantify S' P) env = quantify (S \<union> S') P env"
proof
  assume "quantify S (quantify S' P) env"
  then show "quantify (S \<union> S') P env" unfolding quantify_def by (metis Un_iff)
next
  assume "quantify (S \<union> S') P env"
  then obtain e where e: "\<And>i. i \<notin> S \<union> S' \<Longrightarrow> e i = env i" "P e" by (auto simp: quantify_def)
  let ?e = "\<lambda>i. if i \<in> S then e i else env i"
  have "quantify S' P ?e"
    unfolding quantify_def using e by (intro exI [of _ e]) auto
  then show "quantify S (quantify S' P) env"
    unfolding quantify_def by (intro exI [of _ ?e]) (simp add: quantify_def)
qed

lemma quantify_subset: "S \<subseteq> S' \<Longrightarrow> quantify S' (quantify S P) env = quantify S' P env"
  by (simp add: quantify_twice sup_absorb1)

lemma quantify_var:
  assumes "\<And>env b. A (env(i := b)) = A env" "\<And>env b. B (env(i := b)) = B env"
  shows "quantify {i} (\<lambda>env. if env i then A env else B env) env = (A env \<or> B env)"
proof -
  have "env' = env(i := env' i)" if "\<forall>j. j \<notin> {i} \<longrightarrow> env' j = env j" for env'
    using that by (auto simp: fun_eq_iff)
  moreover have "\<forall>j. j \<notin> {i} \<longrightarrow> (env(i := b)) j = env j" for b by simp
  ultimately show ?thesis unfolding quantify_def using assms by (metis fun_upd_same)
qed

lemma quantify_split:
  assumes "i \<notin> S" "\<And>env b. A (env(i := b)) = A env" "\<And>env b. B (env(i := b)) = B env"
  shows "quantify (insert i S) (\<lambda>env. if env i then A env else B env) env = (quantify S A env \<or> quantify S B env)"
proof -
  have "quantify (insert i S) (\<lambda>env. if env i then A env else B env) env
    = quantify S (quantify {i} (\<lambda>env. if env i then A env else B env)) env" by (simp add: quantify_twice)
  also have "quantify {i} (\<lambda>env. if env i then A env else B env) = (\<lambda>env. A env \<or> B env)"
    by (rule ext) (rule quantify_var [OF assms(2,3)])
  finally show ?thesis by (simp add: quantify_or)
qed

lemma quantify_if:
  assumes "i \<notin> S"
  shows "quantify S (\<lambda>env. if env i then A env else B env) env = (if env i then quantify S A env else quantify S B env)"
  using assms by (auto simp: quantify_def)

lemma quantify_upd:
  assumes "\<And>env b. P (env(j := b)) = P env"
  shows "quantify S P (env(j := b)) = quantify S P env"
proof -
  have "quantify S P (e(j := b))" if q: "quantify S P e" for e b
  proof -
    obtain e' where e': "\<And>i. i \<notin> S \<Longrightarrow> e' i = e i" "P e'" using q by (auto simp: quantify_def)
    show ?thesis
    proof (cases "j \<in> S")
      case True
      then show ?thesis unfolding quantify_def using e' by (intro exI [of _ e']) auto
    next
      case False
      then show ?thesis unfolding quantify_def using e' assms by (intro exI [of _ "e'(j := b)"]) auto
    qed
  qed
  note r = this
  have "env = (env(j := b))(j := env j)" by simp
  then show ?thesis using r [of env b] r [of "env(j := b)" "env j"] by (metis fun_upd_triv fun_upd_upd)
qed

text \<open>Variables the function does not depend on.\<close>

lemma quantify_drop:
  assumes "S' \<subseteq> S" "finite S" "\<And>i env b. i \<in> S - S' \<Longrightarrow> P (env(i := b)) = P env"
  shows "quantify S P env = quantify S' P env"
proof -
  have q: "quantify D P env = P env" if "finite D" "D \<subseteq> S - S'" for D env
    using that
  proof (induction D arbitrary: env)
    case (insert i D)
    have "quantify (insert i D) P env = quantify {i} (quantify D P) env" by (simp add: quantify_twice)
    also have "\<dots> = quantify {i} (\<lambda>env. if env i then P env else P env) env"
      using insert by (simp add: quantify_def)
    also have "\<dots> = P env"
      using quantify_var [of P i P env] assms(3) [of i] insert.prems by simp
    finally show ?case .
  qed simp
  have "quantify S P env = quantify S' (quantify (S - S') P) env"
    using assms(1) by (simp add: quantify_twice sup_absorb2)
  also have "quantify (S - S') P = P" using q assms(2) by (auto simp: fun_eq_iff)
  finally show ?thesis .
qed

lemma quantify_indep:
  assumes "indep m l P"
  shows "indep m l (quantify S P)"
  using quantify_upd [of P] assms by (simp add: indep_def)

subsection \<open>Cubes\<close>

inductive cube :: "DdManager \<Rightarrow> ptr \<Rightarrow> nat set \<Rightarrow> bool" for m where
  cube_one: "cube m (DD_ONE m) {}"
| cube_node: "c \<in> tabnodes m \<Longrightarrow> kE m c = Cudd_Not (DD_ONE m) \<Longrightarrow> cube m (kT m c) S \<Longrightarrow>
    cube m c (insert (nidx m c) S)"

inductive_cases cubeE: "cube m c S"

lemma cube_facts:
  assumes "store_ok m" "cube m c S"
  shows "c \<in> nodes m \<and> finite S \<and> cube_of m c S \<and> (\<forall>i \<in> S. i < dsize m \<and> lev m c \<le> perm m ! i)"
  using assms(2)
proof induction
  case cube_one
  then show ?case using sem_one [OF assms(1)] by (simp add: cube_of_def nodes_def)
next
  case (cube_node c S)
  note t = tabnode [OF assms(1) cube_node.hyps(1)] and d = nodeD [OF assms(1) cube_node.hyps(1)]
  have "lev m c \<le> perm m ! i" if "i \<in> S" for i using d(7) cube_node.IH that by fastforce
  then show ?case
    using cube_node t d sem_node [OF assms(1) cube_node.hyps(1)] sem_one [OF assms(1)]
    by (auto simp: cube_of_def nodes_def)
qed

lemma cube_of_unique:
  assumes "cube_of m c S" "cube_of m c S'"
  shows "S = S'"
proof -
  have "(\<forall>i \<in> S. env i) = (\<forall>i \<in> S'. env i)" for env
    using assms unfolding cube_of_def by blast
  from this [of "\<lambda>i. i \<in> S"] this [of "\<lambda>i. i \<in> S'"] show ?thesis by auto
qed

lemma cube_rest:
  assumes "cube m c S" "c \<noteq> DD_ONE m" "store_ok m"
  obtains S' where "c \<in> tabnodes m" "S = insert (nidx m c) S'" "nidx m c \<notin> S'" "cube m (kT m c) S'"
    "kE m c = Cudd_Not (DD_ONE m)" "\<And>i. i \<in> S' \<Longrightarrow> lev m c < perm m ! i"
proof -
  from assms(1,2) obtain S' where s: "c \<in> tabnodes m" "S = insert (nidx m c) S'" "cube m (kT m c) S'"
    "kE m c = Cudd_Not (DD_ONE m)" by (cases rule: cube.cases) auto
  have l: "lev m c < perm m ! i" if "i \<in> S'" for i
    using cube_facts [OF assms(3) s(3)] nodeD(7) [OF assms(3) s(1)] that by fastforce
  then have "nidx m c \<notin> S'" using tabnode(3) [OF assms(3) s(1)] by fastforce
  then show thesis using that s l by blast
qed

lemma cube_keep:
  assumes "cube m c S" "held ext m c" "mgr_ok ext F m" "keep (set_mset ext) m m'"
  shows "cube m' c S"
  using assms(1,2)
proof induction
  case cube_one
  then show ?case using cube.cube_one [of m'] orderD(4) [OF keepD(3) [OF assms(4)]] by simp
next
  case (cube_node c S)
  note s = mgr_okD(5) [OF assms(3)]
  have r: "Cudd_Regular c = c" using nodeD(9) [OF s cube_node.hyps(1)] by simp
  have c: "c \<in> reach m (set_mset ext)" using cube_node.prems r by (simp add: held_def)
  have "held ext m (kT m c)" using held_kids(1) [OF cube_node.prems _ s] r cube_node.hyps(1) by simp
  then have "cube m' (kT m' c) S" using cube_node.IH keepD(5) [OF assms(4) c] by simp
  moreover have "kE m' c = Cudd_Not (DD_ONE m')"
    using cube_node.hyps(2) keepD(6) [OF assms(4) c] orderD(4) [OF keepD(3) [OF assms(4)]] by simp
  ultimately show ?case
    using cube.cube_node [of c m' S] keep_tab [OF assms(4) c cube_node.hyps(1) s] keepD(7) [OF assms(4) c] by simp
qed

lemma cube_store:
  assumes "store m' = store m" "cube m c S"
  shows "cube m' c S"
  using assms(2)
proof induction
  case cube_one
  then show ?case using cube.cube_one [of m'] by (simp add: store_cong [OF assms(1)])
next
  case (cube_node c S)
  then show ?case using cube.cube_node [of c m' S] by (simp add: store_cong [OF assms(1)])
qed

text \<open>The check recognises the cubes.\<close>

lemma node_fields:
  assumes "store_ok m" "p \<in> tabnodes m"
  obtains n where "heap m p = Some n" "\<not> cuddIsConstant n" "cuddT n = Some (kT m p)" "cuddE n = Some (kE m p)"
    "unat (index n) = nidx m p" "nth_opt (perm m) (unat (index n)) = Some (lev m p)" "cont m p = Some (index n, type n)"
proof -
  obtain i where i: "cont m p = Some (i, Kids (kT m p) (kE m p))" "i \<noteq> CUDD_CONST_INDEX" "unat i = nidx m p"
    using tabnode(1) [OF assms] by blast
  then obtain n where n: "heap m p = Some n" "index n = i" "type n = Kids (kT m p) (kE m p)" by (auto simp: cont_def)
  have "nth_opt (perm m) (nidx m p) = Some (lev m p)"
    using tabnode(2,3) [OF assms] order_okD(2) [OF assms(1)] by (simp add: nth_opt_def)
  with n i show thesis by (intro that [of n]) (simp_all add: cuddIsConstant_def cuddT_def cuddE_def)
qed

lemma bddCheckPositiveCube_ok:
  assumes "store_ok m" "c \<in> edges m"
  shows "bddCheckPositiveCube c m = Some (\<exists>S. cube m c S)"
  using assms(2)
proof (induction "dsize m - elev m c" arbitrary: c rule: less_induct)
  case less
  consider (compl) "Cudd_IsComplement c" | (one) "c = DD_ONE m"
    | (node) "\<not> Cudd_IsComplement c" "c \<noteq> DD_ONE m" by blast
  then show ?case
  proof cases
    case compl
    then have "\<nexists>S. cube m c S" using cube_facts [OF assms(1)] nodes_regular [OF assms(1)] by blast
    then show ?thesis using compl by (subst bddCheckPositiveCube.simps) simp
  next
    case one
    then show ?thesis using cube_one oneD(3) [OF assms(1)] by (subst bddCheckPositiveCube.simps) auto
  next
    case node
    have t: "c \<in> tabnodes m" using less.prems node by (auto simp: edges_def nodes_def)
    obtain n where n: "heap m c = Some n" "\<not> cuddIsConstant n" "cuddT n = Some (kT m c)" "cuddE n = Some (kE m c)"
      using node_fields [OF assms(1) t] by metis
    note d = nodeD [OF assms(1) t]
    have "elev m c = lev m c" using d(9) by (simp add: elev_def)
    then have "dsize m - elev m (kT m c) < dsize m - elev m c" using d(12) tabnode(4) [OF assms(1) t] by simp
    note ih = less.hyps [OF this d(10)]
    have "(\<exists>S. cube m c S) \<longleftrightarrow> kE m c = Cudd_Not (DD_ONE m) \<and> (\<exists>S. cube m (kT m c) S)"
      using t cube_node [of c m] cube_rest [OF _ node(2) assms(1)] by metis
    then show ?thesis using node n ih by (subst bddCheckPositiveCube.simps) simp
  qed
qed

text \<open>The part of a cube that is not above a level.\<close>

lemma skip_above_ok:
  assumes "cube m c S" "c \<noteq> DD_ONE m" "held ext m c" "mgr_ok ext F m"
  shows "\<exists>c' S'. skip_above l c m = Some c' \<and> cube m c' S' \<and> held ext m c' \<and> S' \<subseteq> S \<and>
    (\<forall>i \<in> S - S'. i < dsize m \<and> perm m ! i < l) \<and> (c' \<noteq> DD_ONE m \<longrightarrow> l \<le> lev m c')"
  using assms(1-3)
proof induction
  case (cube_node c S)
  note s = mgr_okD(5) [OF assms(4)]
  obtain n where n: "heap m c = Some n" "cuddT n = Some (kT m c)"
    "nth_opt (perm m) (unat (index n)) = Some (lev m c)" using node_fields [OF s cube_node.hyps(1)] by metis
  note t = tabnode [OF s cube_node.hyps(1)]
  have r: "Cudd_Regular c = c" using nodeD(9) [OF s cube_node.hyps(1)] by simp
  have h: "held ext m (kT m c)" using held_kids(1) [OF cube_node.prems(2) _ s] r cube_node.hyps(1) by simp
  have c: "cube m c (insert (nidx m c) S)" by (rule cube.cube_node) (rule cube_node.hyps)+
  show ?case
  proof (cases "lev m c < l")
    case False
    then have "skip_above l c m = Some c" using n by (subst skip_above.simps) simp
    then show ?thesis using c cube_node.prems(2) False by (intro exI [of _ c] exI [of _ "insert (nidx m c) S"]) simp
  next
    case True
    show ?thesis
    proof (cases "kT m c = DD_ONE m")
      case True
      then have "S = {}" using cube_node.hyps(3) one_not_tab [OF s] by (auto elim: cubeE)
      moreover have "skip_above l c m = Some (DD_ONE m)" using n True \<open>lev m c < l\<close> by (subst skip_above.simps) simp
      ultimately show ?thesis
        using h True cube_one [of m] t(2,3) \<open>lev m c < l\<close> by (intro exI [of _ "DD_ONE m"] exI [of _ "{}"]) simp
    next
      case False
      obtain c' S' where c': "skip_above l (kT m c) m = Some c'" "cube m c' S'" "held ext m c'" "S' \<subseteq> S"
        "\<forall>i \<in> S - S'. i < dsize m \<and> perm m ! i < l" "c' \<noteq> DD_ONE m \<longrightarrow> l \<le> lev m c'"
        using cube_node.IH [OF False h] by blast
      moreover have "skip_above l c m = skip_above l (kT m c) m"
        using n False \<open>lev m c < l\<close> by (subst skip_above.simps) simp
      ultimately show ?thesis using t(2,3) \<open>lev m c < l\<close> by (intro exI [of _ c'] exI [of _ S']) auto
    qed
  qed
qed simp

subsection \<open>Steps of the procedures\<close>

text \<open>
  The pieces a procedure is made of, in the order it goes through them: the first result, its
  reference, the second result, and the ways to put the two together.
\<close>

lemma first_step:
  assumes "delivered ext m P A"
    and "\<And>t m1. t \<in> edges m1 \<Longrightarrow> mgr_ok ext {Cudd_Regular t} m1 \<Longrightarrow> keep (set_mset ext) m m1 \<Longrightarrow>
      (\<And>env. sem m1 env t = P env) \<Longrightarrow> delivered ext m R (K t m1)"
  shows "delivered ext m R (A \<bind> (\<lambda>(t, m1). if t = NULL then Some (NULL, m1) else K t m1))"
  using assms(1)
proof (cases rule: deliveredE)
  case (null m1)
  then show ?thesis using delivered_null by simp
next
  case (edge t m1)
  then show ?thesis using assms(2) by simp
qed

lemma ref_step:
  assumes "mgr_ok X {Cudd_Regular t} m1" "t \<in> edges m1" "set_mset ext \<subseteq> set_mset X"
    and k: "keep (set_mset ext) m m1" "store_ok m"
    and K: "\<And>m2. mgr_ok (add_mset (Cudd_Regular t) X) {} m2 \<Longrightarrow> store m2 = store m1 \<Longrightarrow>
      keep (set_mset ext) m m2 \<Longrightarrow> delivered ext m R (K m2)"
  shows "delivered ext m R (cuddRef t m1 \<bind> K)"
proof -
  have n: "Cudd_Regular t \<in> nodes m1" using assms(2) by (simp add: edges_def)
  obtain m2 where m2: "cuddRef t m1 = Some m2" "mgr_ok (add_mset (Cudd_Regular t) X) {} m2" "counts_only m1 m2"
    "keep (set_mset X) m1 m2"
    using cuddRef_ok [OF assms(1) n] by (auto simp: dset_iff)
  from K [OF m2(2) counts_only_store [OF m2(3)] keep_trans [OF k(1) keep_mono [OF m2(4) assms(3)] k(2)]]
  show ?thesis using m2(1) by simp
qed

lemma second_step:
  assumes "mgr_ok (add_mset (Cudd_Regular t) ext) {} m2" "keep (set_mset ext) m m2" "store_ok m"
    and "t \<in> edges m2" "\<And>env. sem m2 env t = P env"
    and "delivered (add_mset (Cudd_Regular t) ext) m2 Q B" "DD_ONE m \<in># ext"
    and K: "\<And>e m3. e \<in> edges m3 \<Longrightarrow> mgr_ok (add_mset (Cudd_Regular t) ext) {Cudd_Regular e} m3 \<Longrightarrow>
      keep (set_mset ext) m m3 \<Longrightarrow> t \<in> edges m3 \<Longrightarrow> (\<And>env. sem m3 env t = P env) \<Longrightarrow>
      (\<And>env. sem m3 env e = Q env) \<Longrightarrow> delivered ext m R (K e m3)"
  shows "delivered ext m R (B \<bind> (\<lambda>(e, m3). if e = NULL
    then Cudd_IterDerefBdd t m3 \<bind> (\<lambda>m3. Some (NULL, m3)) else K e m3))"
proof -
  have tr: "keep (set_mset ext) m m3" if "keep (set_mset (add_mset (Cudd_Regular t) ext)) m2 m3" for m3
    by (rule keep_trans [OF assms(2) keep_mono [OF that] assms(3)]) auto
  from assms(6) show ?thesis
  proof (cases rule: deliveredE)
    case (null m3)
    note k = tr [OF null(2)]
    have "DD_ONE m3 \<in># ext" using assms(7) orderD(4) [OF keepD(3) [OF k]] by simp
    then obtain m4 where m4: "Cudd_IterDerefBdd t m3 = Some m4" "mgr_ok ext {} m4" "keep (set_mset ext) m3 m4"
      "counts_only m3 m4"
      using iterDeref_ok [OF null(3)] by blast
    have "failed m4" using null(4) counts_only_error [OF m4(4)] by simp
    then show ?thesis using m4(1-3) null(1) delivered_null keep_trans [OF k _ assms(3)] by auto
  next
    case (edge e m3)
    have h: "held (add_mset (Cudd_Regular t) ext) m2 t" by (simp add: heldI)
    note t = held_keep [OF h assms(1) edge(3) mgr_okD(5) [OF edge(5)]]
    from K [OF edge(4,5) tr [OF edge(3)] heldD(1) [OF t(1) edge(5)] _ edge(6)]
    show ?thesis using edge(1,2) t(2) assms(5) by simp
  qed
qed

lemma deref_step:
  assumes "mgr_ok (add_mset (Cudd_Regular r) ext) {} m2" "keep (set_mset ext) m m2" "store_ok m" "DD_ONE m \<in># ext"
    and K: "\<And>m3. mgr_ok ext {Cudd_Regular r} m3 \<Longrightarrow> store m3 = store m2 \<Longrightarrow> keep (set_mset ext) m m3 \<Longrightarrow>
      delivered ext m R (K m3)"
  shows "delivered ext m R (cuddDeref r m2 \<bind> K)"
proof -
  have "DD_ONE m2 \<in># ext" using assms(4) orderD(4) [OF keepD(3) [OF assms(2)]] by simp
  then obtain m3 where m3: "cuddDeref r m2 = Some m3" "mgr_ok ext {Cudd_Regular r} m3" "counts_only m2 m3"
    "keep (set_mset ext) m2 m3"
    using cuddDeref_ok [OF assms(1)] by blast
  from K [OF m3(2) counts_only_store [OF m3(3)] keep_trans [OF assms(2) m3(4) assms(3)]]
  show ?thesis using m3(1) by simp
qed

text \<open>A way to give back a reference.\<close>

definition releases :: "(ptr \<Rightarrow> DdManager \<Rightarrow> DdManager option) \<Rightarrow> bool" where
  "releases rel \<longleftrightarrow> (\<forall>x X m. mgr_ok (add_mset (Cudd_Regular x) X) {} m \<longrightarrow> DD_ONE m \<in># X \<longrightarrow>
     (\<exists>m'. rel x m = Some m' \<and> mgr_ok X {} m' \<and> keep (set_mset X) m m'))"

lemma releases_iter: "releases Cudd_IterDerefBdd"
  using iterDeref_ok unfolding releases_def by blast

lemma disjoin_step:
  assumes rel: "releases release"
    and "mgr_ok (add_mset (Cudd_Regular e) (add_mset (Cudd_Regular t) ext)) {} m1"
    and "keep (set_mset ext) m m1" "store_ok m" "DD_ONE m \<in># ext"
    and "\<And>env. sem m1 env t = P env" "\<And>env. sem m1 env e = Q env"
    and K: "\<And>r m2. r \<in> edges m2 \<Longrightarrow> mgr_ok (add_mset (Cudd_Regular r) ext) {} m2 \<Longrightarrow>
      keep (set_mset ext) m m2 \<Longrightarrow> (\<And>env. sem m2 env r = (P env \<or> Q env)) \<Longrightarrow> delivered ext m R (K r m2)"
  shows "delivered ext m R (disjoin release t e m1 \<bind> (\<lambda>(r, m2). if r = NULL then Some (NULL, m2) else K r m2))"
proof -
  let ?t = "Cudd_Regular t" and ?e = "Cudd_Regular e"
  let ?X = "add_mset ?e (add_mset ?t ext)"
  have sub: "set_mset ext \<subseteq> set_mset ?X" by auto
  have h: "held ?X m1 (Cudd_Not t)" "held ?X m1 (Cudd_Not e)" by (simp_all add: heldI)
  note tr = keep_trans [OF assms(3) _ assms(4)]
  have one: "DD_ONE m' \<in># ext" if "keep (set_mset ext) m m'" for m'
    using assms(5) orderD(4) [OF keepD(3) [OF that]] by simp
  from cuddBddAndRecur_ok [OF assms(2) h] show ?thesis
  proof (cases rule: deliveredE)
    case (null m2)
    note k = tr [OF keep_mono [OF null(2) sub]]
    have "mgr_ok (add_mset ?t (add_mset ?e ext)) {} m2" using null(3) by (simp add: add_mset_commute)
    then obtain m3 where m3: "deref_both t e m2 = Some (NULL, m3)" "mgr_ok ext {} m3" "keep (set_mset ext) m2 m3"
      "errorCode m3 = errorCode m2"
      using deref_both_ok one [OF k] by blast
    have fl: "failed m3" using null(4) m3(4) by simp
    then show ?thesis
      using m3(1) null(1) delivered_null [OF m3(2) keep_trans [OF k m3(3) assms(4)] fl] by (simp add: disjoin_def)
  next
    case (edge q m2)
    let ?r = "Cudd_Not q"
    note k = tr [OF keep_mono [OF edge(3) sub]]
    have n: "Cudd_Regular ?r \<in> nodes m2" "mgr_ok ?X {Cudd_Regular ?r} m2" using edge(4,5) by (simp_all add: edges_def)
    obtain m3 where m3: "cuddRef ?r m2 = Some m3" "mgr_ok (add_mset (Cudd_Regular ?r) ?X) {} m3"
      "counts_only m2 m3" "keep (set_mset ?X) m2 m3"
      using cuddRef_ok [OF n(2,1)] by (auto simp: dset_iff)
    note c3 = counts_only_store [OF m3(3)]
    let ?Y = "add_mset (Cudd_Regular ?r) ext"
    have m3': "mgr_ok (add_mset ?t (add_mset ?e ?Y)) {} m3" using m3(2) by (simp add: add_mset_commute)
    note k3 = keep_trans [OF k keep_mono [OF m3(4) sub] assms(4)]
    have "DD_ONE m3 \<in># add_mset ?e ?Y" using one [OF k3] by simp
    then obtain m4 where m4: "release t m3 = Some m4" "mgr_ok (add_mset ?e ?Y) {} m4"
      "keep (set_mset (add_mset ?e ?Y)) m3 m4"
      using rel m3' unfolding releases_def by blast
    have k34: "keep (set_mset ext) m3 m4" "keep (set_mset ?Y) m3 m4" using keep_mono [OF m4(3)] by auto
    note k4 = keep_trans [OF k3 k34(1) assms(4)]
    have "DD_ONE m4 \<in># ?Y" using one [OF k4] by simp
    then obtain m5 where m5: "release e m4 = Some m5" "mgr_ok ?Y {} m5" "keep (set_mset ?Y) m4 m5"
      using rel m4(2) unfolding releases_def by blast
    have k45: "keep (set_mset ext) m4 m5" using keep_mono [OF m5(3)] by auto
    note k5 = keep_trans [OF k4 k45 assms(4)]
    have hr: "held ?Y m3 ?r" by (simp add: heldI)
    have ok3: "mgr_ok (add_mset ?t (add_mset ?e ?Y)) {} m3" by (rule m3')
    have kY: "keep (set_mset ?Y) m3 m5" by (rule keep_trans [OF k34(2) m5(3) mgr_okD(5) [OF m3']])
    have Y: "set_mset ?Y \<subseteq> nodes m3" using mgr_okD(8) [OF m3'] by simp
    note sr = keep_sem [OF kY mgr_okD(5) [OF m3'] mgr_okD(5) [OF m5(2)] Y, of ?r]
    have "sem m5 env ?r = (P env \<or> Q env)" for env
      using sr(1) hr edge(6) assms(6,7) by (simp add: held_def sem_cong_store [OF c3])
    moreover have "?r \<in> edges m5" using sr(3) hr by (simp add: held_def)
    ultimately have "delivered ext m R (K ?r m5)" using K m5(2) k5 by blast
    moreover have "?r \<noteq> NULL" using edges_nonnull [OF mgr_okD(5) [OF m5(2)] \<open>?r \<in> edges m5\<close>] .
    ultimately show ?thesis using edge(1,2) m3(1) m4(1) m5(1) by (simp add: disjoin_def)
  qed
qed

text \<open>The node that a function built from two others below a variable must have.\<close>

lemma over_canonical:
  assumes s: "store_ok m" and e: "t \<in> edges m" "e \<in> edges m" "r \<in> edges m"
    and l: "l < dsize m" "l < elev m t" "l < elev m e"
    and r: "\<And>env. sem m env r = (if env (invperm m ! l) then sem m env t else sem m env e)"
  shows "over m t e r"
proof (cases "t = e")
  case True
  then have "r = t" using canonical [OF s e(3,1)] r by simp
  then show ?thesis using True by (simp add: over_def)
next
  case False
  let ?i = "invperm m ! l"
  have i: "?i < dsize m" "perm m ! ?i = l" using order_okD(6,7) [OF s l(1)] by simp_all
  have ind: "indep m l' (\<lambda>env. sem m env t)" "indep m l' (\<lambda>env. sem m env e)" if "l' \<le> l" for l'
    using indep_sem [OF s] e l that by simp_all
  have u: "sem m (env(?i := b)) t = sem m env t" "sem m (env(?i := b)) e = sem m env e" for env b
    using ind [OF order_refl] i by (simp_all add: indep_def)
  have "elev m r \<le> l"
  proof (rule ccontr)
    assume "\<not> elev m r \<le> l"
    then have "indep m l (\<lambda>env. sem m env r)" using indep_sem [OF s e(3)] by simp
    then have "sem m (env(?i := True)) r = sem m (env(?i := False)) r" for env using i by (simp add: indep_def)
    then have "sem m env t = sem m env e" for env by (simp add: r u)
    then show False using canonical [OF s e(1,2)] False by blast
  qed
  moreover have "l \<le> elev m r"
  proof (rule ccontr)
    assume "\<not> l \<le> elev m r"
    then have lt: "elev m r < l" by simp
    have "j \<noteq> ?i" if "perm m ! j \<le> elev m r" for j using that lt i(2) by auto
    then have "(env(j := b)) ?i = env ?i" if "perm m ! j \<le> elev m r" for j b and env :: "nat \<Rightarrow> bool" using that by force
    then have "indep m (elev m r) (\<lambda>env. sem m env r)"
      using ind [OF less_imp_le [OF lt]] by (simp add: r indep_def del: fun_upd_apply)
    from indep_level [OF s e(3) this] lt l(1) show False by simp
  qed
  ultimately have el: "elev m r = l" by simp
  let ?p = "Cudd_Regular r" and ?c = "Cudd_IsComplement r"
  have p: "?p \<in> tabnodes m" using lev_less_iff [OF s, of ?p] e(3) el l(1) by (simp add: edges_def elev_def)
  note n = nodeD [OF s p]
  have x: "nidx m ?p = ?i" using tabnode(6) [OF s p] el by (simp add: elev_def)
  let ?T = "Cudd_NotCond (kT m ?p) ?c" and ?E = "Cudd_NotCond (kE m ?p) ?c"
  have "l < elev m ?T" "l < elev m ?E" using n(12,13) el by (simp_all add: elev_def)
  then have w: "sem m (env(?i := b)) ?T = sem m env ?T" "sem m (env(?i := b)) ?E = sem m env ?E" for env b
    using sem_indep [OF s _ i(1)] n(10,11) i(2) by simp_all
  have sr: "sem m env r = (if env ?i then sem m env ?T else sem m env ?E)" for env
    using sem_Regular [of m env r] sem_node [OF s p] x by simp
  have "sem m env ?T = sem m env t" for env
    using sr [of "env(?i := True)"] r [of "env(?i := True)"] by (simp add: w u del: sem_NotCond)
  then have T: "?T = t" using canonical [OF s _ e(1)] n(10) by simp
  have "sem m env ?E = sem m env e" for env
    using sr [of "env(?i := False)"] r [of "env(?i := False)"] by (simp add: w u del: sem_NotCond)
  then have E: "?E = e" using canonical [OF s _ e(2)] n(11) by simp
  have "Cudd_Regular t = kT m ?p" using n(3) by (simp flip: T)
  moreover have "Cudd_Regular e = Cudd_Regular (kE m ?p)" by (simp flip: E)
  ultimately show ?thesis using p by (simp add: over_def)
qed

lemma vars_ok_keep:
  assumes "vars_ok ext m" "mgr_ok ext F m" "keep (set_mset ext) m m'" "set_mset ext \<subseteq> set_mset X"
  shows "vars_ok X m'"
proof -
  note o = orderD [OF keepD(3) [OF assms(3)]]
  have "vars m' ! i \<in># X \<and> proj m' i (vars m' ! i)" if "i < dsize m'" for i
  proof -
    have v: "vars m ! i \<in># ext" "proj m i (vars m ! i)" using assms(1) that o(3) by (simp_all add: vars_ok_def)
    have r: "vars m ! i \<in> reach m (set_mset ext)" using reach.base [OF v(1)] .
    show ?thesis
      using v assms(4) keep_tab [OF assms(3) r _ mgr_okD(5) [OF assms(2)]] keepD(5-7) [OF assms(3) r] o
      by (auto simp: proj_def)
  qed
  then show ?thesis by (simp add: vars_ok_def)
qed

lemma vars_ok_mono: "vars_ok ext m \<Longrightarrow> set_mset ext \<subseteq> set_mset X \<Longrightarrow> vars_ok X m"
  by (auto simp: vars_ok_def)

lemma vars_get:
  assumes "mgr_ok ext F m" "i < dsize m"
  shows "nth_opt (vars m) i = Some (vars m ! i)"
proof -
  have "dims_ok m" using mgr_okD(4) [OF assms(1)] by (simp add: rest_ok_def misc_ok_def)
  then show ?thesis using assms(2) order_okD(1) [OF mgr_okD(5) [OF assms(1)]] by (simp add: dims_ok_def nth_opt_def)
qed

lemma ite_var_step:
  assumes "mgr_ok (add_mset (Cudd_Regular e) (add_mset (Cudd_Regular t) ext)) {} m1"
    and "vars_ok ext m1" "keep (set_mset ext) m m1" "store_ok m" "DD_ONE m \<in># ext"
    and l: "l < dsize m1" "unat idx = invperm m1 ! l" "l < elev m1 t" "l < elev m1 e"
    and "\<And>env. sem m1 env t = P env" "\<And>env. sem m1 env e = Q env"
    and K: "\<And>r m2. r \<in> edges m2 \<Longrightarrow> mgr_ok ext {Cudd_Regular r} m2 \<Longrightarrow> keep (set_mset ext) m m2 \<Longrightarrow>
      (\<And>env. sem m2 env r = (if env (invperm m1 ! l) then P env else Q env)) \<Longrightarrow> delivered ext m R (K r m2)"
  shows "delivered ext m R (ite_var idx t e m1 \<bind> (\<lambda>(r, m2). if r = NULL then Some (NULL, m2) else K r m2))"
proof -
  let ?t = "Cudd_Regular t" and ?e = "Cudd_Regular e" and ?i = "invperm m1 ! l"
  let ?X = "add_mset ?e (add_mset ?t ext)" and ?v = "vars m1 ! (invperm m1 ! l)"
  note s1 = mgr_okD(5) [OF assms(1)]
  have sub: "set_mset ext \<subseteq> set_mset ?X" by auto
  have i: "?i < dsize m1" using order_okD(6) [OF s1 l(1)] .
  have v: "?v \<in># ext" "proj m1 ?i ?v" using assms(2) i by (simp_all add: vars_ok_def)
  have "Cudd_Regular ?v = ?v" using proj_sem(2) [OF s1 v(2)] .
  then have h: "held ?X m1 ?v" "held ?X m1 t" "held ?X m1 e" using v(1) by (simp_all add: heldI)
  note tr = keep_trans [OF assms(3) _ assms(4)]
  have one: "DD_ONE m' \<in># ext" if "keep (set_mset ext) m m'" for m'
    using assms(5) orderD(4) [OF keepD(3) [OF that]] by simp
  have get: "nth_opt (vars m1) (unat idx) = Some ?v" using vars_get [OF assms(1) i] l(2) by simp
  from cuddBddIteRecur_ok [OF assms(1) h] show ?thesis
  proof (cases rule: deliveredE)
    case (null m2)
    note k = tr [OF keep_mono [OF null(2) sub]]
    have "mgr_ok (add_mset ?t (add_mset ?e ext)) {} m2" using null(3) by (simp add: add_mset_commute)
    then obtain m3 where m3: "deref_both t e m2 = Some (NULL, m3)" "mgr_ok ext {} m3" "keep (set_mset ext) m2 m3"
      "errorCode m3 = errorCode m2"
      using deref_both_ok one [OF k] by blast
    have fl: "failed m3" using null(4) m3(4) by simp
    then show ?thesis
      using m3(1) null(1) get delivered_null [OF m3(2) keep_trans [OF k m3(3) assms(4)] fl] by (simp add: ite_var_def)
  next
    case (edge r m2)
    note k = tr [OF keep_mono [OF edge(3) sub]] and s2 = mgr_okD(5) [OF edge(5)]
    note kt = held_keep [OF h(2) assms(1) edge(3) s2] and ke = held_keep [OF h(3) assms(1) edge(3) s2]
    note o = orderD [OF keepD(3) [OF edge(3)]]
    have r: "sem m2 env r = (if env ?i then P env else Q env)" for env
      using edge(6) proj_sem(1) [OF s1 v(2)] assms(10,11) by (simp add: ite_fun_def)
    have "over m2 t e r"
      by (rule over_canonical [OF s2 heldD(1) [OF kt(1) edge(5)] heldD(1) [OF ke(1) edge(5)] edge(4)])
        (use l r o kt(2,3) ke(2,3) assms(10,11) in auto)
    moreover have "mgr_ok (add_mset ?t (add_mset ?e ext)) {Cudd_Regular r} m2"
      using edge(5) by (simp add: add_mset_commute)
    ultimately obtain m3 m4 where m4: "cuddDeref t m2 = Some m3" "cuddDeref e m3 = Some m4"
      "mgr_ok ext {Cudd_Regular r} m4" "counts_only m2 m4" "keep (set_mset ext) m2 m4"
      using deref_pair [of t e ext r m2] one [OF k] by blast
    note c = counts_only_store [OF m4(4)]
    have "delivered ext m R (K r m4)"
      by (rule K [OF _ m4(3) keep_trans [OF k m4(5) assms(4)]])
        (use edge(4) r in \<open>simp_all add: store_cong(12) [OF c] sem_cong_store [OF c]\<close>)
    then show ?thesis using edge(1,2) get m4(1,2) by (simp add: ite_var_def)
  qed
qed

end
