(* ===== verification/CuddExist.thy ===== *)
theory CuddExist
  imports CuddQuant
begin

text \<open>
  The procedures of \<open>cuddBddAbs.c\<close> meet their contracts: existential abstraction, the Boolean
  difference and the test for dependence.
\<close>

subsection \<open>Entries of the computed table\<close>

lemma exist_entry:
  assumes "store_ok m" "f \<in> edges m" "r \<in> edges m" "cube m c S"
    and "\<And>env. sem m env r = quantify S (\<lambda>env. sem m env f) env"
  shows "entry_ok m \<lparr>c_f = f, c_g = c, c_h = fp_Cudd_bddExistAbstract, c_data = r\<rparr>"
proof -
  have c: "c \<in> nodes m" "cube_of m c S" using cube_facts [OF assms(1,4)] by simp_all
  have "S' = S" if "cube_of m c S'" for S' by (rule cube_of_unique [OF that c(2)])
  then show ?thesis
    using assms c(1) by (auto simp: entry_ok_def entry2_ok_def fp_defs edges_def)
qed

lemma shared2_step:
  assumes "mgr_ok X F m1" "f \<in> edges m1" "entry_ok m1 \<lparr>c_f = f, c_g = c, c_h = opr, c_data = r\<rparr>"
    and "keep (set_mset ext) m m1" "store_ok m" "set_mset ext \<subseteq> set_mset X"
    and K: "\<And>m2. mgr_ok X F m2 \<Longrightarrow> store m2 = store m1 \<Longrightarrow> keep (set_mset ext) m m2 \<Longrightarrow> delivered ext m R (K m2)"
  shows "delivered ext m R (insert_shared2 opr f c r m1 \<bind> K)"
proof -
  obtain n where n: "heap m1 (Cudd_Regular f) = Some n"
    using nodes_heap [OF mgr_okD(5) [OF assms(1)]] assms(2) by (auto simp: edges_def)
  show ?thesis
  proof (cases "ref n = 1")
    case True
    then show ?thesis using K [OF assms(1) refl assms(4)] n by (simp add: insert_shared2_def)
  next
    case False
    obtain m2 where m2: "cuddCacheInsert2 opr f c r m1 = Some m2" "core m2 = core m1" "mgr_ok X F m2"
      using cuddCacheInsert2_ok [OF assms(1,3)] by blast
    have "keep (set_mset X) m1 m2" using core_ok(4) [OF m2(2)] mgr_okD(5,8) [OF assms(1)] by blast
    from K [OF m2(3) core_fields(1) [OF m2(2)] keep_trans [OF assms(4) keep_mono [OF this assms(6)] assms(5)]]
    show ?thesis using n False m2(1) by (simp add: insert_shared2_def)
  qed
qed

subsection \<open>Existential abstraction\<close>

definition exist_fun :: "DdManager \<Rightarrow> nat set \<Rightarrow> ptr \<Rightarrow> (nat \<Rightarrow> bool) \<Rightarrow> bool" where
  "exist_fun m S f = quantify S (\<lambda>env. sem m env f)"

lemma exist_fun_keep:
  assumes "held ext m f" "mgr_ok ext F m" "keep (set_mset ext) m m'" "store_ok m'"
  shows "exist_fun m' S f = exist_fun m S f"
  using held_keep(2) [OF assms] by (simp add: exist_fun_def)

lemma exist_split:
  assumes "i \<notin> S" "\<And>env. sem m env f = (if env i then sem m env T else sem m env E)"
    and "\<And>env b. sem m (env(i := b)) T = sem m env T" "\<And>env b. sem m (env(i := b)) E = sem m env E"
  shows "exist_fun m (insert i S) f env = (exist_fun m S T env \<or> exist_fun m S E env)"
    "exist_fun m S f env = (if env i then exist_fun m S T env else exist_fun m S E env)"
  unfolding exist_fun_def assms(2)
  by (rule quantify_split [OF assms(1,3,4)], rule quantify_if [OF assms(1)])

lemma exist_entry_at:
  assumes ok: "mgr_ok ext {} m" and h: "held ext m f" "held ext m c" and c: "cube m c S"
    and "mgr_ok X F m'" "keep (set_mset ext) m m'" "r \<in> edges m'" "\<And>env. sem m' env r = exist_fun m S f env"
  shows "entry_ok m' \<lparr>c_f = f, c_g = c, c_h = fp_Cudd_bddExistAbstract, c_data = r\<rparr> \<and> f \<in> edges m'"
proof -
  note s = mgr_okD(5) [OF ok] and s' = mgr_okD(5) [OF assms(5)]
  have e: "f \<in> edges m'" using keep_sem(3) [OF assms(6) s s' mgr_okD(8) [OF ok]] h(1) by (simp add: held_def)
  have "sem m' env r = quantify S (\<lambda>env. sem m' env f) env" for env
    using assms(8) exist_fun_keep [OF h(1) ok assms(6) s'] by (simp add: exist_fun_def)
  from exist_entry [OF s' e assms(7) cube_keep [OF c h(2) ok assms(6)] this] show ?thesis using e by simp
qed

text \<open>A recursive call, after other steps that keep what the caller holds.\<close>

lemma exist_rec_call:
  assumes ok: "mgr_ok ext {} m" and v: "vars_ok ext m" and c: "held ext m c" "cube m c S" and l: "elev m f < dsize m"
    and rec: "\<And>a d D ext' m'. mgr_ok ext' {} m' \<Longrightarrow> vars_ok ext' m' \<Longrightarrow> held ext' m' a \<Longrightarrow> held ext' m' d \<Longrightarrow>
      cube m' d D \<Longrightarrow> dsize m' - elev m' a < dsize m - elev m f \<Longrightarrow>
      delivered ext' m' (exist_fun m' D a) (cuddBddExistAbstractRecur a d m')"
    and k: "mgr_ok ext' {} m'" "set_mset ext \<subseteq> set_mset ext'" "keep (set_mset ext) m m'"
    and a: "held ext m a" "elev m f < elev m a"
  shows "delivered ext' m' (exist_fun m S a) (cuddBddExistAbstractRecur a c m')"
proof -
  note s' = mgr_okD(5) [OF k(1)]
  note a' = held_keep [OF a(1) ok k(3) s'] and c' = held_keep [OF c(1) ok k(3) s']
  have "dsize m' - elev m' a < dsize m - elev m f"
    using a(2) l orderD(3) [OF keepD(3) [OF k(3)]] by (simp add: a'(3))
  from rec [OF k(1) vars_ok_keep [OF v ok k(3,2)] held_mono [OF a'(1) k(2)] held_mono [OF c'(1) k(2)]
      cube_keep [OF c(2,1) ok k(3)] this]
  show ?thesis by (simp add: exist_fun_keep [OF a(1) ok k(3) s'])
qed

text \<open>The variable of the operand is to be abstracted.\<close>

lemma exist_same_ok:
  assumes ok: "mgr_ok ext {} m" and v: "vars_ok ext m" and h: "held ext m f" "held ext m c"
    and S: "\<And>env. exist_fun m S f env = (exist_fun m S' T env \<or> exist_fun m S' E env)"
    and c: "cube m c S" "cube m rest S'" "held ext m rest"
    and TE: "held ext m T" "held ext m E" "elev m f < elev m T" "elev m f < elev m E" "elev m f < dsize m"
    and rec: "\<And>a d D ext' m'. mgr_ok ext' {} m' \<Longrightarrow> vars_ok ext' m' \<Longrightarrow> held ext' m' a \<Longrightarrow> held ext' m' d \<Longrightarrow>
      cube m' d D \<Longrightarrow> dsize m' - elev m' a < dsize m - elev m f \<Longrightarrow>
      delivered ext' m' (exist_fun m' D a) (cuddBddExistAbstractRecur a d m')"
    and one: "one = DD_ONE m"
  shows "delivered ext m (exist_fun m S f)
    (if T = one \<or> E = one \<or> T = Cudd_Not E then Some (one, m)
     else cuddBddExistAbstractRecur T rest m \<bind> (\<lambda>(t, m1). if t = NULL then Some (NULL, m1)
       else if t = one then insert_shared2 fp_Cudd_bddExistAbstract f c one m1 \<bind> (\<lambda>m1. Some (one, m1))
       else cuddRef t m1 \<bind> (\<lambda>m1. cuddBddExistAbstractRecur E rest m1 \<bind> (\<lambda>(e, m1).
         if e = NULL then Cudd_IterDerefBdd t m1 \<bind> (\<lambda>m1. Some (NULL, m1))
         else cuddRef e m1 \<bind> (\<lambda>m1. disjoin Cudd_IterDerefBdd t e m1 \<bind> (\<lambda>(r, m1).
           if r = NULL then Some (NULL, m1)
           else insert_shared2 fp_Cudd_bddExistAbstract f c r m1 \<bind> (\<lambda>m1.
             cuddDeref r m1 \<bind> (\<lambda>m1. Some (r, m1)))))))))"
proof -
  note s = mgr_okD(5) [OF ok] and D1 = mgr_okD(2) [OF ok]
  have rec_call: "delivered ext' m' (exist_fun m S' a) (cuddBddExistAbstractRecur a rest m')"
    if "mgr_ok ext' {} m'" "set_mset ext \<subseteq> set_mset ext'" "keep (set_mset ext) m m'"
      "held ext m a" "elev m f < elev m a" for a ext' m'
    by (rule exist_rec_call [OF ok v c(3,2) TE(5) rec that])
  note entry = exist_entry_at [OF ok h c(1)]
  show ?thesis
  proof (cases "T = one \<or> E = one \<or> T = Cudd_Not E")
    case True
    have "exist_fun m S' T env \<or> exist_fun m S' E env" for env
      using True
    proof (elim disjE)
      assume "T = Cudd_Not E"
      then have "sem m env T \<or> sem m env E" by simp
      then show ?thesis unfolding exist_fun_def by (blast intro: quantify_self)
    qed (simp_all add: exist_fun_def one sem_one [OF s])
    then show ?thesis
      using True delivered_held [OF held_one [OF ok] ok, of "exist_fun m S f"] sem_one [OF s] by (simp add: S one)
  next
    case False
    show ?thesis
      apply (simp only: False if_False)
      apply (rule first_step [OF rec_call [OF ok order_refl keep_refl [OF ok] TE(1,3)]])
      subgoal premises p for t m1
      proof (cases "t = one")
        case True
        note o1 = orderD(4) [OF keepD(3) [OF p(3)]]
        have r: "sem m1 env one = exist_fun m S f env" for env
          using p(4) [of env] True sem_one [OF mgr_okD(5) [OF p(2)]] by (simp add: S one flip: o1)
        note en = entry [OF p(2,3) p(1) [unfolded True] r]
        have "delivered ext m (exist_fun m S f) (insert_shared2 fp_Cudd_bddExistAbstract f c one m1 \<bind> (\<lambda>m1. Some (one, m1)))"
          apply (rule shared2_step [OF p(2) conjunct2 [OF en] conjunct1 [OF en] p(3) s order_refl])
          subgoal premises q for m2
            by (rule delivered_edge [OF _ _ q(3)])
              (use p(1) q(1) True r in \<open>simp_all add: store_cong(12) [OF q(2)] sem_cong_store [OF q(2)]\<close>)
          done
        then show ?thesis using True by simp
      next
        case nt: False
        show ?thesis
          apply (simp only: nt if_False)
          apply (rule ref_step [OF p(2,1) order_refl p(3) s])
          subgoal premises q for m2
          proof -
            note c2 = store_cong [OF q(2)] sem_cong_store [OF q(2)]
            have t2: "t \<in> edges m2" "\<And>env. sem m2 env t = exist_fun m S' T env" using p(1,4) by (simp_all add: c2)
            have sub: "set_mset ext \<subseteq> set_mset (add_mset (Cudd_Regular t) ext)" by auto
            show ?thesis
              apply (rule second_step [OF q(1,3) s t2 rec_call [OF q(1) sub q(3) TE(2,4)] D1])
              subgoal premises w for e m3
                apply (rule ref_step [OF w(2,1) sub w(3) s])
                subgoal premises x for m4
                proof -
                  note c4 = store_cong [OF x(2)] sem_cong_store [OF x(2)]
                  have t4: "\<And>env. sem m4 env t = exist_fun m S' T env" "\<And>env. sem m4 env e = exist_fun m S' E env"
                    using w(5,6) by (simp_all add: c4)
                  show ?thesis
                    apply (rule disjoin_step [OF releases_iter x(1,3) s D1 t4])
                    subgoal premises y for r m5
                    proof -
                      note r = y(4) [folded S]
                      note en = entry [OF y(2,3,1) r]
                      have sub2: "set_mset ext \<subseteq> set_mset (add_mset (Cudd_Regular r) ext)" by auto
                      show ?thesis
                        apply (rule shared2_step [OF y(2) conjunct2 [OF en] conjunct1 [OF en] y(3) s sub2])
                        apply (rule deref_step [OF _ _ s D1], assumption, assumption)
                        subgoal premises z for m6 m7
                          by (rule delivered_edge [OF _ z(4) z(6)])
                            (use y(1) r in \<open>simp_all add: store_cong(12) [OF z(5)] store_cong(12) [OF z(2)]
                              sem_cong_store [OF z(5)] sem_cong_store [OF z(2)]\<close>)
                        done
                    qed
                    done
                qed
                done
              done
          qed
          done
      qed
      done
  qed
qed

text \<open>The variable of the operand is above the cube.\<close>

lemma exist_above_ok:
  assumes ok: "mgr_ok ext {} m" and v: "vars_ok ext m" and h: "held ext m f" "held ext m c"
    and S: "\<And>env. exist_fun m S f env = (if env (invperm m ! elev m f) then exist_fun m S T env else exist_fun m S E env)"
    and c: "cube m c S" and idx: "unat idx = invperm m ! elev m f"
    and TE: "held ext m T" "held ext m E" "elev m f < elev m T" "elev m f < elev m E" "elev m f < dsize m"
    and rec: "\<And>a d D ext' m'. mgr_ok ext' {} m' \<Longrightarrow> vars_ok ext' m' \<Longrightarrow> held ext' m' a \<Longrightarrow> held ext' m' d \<Longrightarrow>
      cube m' d D \<Longrightarrow> dsize m' - elev m' a < dsize m - elev m f \<Longrightarrow>
      delivered ext' m' (exist_fun m' D a) (cuddBddExistAbstractRecur a d m')"
  shows "delivered ext m (exist_fun m S f)
    (cuddBddExistAbstractRecur T c m \<bind> (\<lambda>(t, m1). if t = NULL then Some (NULL, m1)
       else cuddRef t m1 \<bind> (\<lambda>m1. cuddBddExistAbstractRecur E c m1 \<bind> (\<lambda>(e, m1).
         if e = NULL then Cudd_IterDerefBdd t m1 \<bind> (\<lambda>m1. Some (NULL, m1))
         else cuddRef e m1 \<bind> (\<lambda>m1. ite_var idx t e m1 \<bind> (\<lambda>(r, m1).
           if r = NULL then Some (NULL, m1)
           else insert_shared2 fp_Cudd_bddExistAbstract f c r m1 \<bind> (\<lambda>m1. Some (r, m1))))))))"
proof -
  note s = mgr_okD(5) [OF ok] and D1 = mgr_okD(2) [OF ok]
  have rec_call: "delivered ext' m' (exist_fun m S a) (cuddBddExistAbstractRecur a c m')"
    if "mgr_ok ext' {} m'" "set_mset ext \<subseteq> set_mset ext'" "keep (set_mset ext) m m'"
      "held ext m a" "elev m f < elev m a" for a ext' m'
    by (rule exist_rec_call [OF ok v h(2) c TE(5) rec that])
  note entry = exist_entry_at [OF ok h c]
  have ind: "indep m (elev m f) (exist_fun m S T)" "indep m (elev m f) (exist_fun m S E)"
    unfolding exist_fun_def
    using quantify_indep [OF indep_sem [OF s heldD(1) [OF TE(1) ok] TE(3)]]
      quantify_indep [OF indep_sem [OF s heldD(1) [OF TE(2) ok] TE(4)]] by simp_all
  show ?thesis
    apply (rule first_step [OF rec_call [OF ok order_refl keep_refl [OF ok] TE(1,3)]])
    subgoal premises p for t m1
      apply (rule ref_step [OF p(2,1) order_refl p(3) s])
      subgoal premises q for m2
      proof -
        note c2 = store_cong [OF q(2)] sem_cong_store [OF q(2)]
        have t2: "t \<in> edges m2" "\<And>env. sem m2 env t = exist_fun m S T env" using p(1,4) by (simp_all add: c2)
        have sub: "set_mset ext \<subseteq> set_mset (add_mset (Cudd_Regular t) ext)" by auto
        show ?thesis
          apply (rule second_step [OF q(1,3) s t2 rec_call [OF q(1) sub q(3) TE(2,4)] D1])
          subgoal premises w for e m3
            apply (rule ref_step [OF w(2,1) sub w(3) s])
            subgoal premises x for m4
            proof -
              note c4 = store_cong [OF x(2)] sem_cong_store [OF x(2)]
              have t4: "\<And>env. sem m4 env t = exist_fun m S T env" "\<And>env. sem m4 env e = exist_fun m S E env"
                and e4: "t \<in> edges m4" "e \<in> edges m4" using w(1,4,5,6) by (simp_all add: c4)
              note o = orderD [OF keepD(3) [OF x(3)]]
              have l: "elev m f < dsize m4" "unat idx = invperm m4 ! elev m f" "elev m f < elev m4 t" "elev m f < elev m4 e"
                using result_level [OF x(1) keepD(3) [OF x(3)] e4(1) t4(1) ind(1) TE(5)]
                  result_level [OF x(1) keepD(3) [OF x(3)] e4(2) t4(2) ind(2) TE(5)] TE(5) idx o by simp_all
              show ?thesis
                apply (rule ite_var_step [OF x(1) vars_ok_keep [OF v ok x(3) order_refl] x(3) s D1 l t4])
                subgoal premises y for r m5
                proof -
                  have r: "sem m5 env r = exist_fun m S f env" for env using y(4) S o(2) by simp
                  note en = entry [OF y(2,3,1) r]
                  show ?thesis
                    apply (rule shared2_step [OF y(2) conjunct2 [OF en] conjunct1 [OF en] y(3) s order_refl])
                    subgoal premises z for m6
                      by (rule delivered_edge [OF _ z(1) z(3)])
                        (use y(1) r in \<open>simp_all add: store_cong(12) [OF z(2)] sem_cong_store [OF z(2)]\<close>)
                    done
                qed
                done
            qed
            done
          done
      qed
      done
    done
qed

text \<open>The recursive case, on the node of the operand.\<close>

definition exist_node :: "DdNode \<Rightarrow> ptr \<Rightarrow> ptr \<Rightarrow> ptr \<Rightarrow> DdManager \<Rightarrow> ptr result" where
  "exist_node nF f c one m = heap m c \<bind> (\<lambda>nC. cofactors f nF True \<bind> (\<lambda>(T, E).
     if index nF = index nC then
       if T = one \<or> E = one \<or> T = Cudd_Not E then Some (one, m)
       else cuddT nC \<bind> (\<lambda>rest. cuddBddExistAbstractRecur T rest m \<bind> (\<lambda>(t, m1). if t = NULL then Some (NULL, m1)
         else if t = one then insert_shared2 fp_Cudd_bddExistAbstract f c one m1 \<bind> (\<lambda>m1. Some (one, m1))
         else cuddRef t m1 \<bind> (\<lambda>m1. cuddBddExistAbstractRecur E rest m1 \<bind> (\<lambda>(e, m1).
           if e = NULL then Cudd_IterDerefBdd t m1 \<bind> (\<lambda>m1. Some (NULL, m1))
           else cuddRef e m1 \<bind> (\<lambda>m1. disjoin Cudd_IterDerefBdd t e m1 \<bind> (\<lambda>(r, m1).
             if r = NULL then Some (NULL, m1)
             else insert_shared2 fp_Cudd_bddExistAbstract f c r m1 \<bind> (\<lambda>m1.
               cuddDeref r m1 \<bind> (\<lambda>m1. Some (r, m1)))))))))
     else cuddBddExistAbstractRecur T c m \<bind> (\<lambda>(t, m1). if t = NULL then Some (NULL, m1)
       else cuddRef t m1 \<bind> (\<lambda>m1. cuddBddExistAbstractRecur E c m1 \<bind> (\<lambda>(e, m1).
         if e = NULL then Cudd_IterDerefBdd t m1 \<bind> (\<lambda>m1. Some (NULL, m1))
         else cuddRef e m1 \<bind> (\<lambda>m1. ite_var (index nF) t e m1 \<bind> (\<lambda>(r, m1).
           if r = NULL then Some (NULL, m1)
           else insert_shared2 fp_Cudd_bddExistAbstract f c r m1 \<bind> (\<lambda>m1. Some (r, m1)))))))))"

lemma exist_node_ok:
  assumes ok: "mgr_ok ext {} m" and v: "vars_ok ext m" and h: "held ext m f" "held ext m c" and c: "cube m c S"
    and cne: "c \<noteq> DD_ONE m" and t: "Cudd_Regular f \<in> tabnodes m" and le: "elev m f \<le> lev m c"
    and n: "cont m (Cudd_Regular f) = Some (index nF, type nF)"
    and rec: "\<And>a d D ext' m'. mgr_ok ext' {} m' \<Longrightarrow> vars_ok ext' m' \<Longrightarrow> held ext' m' a \<Longrightarrow> held ext' m' d \<Longrightarrow>
      cube m' d D \<Longrightarrow> dsize m' - elev m' a < dsize m - elev m f \<Longrightarrow>
      delivered ext' m' (exist_fun m' D a) (cuddBddExistAbstractRecur a d m')"
    and one: "one = DD_ONE m"
  shows "delivered ext m (exist_fun m S f) (exist_node nF f c one m)"
proof -
  note s = mgr_okD(5) [OF ok]
  let ?F = "Cudd_Regular f" and ?i = "invperm m ! elev m f"
  obtain S' where r: "c \<in> tabnodes m" "S = insert (nidx m c) S'" "nidx m c \<notin> S'" "cube m (kT m c) S'"
    "\<And>i. i \<in> S' \<Longrightarrow> lev m c < perm m ! i" using cube_rest [OF c cne s] by metis
  obtain nC where nC: "heap m c = Some nC" "cuddT nC = Some (kT m c)" "unat (index nC) = nidx m c"
    using node_fields [OF s r(1)] by metis
  note nl = node_level [OF ok t n]
  obtain T E where TE: "cofactors f nF True = Some (T, E)" "held ext m T" "held ext m E"
    "elev m f < elev m T" "elev m f < elev m E"
    "\<And>env. sem m env f = (if env ?i then sem m env T else sem m env E)"
    using cofactors_ok [OF ok h(1) n order_refl _ nl(2)] by blast
  have i: "?i = nidx m ?F" "?i < dsize m" "perm m ! ?i = elev m f"
    using tabnode(6) [OF s t] order_okD(6,7) [OF s nl(2)] by (simp_all add: elev_def)
  have u: "sem m (env(?i := b)) T = sem m env T" "sem m (env(?i := b)) E = sem m env E" for env b
    using sem_indep [OF s heldD(1) [OF TE(2) ok] i(2)] sem_indep [OF s heldD(1) [OF TE(3) ok] i(2)] TE(4,5) i(3)
    by simp_all
  have ieq: "index nF = index nC \<longleftrightarrow> ?i = nidx m c"
    using nl(3) nC(3) by (auto simp flip: nC(3) nl(3) simp: unsigned_word_eqI)
  show ?thesis
  proof (cases "index nF = index nC")
    case True
    have hr: "held ext m (kT m c)" using held_kids(1) [OF h(2) _ s] nodeD(9) [OF s r(1)] r(1) by simp
    have i': "?i \<notin> S'" "S = insert ?i S'" using r(2,3) ieq True by simp_all
    have sp: "exist_fun m S f env = (exist_fun m S' T env \<or> exist_fun m S' E env)" for env
      unfolding i'(2) by (rule exist_split(1) [OF i'(1) TE(6) u])
    show ?thesis
      unfolding exist_node_def nC(1) TE(1) Option.bind.bind_lunit prod.case nC(2)
      using exist_same_ok [OF ok v h sp c r(4) hr TE(2-5) nl(2) rec one] True by simp
  next
    case False
    have "lev m c \<noteq> elev m f"
      using False ieq tabnode(6) [OF s r(1)] by auto
    then have "?i \<notin> S" using False ieq r(2,5) le i(3) by fastforce
    then have sp: "exist_fun m S f env = (if env ?i then exist_fun m S T env else exist_fun m S E env)" for env
      by (rule exist_split(2) [OF _ TE(6) u])
    show ?thesis
      unfolding exist_node_def nC(1) TE(1) Option.bind.bind_lunit prod.case
      using exist_above_ok [OF ok v h sp c nl(3) TE(2-5) nl(2) rec] False by simp
  qed
qed

text \<open>The whole procedure.\<close>

lemma cuddBddExistAbstractRecur_ok:
  "mgr_ok ext {} m \<Longrightarrow> vars_ok ext m \<Longrightarrow> held ext m f \<Longrightarrow> held ext m c \<Longrightarrow> cube m c S \<Longrightarrow>
   delivered ext m (exist_fun m S f) (cuddBddExistAbstractRecur f c m)"
proof (induction "dsize m - elev m f" arbitrary: ext m f c S rule: less_induct)
  case less
  note ok = less.prems(1) and v = less.prems(2)
  note s = mgr_okD(5) [OF ok]
  let ?one = "DD_ONE m" and ?F = "Cudd_Regular f"
  have f0: "delivered ext m (exist_fun m {} f) (Some (f, m))"
    by (rule delivered_held [OF less.prems(3) ok]) (simp add: exist_fun_def)
  show ?case
  proof (cases "c = ?one \<or> ?F = ?one")
    case True
    have "exist_fun m S f env = exist_fun m {} f env" for env
    proof (cases "c = ?one")
      case True
      then show ?thesis using less.prems(5) one_not_tab [OF s] by (auto elim: cubeE)
    next
      case False
      then have "sem m e f = sem m env f" for e
        using True const_edges [OF _ s, of f] sem_one [OF s] by auto
      then have "(\<lambda>e. sem m e f) = (\<lambda>_. sem m env f)" by (rule ext)
      then show ?thesis by (simp add: exist_fun_def)
    qed
    then have "delivered ext m (exist_fun m S f) (Some (f, m))" by (intro delivered_cong [OF f0]) simp
    then show ?thesis using True by (subst cuddBddExistAbstractRecur.simps) (simp add: Let_def)
  next
    case False
    then have nc: "c \<noteq> ?one" "?F \<noteq> ?one" by simp_all
    have t: "?F \<in> tabnodes m" using heldD(2) [OF less.prems(3) ok] nc(2) by (auto simp: nodes_def)
    obtain nF where n: "heap m ?F = Some nF" "nth_opt (perm m) (unat (index nF)) = Some (lev m ?F)"
      "unat (index nF) = nidx m ?F" "cont m ?F = Some (index nF, type nF)" using node_fields [OF s t] by metis
    have l: "lev m ?F = elev m f" "elev m f < dsize m" using tabnode(4) [OF s t] by (simp_all add: elev_def)
    obtain c' S' where c': "skip_above (elev m f) c m = Some c'" "cube m c' S'" "held ext m c'" "S' \<subseteq> S"
      "\<forall>i \<in> S - S'. i < dsize m \<and> perm m ! i < elev m f" "c' \<noteq> ?one \<longrightarrow> elev m f \<le> lev m c'"
      using skip_above_ok [OF less.prems(5) nc(1) less.prems(4) ok] by blast
    have fin: "finite S" using cube_facts [OF s less.prems(5)] by simp
    have drop: "exist_fun m S f env = exist_fun m S' f env" for env
      unfolding exist_fun_def
      by (rule quantify_drop [OF c'(4) fin])
        (use c'(5) sem_indep [OF s heldD(1) [OF less.prems(3) ok]] in blast)
    have "delivered ext m (exist_fun m S' f) (cuddBddExistAbstractRecur f c m)"
    proof (cases "c' = ?one")
      case True
      then have "S' = {}" using c'(2) one_not_tab [OF s] by (auto elim: cubeE)
      then show ?thesis using True f0 n l(1) c'(1) nc by (subst cuddBddExistAbstractRecur.simps) (simp add: Let_def)
    next
      case cne: False
      have ct: "c' \<in> tabnodes m" using cube_rest [OF c'(2) cne s] by blast
      have lk: "looked_up ext m (\<lambda>r. entry2_ok m \<lparr>c_f = f, c_g = c', c_h = fp_Cudd_bddExistAbstract, c_data = r\<rparr>)
        (if ref nF \<noteq> 1 then cuddCacheLookup2 fp_Cudd_bddExistAbstract f c' m else Some (NULL, m))"
        using cuddCacheLookup2_ok [OF ok heldD(1) [OF less.prems(3) ok]] no_lookup [OF ok] by simp
      show ?thesis
        apply (subst cuddBddExistAbstractRecur.simps)
        apply (simp only: Let_def nc simp_thms if_False n(1,2) l(1) c'(1) cne Option.bind.bind_lunit)
        apply (rule lookup_step [OF lk s])
        subgoal for r env
          using cube_facts [OF s c'(2)] by (simp add: entry2_ok_def fp_defs exist_fun_def)
        subgoal premises p for m1
        proof -
          note cc = store_cong [OF p(2)] and s1 = mgr_okD(5) [OF p(1)]
          note hm = held_keep(1) [OF _ ok p(3) s1]
          have rec: "\<And>a d D ext' m'. mgr_ok ext' {} m' \<Longrightarrow> vars_ok ext' m' \<Longrightarrow> held ext' m' a \<Longrightarrow> held ext' m' d \<Longrightarrow>
            cube m' d D \<Longrightarrow> dsize m' - elev m' a < dsize m1 - elev m1 f \<Longrightarrow>
            delivered ext' m' (exist_fun m' D a) (cuddBddExistAbstractRecur a d m')"
            using less.hyps by (simp add: cc)
          have "delivered ext m1 (exist_fun m1 S' f) (exist_node nF f c' ?one m1)"
            by (rule exist_node_ok [OF p(1) vars_ok_keep [OF v ok p(3) order_refl] hm [OF less.prems(3)] hm [OF c'(3)]
                cube_store [OF p(2) c'(2)] _ _ _ _ rec])
              (use t ct cne c'(6) n(4) in \<open>simp_all add: cc\<close>)
          moreover have "exist_fun m1 S' f = exist_fun m S' f" by (simp add: exist_fun_def sem_cong_store [OF p(2)])
          ultimately have "delivered ext m (exist_fun m S' f) (exist_node nF f c' ?one m1)"
            using delivered_step [OF _ p(3) s] by simp
          then show ?thesis by (simp only: exist_node_def)
        qed
        done
    qed
    then show ?thesis by (rule delivered_cong) (simp add: drop)
  qed
qed

end
