(* ===== verification/CuddDiff.thy ===== *)
theory CuddDiff
  imports CuddExist
begin

text \<open>
  The operations of \<open>cuddBddAbs.c\<close> on one variable: the Boolean difference, and the test
  whether a variable is dependent on the others in a function.
\<close>

subsection \<open>The Boolean difference\<close>

definition diff_fun :: "DdManager \<Rightarrow> nat \<Rightarrow> ptr \<Rightarrow> (nat \<Rightarrow> bool) \<Rightarrow> bool" where
  "diff_fun m i f env \<longleftrightarrow> sem m (env(i := True)) f \<noteq> sem m (env(i := False)) f"

lemma diff_Regular: "diff_fun m i (Cudd_Regular f) = diff_fun m i f"
  using sem_Regular [of m _ f] by (auto simp: diff_fun_def fun_eq_iff)

lemma diff_fun_keep:
  assumes "held ext m f" "mgr_ok ext F m" "keep (set_mset ext) m m'" "store_ok m'"
  shows "diff_fun m' i f = diff_fun m i f"
  using held_keep(2) [OF assms] by (simp add: diff_fun_def fun_eq_iff)

lemma is_var_unique: "is_var m v i \<Longrightarrow> is_var m v j \<Longrightarrow> i = j"
  unfolding is_var_def by (drule spec [of _ "\<lambda>k. k = i"], drule spec [of _ "\<lambda>k. k = i"]) simp

lemma proj_is_var: "store_ok m \<Longrightarrow> proj m i v \<Longrightarrow> is_var m v i"
  using proj_sem(1) by (simp add: is_var_def)

lemma diff_entry:
  assumes "store_ok m" "f \<in> edges m" "r \<in> edges m" "proj m i v" "\<And>env. sem m env r = diff_fun m i f env"
  shows "entry_ok m \<lparr>c_f = f, c_g = v, c_h = fp_cuddBddBooleanDiffRecur, c_data = r\<rparr>"
proof -
  have v: "v \<in> edges m" "is_var m v i"
    using proj_is_var [OF assms(1,4)] assms(4) proj_sem(2) [OF assms(1,4)] by (simp_all add: edges_def nodes_def proj_def)
  have "sem m env r = (sem m (env(j := True)) f \<noteq> sem m (env(j := False)) f)" if "is_var m v j" for j env
    using assms(5) by (simp add: diff_fun_def is_var_unique [OF that v(2)])
  then show ?thesis using assms(2,3) v(1) by (simp add: entry_ok_def entry2_ok_def fp_defs)
qed

lemma diff_fun_indep:
  assumes "indep m l (\<lambda>env. sem m env f)"
  shows "indep m l (diff_fun m i f)"
proof -
  have "diff_fun m i f (env(j := b)) = diff_fun m i f env" if "\<And>env b. sem m (env(j := b)) f = sem m env f" for env b j
    using that by (cases "j = i") (simp_all add: diff_fun_def fun_upd_twist)
  then show ?thesis using assms by (simp add: indep_def)
qed

text \<open>The projection function of a variable the caller may name.\<close>

lemma vars_facts:
  assumes "mgr_ok ext F m" "vars_ok ext m" "i < dsize m"
  obtains nV where "held ext m (vars m ! i)" "proj m i (vars m ! i)" "heap m (vars m ! i) = Some nV"
    "nth_opt (perm m) (unat (index nV)) = Some (perm m ! i)" "unat (index nV) = i"
proof -
  note s = mgr_okD(5) [OF assms(1)]
  have v: "vars m ! i \<in># ext" "proj m i (vars m ! i)" using assms(2,3) by (simp_all add: vars_ok_def)
  have t: "vars m ! i \<in> tabnodes m" "nidx m (vars m ! i) = i" using v(2) by (simp_all add: proj_def)
  show thesis
    using that [OF heldI v(2)] v(1) proj_sem(2) [OF s v(2)] node_fields [OF s t(1)] tabnode(3) [OF s t(1)] t(2)
    by metis
qed

text \<open>The recursive case: a node above the variable.\<close>

lemma diff_above_ok:
  assumes ok: "mgr_ok ext {} m" and v: "vars_ok ext m" and i: "i < dsize m" and var: "var = vars m ! i"
    and h: "held ext m f" "elev m f < dsize m"
    and S: "\<And>env. diff_fun m i f env = (if env (invperm m ! elev m f) then diff_fun m i T env else diff_fun m i E env)"
    and idx: "unat idx = invperm m ! elev m f"
    and TE: "held ext m T" "held ext m E" "elev m f < elev m T" "elev m f < elev m E"
    and rec: "\<And>a ext' m'. mgr_ok ext' {} m' \<Longrightarrow> vars_ok ext' m' \<Longrightarrow> held ext' m' a \<Longrightarrow> i < dsize m' \<Longrightarrow>
      dsize m' - elev m' a < dsize m - elev m f \<Longrightarrow>
      delivered ext' m' (diff_fun m' i a) (cuddBddBooleanDiffRecur (Cudd_Regular a) (vars m' ! i) m')"
    and reg: "Cudd_Regular T = T"
  shows "delivered ext m (diff_fun m i f)
    (cuddBddBooleanDiffRecur T var m \<bind> (\<lambda>(t, m1). if t = NULL then Some (NULL, m1)
       else cuddRef t m1 \<bind> (\<lambda>m1. cuddBddBooleanDiffRecur (Cudd_Regular E) var m1 \<bind> (\<lambda>(e, m1).
         if e = NULL then Cudd_IterDerefBdd t m1 \<bind> (\<lambda>m1. Some (NULL, m1))
         else cuddRef e m1 \<bind> (\<lambda>m1. ite_var idx t e m1 \<bind> (\<lambda>(r, m1).
           if r = NULL then Some (NULL, m1)
           else cuddCacheInsert2 fp_cuddBddBooleanDiffRecur f var r m1 \<bind> (\<lambda>m1. Some (r, m1))))))))"
proof -
  note s = mgr_okD(5) [OF ok] and D1 = mgr_okD(2) [OF ok]
  have rec_call: "delivered ext' m' (diff_fun m i a) (cuddBddBooleanDiffRecur (Cudd_Regular a) var m')"
    if "mgr_ok ext' {} m'" "set_mset ext \<subseteq> set_mset ext'" "keep (set_mset ext) m m'"
      "held ext m a" "elev m f < elev m a" for a ext' m'
  proof -
    note s' = mgr_okD(5) [OF that(1)] and o = orderD [OF keepD(3) [OF that(3)]]
    note a = held_keep [OF that(4) ok that(3) s']
    have "dsize m' - elev m' a < dsize m - elev m f" using that(5) h(2) o(3) by (simp add: a(3))
    from rec [OF that(1) vars_ok_keep [OF v ok that(3,2)] held_mono [OF a(1) that(2)] _ this] i o(3,5)
    show ?thesis by (simp add: var diff_fun_keep [OF that(4) ok that(3) s'])
  qed
  have ind: "indep m (elev m f) (diff_fun m i T)" "indep m (elev m f) (diff_fun m i E)"
    using diff_fun_indep [OF indep_sem [OF s heldD(1) [OF TE(1) ok] TE(3)]]
      diff_fun_indep [OF indep_sem [OF s heldD(1) [OF TE(2) ok] TE(4)]] by simp_all
  show ?thesis
    apply (rule first_step [OF rec_call [OF ok order_refl keep_refl [OF ok] TE(1,3), unfolded reg]])
    subgoal premises p for t m1
      apply (rule ref_step [OF p(2,1) order_refl p(3) s])
      subgoal premises q for m2
      proof -
        note c2 = store_cong [OF q(2)] sem_cong_store [OF q(2)]
        have t2: "t \<in> edges m2" "\<And>env. sem m2 env t = diff_fun m i T env" using p(1,4) by (simp_all add: c2)
        have sub: "set_mset ext \<subseteq> set_mset (add_mset (Cudd_Regular t) ext)" by auto
        show ?thesis
          apply (rule second_step [OF q(1,3) s t2 rec_call [OF q(1) sub q(3) TE(2,4)] D1])
          subgoal premises w for e m3
            apply (rule ref_step [OF w(2,1) sub w(3) s])
            subgoal premises x for m4
            proof -
              note c4 = store_cong [OF x(2)] sem_cong_store [OF x(2)]
              have t4: "\<And>env. sem m4 env t = diff_fun m i T env" "\<And>env. sem m4 env e = diff_fun m i E env"
                and e4: "t \<in> edges m4" "e \<in> edges m4" using w(1,4,5,6) by (simp_all add: c4)
              note o = orderD [OF keepD(3) [OF x(3)]]
              have l: "elev m f < dsize m4" "unat idx = invperm m4 ! elev m f" "elev m f < elev m4 t" "elev m f < elev m4 e"
                using result_level [OF x(1) keepD(3) [OF x(3)] e4(1) t4(1) ind(1) h(2)]
                  result_level [OF x(1) keepD(3) [OF x(3)] e4(2) t4(2) ind(2) h(2)] h(2) idx o by simp_all
              show ?thesis
                apply (rule ite_var_step [OF x(1) vars_ok_keep [OF v ok x(3) order_refl] x(3) s D1 l t4])
                subgoal premises y for r m5
                proof -
                  note s5 = mgr_okD(5) [OF y(2)] and o5 = orderD [OF keepD(3) [OF y(3)]]
                  note f5 = held_keep [OF h(1) ok y(3) s5]
                  have r: "sem m5 env r = diff_fun m i f env" for env using y(4) S o(2) by simp
                  have "proj m5 i (vars m5 ! i)"
                    using vars_ok_keep [OF v ok y(3) order_refl] i o5(3) by (simp add: vars_ok_def)
                  then have en: "entry_ok m5 \<lparr>c_f = f, c_g = var, c_h = fp_cuddBddBooleanDiffRecur, c_data = r\<rparr>"
                    using diff_entry [OF s5 heldD(1) [OF f5(1) y(2)] y(1)] r o5(5)
                    by (simp add: var diff_fun_keep [OF h(1) ok y(3) s5])
                  show ?thesis by (rule insert2_step [OF y(2,3) s y(1) r en])
                qed
                done
            qed
            done
          done
      qed
      done
    done
qed

lemma cuddBddBooleanDiffRecur_ok:
  "mgr_ok ext {} m \<Longrightarrow> vars_ok ext m \<Longrightarrow> held ext m f \<Longrightarrow> i < dsize m \<Longrightarrow>
   delivered ext m (diff_fun m i f) (cuddBddBooleanDiffRecur (Cudd_Regular f) (vars m ! i) m)"
proof (induction "dsize m - elev m f" arbitrary: ext m f rule: less_induct)
  case less
  note ok = less.prems(1) and v = less.prems(2) and i = less.prems(4)
  note s = mgr_okD(5) [OF ok]
  let ?one = "DD_ONE m" and ?F = "Cudd_Regular f" and ?v = "vars m ! i"
  obtain nV where V: "held ext m ?v" "proj m i ?v" "heap m ?v = Some nV"
    "nth_opt (perm m) (unat (index nV)) = Some (perm m ! i)" "unat (index nV) = i"
    by (rule vars_facts [OF ok v i])
  have zero: "delivered ext m (diff_fun m i f) (Some (Cudd_Not ?one, m))" if "\<And>env. \<not> diff_fun m i f env"
    by (rule delivered_held [OF _ ok]) (use held_one [OF ok] sem_one [OF s] that in simp_all)
  have hF: "held ext m ?F" using less.prems(3) by (simp add: held_def)
  show ?case
  proof (cases "?F = ?one")
    case True
    then have "\<not> diff_fun m i f env" for env
      using const_edges [OF True s] sem_one [OF s] by (auto simp: diff_fun_def)
    note z = zero [OF this]
    obtain n where n: "heap m ?one = Some n" "index n = CUDD_CONST_INDEX"
      using s True by (auto simp: store_ok_def one_ok_def cont_def)
    have "perm m ! i < 65535" using order_okD(4,8) [OF s] i by (meson less_trans)
    then show ?thesis using z n V(3,4) True
      by (subst cuddBddBooleanDiffRecur.simps) (simp add: cuddI_def CUDD_CONST_INDEX_def)
  next
    case False
    have t: "?F \<in> tabnodes m" using heldD(2) [OF less.prems(3) ok] False by (auto simp: nodes_def)
    obtain nF where n: "heap m ?F = Some nF" "\<not> cuddIsConstant nF" "cuddT nF = Some (kT m ?F)" "cuddE nF = Some (kE m ?F)"
      "unat (index nF) = nidx m ?F" "nth_opt (perm m) (unat (index nF)) = Some (lev m ?F)"
      using node_fields [OF s t] by metis
    have nI: "cuddI m (index nF) = Some (lev m ?F)" using n(2,6) by (simp add: cuddI_def cuddIsConstant_def)
    note d = nodeD [OF s t] and tn = tabnode [OF s t]
    have el: "elev m f = lev m ?F" by (simp add: elev_def)
    have hk: "held ext m (kT m ?F)" "held ext m (kE m ?F)" using held_kids [OF hF _ s] t d(9) by simp_all
    show ?thesis
    proof (cases "lev m ?F > perm m ! i")
      case True
      then have "\<not> diff_fun m i f env" for env
        using sem_indep [OF s heldD(1) [OF less.prems(3) ok] i] by (simp add: diff_fun_def elev_def)
      from zero [OF this] show ?thesis using True n(1) nI V(3,4) by (subst cuddBddBooleanDiffRecur.simps) simp
    next
      case nl: False
      show ?thesis
      proof (cases "index nF = index nV")
        case True
        then have x: "nidx m ?F = i" using n(5) V(5) by simp
        have "diff_fun m i f env = (sem m env (kT m ?F) \<noteq> sem m env (kE m ?F))" for env
          unfolding diff_Regular [symmetric, of m i f]
          using sem_node [OF s t] x sem_indep [OF s d(10) i] sem_indep [OF s d(11) i] d(12,13) tn(3)
          by (simp add: diff_fun_def)
        then have "delivered ext m (diff_fun m i f) (cuddBddXorRecur (kT m ?F) (kE m ?F) m)"
          by (intro delivered_cong [OF cuddBddXorRecur_ok [OF ok hk]]) simp
        then show ?thesis using nl True n(1,3,4) nI V(3,4) by (subst cuddBddBooleanDiffRecur.simps) simp
      next
        case False
        have ne: "nidx m ?F \<noteq> i" using False n(5) V(5) by (metis unsigned_word_eqI)
        have S: "diff_fun m i ?F env = (if env (invperm m ! elev m ?F) then diff_fun m i (kT m ?F) env else diff_fun m i (kE m ?F) env)" for env
          using sem_node [OF s t] ne tn(6) d(9) by (simp add: diff_fun_def elev_def)
        have lk: "looked_up ext m (\<lambda>r. entry2_ok m \<lparr>c_f = ?F, c_g = ?v, c_h = fp_cuddBddBooleanDiffRecur, c_data = r\<rparr>)
          (cuddCacheLookup2 fp_cuddBddBooleanDiffRecur ?F ?v m)"
          by (rule cuddCacheLookup2_ok [OF ok heldD(1) [OF hF ok]])
        have "delivered ext m (diff_fun m i ?F) (cuddBddBooleanDiffRecur ?F ?v m)"
          apply (subst cuddBddBooleanDiffRecur.simps)
          apply (simp only: n(1,3,4) nI V(3,4) nl False if_False Option.bind.bind_lunit)
          apply (rule lookup_step [OF lk s])
          subgoal for r env
            using proj_is_var [OF s V(2)] by (simp add: entry2_ok_def fp_defs diff_fun_def)
          subgoal premises p for m1
          proof -
            note cc = store_cong [OF p(2)] and s1 = mgr_okD(5) [OF p(1)]
            note hm = held_keep(1) [OF _ ok p(3) s1]
            have df: "diff_fun m1 i = diff_fun m i" by (simp add: diff_fun_def fun_eq_iff sem_cong_store [OF p(2)])
            have rec: "delivered ext' m' (diff_fun m' i a) (cuddBddBooleanDiffRecur (Cudd_Regular a) (vars m' ! i) m')"
              if "mgr_ok ext' {} m'" "vars_ok ext' m'" "held ext' m' a" "i < dsize m'"
                "dsize m' - elev m' a < dsize m1 - elev m1 ?F" for a ext' m'
              using less.hyps [OF _ that(1-4)] that(5) by (simp add: cc elev_def d(9))
            show ?thesis
              by (rule delivered_step [OF _ p(3) s], rule diff_above_ok [where T = "kT m ?F" and E = "kE m ?F" and m = m1 and i = i,
                    OF p(1) vars_ok_keep [OF v ok p(3) order_refl] _ _ hm [OF hF] _ _ _ hm [OF hk(1)] hm [OF hk(2)] _ _ rec, unfolded df])
                (use i S n(5) tn(4,6) d in \<open>simp_all add: cc elev_def\<close>)
          qed
          done
        then show ?thesis by (simp add: diff_Regular)
      qed
    qed
  qed
qed

subsection \<open>Dependence of a variable\<close>

text \<open>
  A variable is dependent on the others in a function when no assignment of the others
  satisfies it for both of its values.
\<close>

definition dependent :: "DdManager \<Rightarrow> nat \<Rightarrow> ptr \<Rightarrow> bool" where
  "dependent m i f \<longleftrightarrow> \<not> (\<exists>env. sem m (env(i := True)) f \<and> sem m (env(i := False)) f)"

lemma dependent_keep:
  assumes "held ext m f" "mgr_ok ext F m" "keep (set_mset ext) m m'" "store_ok m'"
  shows "dependent m' i f = dependent m i f"
  using held_keep(2) [OF assms] by (simp add: dependent_def)

lemma tested_bind:
  assumes "tested ext m Q A" "store_ok m"
    and "\<And>m'. mgr_ok ext {} m' \<Longrightarrow> keep (set_mset ext) m m' \<Longrightarrow> tested ext m R (K Q m')"
  shows "tested ext m R (A \<bind> (\<lambda>(q, m'). K q m'))"
proof -
  obtain m1 where "A = Some (Q, m1)" "keep (set_mset ext) m m1" "mgr_ok ext {} m1"
    using assms(1) by (auto simp: tested_def)
  then show ?thesis using assms(3) by simp
qed

lemma tested_and:
  assumes "tested ext m P A" "store_ok m"
    and "\<And>m'. mgr_ok ext {} m' \<Longrightarrow> keep (set_mset ext) m m' \<Longrightarrow> tested ext m' Q (B m')"
  shows "tested ext m (P \<and> Q) (A \<bind> (\<lambda>(p, m'). if p then B m' else Some (False, m')))"
  apply (rule tested_bind [OF assms(1,2)])
  subgoal premises p for m'
    using tested_step [OF assms(3) [OF p] p(2) assms(2)] tested_step [OF tested_same [OF p(1)] p(2) assms(2)]
    by (cases P) simp_all
  done

lemma satisfiable:
  assumes "store_ok m" "e \<in> edges m" "e \<noteq> Cudd_Not (DD_ONE m)"
  shows "\<exists>env. sem m env e"
proof (rule ccontr)
  assume "\<nexists>env. sem m env e"
  then have "e = Cudd_Not (DD_ONE m)"
    using canonical [OF assms(1,2), of "Cudd_Not (DD_ONE m)"] one_edges [OF assms(1)] sem_one [OF assms(1)] by simp
  with assms(3) show False by simp
qed

lemma dependent_entry:
  assumes "store_ok m" "f \<in> edges m" "proj m i v" "q = dependent m i f"
  shows "entry_ok m \<lparr>c_f = f, c_g = v, c_h = fp_Cudd_bddVarIsDependent, c_data = Cudd_NotCond (Cudd_Not (DD_ONE m)) q\<rparr>"
proof -
  have v: "v \<in> edges m" "is_var m v i"
    using proj_is_var [OF assms(1,3)] assms(3) proj_sem(2) [OF assms(1,3)] by (simp_all add: edges_def nodes_def proj_def)
  have "Cudd_NotCond (Cudd_Not (DD_ONE m)) q = Cudd_NotCond (DD_ONE m) (\<exists>env. sem m (env(j := True)) f \<and> sem m (env(j := False)) f)"
    if "is_var m v j" for j
  proof -
    have ex: "(\<exists>env. sem m (env(i := True)) f \<and> sem m (env(i := False)) f) = (\<not> q)"
      unfolding assms(4) dependent_def by blast
    show ?thesis unfolding is_var_unique [OF that v(2)] ex by (cases q) simp_all
  qed
  then show ?thesis using assms(2) v(1) one_edges [OF assms(1)] by (simp add: entry_ok_def entry2_ok_def fp_defs)
qed

lemma dependent_split:
  assumes f: "\<And>env. sem m env f = (if env j then sem m env T else sem m env E)"
    and u: "\<And>env b. sem m (env(j := b)) T = sem m env T" "\<And>env b. sem m (env(j := b)) E = sem m env E"
    and j: "j \<noteq> i"
  shows "dependent m i f \<longleftrightarrow> dependent m i T \<and> dependent m i E"
proof -
  have w: "sem m (env(j := d, i := b)) T = sem m (env(i := b)) T" "sem m (env(j := d, i := b)) E = sem m (env(i := b)) E"
    for env b d
    using u j by (simp_all add: fun_upd_twist)
  have "dependent m i T" if d: "dependent m i f"
    using d unfolding dependent_def not_ex
    apply (intro allI)
    subgoal for env by (drule spec [of _ "env(j := True)"]) (use j w in \<open>simp add: f\<close>)
    done
  moreover have "dependent m i E" if d: "dependent m i f"
    using d unfolding dependent_def not_ex
    apply (intro allI)
    subgoal for env by (drule spec [of _ "env(j := False)"]) (use j w in \<open>simp add: f\<close>)
    done
  moreover have "dependent m i f" if "dependent m i T \<and> dependent m i E"
    using that j by (auto simp: dependent_def f)
  ultimately show ?thesis by blast
qed

lemma proj_keep:
  assumes "proj m i v" "held ext m v" "keep (set_mset ext) m m'" "store_ok m"
  shows "proj m' i v"
proof -
  have r: "v \<in> reach m (set_mset ext)" using assms(2) proj_sem(2) [OF assms(4,1)] by (simp add: held_def)
  show ?thesis
    using assms(1) keep_tab [OF assms(3) r _ assms(4)] keepD(5-7) [OF assms(3) r] orderD(4) [OF keepD(3) [OF assms(3)]]
    by (simp add: proj_def)
qed

lemma Cudd_bddVarIsDependent_ok:
  "mgr_ok ext {} m \<Longrightarrow> held ext m f \<Longrightarrow> held ext m v \<Longrightarrow> proj m i v \<Longrightarrow>
   tested ext m (dependent m i f) (Cudd_bddVarIsDependent f v m)"
proof (induction "dsize m - elev m f" arbitrary: ext m f rule: less_induct)
  case less
  note ok = less.prems(1)
  note s = mgr_okD(5) [OF ok]
  let ?one = "DD_ONE m" and ?F = "Cudd_Regular f"
  have e: "f \<in> edges m" using heldD(1) [OF less.prems(2) ok] .
  show ?case
  proof (cases "?F = ?one")
    case True
    obtain n where n: "heap m ?one = Some n" "cuddIsConstant n"
      using s True by (auto simp: store_ok_def one_ok_def cont_def cuddIsConstant_def)
    have "(f = Cudd_Not ?one) = dependent m i f"
      using const_edges [OF True s] sem_one [OF s] by (auto simp: dependent_def)
    then show ?thesis using n True by (subst Cudd_bddVarIsDependent.simps) (simp add: Let_def tested_same [OF ok])
  next
    case False
    have t: "?F \<in> tabnodes m" "v \<in> tabnodes m"
      using heldD(2) [OF less.prems(2) ok] False less.prems(4) by (auto simp: nodes_def proj_def)
    obtain nF where n: "heap m ?F = Some nF" "cuddIsConstant nF = False" "nth_opt (perm m) (unat (index nF)) = Some (elev m f)"
      "cont m ?F = Some (index nF, type nF)"
      using node_fields [OF s t(1)] unfolding elev_def by metis
    obtain nV where V: "heap m v = Some nV" "nth_opt (perm m) (unat (index nV)) = Some (lev m v)"
      using node_fields [OF s t(2)] by metis
    have lv: "lev m v = perm m ! i" "i < dsize m" using tabnode(2,3) [OF s t(2)] less.prems(4) by (simp_all add: proj_def)
    have lF: "elev m f < dsize m" using tabnode(4) [OF s t(1)] by (simp add: elev_def)
    show ?thesis
    proof (cases "elev m f > lev m v")
      case True
      have "f \<noteq> Cudd_Not ?one" using False oneD(3) [OF s] by auto
      from satisfiable [OF s e this] have "\<not> dependent m i f"
        using sem_indep [OF s e lv(2)] True lv(1) by (simp add: dependent_def)
      then show ?thesis using True n V False
        by (subst Cudd_bddVarIsDependent.simps) (simp add: Let_def tested_same [OF ok])
    next
      case nl: False
      have "looked_up ext m (\<lambda>r. entry2_ok m \<lparr>c_f = f, c_g = v, c_h = fp_Cudd_bddVarIsDependent, c_data = r\<rparr>)
        (cuddCacheLookup2 fp_Cudd_bddVarIsDependent f v m)" by (rule cuddCacheLookup2_ok [OF ok e])
      then obtain r m1 where r: "cuddCacheLookup2 fp_Cudd_bddVarIsDependent f v m = Some (r, m1)" "store m1 = store m"
        "keep (set_mset ext) m m1" "r = NULL \<and> mgr_ok ext {} m1 \<or> r \<in> edges m \<and>
          entry2_ok m \<lparr>c_f = f, c_g = v, c_h = fp_Cudd_bddVarIsDependent, c_data = r\<rparr> \<and> mgr_ok ext {Cudd_Regular r} m1"
        unfolding looked_up_def by blast
      show ?thesis
      proof (cases "r = NULL")
        case False
        then have x: "entry2_ok m \<lparr>c_f = f, c_g = v, c_h = fp_Cudd_bddVarIsDependent, c_data = r\<rparr>"
          "mgr_ok ext {Cudd_Regular r} m1" using r(4) by blast+
        have d: "r = Cudd_NotCond ?one (\<not> dependent m i f)"
          using x(1) proj_is_var [OF s less.prems(4)] by (simp add: entry2_ok_def fp_defs dependent_def)
        have one1: "DD_ONE m1 = ?one" using orderD(4) [OF keepD(3) [OF r(3)]] .
        have "Cudd_Regular r = ?one" using d oneD(3) [OF s] by simp
        then have "mgr_ok ext {} m1"
          using x(2) mgr_unfloat [of m1 ?one ext "{}"] heldD(4) [OF held_one [OF x(2)] x(2)] one1 oneD(3) [OF s] by simp
        moreover have "(r \<noteq> Cudd_Not ?one) = dependent m i f" using d by (cases "dependent m i f") simp_all
        ultimately show ?thesis using r(1,3) False n V nl
          by (subst Cudd_bddVarIsDependent.simps) (simp add: Let_def tested_def)
      next
        case True
        then have k1: "mgr_ok ext {} m1" using r(4) edges_nonnull [OF s] by auto
        note c = store_cong [OF r(2)] and s1 = mgr_okD(5) [OF k1]
        note hm = held_keep(1) [OF _ ok r(3) s1]
        have n1: "cont m1 ?F = Some (index nF, type nF)" using n(4) by (simp add: c)
        have l1: "elev m1 f < dsize m1" "lev m1 v = lev m v" "elev m1 f = elev m f" "perm m1 = perm m" using lF by (simp_all add: c)
        obtain T E where TE: "cofactors f nF True = Some (T, E)" "held ext m1 T" "held ext m1 E"
          "elev m1 f < elev m1 T" "elev m1 f < elev m1 E"
          "\<And>env. sem m1 env f = (if env (invperm m1 ! elev m1 f) then sem m1 env T else sem m1 env E)"
          using cofactors_ok [OF k1 hm [OF less.prems(2)] n1 order_refl _ l1(1)] by blast
        let ?j = "invperm m1 ! elev m1 f"
        have p1: "proj m1 i v" using less.prems(4) by (simp add: proj_def c)
        have i1: "i < dsize m1" "invperm m1 ! (perm m1 ! i) = i" "perm m1 ! ?j = elev m1 f"
          using lv(2) order_okD(9) [OF s1] order_okD(7) [OF s1 l1(1)] by (simp_all add: c)
        have q: "tested ext m1 (dependent m1 i f) (if elev m f = lev m v then Cudd_bddLeq T (Cudd_Not E) m1
          else Cudd_bddVarIsDependent T v m1 \<bind> (\<lambda>(p, m'). if p then Cudd_bddVarIsDependent E v m' else Some (False, m')))"
        proof (cases "elev m f = lev m v")
          case True
          then have j: "?j = i" using i1(2) lv(1) l1(3,4) by simp
          have u: "sem m1 (env(i := b)) T = sem m1 env T" "sem m1 (env(i := b)) E = sem m1 env E" for env b
            using sem_indep [OF s1 heldD(1) [OF TE(2) k1] i1(1)] sem_indep [OF s1 heldD(1) [OF TE(3) k1] i1(1)] TE(4,5)
              True l1 lv(1) by simp_all
          have "leq m1 T (Cudd_Not E) = dependent m1 i f"
            by (auto simp: leq_def dependent_def TE(6) j u)
          then show ?thesis using True Cudd_bddLeq_ok [OF k1 TE(2), of "Cudd_Not E"] TE(3) by simp
        next
          case False
          then have j: "?j \<noteq> i" using i1(3) l1 lv(1) by auto
          have u: "sem m1 (env(?j := b)) T = sem m1 env T" "sem m1 (env(?j := b)) E = sem m1 env E" for env b
            using sem_indep [OF s1 heldD(1) [OF TE(2) k1]] sem_indep [OF s1 heldD(1) [OF TE(3) k1]] TE(4,5)
              order_okD(6) [OF s1 l1(1)] i1(3) by simp_all
          note D = dependent_split [OF TE(6) u j]
          have rc: "tested ext m' (dependent m1 i a) (Cudd_bddVarIsDependent a v m')"
            if "mgr_ok ext {} m'" "keep (set_mset ext) m1 m'" "held ext m1 a" "elev m1 f < elev m1 a" for a m'
          proof -
            note s' = mgr_okD(5) [OF that(1)]
            note a = held_keep [OF that(3) k1 that(2) s']
            have "dsize m' - elev m' a < dsize m - elev m f"
              using that(4) l1 lF orderD(3) [OF keepD(3) [OF that(2)]] by (simp add: a(3) c)
            moreover have "proj m' i v" by (rule proj_keep [OF p1 hm [OF less.prems(3)] that(2) s1])
            ultimately show ?thesis
              using less.hyps [OF _ that(1) a(1) held_keep(1) [OF hm [OF less.prems(3)] k1 that(2) s']]
                dependent_keep [OF that(3) k1 that(2) s'] by simp
          qed
          show ?thesis
            unfolding D using False
            by (simp only: if_False)
              (rule tested_and [OF rc [OF k1 keep_refl [OF k1] TE(2,4)] s1 rc [OF _ _ TE(3,5)]])
        qed
        have "tested ext m1 (dependent m1 i f) ((if elev m f = lev m v then Cudd_bddLeq T (Cudd_Not E) m1
          else Cudd_bddVarIsDependent T v m1 \<bind> (\<lambda>(p, m'). if p then Cudd_bddVarIsDependent E v m' else Some (False, m')))
          \<bind> (\<lambda>(retval, dd). cuddCacheInsert2 fp_Cudd_bddVarIsDependent f v (Cudd_NotCond (Cudd_Not ?one) retval) dd \<bind>
            (\<lambda>dd. Some (retval, dd))))"
          apply (rule tested_bind [OF q s1])
          subgoal premises p for m'
          proof -
            note s' = mgr_okD(5) [OF p(1)]
            note a = held_keep [OF hm [OF less.prems(2)] k1 p(2) s']
            have "proj m' i v" by (rule proj_keep [OF p1 hm [OF less.prems(3)] p(2) s1])
            from dependent_entry [OF s' heldD(1) [OF a(1) p(1)] this dependent_keep [OF hm [OF less.prems(2)] k1 p(2) s', symmetric]]
            have "entry_ok m' \<lparr>c_f = f, c_g = v, c_h = fp_Cudd_bddVarIsDependent,
              c_data = Cudd_NotCond (Cudd_Not ?one) (dependent m1 i f)\<rparr>"
              using orderD(4) [OF keepD(3) [OF p(2)]] by (simp add: c)
            from cuddCacheInsert2_ok [OF p(1) this] obtain m2 where m2:
              "cuddCacheInsert2 fp_Cudd_bddVarIsDependent f v (Cudd_NotCond (Cudd_Not ?one) (dependent m1 i f)) m' = Some m2"
              "core m2 = core m'" "mgr_ok ext {} m2" by blast
            have "keep (set_mset ext) m1 m2"
              by (rule keep_trans [OF p(2) core_ok(4) [OF m2(2) mgr_okD(5,8) [OF p(1)]] s1])
            then show ?thesis using m2 by (simp add: tested_def)
          qed
          done
        from tested_step [OF this r(3) s] show ?thesis
          using dependent_keep [OF less.prems(2) ok r(3) s1]
          apply (subst Cudd_bddVarIsDependent.simps)
          apply (simp only: Let_def n(1,2,3) V nl TE(1) if_False r(1) True Option.bind.bind_lunit prod.case simp_thms)
          done
      qed
    qed
  qed
qed

end
