(* ===== verification/CuddDelay.thy ===== *)
theory CuddDelay
  imports CuddDiff
begin

text \<open>
  The delayed release of a reference: \<open>Cudd_DelayedDerefBdd\<close> puts the last reference to a node
  in the death row, and releases the node that it replaces there.
\<close>

lemma row_put:
  assumes "i < length r" "n \<noteq> NULL"
  shows "mset (filter (\<lambda>p. p \<noteq> NULL) (r[i := n])) = add_mset n (mset (filter (\<lambda>p. p \<noteq> NULL) (r[i := NULL])))"
  using drow_clear [of i "r[i := n]"] assms by simp

lemma row_shape:
  assumes "row_ok m" "n \<noteq> NULL" "deathRow m' = (deathRow m)[nextDead m := n]"
    "nextDead m' = (nextDead m + 1) AND deadMask m" "deadMask m' = deadMask m"
  shows "row_ok m'"
proof -
  obtain k where k: "nextDead m \<le> k" "\<And>i. i < length (deathRow m) \<Longrightarrow> deathRow m ! i \<noteq> NULL \<longleftrightarrow> i < k"
    "nextDead m < length (deathRow m)" "deadMask m < length (deathRow m)" using row_okE [OF assms(1)] by metis
  let ?k = "max k (Suc (nextDead m))"
  have "nextDead m' < length (deathRow m')" "nextDead m' \<le> ?k" "deadMask m' < length (deathRow m')"
    using and_le [of "nextDead m + 1" "deadMask m"] k(3,4) assms(3-5) by simp_all
  moreover have "deathRow m' ! i \<noteq> NULL \<longleftrightarrow> i < ?k" if "i < length (deathRow m')" for i
    using k(1) k(2) [of i] that assms(2,3) by (cases "i = nextDead m") auto
  ultimately show ?thesis unfolding row_ok_def by blast
qed

text \<open>The row after the release of what was in its slot.\<close>

lemma row_replaced:
  assumes ok: "mgr_ok (add_mset n ext) {} m" and "DD_ONE m \<in># ext" "n \<in> tabnodes m"
    and k: "counts_only m m1"
    and g: "graph_ok (add_mset n ext + mset (filter (\<lambda>p. p \<noteq> NULL) ((deathRow m)[nextDead m := NULL]))) {#} {} m1"
  defines "m' \<equiv> m1\<lparr>deathRow := (deathRow m)[nextDead m := n], nextDead := (nextDead m + 1) AND deadMask m\<rparr>"
  shows "mgr_ok ext {} m' \<and> keep (set_mset ext) m m'"
proof -
  note l = mgr_okD [OF ok]
  note f = counts_only_fields [OF k] and s = counts_only_store [OF k]
  have e: "m' = m1\<lparr>deadMask := deadMask m1, nextDead := (nextDead m + 1) AND deadMask m,
    deathRow := (deathRow m)[nextDead m := n]\<rparr>" by (simp add: m'_def)
  have ro: "row_ok m" using ok by (simp add: mgr_ok_def)
  have i: "nextDead m < length (deathRow m)" using ro by (simp add: row_ok_def)
  have n: "n \<noteq> NULL" using nodeD(2) [OF l(5) assms(3)] .
  note fr = set_dead_frame [where m = m1 and k = "deadMask m1" and i = "(nextDead m + 1) AND deadMask m" and
      r = "(deathRow m)[nextDead m := n]", folded e]
  have st: "store m' = store m" using fr(1) s by simp
  have dr: "drow m' = add_mset n (mset (filter (\<lambda>p. p \<noteq> NULL) ((deathRow m)[nextDead m := NULL])))"
    using row_put [OF i n] by (simp add: drow_def m'_def)
  then have "graph_ok (ext + drow m') {#} {} m'" using g fr(2) by simp
  moreover have "rest_ok m'"
  proof -
    have "0 < refc m1 (DD_ONE m)" using one_live [OF graph_okD(2) [OF g]] store_cong(7) [OF s] by simp
    then show ?thesis using rest_ok_counts [OF l(4,5) k] fr(3) by simp
  qed
  moreover have "set_mset (drow m') \<subseteq> tabnodes m'"
  proof -
    have "set_mset (mset (filter (\<lambda>p. p \<noteq> NULL) ((deathRow m)[nextDead m := NULL]))) \<subseteq> set_mset (drow m)"
      using set_update_subset_insert [of "deathRow m" "nextDead m" NULL] by (auto simp: drow_def)
    then show ?thesis using dr l(3) assms(3) by (auto simp: store_cong(10) [OF st])
  qed
  ultimately have "loose_ok ext {} m'" using assms(2) by (simp add: loose_ok_def store_cong(7) [OF st])
  moreover have "row_ok m'"
    by (rule row_shape [OF ro n]) (use f in \<open>simp_all add: m'_def\<close>)
  moreover have "keep (set_mset ext) m m'"
    by (rule keep_store [OF st _ l(5)]) (use f l(8) in \<open>auto simp: m'_def\<close>)
  ultimately show ?thesis by (simp add: mgr_ok_def)
qed

lemma delayedDeref_ok:
  assumes ok: "mgr_ok (add_mset (Cudd_Regular e) ext) {} m" and one: "DD_ONE m \<in># ext"
  shows "\<exists>m'. Cudd_DelayedDerefBdd e m = Some m' \<and> mgr_ok ext {} m' \<and> keep (set_mset ext) m m'"
proof -
  let ?n = "Cudd_Regular e" and ?m = "update_peakLive m"
  note l = mgr_okD [OF ok] and p = update_peakLive_frame [where m = m]
  note s0 = counts_only_store [OF p(1)] and f0 = counts_only_fields [OF p(1)]
  have n: "?n \<in> nodes m" using l(8) by simp
  have g0: "graph_ok (add_mset ?n (ext + drow m)) {#} {} ?m" using l(1) by (simp add: p(2))
  have "?n \<in> nodes ?m" "store_ok ?m" using n l(5) by (simp_all add: store_cong [OF s0])
  then obtain nd where nd: "heap ?m ?n = Some nd" using nodes_heap by metis
  show ?thesis
  proof (cases "cuddIsConstant nd \<or> 1 < ref nd")
    case True
    let ?m' = "put_node ?n (nd\<lparr>ref := cuddSatDec (ref nd)\<rparr>) ?m"
    have "DD_ONE ?m \<in># ext + drow m" using one p(4) by simp
    note d = dec_step [OF g0 this nd]
    have c: "counts_only m ?m'" by (rule counts_only_trans [OF p(1) d(2)])
    note s = counts_only_store [OF c]
    have "0 < refc ?m' ?n \<or> ?n \<notin> tabnodes ?m'"
    proof (cases "cuddIsConstant nd")
      case const: True
      have "?n \<notin> tabnodes ?m"
        using tabnode(1) [OF \<open>store_ok ?m\<close>, of ?n] nd const by (auto simp: cont_def cuddIsConstant_def)
      then show ?thesis by (simp add: store_cong(10) [OF s] store_cong(10) [OF s0])
    next
      case False
      then have "1 < unat (ref nd)" using True by (simp add: word_less_nat_alt)
      moreover from this have "ref nd \<noteq> 0" by auto
      ultimately show ?thesis
        using put_ref(2) [OF nd, of "cuddSatDec (ref nd)"] unat_SatDec [of "ref nd"] by (auto simp: sat_dec_def)
    qed
    then have "graph_ok (ext + drow m) {#} {} ?m'" using d(1) by (simp add: graph_unfloat)
    from mgr_ok_counts [OF ok c this one] have "mgr_ok ext {} ?m'" "keep (set_mset ext) m ?m'" using l(8) by auto
    then show ?thesis using True nd by (simp add: Cudd_DelayedDerefBdd_def Let_def)
  next
    case False
    have t: "?n \<in> tabnodes m"
    proof (rule ccontr)
      assume "?n \<notin> tabnodes m"
      then have "?n = DD_ONE m" using n by (simp add: nodes_def)
      then show False using False nd \<open>store_ok ?m\<close> p(4)
        by (auto simp: store_ok_def one_ok_def cont_def cuddIsConstant_def)
    qed
    have ro: "row_ok m" using ok by (simp add: mgr_ok_def)
    have i: "nextDead m < length (deathRow m)" using ro by (simp add: row_ok_def)
    let ?N = "deathRow m ! nextDead m"
    let ?A = "add_mset ?n ext + mset (filter (\<lambda>p. p \<noteq> NULL) ((deathRow m)[nextDead m := NULL]))"
    have "\<exists>m1. (if ?N \<noteq> NULL then iterDeref_loop ?N [] ?m else Some ?m) = Some m1 \<and>
      graph_ok ?A {#} {} m1 \<and> counts_only m m1"
    proof (cases "?N = NULL")
      case True
      have "(deathRow m)[nextDead m := NULL] = deathRow m" by (metis True list_update_id)
      then show ?thesis using True g0 p(1) by (simp add: drow_def)
    next
      case False
      have dr: "drow m = add_mset ?N (mset (filter (\<lambda>p. p \<noteq> NULL) ((deathRow m)[nextDead m := NULL])))"
        using drow_clear [OF i False] by (simp add: drow_def)
      have "graph_ok (add_mset ?N ?A) {#} {} ?m" using g0 by (simp add: dr add_mset_commute)
      moreover have "DD_ONE ?m \<in># ?A" using one p(4) by simp
      ultimately obtain m1 where "iterDeref_loop ?N [] ?m = Some m1" "graph_ok ?A {#} {} m1" "counts_only ?m m1"
        using deref_loops [of ?N "[]" ?A ?m] by auto
      then show ?thesis using False counts_only_trans [OF p(1)] by auto
    qed
    then obtain m1 where m1: "(if ?N \<noteq> NULL then iterDeref_loop ?N [] ?m else Some ?m) = Some m1"
      "graph_ok ?A {#} {} m1" "counts_only m m1" by blast
    note f = counts_only_fields [OF m1(3)]
    let ?m' = "m1\<lparr>deathRow := (deathRow m)[nextDead m := ?n], nextDead := (nextDead m + 1) AND deadMask m\<rparr>"
    have "Cudd_DelayedDerefBdd e m = Some ?m'"
      using False nd i m1(1) f f0 by (simp add: Cudd_DelayedDerefBdd_def Let_def nth_opt_def upd_opt_def)
    then show ?thesis using row_replaced [OF ok one t m1(3,2)] by simp
  qed
qed

lemma releases_delayed: "releases Cudd_DelayedDerefBdd"
  using delayedDeref_ok unfolding releases_def by blast

end
