(* ===== verification/CuddAndAbs.thy ===== *)
theory CuddAndAbs
  imports CuddDelay
begin

text \<open>
  The procedures that abstract variables from a conjunction or an exclusive or without
  building it first: what they have in common, and the one for the conjunction, of \<open>cuddAndAbs.c\<close>.
\<close>

subsection \<open>The specified function\<close>

definition bin_fun :: "(bool \<Rightarrow> bool \<Rightarrow> bool) \<Rightarrow> DdManager \<Rightarrow> nat set \<Rightarrow> ptr \<Rightarrow> ptr \<Rightarrow> (nat \<Rightarrow> bool) \<Rightarrow> bool" where
  "bin_fun opr m S f g = quantify S (\<lambda>env. opr (sem m env f) (sem m env g))"

lemma bin_fun_keep:
  assumes "held ext m f" "held ext m g" "mgr_ok ext F m" "keep (set_mset ext) m m'" "store_ok m'"
  shows "bin_fun opr m' S f g = bin_fun opr m S f g"
  using held_keep(2) [OF assms(1,3-5)] held_keep(2) [OF assms(2,3-5)] by (simp add: bin_fun_def)

lemma bin_fun_store:
  assumes "store m' = store m"
  shows "bin_fun opr m' S f g = bin_fun opr m S f g"
  by (simp add: bin_fun_def sem_cong_store [OF assms])

lemma bin_split:
  assumes "i \<notin> S" and f: "\<And>env. sem m env f = (if env i then sem m env ft else sem m env fe)"
    and g: "\<And>env. sem m env g = (if env i then sem m env gt else sem m env ge)"
  shows "bin_fun opr m S f g env = (if env i then bin_fun opr m S ft gt env else bin_fun opr m S fe ge env)"
    "(\<And>env b. sem m (env(i := b)) ft = sem m env ft) \<Longrightarrow> (\<And>env b. sem m (env(i := b)) fe = sem m env fe) \<Longrightarrow>
     (\<And>env b. sem m (env(i := b)) gt = sem m env gt) \<Longrightarrow> (\<And>env b. sem m (env(i := b)) ge = sem m env ge) \<Longrightarrow>
     bin_fun opr m (insert i S) f g env = (bin_fun opr m S ft gt env \<or> bin_fun opr m S fe ge env)"
proof -
  have e: "(\<lambda>env. opr (sem m env f) (sem m env g)) =
    (\<lambda>env. if env i then opr (sem m env ft) (sem m env gt) else opr (sem m env fe) (sem m env ge))"
    by (rule ext) (simp add: f g)
  show "bin_fun opr m S f g env = (if env i then bin_fun opr m S ft gt env else bin_fun opr m S fe ge env)"
    unfolding bin_fun_def e by (rule quantify_if [OF assms(1)])
  show "bin_fun opr m (insert i S) f g env = (bin_fun opr m S ft gt env \<or> bin_fun opr m S fe ge env)"
    if "\<And>env b. sem m (env(i := b)) ft = sem m env ft" "\<And>env b. sem m (env(i := b)) fe = sem m env fe"
      "\<And>env b. sem m (env(i := b)) gt = sem m env gt" "\<And>env b. sem m (env(i := b)) ge = sem m env ge"
    unfolding bin_fun_def e by (rule quantify_split [OF assms(1)]) (simp_all add: that)
qed

lemma bin_fun_indep:
  assumes "store_ok m" "f \<in> edges m" "g \<in> edges m" "l < elev m f" "l < elev m g"
  shows "indep m l (bin_fun opr m S f g)"
  unfolding bin_fun_def
  by (rule quantify_indep [OF indep_comb [where f = opr, OF indep_sem [OF assms(1,2,4)] indep_sem [OF assms(1,3,5)]]])

text \<open>The shortcuts of the conjunction when a partial result is one of the other cofactors.\<close>

lemma bin_fun_stable: "bin_fun opr m S f g env' = bin_fun opr m S f g env" if "\<And>i. i \<notin> S \<Longrightarrow> env' i = env i"
  using that by (simp add: bin_fun_def quantify_def)

lemma and_absorb:
  assumes "\<And>env. sem m env fe = bin_fun (\<and>) m S ft gt env"
  shows "bin_fun (\<and>) m S fe ge env \<Longrightarrow> bin_fun (\<and>) m S ft gt env"
    "bin_fun (\<and>) m S ge fe env \<Longrightarrow> bin_fun (\<and>) m S ft gt env"
proof -
  have "bin_fun (\<and>) m S ft gt env" if "e' \<in> {e'. (\<forall>i. i \<notin> S \<longrightarrow> e' i = env i) \<and> sem m e' fe}" for e'
    using that bin_fun_stable [of S e' env "(\<and>)" m ft gt] assms by simp
  then show "bin_fun (\<and>) m S fe ge env \<Longrightarrow> bin_fun (\<and>) m S ft gt env"
    "bin_fun (\<and>) m S ge fe env \<Longrightarrow> bin_fun (\<and>) m S ft gt env"
    by (auto simp: bin_fun_def [of "(\<and>)" m S fe] bin_fun_def [of "(\<and>)" m S ge] quantify_def [of _ "\<lambda>env. sem m env fe \<and> sem m env ge"]
        quantify_def [of _ "\<lambda>env. sem m env ge \<and> sem m env fe"])
qed

lemma and_complement:
  assumes "\<And>env. sem m env fe = (\<not> bin_fun (\<and>) m S ft gt env)"
  shows "(bin_fun (\<and>) m S ft gt env \<or> exist_fun m S ge env) = (bin_fun (\<and>) m S ft gt env \<or> bin_fun (\<and>) m S fe ge env)"
proof (cases "bin_fun (\<and>) m S ft gt env")
  case False
  have "sem m e' fe" if "\<forall>i. i \<notin> S \<longrightarrow> e' i = env i" for e'
    using that bin_fun_stable [of S e' env "(\<and>)" m ft gt] assms False by simp
  then have "exist_fun m S ge env = bin_fun (\<and>) m S fe ge env"
    by (auto simp: exist_fun_def bin_fun_def quantify_def)
  then show ?thesis by simp
qed simp

lemma and_commute: "bin_fun (\<and>) m S g f = bin_fun (\<and>) m S f g"
proof -
  have "(\<lambda>env. sem m env g \<and> sem m env f) = (\<lambda>env. sem m env f \<and> sem m env g)" by auto
  then show ?thesis by (simp add: bin_fun_def)
qed

lemma bin_exist:
  "(\<And>env. opr (sem m env f) (sem m env g) = sem m env h) \<Longrightarrow> bin_fun opr m S f g = exist_fun m S h"
  by (simp add: bin_fun_def exist_fun_def)

lemma bin_const: "(\<And>env. opr (sem m env f) (sem m env g) = b) \<Longrightarrow> bin_fun opr m S f g env = b"
  by (simp add: bin_fun_def)

lemma bin_none: "bin_fun opr m {} f g = (\<lambda>env. opr (sem m env f) (sem m env g))"
  by (rule ext) (simp add: bin_fun_def)

subsection \<open>Entries of the computed table\<close>

lemma abstract_entry:
  assumes "store_ok m" "f \<in> edges m" "g \<in> edges m" "r \<in> edges m" "cube m c S"
    and "tag = DD_BDD_AND_ABSTRACT_TAG \<and> opr = (\<and>) \<or> tag = DD_BDD_XOR_EXIST_ABSTRACT_TAG \<and> opr = (\<noteq>)"
    and r: "\<And>env. sem m env r = bin_fun opr m S f g env"
  shows "entry_ok m \<lparr>c_f = pack_f tag f, c_g = pack_g tag g, c_h = c, c_data = r\<rparr>"
proof (rule entry3_intro [OF _ assms(2,3)])
  have c: "c \<in> nodes m" "cube_of m c S" using cube_facts [OF assms(1,5)] by simp_all
  show "tag \<in> op3_tags" using assms(6) by (auto simp: op3_tags_def)
  show "c \<in> edges m" using c(1) assms(1) by (simp add: edges_def)
  have "sem m env r = quantify S' (\<lambda>env. opr (sem m env f) (sem m env g)) env" if "cube_of m c S'" for S' env
    using r cube_of_unique [OF that c(2)] by (simp add: bin_fun_def)
  then show "op3_ok m tag f g c r" using assms(4,6) by (auto simp: op3_ok_def tag_defs)
qed

lemma abstract_lookup:
  assumes "mgr_ok ext {} m" "f \<in> edges m" "g \<in> edges m" "cube m c S"
    and "tag = DD_BDD_AND_ABSTRACT_TAG \<and> opr = (\<and>) \<or> tag = DD_BDD_XOR_EXIST_ABSTRACT_TAG \<and> opr = (\<noteq>)"
  shows "looked_up ext m (\<lambda>r. \<forall>env. sem m env r = bin_fun opr m S f g env) (cuddCacheLookup tag f g c m)"
proof (rule looked_up_weaken [OF cuddCacheLookup_ok [OF assms(1-3)]])
  show "tag \<in> op3_tags" "tag \<noteq> DD_BDD_ITE_CONSTANT_TAG" using assms(5) by (auto simp: op3_tags_def tag_defs)
  have "cube_of m c S" using cube_facts [OF mgr_okD(5) [OF assms(1)] assms(4)] by simp
  then show "\<forall>env. sem m env r = bin_fun opr m S f g env" if "op3_ok m tag f g c r" for r
    using that assms(5) unfolding op3_ok_def bin_fun_def by (elim disjE conjE) simp_all
qed

lemma abstract_entry_at:
  assumes ok: "mgr_ok ext {} m" and h: "held ext m f" "held ext m g" "held ext m c" and c: "cube m c S"
    and tag: "tag = DD_BDD_AND_ABSTRACT_TAG \<and> opr = (\<and>) \<or> tag = DD_BDD_XOR_EXIST_ABSTRACT_TAG \<and> opr = (\<noteq>)"
    and m': "mgr_ok X F m'" "keep (set_mset ext) m m'" "r \<in> edges m'" "\<And>env. sem m' env r = bin_fun opr m S f g env"
  shows "entry_ok m' \<lparr>c_f = pack_f tag f, c_g = pack_g tag g, c_h = c, c_data = r\<rparr>" "f \<in> edges m'" "g \<in> edges m'"
proof -
  note s = mgr_okD(5) [OF ok] and s' = mgr_okD(5) [OF m'(1)]
  show e: "f \<in> edges m'" "g \<in> edges m'"
    using keep_sem(3) [OF m'(2) s s' mgr_okD(8) [OF ok]] h(1,2) by (simp_all add: held_def)
  have "sem m' env r = bin_fun opr m' S f g env" for env
    using m'(4) bin_fun_keep [OF h(1,2) ok m'(2) s'] by simp
  from abstract_entry [OF s' e m'(3) cube_keep [OF c h(3) ok m'(2)] tag this]
  show "entry_ok m' \<lparr>c_f = pack_f tag f, c_g = pack_g tag g, c_h = c, c_data = r\<rparr>" .
qed

text \<open>The last step: the result is recorded, by one procedure for shared operands only.\<close>

lemma record_step:
  assumes ok: "mgr_ok ext {} m" and h: "held ext m f" "held ext m g" "held ext m c" and c: "cube m c S"
    and tag: "tag = DD_BDD_AND_ABSTRACT_TAG \<and> opr = (\<and>) \<or> tag = DD_BDD_XOR_EXIST_ABSTRACT_TAG \<and> opr = (\<noteq>)"
    and m': "mgr_ok ext {Cudd_Regular r} m'" "keep (set_mset ext) m m'" "r \<in> edges m'"
      "\<And>env. sem m' env r = bin_fun opr m S f g env"
  shows "delivered ext m (bin_fun opr m S f g) (cuddCacheInsert tag f g c r m' \<bind> (\<lambda>m. Some (r, m)))"
    "delivered ext m (bin_fun opr m S f g) (insert_shared3 tag f g c r m' \<bind> (\<lambda>m. Some (r, m)))"
proof -
  note e = abstract_entry_at [OF ok h c tag m']
  show i: "delivered ext m (bin_fun opr m S f g) (cuddCacheInsert tag f g c r m' \<bind> (\<lambda>m. Some (r, m)))"
    using insert3_step [OF m'(1,2) mgr_okD(5) [OF ok] m'(3,4) e(1), where c = False] by simp
  obtain n n' where "heap m' (Cudd_Regular f) = Some n" "heap m' (Cudd_Regular g) = Some n'"
    using nodes_heap [OF mgr_okD(5) [OF m'(1)]] e(2,3) unfolding edges_def by (metis mem_Collect_eq)
  then show "delivered ext m (bin_fun opr m S f g) (insert_shared3 tag f g c r m' \<bind> (\<lambda>m. Some (r, m)))"
    using i delivered_edge [OF m'(3,1,2)] m'(4) by (simp add: insert_shared3_def)
qed

subsection \<open>The two results put together\<close>

lemma drop_float:
  assumes "mgr_ok (add_mset (Cudd_Regular t) ext) {Cudd_Regular t} m"
  shows "mgr_ok (add_mset (Cudd_Regular t) ext) {} m"
proof -
  have "0 < refc m (Cudd_Regular t)" using mgr_okD(9) [OF assms] by simp
  then show ?thesis using assms mgr_unfloat [of m "Cudd_Regular t"] by simp
qed

lemma merge_same:
  assumes "mgr_ok (add_mset (Cudd_Regular t) ext) {Cudd_Regular t} m1" "t \<in> edges m1"
    and k: "keep (set_mset ext) m m1" "store_ok m" "DD_ONE m \<in># ext"
    and "\<And>env. sem m1 env t = R env"
  shows "delivered ext m R (cuddDeref t m1 \<bind> (\<lambda>m1. Some (t, m1)))"
  apply (rule deref_step [OF drop_float [OF assms(1)] k])
  subgoal premises p for m3
    by (rule delivered_edge [OF _ p(1,3)])
      (use assms(2,6) in \<open>simp_all add: store_cong(12) [OF p(2)] sem_cong_store [OF p(2)]\<close>)
  done

lemma deref_result:
  assumes "mgr_ok (add_mset (Cudd_Regular r) ext) {} m1" "r \<in> edges m1"
    and k: "keep (set_mset ext) m m1" "store_ok m" "DD_ONE m \<in># ext"
    and "\<And>env. sem m1 env r = R env"
  shows "delivered ext m R (cuddDeref r m1 \<bind> (\<lambda>m1. Some (r, m1)))"
  apply (rule deref_step [OF assms(1) k])
  subgoal premises p for m3
    by (rule delivered_edge [OF _ p(1,3)])
      (use assms(2,6) in \<open>simp_all add: store_cong(12) [OF p(2)] sem_cong_store [OF p(2)]\<close>)
  done

lemma merge_or:
  assumes m1: "mgr_ok (add_mset (Cudd_Regular t) ext) {Cudd_Regular e} m1" "t \<in> edges m1" "e \<in> edges m1"
    and k: "keep (set_mset ext) m m1" "store_ok m" "DD_ONE m \<in># ext"
    and f: "\<And>env. sem m1 env t = P env" "\<And>env. sem m1 env e = Q env" and rel: "releases release"
  shows "delivered ext m (\<lambda>env. P env \<or> Q env) (cuddRef e m1 \<bind> (\<lambda>m1. disjoin release t e m1 \<bind>
      (\<lambda>(r, m1). if r = NULL then Some (NULL, m1) else cuddDeref r m1 \<bind> (\<lambda>m1. Some (r, m1)))))"
  apply (rule ref_step [OF m1(1,3) _ k(1,2)])
  subgoal by auto
  subgoal premises p for m2
    apply (rule disjoin_step [OF rel p(1,3) k(2,3), where P = P and Q = Q])
    subgoal using f(1) by (simp add: sem_cong_store [OF p(2)])
    subgoal using f(2) by (simp add: sem_cong_store [OF p(2)])
    subgoal premises q for r m3 by (rule deref_result [OF q(2,1,3) k(2,3) q(4)])
    done
  done

lemma merge_or_same:
  assumes m1: "mgr_ok (add_mset (Cudd_Regular t) ext) {Cudd_Regular e} m1" "t \<in> edges m1" "e \<in> edges m1"
    and k: "keep (set_mset ext) m m1" "store_ok m" "DD_ONE m \<in># ext"
    and f: "\<And>env. sem m1 env t = P env" "\<And>env. sem m1 env e = Q env" and rel: "releases release"
  shows "delivered ext m (\<lambda>env. P env \<or> Q env) (if t = e then cuddDeref t m1 \<bind> (\<lambda>m1. Some (t, m1))
    else cuddRef e m1 \<bind> (\<lambda>m1. disjoin release t e m1 \<bind>
      (\<lambda>(r, m1). if r = NULL then Some (NULL, m1) else cuddDeref r m1 \<bind> (\<lambda>m1. Some (r, m1)))))"
proof (cases "t = e")
  case True
  have "delivered ext m P (cuddDeref t m1 \<bind> (\<lambda>m1. Some (t, m1)))"
    by (rule merge_same [OF _ m1(2) k f(1)]) (use m1(1) True in simp)
  note d = delivered_cong [OF this]
  have "P env = Q env" for env using f True by simp
  then show ?thesis unfolding if_P [OF True] by (intro d) simp
next
  case False
  then show ?thesis using merge_or [OF assms] by simp
qed

lemma merge_node:
  assumes m1: "mgr_ok (add_mset (Cudd_Regular t) ext) {Cudd_Regular e} m1" "t \<in> edges m1" "e \<in> edges m1"
    and k: "keep (set_mset ext) m m1" "store_ok m" "DD_ONE m \<in># ext"
    and f: "\<And>env. sem m1 env t = P env" "\<And>env. sem m1 env e = Q env"
    and l: "l < dsize m" "unat idx = invperm m ! l" "indep m l P" "indep m l Q"
  shows "delivered ext m (\<lambda>env. if env (invperm m ! l) then P env else Q env)
    (cuddRef e m1 \<bind> (\<lambda>m1. combine idx t e m1 \<bind>
      (\<lambda>(r, m1). if r = NULL then Some (NULL, m1) else cuddDeref e m1 \<bind> (\<lambda>m1. cuddDeref t m1 \<bind> (\<lambda>m1. Some (r, m1))))))"
proof (rule ref_step [OF m1(1,3) _ k(1,2)])
  show "set_mset ext \<subseteq> set_mset (add_mset (Cudd_Regular t) ext)" by auto
  fix m2
  assume p: "mgr_ok (add_mset (Cudd_Regular e) (add_mset (Cudd_Regular t) ext)) {} m2" "store m2 = store m1"
    "keep (set_mset ext) m m2"
  note o = orderD [OF keepD(3) [OF p(3)]] and c = store_cong [OF p(2)] sem_cong_store [OF p(2)]
  have t2: "t \<in> edges m2" "e \<in> edges m2" "\<And>env. sem m2 env t = P env" "\<And>env. sem m2 env e = Q env"
    using m1(2,3) f by (simp_all add: c)
  show "delivered ext m (\<lambda>env. if env (invperm m ! l) then P env else Q env)
    (combine idx t e m2 \<bind> (\<lambda>(r, m1). if r = NULL then Some (NULL, m1)
      else cuddDeref e m1 \<bind> (\<lambda>m1. cuddDeref t m1 \<bind> (\<lambda>m1. Some (r, m1)))))"
  proof (rule combine_step [OF p(1) _ _ _ _ _ p(3) k(2)])
    show "DD_ONE m2 \<in># ext" "l < dsize m2" "unat idx = invperm m2 ! l" using k(3) l(1,2) o by simp_all
    show "l < elev m2 t" by (rule result_level [OF p(1) keepD(3) [OF p(3)] t2(1,3) l(3,1)])
    show "l < elev m2 e" by (rule result_level [OF p(1) keepD(3) [OF p(3)] t2(2,4) l(4,1)])
    show "e = e \<and> t = t \<or> e = t \<and> t = e" by simp
    fix r m3
    assume "mgr_ok ext {Cudd_Regular r} m3" "keep (set_mset ext) m m3" "r \<in> edges m3"
      "\<And>env. sem m3 env r = (if env (invperm m2 ! l) then sem m2 env t else sem m2 env e)"
    then show "delivered ext m (\<lambda>env. if env (invperm m ! l) then P env else Q env) (Some (r, m3))"
      using delivered_edge [of r m3 ext m] t2(3,4) o(2) by simp
  qed
qed

lemma merge_node_same:
  assumes m1: "mgr_ok (add_mset (Cudd_Regular t) ext) {Cudd_Regular e} m1" "t \<in> edges m1" "e \<in> edges m1"
    and k: "keep (set_mset ext) m m1" "store_ok m" "DD_ONE m \<in># ext"
    and f: "\<And>env. sem m1 env t = P env" "\<And>env. sem m1 env e = Q env"
    and l: "l < dsize m" "unat idx = invperm m ! l" "indep m l P" "indep m l Q"
  shows "delivered ext m (\<lambda>env. if env (invperm m ! l) then P env else Q env)
    (if t = e then cuddDeref t m1 \<bind> (\<lambda>m1. Some (t, m1))
     else cuddRef e m1 \<bind> (\<lambda>m1. combine idx t e m1 \<bind>
      (\<lambda>(r, m1). if r = NULL then Some (NULL, m1) else cuddDeref e m1 \<bind> (\<lambda>m1. cuddDeref t m1 \<bind> (\<lambda>m1. Some (r, m1))))))"
proof (cases "t = e")
  case True
  have "delivered ext m P (cuddDeref t m1 \<bind> (\<lambda>m1. Some (t, m1)))"
    by (rule merge_same [OF _ m1(2) k f(1)]) (use m1(1) True in simp)
  note d = delivered_cong [OF this]
  have "P env = Q env" for env using f True by simp
  then show ?thesis unfolding if_P [OF True] by (intro d) simp
next
  case False
  then show ?thesis using merge_node [OF assms] by simp
qed

subsection \<open>The recursive calls\<close>

lemma bin_rec_call:
  assumes ok: "mgr_ok ext {} m" and v: "vars_ok ext m" and c: "held ext m c" "cube m c S" and l: "l < dsize m"
    and rec: "\<And>a b d D ext' m'. mgr_ok ext' {} m' \<Longrightarrow> vars_ok ext' m' \<Longrightarrow> held ext' m' a \<Longrightarrow> held ext' m' b \<Longrightarrow>
      held ext' m' d \<Longrightarrow> cube m' d D \<Longrightarrow> dsize m' - min (elev m' a) (elev m' b) < dsize m - l \<Longrightarrow>
      delivered ext' m' (bin_fun opr m' D a b) (REC a b d m')"
    and k: "mgr_ok ext' {} m'" "set_mset ext \<subseteq> set_mset ext'" "keep (set_mset ext) m m'"
    and a: "held ext m a" "l < elev m a" and b: "held ext m b" "l < elev m b"
  shows "delivered ext' m' (bin_fun opr m S a b) (REC a b c m')"
proof -
  note s' = mgr_okD(5) [OF k(1)]
  note a' = held_keep [OF a(1) ok k(3) s'] and b' = held_keep [OF b(1) ok k(3) s'] and c' = held_keep [OF c(1) ok k(3) s']
  have "dsize m' - min (elev m' a) (elev m' b) < dsize m - l"
    using a(2) b(2) l orderD(3) [OF keepD(3) [OF k(3)]] by (auto simp: a'(3) b'(3))
  from rec [OF k(1) vars_ok_keep [OF v ok k(3,2)] held_mono [OF a'(1) k(2)] held_mono [OF b'(1) k(2)]
      held_mono [OF c'(1) k(2)] cube_keep [OF c(2,1) ok k(3)] this]
  show ?thesis by (simp add: bin_fun_keep [OF a(1) b(1) ok k(3) s'])
qed

lemma exist_call:
  assumes ok: "mgr_ok ext {} m" and v: "vars_ok ext m" and c: "held ext m c" "cube m c S"
    and k: "mgr_ok ext' {} m'" "set_mset ext \<subseteq> set_mset ext'" "keep (set_mset ext) m m'" and a: "held ext m a"
  shows "delivered ext' m' (exist_fun m S a) (cuddBddExistAbstractRecur a c m')"
proof -
  note s' = mgr_okD(5) [OF k(1)]
  note a' = held_keep [OF a ok k(3) s'] and c' = held_keep [OF c(1) ok k(3) s']
  from cuddBddExistAbstractRecur_ok [OF k(1) vars_ok_keep [OF v ok k(3,2)] held_mono [OF a'(1) k(2)]
      held_mono [OF c'(1) k(2)] cube_keep [OF c(2,1) ok k(3)]]
  show ?thesis by (simp add: exist_fun_keep [OF a ok k(3) s'])
qed

lemma delivered_if:
  assumes "b \<Longrightarrow> delivered ext m P A" "\<not> b \<Longrightarrow> delivered ext m Q B"
  shows "delivered ext m (if b then P else Q) (if b then A else B)"
  using assms by (cases b) simp_all

subsection \<open>Conjunction and abstraction\<close>

text \<open>The top variable of the operands is to be abstracted.\<close>

lemma and_same_ok:
  assumes ok: "mgr_ok ext {} m" and v: "vars_ok ext m" and h: "held ext m f" "held ext m g" "held ext m c"
    and S: "\<And>env. bin_fun (\<and>) m S f g env = (bin_fun (\<and>) m S' ft gt env \<or> bin_fun (\<and>) m S' fe ge env)"
    and c: "cube m c S" "cube m rest S'" "held ext m rest" and l: "l < dsize m"
    and hh: "held ext m ft" "held ext m fe" "held ext m gt" "held ext m ge"
    and ll: "l < elev m ft" "l < elev m fe" "l < elev m gt" "l < elev m ge"
    and rec: "\<And>a b d D ext' m'. mgr_ok ext' {} m' \<Longrightarrow> vars_ok ext' m' \<Longrightarrow> held ext' m' a \<Longrightarrow> held ext' m' b \<Longrightarrow>
      held ext' m' d \<Longrightarrow> cube m' d D \<Longrightarrow> dsize m' - min (elev m' a) (elev m' b) < dsize m - l \<Longrightarrow>
      delivered ext' m' (bin_fun (\<and>) m' D a b) (cuddBddAndAbstractRecur a b d m')"
    and one: "one = DD_ONE m"
  shows "delivered ext m (bin_fun (\<and>) m S f g)
    (cuddBddAndAbstractRecur ft gt rest m \<bind> (\<lambda>(t, m1). if t = NULL then Some (NULL, m1)
       else if t = one \<or> t = fe \<or> t = ge
         then insert_shared3 DD_BDD_AND_ABSTRACT_TAG f g c t m1 \<bind> (\<lambda>m1. Some (t, m1))
       else cuddRef t m1 \<bind> (\<lambda>m1. (if t = Cudd_Not fe then cuddBddExistAbstractRecur ge rest m1
           else if t = Cudd_Not ge then cuddBddExistAbstractRecur fe rest m1
           else cuddBddAndAbstractRecur fe ge rest m1) \<bind> (\<lambda>(e, m1).
         if e = NULL then Cudd_IterDerefBdd t m1 \<bind> (\<lambda>m1. Some (NULL, m1))
         else (if t = e then cuddDeref t m1 \<bind> (\<lambda>m1. Some (t, m1))
           else cuddRef e m1 \<bind> (\<lambda>m1. disjoin Cudd_DelayedDerefBdd t e m1 \<bind> (\<lambda>(r, m1).
             if r = NULL then Some (NULL, m1) else cuddDeref r m1 \<bind> (\<lambda>m1. Some (r, m1))))) \<bind> (\<lambda>(r, m1).
           if r = NULL then Some (NULL, m1)
           else insert_shared3 DD_BDD_AND_ABSTRACT_TAG f g c r m1 \<bind> (\<lambda>m1. Some (r, m1)))))))"
proof -
  note s = mgr_okD(5) [OF ok] and D1 = mgr_okD(2) [OF ok]
  have rec_call: "delivered ext' m' (bin_fun (\<and>) m S' a b) (cuddBddAndAbstractRecur a b rest m')"
    if "mgr_ok ext' {} m'" "set_mset ext \<subseteq> set_mset ext'" "keep (set_mset ext) m m'"
      "held ext m a" "l < elev m a" "held ext m b" "l < elev m b" for a b ext' m'
    by (rule bin_rec_call [OF ok v c(3,2) l rec that])
  note rcd = record_step(2) [OF ok h c(1), where tag = DD_BDD_AND_ABSTRACT_TAG and opr = "(\<and>)", simplified]
  let ?P = "bin_fun (\<and>) m S' ft gt" and ?Q = "bin_fun (\<and>) m S' fe ge"
  show ?thesis
    apply (rule first_step [OF rec_call [OF ok order_refl keep_refl [OF ok] hh(1) ll(1) hh(3) ll(3)]])
    subgoal premises p for t m1
    proof -
      note s1 = mgr_okD(5) [OF p(2)]
      have kt: "sem m1 env fe = sem m env fe" "sem m1 env ge = sem m env ge" for env
        using held_keep(2) [OF hh(2) ok p(3) s1] held_keep(2) [OF hh(4) ok p(3) s1] by simp_all
      show ?thesis
      proof (cases "t = one \<or> t = fe \<or> t = ge")
        case True
        have "?Q env \<Longrightarrow> ?P env" for env
          using True
        proof (elim disjE)
          assume "t = one"
          then have "t = DD_ONE m1" using orderD(4) [OF keepD(3) [OF p(3)]] by (simp add: one)
          then show "?P env" using p(4) [of env] sem_one [OF s1] by simp
        next
          assume "t = fe" "?Q env"
          then show "?P env" using and_absorb(1) [of m fe S' ft gt ge env] p(4) kt(1) by simp
        next
          assume "t = ge" "?Q env"
          then show "?P env" using and_absorb(2) [of m ge S' ft gt fe env] p(4) kt(2) by simp
        qed
        then have "sem m1 env t = bin_fun (\<and>) m S f g env" for env using p(4) S by auto
        then show ?thesis using True rcd [OF p(2,3,1)] by simp
      next
        case nt: False
        define Q where "Q = (if t = Cudd_Not fe then exist_fun m S' ge else if t = Cudd_Not ge then exist_fun m S' fe else ?Q)"
        have Q: "(?P env \<or> Q env) = bin_fun (\<and>) m S f g env" for env
        proof -
          have "sem m env fe = (\<not> ?P env)" if "t = Cudd_Not fe" for env using that p(4) [of env] kt(1) s1 by (auto simp: sem_Not)
          moreover have "sem m env ge = (\<not> ?P env)" if "t = Cudd_Not ge" for env using that p(4) [of env] kt(2) s1 by (auto simp: sem_Not)
          ultimately show ?thesis
            using and_complement [of m fe S' ft gt env ge] and_complement [of m ge S' ft gt env fe]
            by (simp add: Q_def S and_commute [of m S' fe ge])
        qed
        show ?thesis
          apply (simp only: nt if_False)
          apply (rule ref_step [OF p(2,1) order_refl p(3) s])
          subgoal premises q for m2
          proof -
            note c2 = store_cong [OF q(2)] sem_cong_store [OF q(2)]
            have t2: "t \<in> edges m2" "\<And>env. sem m2 env t = ?P env" using p(1,4) by (simp_all add: c2)
            have sub: "set_mset ext \<subseteq> set_mset (add_mset (Cudd_Regular t) ext)" by auto
            have B: "delivered (add_mset (Cudd_Regular t) ext) m2 Q (if t = Cudd_Not fe then cuddBddExistAbstractRecur ge rest m2
              else if t = Cudd_Not ge then cuddBddExistAbstractRecur fe rest m2 else cuddBddAndAbstractRecur fe ge rest m2)"
              unfolding Q_def
              by (intro delivered_if exist_call [OF ok v c(3,2) q(1) sub q(3) hh(4)]
                exist_call [OF ok v c(3,2) q(1) sub q(3) hh(2)] rec_call [OF q(1) sub q(3) hh(2) ll(2) hh(4) ll(4)])
            show ?thesis
              apply (rule second_step [OF q(1,3) s t2 B D1])
              subgoal premises w for e m3
                apply (rule first_step [OF merge_or_same [OF w(2,4,1,3) s D1 w(5,6) releases_delayed]])
                subgoal premises x for r m4
                  by (rule rcd [OF x(2,3,1)]) (simp add: x(4) Q)
                done
              done
          qed
          done
      qed
    qed
    done
qed

text \<open>The top variable of the operands is above the cube.\<close>

lemma and_above_ok:
  assumes ok: "mgr_ok ext {} m" and v: "vars_ok ext m" and h: "held ext m f" "held ext m g" "held ext m c"
    and S: "\<And>env. bin_fun (\<and>) m S f g env =
      (if env (invperm m ! l) then bin_fun (\<and>) m S ft gt env else bin_fun (\<and>) m S fe ge env)"
    and c: "cube m c S" and l: "l < dsize m" "unat idx = invperm m ! l"
    and hh: "held ext m ft" "held ext m fe" "held ext m gt" "held ext m ge"
    and ll: "l < elev m ft" "l < elev m fe" "l < elev m gt" "l < elev m ge"
    and rec: "\<And>a b d D ext' m'. mgr_ok ext' {} m' \<Longrightarrow> vars_ok ext' m' \<Longrightarrow> held ext' m' a \<Longrightarrow> held ext' m' b \<Longrightarrow>
      held ext' m' d \<Longrightarrow> cube m' d D \<Longrightarrow> dsize m' - min (elev m' a) (elev m' b) < dsize m - l \<Longrightarrow>
      delivered ext' m' (bin_fun (\<and>) m' D a b) (cuddBddAndAbstractRecur a b d m')"
  shows "delivered ext m (bin_fun (\<and>) m S f g)
    (cuddBddAndAbstractRecur ft gt c m \<bind> (\<lambda>(t, m1). if t = NULL then Some (NULL, m1)
       else cuddRef t m1 \<bind> (\<lambda>m1. cuddBddAndAbstractRecur fe ge c m1 \<bind> (\<lambda>(e, m1).
         if e = NULL then Cudd_IterDerefBdd t m1 \<bind> (\<lambda>m1. Some (NULL, m1))
         else (if t = e then cuddDeref t m1 \<bind> (\<lambda>m1. Some (t, m1))
           else cuddRef e m1 \<bind> (\<lambda>m1. combine idx t e m1 \<bind> (\<lambda>(r, m1).
             if r = NULL then Some (NULL, m1)
             else cuddDeref e m1 \<bind> (\<lambda>m1. cuddDeref t m1 \<bind> (\<lambda>m1. Some (r, m1)))))) \<bind> (\<lambda>(r, m1).
           if r = NULL then Some (NULL, m1)
           else insert_shared3 DD_BDD_AND_ABSTRACT_TAG f g c r m1 \<bind> (\<lambda>m1. Some (r, m1)))))))"
proof -
  note s = mgr_okD(5) [OF ok] and D1 = mgr_okD(2) [OF ok]
  have rec_call: "delivered ext' m' (bin_fun (\<and>) m S a b) (cuddBddAndAbstractRecur a b c m')"
    if "mgr_ok ext' {} m'" "set_mset ext \<subseteq> set_mset ext'" "keep (set_mset ext) m m'"
      "held ext m a" "l < elev m a" "held ext m b" "l < elev m b" for a b ext' m'
    by (rule bin_rec_call [OF ok v h(3) c l(1) rec that])
  note rcd = record_step(2) [OF ok h c, where tag = DD_BDD_AND_ABSTRACT_TAG and opr = "(\<and>)", simplified]
  have e: "ft \<in> edges m" "fe \<in> edges m" "gt \<in> edges m" "ge \<in> edges m" using hh heldD(1) [OF _ ok] by blast+
  note ind = bin_fun_indep [where opr = "(\<and>)" and S = S, OF s e(1,3) ll(1,3)]
    bin_fun_indep [where opr = "(\<and>)" and S = S, OF s e(2,4) ll(2,4)]
  show ?thesis
    apply (rule first_step [OF rec_call [OF ok order_refl keep_refl [OF ok] hh(1) ll(1) hh(3) ll(3)]])
    subgoal premises p for t m1
      apply (rule ref_step [OF p(2,1) order_refl p(3) s])
      subgoal premises q for m2
      proof -
        note c2 = store_cong [OF q(2)] sem_cong_store [OF q(2)]
        have t2: "t \<in> edges m2" "\<And>env. sem m2 env t = bin_fun (\<and>) m S ft gt env" using p(1,4) by (simp_all add: c2)
        have sub: "set_mset ext \<subseteq> set_mset (add_mset (Cudd_Regular t) ext)" by auto
        show ?thesis
          apply (rule second_step [OF q(1,3) s t2 rec_call [OF q(1) sub q(3) hh(2) ll(2) hh(4) ll(4)] D1])
          subgoal premises w for e m3
            apply (rule first_step [OF merge_node_same [OF w(2,4,1,3) s D1 w(5,6) l ind]])
            subgoal premises x for r m4
              by (rule rcd [OF x(2,3,1)]) (simp add: x(4) S)
            done
          done
      qed
      done
    done
qed

text \<open>The function of the part of the cube that is not above the operands is the same.\<close>

lemma bin_drop:
  assumes "mgr_ok ext F m" "held ext m f" "held ext m g" "S' \<subseteq> S" "finite S"
    and "\<And>i. i \<in> S - S' \<Longrightarrow> i < dsize m \<and> perm m ! i < min (elev m f) (elev m g)"
  shows "bin_fun opr m S f g env = bin_fun opr m S' f g env"
  unfolding bin_fun_def
proof (rule quantify_drop [OF assms(4,5)])
  fix i b and env :: "nat \<Rightarrow> bool"
  assume "i \<in> S - S'"
  then have i: "i < dsize m" "perm m ! i < elev m f" "perm m ! i < elev m g" using assms(6) [of i] by simp_all
  note s = mgr_okD(5) [OF assms(1)]
  show "opr (sem m (env(i := b)) f) (sem m (env(i := b)) g) = opr (sem m env f) (sem m env g)"
    using sem_indep [OF s heldD(1) [OF assms(2,1)] i(1)] sem_indep [OF s heldD(1) [OF assms(3,1)] i(1)] i(2,3) by simp
qed

text \<open>The cofactors of two operands that are not constant, and what they say of the abstraction.\<close>

lemma pair_cofactors:
  assumes ok: "mgr_ok ext F m" and h: "held ext m f" "held ext m g"
    and t: "Cudd_Regular f \<in> tabnodes m" "Cudd_Regular g \<in> tabnodes m"
    and n: "cont m (Cudd_Regular f) = Some (index nF, type nF)" "cont m (Cudd_Regular g) = Some (index nG, type nG)"
    and l: "l = min (elev m f) (elev m g)"
  obtains ft fe gt ge where "cofactors f nF (elev m f = l) = Some (ft, fe)" "cofactors g nG (elev m g = l) = Some (gt, ge)"
    "held ext m ft" "held ext m fe" "held ext m gt" "held ext m ge"
    "l < elev m ft" "l < elev m fe" "l < elev m gt" "l < elev m ge"
    "\<And>opr S env. invperm m ! l \<notin> S \<Longrightarrow>
      bin_fun opr m S f g env = (if env (invperm m ! l) then bin_fun opr m S ft gt env else bin_fun opr m S fe ge env)"
    "\<And>opr S env. invperm m ! l \<notin> S \<Longrightarrow>
      bin_fun opr m (insert (invperm m ! l) S) f g env = (bin_fun opr m S ft gt env \<or> bin_fun opr m S fe ge env)"
    "l < dsize m" "perm m ! (invperm m ! l) = l" "unat (if elev m f = l then index nF else index nG) = invperm m ! l"
proof -
  note s = mgr_okD(5) [OF ok]
  have l': "l \<le> elev m f" "l \<le> elev m g" "l < dsize m"
    using node_level(2) [OF ok t(1) n(1)] by (auto simp: l)
  let ?i = "invperm m ! l"
  have i: "?i < dsize m" "perm m ! ?i = l" using order_okD(6,7) [OF s l'(3)] by simp_all
  obtain ft fe where f: "cofactors f nF (elev m f = l) = Some (ft, fe)" "held ext m ft" "held ext m fe"
    "l < elev m ft" "l < elev m fe" "\<And>env. sem m env f = (if env ?i then sem m env ft else sem m env fe)"
    using cofactors_ok [OF ok h(1) n(1) l'(1) refl l'(3)] by metis
  obtain gt ge where g: "cofactors g nG (elev m g = l) = Some (gt, ge)" "held ext m gt" "held ext m ge"
    "l < elev m gt" "l < elev m ge" "\<And>env. sem m env g = (if env ?i then sem m env gt else sem m env ge)"
    using cofactors_ok [OF ok h(2) n(2) l'(2) refl l'(3)] by metis
  have u: "sem m (env(?i := b)) e = sem m env e" if "held ext m e" "l < elev m e" for e env b
    using sem_indep [OF s heldD(1) [OF that(1) ok] i(1)] that(2) i(2) by simp
  have x: "unat (if elev m f = l then index nF else index nG) = ?i"
    using node_level(3) [OF ok t(1) n(1)] node_level(3) [OF ok t(2) n(2)] by (auto simp: l min_def)
  show thesis
    by (rule that [OF f(1) g(1) f(2,3) g(2,3) f(4,5) g(4,5) _ _ l'(3) i(2) x])
      (rule bin_split(1) [OF _ f(6) g(6)], assumption,
       rule bin_split(2) [OF _ f(6) g(6) u [OF f(2,4)] u [OF f(3,5)] u [OF g(2,4)] u [OF g(3,5)]])
qed

text \<open>The recursive case: two operands and a cube that is not above them.\<close>

lemma and_pair_abstract_ok:
  assumes ok: "mgr_ok ext {} m" and v: "vars_ok ext m" and h: "held ext m f" "held ext m g" "held ext m c"
    and c: "cube m c S" "c \<noteq> DD_ONE m"
    and t: "Cudd_Regular f \<in> tabnodes m" "Cudd_Regular g \<in> tabnodes m"
    and n: "cont m (Cudd_Regular f) = Some (index nF, type nF)" "cont m (Cudd_Regular g) = Some (index nG, type nG)"
    and l: "l = min (elev m f) (elev m g)" "l \<le> lev m c"
    and rec: "\<And>a b d D ext' m'. mgr_ok ext' {} m' \<Longrightarrow> vars_ok ext' m' \<Longrightarrow> held ext' m' a \<Longrightarrow> held ext' m' b \<Longrightarrow>
      held ext' m' d \<Longrightarrow> cube m' d D \<Longrightarrow> dsize m' - min (elev m' a) (elev m' b) < dsize m - l \<Longrightarrow>
      delivered ext' m' (bin_fun (\<and>) m' D a b) (cuddBddAndAbstractRecur a b d m')"
    and one: "one = DD_ONE m" and pm: "pm = perm m"
  shows "delivered ext m (bin_fun (\<and>) m S f g)
    (heap m c \<bind> (\<lambda>nC. nth_opt pm (unat (index nC)) \<bind> (\<lambda>topcube.
     cofactors f nF (elev m f = l) \<bind> (\<lambda>(ft, fe). cofactors g nG (elev m g = l) \<bind> (\<lambda>(gt, ge).
     if topcube = l then cuddT nC \<bind> (\<lambda>rest.
       cuddBddAndAbstractRecur ft gt rest m \<bind> (\<lambda>(t, m1). if t = NULL then Some (NULL, m1)
       else if t = one \<or> t = fe \<or> t = ge
         then insert_shared3 DD_BDD_AND_ABSTRACT_TAG f g c t m1 \<bind> (\<lambda>m1. Some (t, m1))
       else cuddRef t m1 \<bind> (\<lambda>m1. (if t = Cudd_Not fe then cuddBddExistAbstractRecur ge rest m1
           else if t = Cudd_Not ge then cuddBddExistAbstractRecur fe rest m1
           else cuddBddAndAbstractRecur fe ge rest m1) \<bind> (\<lambda>(e, m1).
         if e = NULL then Cudd_IterDerefBdd t m1 \<bind> (\<lambda>m1. Some (NULL, m1))
         else (if t = e then cuddDeref t m1 \<bind> (\<lambda>m1. Some (t, m1))
           else cuddRef e m1 \<bind> (\<lambda>m1. disjoin Cudd_DelayedDerefBdd t e m1 \<bind> (\<lambda>(r, m1).
             if r = NULL then Some (NULL, m1) else cuddDeref r m1 \<bind> (\<lambda>m1. Some (r, m1))))) \<bind> (\<lambda>(r, m1).
           if r = NULL then Some (NULL, m1)
           else insert_shared3 DD_BDD_AND_ABSTRACT_TAG f g c r m1 \<bind> (\<lambda>m1. Some (r, m1)))))))
     else cuddBddAndAbstractRecur ft gt c m \<bind> (\<lambda>(t, m1). if t = NULL then Some (NULL, m1)
       else cuddRef t m1 \<bind> (\<lambda>m1. cuddBddAndAbstractRecur fe ge c m1 \<bind> (\<lambda>(e, m1).
         if e = NULL then Cudd_IterDerefBdd t m1 \<bind> (\<lambda>m1. Some (NULL, m1))
         else (if t = e then cuddDeref t m1 \<bind> (\<lambda>m1. Some (t, m1))
           else cuddRef e m1 \<bind> (\<lambda>m1. combine (if elev m f = l then index nF else index nG) t e m1 \<bind> (\<lambda>(r, m1).
             if r = NULL then Some (NULL, m1)
             else cuddDeref e m1 \<bind> (\<lambda>m1. cuddDeref t m1 \<bind> (\<lambda>m1. Some (r, m1)))))) \<bind> (\<lambda>(r, m1).
           if r = NULL then Some (NULL, m1)
           else insert_shared3 DD_BDD_AND_ABSTRACT_TAG f g c r m1 \<bind> (\<lambda>m1. Some (r, m1)))))))))))"
proof -
  note s = mgr_okD(5) [OF ok]
  obtain S' where r: "c \<in> tabnodes m" "S = insert (nidx m c) S'" "nidx m c \<notin> S'" "cube m (kT m c) S'"
    "\<And>i. i \<in> S' \<Longrightarrow> lev m c < perm m ! i" using cube_rest [OF c s] by metis
  obtain nC where nC: "heap m c = Some nC" "cuddT nC = Some (kT m c)"
    "nth_opt (perm m) (unat (index nC)) = Some (lev m c)" using node_fields [OF s r(1)] by metis
  obtain ft fe gt ge where
    cf: "cofactors f nF (elev m f = l) = Some (ft, fe)" "cofactors g nG (elev m g = l) = Some (gt, ge)" and
    hh: "held ext m ft" "held ext m fe" "held ext m gt" "held ext m ge" and
    ll: "l < elev m ft" "l < elev m fe" "l < elev m gt" "l < elev m ge" and
    sp: "\<And>opr S env. invperm m ! l \<notin> S \<Longrightarrow> bin_fun opr m S f g env =
        (if env (invperm m ! l) then bin_fun opr m S ft gt env else bin_fun opr m S fe ge env)"
      "\<And>opr S env. invperm m ! l \<notin> S \<Longrightarrow> bin_fun opr m (insert (invperm m ! l) S) f g env =
        (bin_fun opr m S ft gt env \<or> bin_fun opr m S fe ge env)" and
    i: "l < dsize m" "perm m ! (invperm m ! l) = l" "unat (if elev m f = l then index nF else index nG) = invperm m ! l"
    by (rule pair_cofactors [OF ok h(1,2) t n l(1)]) (rule that, assumption+)
  have ieq: "lev m c = l \<Longrightarrow> nidx m c = invperm m ! l" using tabnode(6) [OF s r(1)] by simp
  show ?thesis
  proof (cases "lev m c = l")
    case True
    have hr: "held ext m (kT m c)" using held_kids(1) [OF h(3) _ s] nodeD(9) [OF s r(1)] r(1) by simp
    have S: "bin_fun (\<and>) m S f g env = (bin_fun (\<and>) m S' ft gt env \<or> bin_fun (\<and>) m S' fe ge env)" for env
      unfolding r(2) ieq [OF True] by (rule sp(2)) (use r(3) ieq [OF True] in simp)
    show ?thesis
      unfolding nC(1,2,3) pm cf Option.bind.bind_lunit prod.case if_P [OF True]
      by (rule and_same_ok [OF ok v h S c(1) r(4) hr i(1) hh ll rec one])
  next
    case False
    have "invperm m ! l \<notin> S" using r(2,5) l(2) False i(2) tabnode(3) [OF s r(1)] by fastforce
    note S = sp(1) [OF this]
    show ?thesis
      unfolding nC(1,2,3) pm cf Option.bind.bind_lunit prod.case if_not_P [OF False]
      by (rule and_above_ok [OF ok v h S c(1) i(1,3) hh ll rec])
  qed
qed

text \<open>The whole procedure, for operands that are neither constant nor related.\<close>

lemma and_general_ok:
  assumes ok: "mgr_ok ext {} m" and v: "vars_ok ext m" and h: "held ext m f0" "held ext m g0" "held ext m c"
    and c: "cube m c S" "c \<noteq> DD_ONE m"
    and ne: "Cudd_Regular f0 \<noteq> DD_ONE m" "Cudd_Regular g0 \<noteq> DD_ONE m" "f0 \<noteq> g0" "f0 \<noteq> Cudd_Not g0"
    and rec: "\<And>a b d D ext' m'. mgr_ok ext' {} m' \<Longrightarrow> vars_ok ext' m' \<Longrightarrow> held ext' m' a \<Longrightarrow> held ext' m' b \<Longrightarrow>
      held ext' m' d \<Longrightarrow> cube m' d D \<Longrightarrow> dsize m' - min (elev m' a) (elev m' b) < dsize m - min (elev m f0) (elev m g0) \<Longrightarrow>
      delivered ext' m' (bin_fun (\<and>) m' D a b) (cuddBddAndAbstractRecur a b d m')"
  shows "delivered ext m (bin_fun (\<and>) m S f0 g0) (cuddBddAndAbstractRecur f0 g0 c m)"
proof -
  note s = mgr_okD(5) [OF ok]
  define f g where fg: "f = (if f0 > g0 then g0 else f0)" "g = (if f0 > g0 then f0 else g0)"
  define l where "l = min (elev m f) (elev m g)"
  have l: "l = min (elev m f0) (elev m g0)" "ddMin (elev m f) (elev m g) = l"
    by (auto simp: fg l_def ddMin_def min_def)
  have h': "held ext m f" "held ext m g" using h(1,2) by (simp_all add: fg)
  have nc: "f0 \<noteq> DD_ONE m" "g0 \<noteq> DD_ONE m" "f0 \<noteq> Cudd_Not (DD_ONE m)" "g0 \<noteq> Cudd_Not (DD_ONE m)"
    using ne(1,2) oneD(3) [OF s] by auto
  have t: "Cudd_Regular f \<in> tabnodes m" "Cudd_Regular g \<in> tabnodes m"
    using heldD(2) [OF h'(1) ok] heldD(2) [OF h'(2) ok] ne(1,2) by (auto simp: fg nodes_def split: if_splits)
  obtain nF nG where n: "heap m (Cudd_Regular f) = Some nF" "heap m (Cudd_Regular g) = Some nG"
    "cont m (Cudd_Regular f) = Some (index nF, type nF)" "cont m (Cudd_Regular g) = Some (index nG, type nG)"
    using node_fields [OF s t(1)] node_fields [OF s t(2)] by metis
  note pf = node_level(1) [OF ok t(1) n(3)] and pg = node_level(1) [OF ok t(2) n(4)]
  obtain c' S' where c': "skip_above l c m = Some c'" "cube m c' S'" "held ext m c'" "S' \<subseteq> S"
    "\<forall>i \<in> S - S'. i < dsize m \<and> perm m ! i < l" "c' \<noteq> DD_ONE m \<longrightarrow> l \<le> lev m c'"
    using skip_above_ok [OF c h(3) ok] by blast
  have fin: "finite S" using cube_facts [OF s c(1)] by simp
  have "bin_fun (\<and>) m S f0 g0 = bin_fun (\<and>) m S f g" by (simp add: fg and_commute)
  also have "\<dots> = bin_fun (\<and>) m S' f g"
    by (rule ext) (rule bin_drop [OF ok h' c'(4) fin], use c'(5) l_def in simp)
  finally have S: "bin_fun (\<and>) m S f0 g0 = bin_fun (\<and>) m S' f g" .
  show ?thesis
    unfolding S
  proof (cases "c' = DD_ONE m")
    case True
    then have "S' = {}" using c'(2) one_not_tab [OF s] by (auto elim: cubeE)
    then have "delivered ext m (bin_fun (\<and>) m S' f g) (cuddBddAndRecur f g m)"
      using cuddBddAndRecur_ok [OF ok h'] by (simp add: bin_none)
    then show "delivered ext m (bin_fun (\<and>) m S' f g) (cuddBddAndAbstractRecur f0 g0 c m)"
      by (subst cuddBddAndAbstractRecur.simps)
        (simp only: Let_def nc ne(3,4) c(2) simp_thms if_False fg [symmetric] n(1,2) pf pg l(2) c'(1) True
          Option.bind.bind_lunit if_True)
  next
    case False
    have lk: "looked_up ext m (\<lambda>r. \<forall>env. sem m env r = bin_fun (\<and>) m S' f g env)
      (if ref nF \<noteq> 1 \<or> ref nG \<noteq> 1 then cuddCacheLookup DD_BDD_AND_ABSTRACT_TAG f g c' m else Some (NULL, m))"
      using abstract_lookup [OF ok heldD(1) [OF h'(1) ok] heldD(1) [OF h'(2) ok] c'(2),
          of DD_BDD_AND_ABSTRACT_TAG "(\<and>)"] no_lookup [OF ok] by simp
    have ct: "c' \<in> tabnodes m" using cube_rest [OF c'(2) False s] by blast
    show "delivered ext m (bin_fun (\<and>) m S' f g) (cuddBddAndAbstractRecur f0 g0 c m)"
      apply (subst cuddBddAndAbstractRecur.simps)
      apply (simp only: Let_def nc ne(3,4) c(2) simp_thms if_False fg [symmetric] n(1,2) pf pg l(2) c'(1) False
          Option.bind.bind_lunit)
      apply (rule lookup_step [OF lk s])
      subgoal by simp
      subgoal premises p for m1
      proof -
        note cc = store_cong [OF p(2)] and s1 = mgr_okD(5) [OF p(1)]
        note hm = held_keep(1) [OF _ ok p(3) s1]
        have rec1: "\<And>a b d D ext' m'. mgr_ok ext' {} m' \<Longrightarrow> vars_ok ext' m' \<Longrightarrow> held ext' m' a \<Longrightarrow> held ext' m' b \<Longrightarrow>
          held ext' m' d \<Longrightarrow> cube m' d D \<Longrightarrow> dsize m' - min (elev m' a) (elev m' b) < dsize m1 - l \<Longrightarrow>
          delivered ext' m' (bin_fun (\<and>) m' D a b) (cuddBddAndAbstractRecur a b d m')"
          using rec l(1) by (simp add: cc)
        have e: "elev m f = elev m1 f" "elev m g = elev m1 g" "perm m = perm m1" by (simp_all add: cc)
        have lv: "l = min (elev m1 f) (elev m1 g)" "l \<le> lev m1 c'" using c'(6) False by (simp_all add: cc l_def)
        show ?thesis
          unfolding e(1,2)
          by (rule delivered_step [OF _ p(3) s], subst bin_fun_store [OF p(2), symmetric],
              rule and_pair_abstract_ok [OF p(1) vars_ok_keep [OF v ok p(3) order_refl] hm [OF h'(1)] hm [OF h'(2)]
                hm [OF c'(3)] cube_store [OF p(2) c'(2)] _ _ _ _ _ lv rec1])
            (use t n(3,4) False in \<open>simp_all add: cc\<close>)
      qed
      done
  qed
qed

lemma cuddBddAndAbstractRecur_ok:
  "mgr_ok ext {} m \<Longrightarrow> vars_ok ext m \<Longrightarrow> held ext m f \<Longrightarrow> held ext m g \<Longrightarrow> held ext m c \<Longrightarrow> cube m c S \<Longrightarrow>
   delivered ext m (bin_fun (\<and>) m S f g) (cuddBddAndAbstractRecur f g c m)"
proof (induction "dsize m - min (elev m f) (elev m g)" arbitrary: ext m f g c S rule: less_induct)
  case less
  note ok = less.prems(1) and v = less.prems(2) and h = less.prems(3-5) and c = less.prems(6)
  note s = mgr_okD(5) [OF ok]
  let ?one = "DD_ONE m" and ?zero = "Cudd_Not (DD_ONE m)"
  note sn = sem_one [OF s] and ex = cuddBddExistAbstractRecur_ok [OF ok v _ h(3) c]
  consider (zero) "f = ?zero \<or> g = ?zero \<or> f = Cudd_Not g"
    | (one) "\<not> (f = ?zero \<or> g = ?zero \<or> f = Cudd_Not g)" "f = ?one" "g = ?one"
    | (nocube) "\<not> (f = ?zero \<or> g = ?zero \<or> f = Cudd_Not g)" "\<not> (f = ?one \<and> g = ?one)" "c = ?one"
    | (left) "\<not> (f = ?zero \<or> g = ?zero \<or> f = Cudd_Not g)" "\<not> (f = ?one \<and> g = ?one)" "c \<noteq> ?one" "f = ?one \<or> f = g"
    | (right) "\<not> (f = ?zero \<or> g = ?zero \<or> f = Cudd_Not g)" "\<not> (f = ?one \<and> g = ?one)" "c \<noteq> ?one" "\<not> (f = ?one \<or> f = g)"
        "g = ?one"
    | (rec) "f \<noteq> ?zero" "g \<noteq> ?zero" "f \<noteq> Cudd_Not g" "c \<noteq> ?one" "f \<noteq> ?one" "f \<noteq> g" "g \<noteq> ?one" by blast
  then show ?case
  proof cases
    case zero
    have "bin_fun (\<and>) m S f g env = False" for env by (rule bin_const) (use zero sn in auto)
    then have "delivered ext m (bin_fun (\<and>) m S f g) (Some (?zero, m))"
      using held_one [OF ok] sn by (intro delivered_held) (simp_all add: ok)
    then show ?thesis using zero by (subst cuddBddAndAbstractRecur.simps) (simp only: Let_def if_True)
  next
    case one
    have "bin_fun (\<and>) m S f g env = True" for env by (rule bin_const) (use one sn in auto)
    then have "delivered ext m (bin_fun (\<and>) m S f g) (Some (?one, m))"
      using held_one [OF ok] sn by (intro delivered_held) (simp_all add: ok)
    then show ?thesis using one(2,3) one(1)
      by (subst cuddBddAndAbstractRecur.simps) (simp only: Let_def if_True if_False simp_thms)
  next
    case nocube
    then have "S = {}" using c one_not_tab [OF s] by (auto elim: cubeE)
    then have "delivered ext m (bin_fun (\<and>) m S f g) (cuddBddAndRecur f g m)"
      using cuddBddAndRecur_ok [OF ok h(1,2)] by (simp add: bin_none)
    then show ?thesis using nocube
      by (subst cuddBddAndAbstractRecur.simps) (simp only: Let_def if_True if_False simp_thms)
  next
    case left
    have "bin_fun (\<and>) m S f g = exist_fun m S g" by (rule bin_exist) (use left(4) sn in auto)
    then show ?thesis using left ex [OF h(2)]
      by (subst cuddBddAndAbstractRecur.simps) (simp only: Let_def if_True if_False simp_thms)
  next
    case right
    have "bin_fun (\<and>) m S f g = exist_fun m S f" by (rule bin_exist) (use right(5) sn in auto)
    then show ?thesis using right ex [OF h(1)]
      by (subst cuddBddAndAbstractRecur.simps) (simp only: Let_def if_True if_False simp_thms)
  next
    case rec
    have "Cudd_Regular f \<noteq> ?one" "Cudd_Regular g \<noteq> ?one"
      using const_edges [OF _ s, of f] const_edges [OF _ s, of g] rec by auto
    from and_general_ok [OF ok v h c rec(4) this rec(6,3) less.hyps] show ?thesis by simp
  qed
qed

end
