(* ===== verification/CuddXorAbs.thy ===== *)
theory CuddXorAbs
  imports CuddAndAbs
begin

text \<open>
  Abstraction of variables from an exclusive or: \<open>cuddBddXorExistAbstractRecur\<close> of
  \<open>cuddBddAbs.c\<close>, which goes past the variables of the cube above its operands by calling itself.
\<close>

text \<open>The two results put together, by abstraction or below the variable, and recorded.\<close>

lemma xor_tail:
  assumes ok: "mgr_ok ext {} m" and h: "held ext m f" "held ext m g" "held ext m c" and c: "cube m c S"
    and S: "\<And>env. bin_fun (\<noteq>) m S f g env = (if b then P env \<or> Q env else if env (invperm m ! l) then P env else Q env)"
    and m1: "mgr_ok (add_mset (Cudd_Regular t) ext) {Cudd_Regular e} m1" "t \<in> edges m1" "e \<in> edges m1"
      "keep (set_mset ext) m m1" "\<And>env. sem m1 env t = P env" "\<And>env. sem m1 env e = Q env"
    and l: "l < dsize m" "unat idx = invperm m ! l" "indep m l P" "indep m l Q"
  shows "delivered ext m (bin_fun (\<noteq>) m S f g) (cuddRef e m1 \<bind> (\<lambda>m1.
    (if b then disjoin Cudd_IterDerefBdd t e m1 \<bind> (\<lambda>(r, m1).
       if r = NULL then Some (NULL, m1) else cuddDeref r m1 \<bind> (\<lambda>m1. Some (r, m1)))
     else combine idx t e m1 \<bind> (\<lambda>(r, m1). if r = NULL then Some (NULL, m1)
       else cuddDeref e m1 \<bind> (\<lambda>m1. cuddDeref t m1 \<bind> (\<lambda>m1. Some (r, m1))))) \<bind> (\<lambda>(r, m1).
     if r = NULL then Some (NULL, m1)
     else cuddCacheInsert DD_BDD_XOR_EXIST_ABSTRACT_TAG f g c r m1 \<bind> (\<lambda>m1. Some (r, m1)))))"
proof -
  note s = mgr_okD(5) [OF ok] and D1 = mgr_okD(2) [OF ok]
  note rcd = record_step(1) [OF ok h c disjI2 [OF conjI [OF refl refl]]]
  show ?thesis
  proof (cases b)
    case True
    show ?thesis
      unfolding if_P [OF True]
      apply (subst Option.bind_assoc [symmetric])
      apply (rule first_step [OF merge_or [OF m1(1-4) s D1 m1(5,6) releases_iter]])
      subgoal premises x for r m4
        by (rule rcd [OF x(2,3,1)]) (subst S, simp add: x(4) True)
      done
  next
    case False
    show ?thesis
      unfolding if_not_P [OF False]
      apply (subst Option.bind_assoc [symmetric])
      apply (rule first_step [OF merge_node [OF m1(1-4) s D1 m1(5,6) l]])
      subgoal premises x for r m4
        by (rule rcd [OF x(2,3,1)]) (subst S, simp add: x(4) False)
      done
  qed
qed

lemma xor_case_ok:
  assumes ok: "mgr_ok ext {} m" and v: "vars_ok ext m" and h: "held ext m f" "held ext m g" "held ext m c"
    and S: "\<And>env. bin_fun (\<noteq>) m S f g env = (if b then bin_fun (\<noteq>) m D ft gt env \<or> bin_fun (\<noteq>) m D fe ge env
      else if env (invperm m ! l) then bin_fun (\<noteq>) m D ft gt env else bin_fun (\<noteq>) m D fe ge env)"
    and c: "cube m c S" "cube m d D" "held ext m d" and l: "l < dsize m" "unat idx = invperm m ! l"
    and hh: "held ext m ft" "held ext m fe" "held ext m gt" "held ext m ge"
    and ll: "l < elev m ft" "l < elev m fe" "l < elev m gt" "l < elev m ge"
    and rec: "\<And>a b d D ext' m'. mgr_ok ext' {} m' \<Longrightarrow> vars_ok ext' m' \<Longrightarrow> held ext' m' a \<Longrightarrow> held ext' m' b \<Longrightarrow>
      held ext' m' d \<Longrightarrow> cube m' d D \<Longrightarrow> dsize m' - min (elev m' a) (elev m' b) < dsize m - l \<Longrightarrow>
      delivered ext' m' (bin_fun (\<noteq>) m' D a b) (cuddBddXorExistAbstractRecur a b d m')"
    and one: "one = DD_ONE m"
  shows "delivered ext m (bin_fun (\<noteq>) m S f g)
    (cuddBddXorExistAbstractRecur ft gt d m \<bind> (\<lambda>(t, m1). if t = NULL then Some (NULL, m1)
       else if t = one \<and> b
         then cuddCacheInsert DD_BDD_XOR_EXIST_ABSTRACT_TAG f g c one m1 \<bind> (\<lambda>m1. Some (one, m1))
       else cuddRef t m1 \<bind> (\<lambda>m1. cuddBddXorExistAbstractRecur fe ge d m1 \<bind> (\<lambda>(e, m1).
         if e = NULL then Cudd_IterDerefBdd t m1 \<bind> (\<lambda>m1. Some (NULL, m1))
         else cuddRef e m1 \<bind> (\<lambda>m1. (if b then disjoin Cudd_IterDerefBdd t e m1 \<bind> (\<lambda>(r, m1).
              if r = NULL then Some (NULL, m1) else cuddDeref r m1 \<bind> (\<lambda>m1. Some (r, m1)))
            else combine idx t e m1 \<bind> (\<lambda>(r, m1). if r = NULL then Some (NULL, m1)
              else cuddDeref e m1 \<bind> (\<lambda>m1. cuddDeref t m1 \<bind> (\<lambda>m1. Some (r, m1))))) \<bind> (\<lambda>(r, m1).
            if r = NULL then Some (NULL, m1)
            else cuddCacheInsert DD_BDD_XOR_EXIST_ABSTRACT_TAG f g c r m1 \<bind> (\<lambda>m1. Some (r, m1))))))))"
proof -
  note s = mgr_okD(5) [OF ok] and D1 = mgr_okD(2) [OF ok]
  have rec_call: "delivered ext' m' (bin_fun (\<noteq>) m D x y) (cuddBddXorExistAbstractRecur x y d m')"
    if "mgr_ok ext' {} m'" "set_mset ext \<subseteq> set_mset ext'" "keep (set_mset ext) m m'"
      "held ext m x" "l < elev m x" "held ext m y" "l < elev m y" for x y ext' m'
    by (rule bin_rec_call [OF ok v c(3,2) l(1) rec that])
  note rcd = record_step(1) [OF ok h c(1) disjI2 [OF conjI [OF refl refl]]]
  have e: "ft \<in> edges m" "fe \<in> edges m" "gt \<in> edges m" "ge \<in> edges m" using hh heldD(1) [OF _ ok] by blast+
  note ind = bin_fun_indep [where opr = "(\<noteq>)" and S = D, OF s e(1,3) ll(1,3)]
    bin_fun_indep [where opr = "(\<noteq>)" and S = D, OF s e(2,4) ll(2,4)]
  show ?thesis
    apply (rule first_step [OF rec_call [OF ok order_refl keep_refl [OF ok] hh(1) ll(1) hh(3) ll(3)]])
    subgoal premises p for t m1
    proof (cases "t = one \<and> b")
      case True
      have "t = DD_ONE m1" using orderD(4) [OF keepD(3) [OF p(3)]] True by (simp add: one)
      then have "sem m1 env one = bin_fun (\<noteq>) m S f g env" for env
        using p(4) [of env] True sem_one [OF mgr_okD(5) [OF p(2)]] by (subst S) (simp add: one)
      from rcd [OF _ p(3) _ this] show ?thesis using True p(1,2) by simp
    next
      case False
      show ?thesis
        unfolding if_not_P [OF False]
        apply (rule ref_step [OF p(2,1) order_refl p(3) s])
        subgoal premises q for m2
        proof -
          note c2 = store_cong [OF q(2)] sem_cong_store [OF q(2)]
          have t2: "t \<in> edges m2" "\<And>env. sem m2 env t = bin_fun (\<noteq>) m D ft gt env" using p(1,4) by (simp_all add: c2)
          have sub: "set_mset ext \<subseteq> set_mset (add_mset (Cudd_Regular t) ext)" by auto
          show ?thesis
            apply (rule second_step [OF q(1,3) s t2 rec_call [OF q(1) sub q(3) hh(2) ll(2) hh(4) ll(4)] D1])
            subgoal premises w for e m3
              by (rule xor_tail [OF ok h c(1) S w(2,4,1,3,5,6) l ind])
            done
        qed
        done
    qed
    done
qed

lemma xor_commute: "bin_fun (\<noteq>) m S g f = bin_fun (\<noteq>) m S f g"
proof -
  have "(\<lambda>env. sem m env g \<noteq> sem m env f) = (\<lambda>env. sem m env f \<noteq> sem m env g)" by auto
  then show ?thesis by (simp only: bin_fun_def)
qed

text \<open>The recursive case, on the nodes of the operands and of the cube.\<close>

lemma xor_pair_abstract_ok:
  assumes ok: "mgr_ok ext {} m" and v: "vars_ok ext m" and h: "held ext m f" "held ext m g" "held ext m c"
    and c: "cube m c S" "c \<noteq> DD_ONE m"
    and t: "Cudd_Regular f \<in> tabnodes m" "Cudd_Regular g \<in> tabnodes m"
    and n: "cont m (Cudd_Regular f) = Some (index nF, type nF)" "cont m (Cudd_Regular g) = Some (index nG, type nG)"
    and nC: "cuddT nC = Some (kT m c)"
    and l: "l = min (elev m f) (elev m g)"
    and skip: "\<And>S'. lev m c < l \<Longrightarrow> cube m (kT m c) S' \<Longrightarrow> held ext m (kT m c) \<Longrightarrow>
      delivered ext m (bin_fun (\<noteq>) m S' f g) (cuddBddXorExistAbstractRecur f g (kT m c) m)"
    and rec: "\<And>a b d D ext' m'. mgr_ok ext' {} m' \<Longrightarrow> vars_ok ext' m' \<Longrightarrow> held ext' m' a \<Longrightarrow> held ext' m' b \<Longrightarrow>
      held ext' m' d \<Longrightarrow> cube m' d D \<Longrightarrow> dsize m' - min (elev m' a) (elev m' b) < dsize m - l \<Longrightarrow>
      delivered ext' m' (bin_fun (\<noteq>) m' D a b) (cuddBddXorExistAbstractRecur a b d m')"
    and one: "one = DD_ONE m"
  shows "delivered ext m (bin_fun (\<noteq>) m S f g)
    (if lev m c < l then cuddT nC \<bind> (\<lambda>rest. cuddBddXorExistAbstractRecur f g rest m)
     else cofactors f nF (elev m f = l) \<bind> (\<lambda>(ft, fe). cofactors g nG (elev m g = l) \<bind> (\<lambda>(gt, ge).
       (if lev m c = l then cuddT nC else Some c) \<bind> (\<lambda>d.
       cuddBddXorExistAbstractRecur ft gt d m \<bind> (\<lambda>(t, m1). if t = NULL then Some (NULL, m1)
       else if t = one \<and> lev m c = l
         then cuddCacheInsert DD_BDD_XOR_EXIST_ABSTRACT_TAG f g c one m1 \<bind> (\<lambda>m1. Some (one, m1))
       else cuddRef t m1 \<bind> (\<lambda>m1. cuddBddXorExistAbstractRecur fe ge d m1 \<bind> (\<lambda>(e, m1).
         if e = NULL then Cudd_IterDerefBdd t m1 \<bind> (\<lambda>m1. Some (NULL, m1))
         else cuddRef e m1 \<bind> (\<lambda>m1. (if lev m c = l then disjoin Cudd_IterDerefBdd t e m1 \<bind> (\<lambda>(r, m1).
              if r = NULL then Some (NULL, m1) else cuddDeref r m1 \<bind> (\<lambda>m1. Some (r, m1)))
            else combine (if elev m f = l then index nF else index nG) t e m1 \<bind> (\<lambda>(r, m1). if r = NULL then Some (NULL, m1)
              else cuddDeref e m1 \<bind> (\<lambda>m1. cuddDeref t m1 \<bind> (\<lambda>m1. Some (r, m1))))) \<bind> (\<lambda>(r, m1).
            if r = NULL then Some (NULL, m1)
            else cuddCacheInsert DD_BDD_XOR_EXIST_ABSTRACT_TAG f g c r m1 \<bind> (\<lambda>m1. Some (r, m1)))))))))))"
proof -
  note s = mgr_okD(5) [OF ok]
  obtain S' where r: "c \<in> tabnodes m" "S = insert (nidx m c) S'" "nidx m c \<notin> S'" "cube m (kT m c) S'"
    "\<And>i. i \<in> S' \<Longrightarrow> lev m c < perm m ! i" using cube_rest [OF c s] by metis
  have hr: "held ext m (kT m c)" using held_kids(1) [OF h(3) _ s] nodeD(9) [OF s r(1)] r(1) by simp
  obtain ft fe gt ge where
    cf: "cofactors f nF (elev m f = l) = Some (ft, fe)" "cofactors g nG (elev m g = l) = Some (gt, ge)" and
    hh: "held ext m ft" "held ext m fe" "held ext m gt" "held ext m ge" and
    ll: "l < elev m ft" "l < elev m fe" "l < elev m gt" "l < elev m ge" and
    sp: "\<And>opr S env. invperm m ! l \<notin> S \<Longrightarrow> bin_fun opr m S f g env =
        (if env (invperm m ! l) then bin_fun opr m S ft gt env else bin_fun opr m S fe ge env)"
      "\<And>opr S env. invperm m ! l \<notin> S \<Longrightarrow> bin_fun opr m (insert (invperm m ! l) S) f g env =
        (bin_fun opr m S ft gt env \<or> bin_fun opr m S fe ge env)" and
    i: "l < dsize m" "perm m ! (invperm m ! l) = l" "unat (if elev m f = l then index nF else index nG) = invperm m ! l"
    by (rule pair_cofactors [OF ok h(1,2) t n l]) (rule that, assumption+)
  show ?thesis
  proof (cases "lev m c < l")
    case True
    have "bin_fun (\<noteq>) m S f g = bin_fun (\<noteq>) m S' f g"
      by (rule ext, rule bin_drop [OF ok h(1,2)])
        (use r(2) cube_facts [OF s c(1)] True tabnode(2,3) [OF s r(1)] l in auto)
    then show ?thesis unfolding if_P [OF True] nC Option.bind.bind_lunit using skip [OF True r(4) hr] by simp
  next
    case False
    define d where "d = (if lev m c = l then kT m c else c)"
    define D where "D = (if lev m c = l then S' else S)"
    have dc: "(if lev m c = l then cuddT nC else Some c) = Some d" by (simp add: nC d_def)
    have dD: "cube m d D" "held ext m d" using r(4) hr c(1) h(3) by (simp_all add: d_def D_def)
    have S: "bin_fun (\<noteq>) m S f g env = (if lev m c = l then bin_fun (\<noteq>) m D ft gt env \<or> bin_fun (\<noteq>) m D fe ge env
      else if env (invperm m ! l) then bin_fun (\<noteq>) m D ft gt env else bin_fun (\<noteq>) m D fe ge env)" for env
    proof (cases "lev m c = l")
      case True
      then have "nidx m c = invperm m ! l" using tabnode(6) [OF s r(1)] by simp
      then show ?thesis unfolding r(2) D_def if_P [OF True] using sp(2) r(3) by simp
    next
      case ne: False
      have "invperm m ! l \<notin> S" using r(2,5) ne False i(2) tabnode(3) [OF s r(1)] by fastforce
      then show ?thesis unfolding D_def if_not_P [OF ne] by (rule sp(1))
    qed
    show ?thesis
      unfolding if_not_P [OF False] dc cf Option.bind.bind_lunit prod.case
      by (rule xor_case_ok [OF ok v h S c(1) dD i(1,3) hh ll rec one])
  qed
qed

text \<open>
  The whole procedure. It calls itself on smaller operands, or on the same ones with the rest of
  the cube.
\<close>

definition xor_size :: "DdManager \<Rightarrow> ptr \<Rightarrow> ptr \<Rightarrow> ptr \<Rightarrow> nat" where
  "xor_size m f g c = (dsize m - min (elev m f) (elev m g)) * 65536 + (dsize m - elev m c)"

lemma xor_size_less:
  assumes "mgr_ok ext F m" "dsize m - min (elev m a) (elev m b) < n"
  shows "xor_size m a b d < n * 65536"
proof -
  have "dsize m - elev m d < 65536" using order_okD(4) [OF mgr_okD(5) [OF assms(1)]] by simp
  moreover have "(dsize m - min (elev m a) (elev m b)) * 65536 + 65536 \<le> n * 65536" using assms(2) by simp
  ultimately show ?thesis by (simp add: xor_size_def)
qed

lemma xor_general_ok:
  assumes ok: "mgr_ok ext {} m" and v: "vars_ok ext m" and h: "held ext m f0" "held ext m g0" "held ext m c"
    and c: "cube m c S" "c \<noteq> DD_ONE m"
    and ne: "Cudd_Regular f0 \<noteq> DD_ONE m" "Cudd_Regular g0 \<noteq> DD_ONE m" "f0 \<noteq> g0" "f0 \<noteq> Cudd_Not g0"
    and rec: "\<And>a b d D ext' m'. mgr_ok ext' {} m' \<Longrightarrow> vars_ok ext' m' \<Longrightarrow> held ext' m' a \<Longrightarrow> held ext' m' b \<Longrightarrow>
      held ext' m' d \<Longrightarrow> cube m' d D \<Longrightarrow> xor_size m' a b d < xor_size m f0 g0 c \<Longrightarrow>
      delivered ext' m' (bin_fun (\<noteq>) m' D a b) (cuddBddXorExistAbstractRecur a b d m')"
  shows "delivered ext m (bin_fun (\<noteq>) m S f0 g0) (cuddBddXorExistAbstractRecur f0 g0 c m)"
proof -
  note s = mgr_okD(5) [OF ok]
  define f g where fg: "f = (if f0 > g0 then g0 else f0)" "g = (if f0 > g0 then f0 else g0)"
  define l where "l = min (elev m f) (elev m g)"
  have l: "l = min (elev m f0) (elev m g0)" "ddMin (elev m f) (elev m g) = l"
    by (auto simp: fg l_def ddMin_def min_def)
  have h': "held ext m f" "held ext m g" using h(1,2) by (simp_all add: fg)
  have nc: "f0 \<noteq> DD_ONE m" "g0 \<noteq> DD_ONE m" "f0 \<noteq> Cudd_Not (DD_ONE m)" "g0 \<noteq> Cudd_Not (DD_ONE m)"
    using ne(1,2) oneD(3) [OF s] by auto
  have t: "Cudd_Regular f \<in> tabnodes m" "Cudd_Regular g \<in> tabnodes m" "c \<in> tabnodes m"
    using heldD(2) [OF h'(1) ok] heldD(2) [OF h'(2) ok] ne(1,2) cube_rest [OF c s]
    by (auto simp: fg nodes_def split: if_splits)
  have S: "bin_fun (\<noteq>) m S f0 g0 = bin_fun (\<noteq>) m S f g" using xor_commute [of m S f0 g0] by (simp add: fg)
  have lk: "looked_up ext m (\<lambda>r. \<forall>env. sem m env r = bin_fun (\<noteq>) m S f g env)
    (cuddCacheLookup DD_BDD_XOR_EXIST_ABSTRACT_TAG f g c m)"
    by (rule abstract_lookup [OF ok heldD(1) [OF h'(1) ok] heldD(1) [OF h'(2) ok] c(1) disjI2 [OF conjI [OF refl refl]]])
  show ?thesis
    unfolding S
    apply (subst cuddBddXorExistAbstractRecur.simps)
    apply (simp only: Let_def nc ne(3,4) c(2) if_False fg [symmetric])
    apply (rule lookup_step [OF lk s])
    subgoal by blast
    subgoal premises p for m1
    proof -
      note cc = store_cong [OF p(2)] and s1 = mgr_okD(5) [OF p(1)]
      note hm = held_keep(1) [OF _ ok p(3) s1]
      have t1: "Cudd_Regular f \<in> tabnodes m1" "Cudd_Regular g \<in> tabnodes m1" "c \<in> tabnodes m1" using t by (simp_all add: cc)
      obtain nF nG nC where n: "heap m1 (Cudd_Regular f) = Some nF" "heap m1 (Cudd_Regular g) = Some nG" "heap m1 c = Some nC"
        "cont m1 (Cudd_Regular f) = Some (index nF, type nF)" "cont m1 (Cudd_Regular g) = Some (index nG, type nG)"
        "cuddT nC = Some (kT m1 c)" "nth_opt (perm m1) (unat (index nC)) = Some (lev m1 c)"
        using node_fields [OF s1 t1(1)] node_fields [OF s1 t1(2)] node_fields [OF s1 t1(3)] by metis
      note pf = node_level(1) [OF p(1) t1(1) n(4)] and pg = node_level(1) [OF p(1) t1(2) n(5)]
      have l1: "l = min (elev m1 f) (elev m1 g)" "ddMin (elev m1 f) (elev m1 g) = l" using l(2) by (simp_all add: cc l_def)
      have c1: "cube m1 c S" "c \<noteq> DD_ONE m1" "DD_ONE m = DD_ONE m1" using cube_store [OF p(2) c(1)] c(2) by (simp_all add: cc)
      have v1: "vars_ok ext m1" by (rule vars_ok_keep [OF v ok p(3) order_refl])
      have sz: "xor_size m f0 g0 c = xor_size m1 f g c" using l by (simp add: xor_size_def cc flip: l_def)
      have r1: "delivered ext' m' (bin_fun (\<noteq>) m' D a b) (cuddBddXorExistAbstractRecur a b d m')"
        if "mgr_ok ext' {} m'" "vars_ok ext' m'" "held ext' m' a" "held ext' m' b" "held ext' m' d" "cube m' d D"
          "dsize m' - min (elev m' a) (elev m' b) < dsize m1 - l" for a b d D ext' m'
        using rec [OF that(1-6)] xor_size_less [OF that(1,7), of d] sz l1(1) by (simp add: xor_size_def)
      have sk: "delivered ext m1 (bin_fun (\<noteq>) m1 S' f g) (cuddBddXorExistAbstractRecur f g (kT m1 c) m1)"
        if "lev m1 c < l" "cube m1 (kT m1 c) S'" "held ext m1 (kT m1 c)" for S'
      proof (rule rec [OF p(1) v1 hm [OF h'(1)] hm [OF h'(2)] that(3,2)])
        have "elev m1 c = lev m1 c" using nodeD(9) [OF s1 t1(3)] by (simp add: elev_def)
        then show "xor_size m1 f g (kT m1 c) < xor_size m f0 g0 c"
          using nodeD(12) [OF s1 t1(3)] tabnode(4) [OF s1 t1(3)] unfolding sz by (simp add: xor_size_def)
      qed
      show ?thesis
        unfolding n(1-3,7) pf pg Option.bind.bind_lunit l1(2) c1(3)
        by (rule delivered_step [OF _ p(3) s], subst bin_fun_store [OF p(2), symmetric],
            rule xor_pair_abstract_ok [OF p(1) v1 hm [OF h'(1)] hm [OF h'(2)] hm [OF h(3)] c1(1,2) t1(1,2) n(4,5,6)
              l1(1) sk r1 refl])
    qed
    done
qed

lemma cuddBddXorExistAbstractRecur_ok:
  "mgr_ok ext {} m \<Longrightarrow> vars_ok ext m \<Longrightarrow> held ext m f \<Longrightarrow> held ext m g \<Longrightarrow> held ext m c \<Longrightarrow> cube m c S \<Longrightarrow>
   delivered ext m (bin_fun (\<noteq>) m S f g) (cuddBddXorExistAbstractRecur f g c m)"
proof (induction "xor_size m f g c" arbitrary: ext m f g c S rule: less_induct)
  case less
  note ok = less.prems(1) and v = less.prems(2) and h = less.prems(3-5) and c = less.prems(6)
  note s = mgr_okD(5) [OF ok]
  let ?one = "DD_ONE m" and ?zero = "Cudd_Not (DD_ONE m)"
  note sn = sem_one [OF s] and ex = cuddBddExistAbstractRecur_ok [OF ok v _ h(3) c]
  have ex': "delivered ext m (exist_fun m S e) (cuddBddExistAbstractRecur e c m)" if "held ext m e" for e
    by (rule ex [OF that])
  consider (zero) "f = g" | (one) "f \<noteq> g" "f = Cudd_Not g" | (nocube) "f \<noteq> g" "f \<noteq> Cudd_Not g" "c = ?one"
    | (f1) "f \<noteq> g" "f \<noteq> Cudd_Not g" "c \<noteq> ?one" "f = ?one"
    | (g1) "f \<noteq> g" "f \<noteq> Cudd_Not g" "c \<noteq> ?one" "f \<noteq> ?one" "g = ?one"
    | (f0) "f \<noteq> g" "f \<noteq> Cudd_Not g" "c \<noteq> ?one" "f \<noteq> ?one" "g \<noteq> ?one" "f = ?zero"
    | (g0) "f \<noteq> g" "f \<noteq> Cudd_Not g" "c \<noteq> ?one" "f \<noteq> ?one" "g \<noteq> ?one" "f \<noteq> ?zero" "g = ?zero"
    | (rec) "f \<noteq> g" "f \<noteq> Cudd_Not g" "c \<noteq> ?one" "f \<noteq> ?one" "g \<noteq> ?one" "f \<noteq> ?zero" "g \<noteq> ?zero" by blast
  then show ?case
  proof cases
    case zero
    have "bin_fun (\<noteq>) m S f g env = False" for env by (rule bin_const) (use zero in simp)
    then have "delivered ext m (bin_fun (\<noteq>) m S f g) (Some (?zero, m))"
      using held_one [OF ok] sn by (intro delivered_held) (simp_all add: ok)
    then show ?thesis using zero by (subst cuddBddXorExistAbstractRecur.simps) (simp only: Let_def if_True simp_thms)
  next
    case one
    have "bin_fun (\<noteq>) m S f g env = True" for env by (rule bin_const) (use one s in simp)
    then have "delivered ext m (bin_fun (\<noteq>) m S f g) (Some (?one, m))"
      using held_one [OF ok] sn by (intro delivered_held) (simp_all add: ok)
    then show ?thesis unfolding cuddBddXorExistAbstractRecur.simps [of f g c] Let_def if_not_P [OF one(1)] if_P [OF one(2)] .
  next
    case nocube
    then have "S = {}" using c one_not_tab [OF s] by (auto elim: cubeE)
    then have "delivered ext m (bin_fun (\<noteq>) m S f g) (cuddBddXorRecur f g m)"
      using cuddBddXorRecur_ok [OF ok h(1,2)] by (simp only: bin_none)
    then show ?thesis
      unfolding cuddBddXorExistAbstractRecur.simps [of f g c] Let_def if_not_P [OF nocube(1)] if_not_P [OF nocube(2)]
        if_P [OF nocube(3)] .
  next
    case f1
    have "bin_fun (\<noteq>) m S f g = exist_fun m S (Cudd_Not g)" by (rule bin_exist) (use f1(4) sn s in \<open>auto simp: sem_Not\<close>)
    then show ?thesis
      unfolding cuddBddXorExistAbstractRecur.simps [of f g c] Let_def if_not_P [OF f1(1)] if_not_P [OF f1(2)]
        if_not_P [OF f1(3)] if_P [OF f1(4)] using ex' [of "Cudd_Not g"] h(2) by simp
  next
    case g1
    have "bin_fun (\<noteq>) m S f g = exist_fun m S (Cudd_Not f)" by (rule bin_exist) (use g1(5) sn s in \<open>auto simp: sem_Not\<close>)
    then show ?thesis
      unfolding cuddBddXorExistAbstractRecur.simps [of f g c] Let_def if_not_P [OF g1(1)] if_not_P [OF g1(2)]
        if_not_P [OF g1(3)] if_not_P [OF g1(4)] if_P [OF g1(5)] using ex' [of "Cudd_Not f"] h(1) by simp
  next
    case f0
    have "bin_fun (\<noteq>) m S f g = exist_fun m S g" by (rule bin_exist) (use f0(6) sn s in \<open>auto simp: sem_Not\<close>)
    then show ?thesis
      unfolding cuddBddXorExistAbstractRecur.simps [of f g c] Let_def if_not_P [OF f0(1)] if_not_P [OF f0(2)]
        if_not_P [OF f0(3)] if_not_P [OF f0(4)] if_not_P [OF f0(5)] if_P [OF f0(6)] using ex' [OF h(2)] by simp
  next
    case g0
    have "bin_fun (\<noteq>) m S f g = exist_fun m S f" by (rule bin_exist) (use g0(7) sn s in \<open>auto simp: sem_Not\<close>)
    then show ?thesis
      unfolding cuddBddXorExistAbstractRecur.simps [of f g c] Let_def if_not_P [OF g0(1)] if_not_P [OF g0(2)]
        if_not_P [OF g0(3)] if_not_P [OF g0(4)] if_not_P [OF g0(5)] if_not_P [OF g0(6)] if_P [OF g0(7)] using ex' [OF h(1)] by simp
  next
    case rec
    have "Cudd_Regular f \<noteq> ?one" "Cudd_Regular g \<noteq> ?one"
      using const_edges [OF _ s, of f] const_edges [OF _ s, of g] rec by auto
    from xor_general_ok [OF ok v h c rec(3) this rec(1,2) less.hyps] show ?thesis by simp
  qed
qed

end
