(* ===== verification/CuddAbstract.thy ===== *)
theory CuddAbstract
  imports CuddDiff CuddXorAbs
begin

text \<open>
  The exported functions of \<open>cuddBddAbs.c\<close>: which operands the check for a positive cube lets
  through, the functions they return for those, and the refusal of the others.
\<close>

subsection \<open>Positive cubes\<close>

text \<open>
  The diagrams the check accepts are those whose function is a conjunction of variables: this
  is the converse of \<open>cube_facts\<close>, by canonicity.
\<close>

lemma cube_of_cube:
  assumes "store_ok m" "c \<in> edges m" "cube_of m c S"
  shows "cube m c S"
  using assms
proof (induction arbitrary: S rule: edge_induct)
  case (edge c)
  note s = assms(1) and sem = edge(3) [unfolded cube_of_def, rule_format]
  have nc: "\<not> Cudd_IsComplement c" using sem_all_true [OF s edge(1)] sem by simp
  show ?case
  proof (cases "c = DD_ONE m")
    case True
    then have "S = {}" using sem [of "\<lambda>_. False"] sem_one [OF s] by auto
    then show ?thesis using cube_one True by simp
  next
    case False
    have t: "c \<in> tabnodes m" using edge(1) False nc by (auto simp: edges_def nodes_def)
    note d = nodeD [OF s t] and tn = tabnode [OF s t]
    let ?i = "nidx m c"
    have lv: "elev m c = lev m c" using d(9) by (simp add: elev_def)
    have T: "sem m (env(?i := b)) (kT m c) = sem m env (kT m c)" "sem m (env(?i := b)) (kE m c) = sem m env (kE m c)" for env b
      using sem_indep [OF s d(10) tn(2)] sem_indep [OF s d(11) tn(2)] d(12,13) tn(3) by simp_all
    have kids: "sem m env (kT m c) = (\<forall>i \<in> S. (env(?i := True)) i)" "sem m env (kE m c) = (\<forall>i \<in> S. (env(?i := False)) i)" for env
      using sem_node [OF s t, of "env(?i := True)"] sem_node [OF s t, of "env(?i := False)"] sem T by simp_all
    have i: "?i \<in> S"
    proof (rule ccontr)
      assume "?i \<notin> S"
      then have "sem m env (kT m c) = sem m env (kE m c)" for env unfolding kids by auto
      then have "kT m c = kE m c" by (rule canonical [OF s d(10,11)])
      then show False using d(4) by simp
    qed
    then have "sem m env (kE m c) = sem m env (Cudd_Not (DD_ONE m))" for env
      unfolding kids(2) using sem_one [OF s] by auto
    then have E: "kE m c = Cudd_Not (DD_ONE m)" using one_edges [OF s] by (intro canonical [OF s d(11)]) simp_all
    have "cube_of m (kT m c) (S - {?i})" unfolding cube_of_def kids(1) by auto
    then have "cube m (kT m c) (S - {?i})" using d(12) lv by (intro edge(2) [OF d(10)]) simp
    from cube_node [OF t E this] show ?thesis using i by (simp add: insert_absorb)
  qed
qed

lemma bddCheckPositiveCube_sem:
  assumes "store_ok m" "c \<in> edges m"
  shows "bddCheckPositiveCube c m = Some (\<exists>S. cube_of m c S)"
proof -
  have "(\<exists>S. cube m c S) = (\<exists>S. cube_of m c S)" using cube_facts [OF assms(1)] cube_of_cube [OF assms] by blast
  then show ?thesis using bddCheckPositiveCube_ok [OF assms] by simp
qed

text \<open>The variables of a cube are those whose value matters.\<close>

definition cube_vars :: "DdManager \<Rightarrow> ptr \<Rightarrow> nat set" where
  "cube_vars m c = {i. \<exists>env. sem m env c \<and> \<not> sem m (env(i := False)) c}"

lemma cube_vars_of: "cube_of m c S \<Longrightarrow> cube_vars m c = S"
  unfolding cube_vars_def cube_of_def
  by (auto split: if_splits)

lemma vars_ok_store: "store m' = store m \<Longrightarrow> vars_ok ext m' = vars_ok ext m"
  using store_cong [of m' m] by (simp add: vars_ok_def proj_def)

subsection \<open>The recursive procedures have the contract\<close>

interpretation exist: bdd_procedure "\<lambda>(f, c). cuddBddExistAbstractRecur f c"
  "\<lambda>ext m (f, c). vars_ok ext m \<and> held ext m f \<and> held ext m c \<and> (\<exists>S. cube_of m c S)"
  "\<lambda>m (f, c). exist_fun m (cube_vars m c) f"
proof (unfold_locales, goal_cases)
  case (1 ext m x)
  obtain f c where x: "x = (f, c)" by (cases x)
  obtain S where c: "vars_ok ext m" "held ext m f" "held ext m c" "cube_of m c S" using 1(2) x by auto
  have "cube m c S" using cube_of_cube [OF mgr_okD(5) [OF 1(1)] heldD(1) [OF c(3) 1(1)] c(4)] .
  from cuddBddExistAbstractRecur_ok [OF 1(1) c(1-3) this]
  show ?case by (simp add: x cube_vars_of [OF c(4)])
next
  case (2 m' m ext x)
  then show ?case
    using held_store [OF 2] vars_ok_store [OF 2] by (cases x) (simp add: cube_of_def sem_cong_store [OF 2])
next
  case (3 m' m x)
  then show ?case by (cases x) (simp add: exist_fun_def cube_vars_def sem_cong_store [OF 3])
qed

interpretation and_exist: bdd_procedure "\<lambda>(f, g, c). cuddBddAndAbstractRecur f g c"
  "\<lambda>ext m (f, g, c). vars_ok ext m \<and> held ext m f \<and> held ext m g \<and> held ext m c \<and> (\<exists>S. cube_of m c S)"
  "\<lambda>m (f, g, c). bin_fun (\<and>) m (cube_vars m c) f g"
proof (unfold_locales, goal_cases)
  case (1 ext m x)
  obtain f g c where x: "x = (f, g, c)" by (cases x)
  obtain S where c: "vars_ok ext m" "held ext m f" "held ext m g" "held ext m c" "cube_of m c S" using 1(2) x by auto
  have "cube m c S" using cube_of_cube [OF mgr_okD(5) [OF 1(1)] heldD(1) [OF c(4) 1(1)] c(5)] .
  from cuddBddAndAbstractRecur_ok [OF 1(1) c(1-4) this]
  show ?case by (simp add: x cube_vars_of [OF c(5)])
next
  case (2 m' m ext x)
  then show ?case
    using held_store [OF 2] vars_ok_store [OF 2] by (cases x) (simp add: cube_of_def sem_cong_store [OF 2])
next
  case (3 m' m x)
  then show ?case by (cases x) (simp add: bin_fun_def cube_vars_def sem_cong_store [OF 3])
qed

interpretation xor_exist: bdd_procedure "\<lambda>(f, g, c). cuddBddXorExistAbstractRecur f g c"
  "\<lambda>ext m (f, g, c). vars_ok ext m \<and> held ext m f \<and> held ext m g \<and> held ext m c \<and> (\<exists>S. cube_of m c S)"
  "\<lambda>m (f, g, c). bin_fun (\<noteq>) m (cube_vars m c) f g"
proof (unfold_locales, goal_cases)
  case (1 ext m x)
  obtain f g c where x: "x = (f, g, c)" by (cases x)
  obtain S where c: "vars_ok ext m" "held ext m f" "held ext m g" "held ext m c" "cube_of m c S" using 1(2) x by auto
  have "cube m c S" using cube_of_cube [OF mgr_okD(5) [OF 1(1)] heldD(1) [OF c(4) 1(1)] c(5)] .
  from cuddBddXorExistAbstractRecur_ok [OF 1(1) c(1-4) this]
  show ?case by (simp add: x cube_vars_of [OF c(5)])
next
  case (2 m' m ext x)
  then show ?case
    using held_store [OF 2] vars_ok_store [OF 2] by (cases x) (simp add: cube_of_def sem_cong_store [OF 2])
next
  case (3 m' m x)
  then show ?case by (cases x) (simp add: bin_fun_def cube_vars_def sem_cong_store [OF 3])
qed

interpretation diff: bdd_procedure "\<lambda>(f, v). cuddBddBooleanDiffRecur (Cudd_Regular f) v"
  "\<lambda>ext m (f, v). vars_ok ext m \<and> held ext m f \<and> (\<exists>i < dsize m. v = vars m ! i)"
  "\<lambda>m (f, v). diff_fun m (nidx m v) f"
proof (unfold_locales, goal_cases)
  case (1 ext m x)
  obtain f v where x: "x = (f, v)" by (cases x)
  obtain i where i: "vars_ok ext m" "held ext m f" "i < dsize m" "v = vars m ! i" using 1(2) x by auto
  then have "nidx m v = i" by (simp add: vars_ok_def proj_def)
  then show ?case using cuddBddBooleanDiffRecur_ok [OF 1(1) i(1-3)] by (simp add: x i(4))
next
  case (2 m' m ext x)
  then show ?case
    using held_store [OF 2] vars_ok_store [OF 2] store_cong [OF 2] by (cases x) simp
next
  case (3 m' m x)
  then show ?case
    by (cases x) (simp add: diff_fun_def fun_eq_iff sem_cong_store [OF 3] store_cong [OF 3])
qed

subsection \<open>Quantification over the variables of a cube\<close>

text \<open>For all values of the variables of a set.\<close>

definition for_all :: "nat set \<Rightarrow> ((nat \<Rightarrow> bool) \<Rightarrow> bool) \<Rightarrow> (nat \<Rightarrow> bool) \<Rightarrow> bool" where
  "for_all S P env \<longleftrightarrow> (\<forall>env'. (\<forall>i. i \<notin> S \<longrightarrow> env' i = env i) \<longrightarrow> P env')"

lemma for_all_not: "for_all S P env = (\<not> quantify S (\<lambda>env. \<not> P env) env)"
  unfolding for_all_def quantify_def by blast

lemma on_cube_of:
  assumes "mgr_ok ext F m" "held ext m c"
  shows "cube_of m c S \<Longrightarrow> on_cube c body m = body m"
    "\<nexists>S. cube_of m c S \<Longrightarrow> on_cube c body m = Some (NULL, m\<lparr>errorCode := CUDD_INVALID_ARG\<rparr>)"
  using bddCheckPositiveCube_sem [OF mgr_okD(5) [OF assms(1)] heldD(1) [OF assms(2,1)]]
  by (auto simp: on_cube_def)

lemma Cudd_bddExistAbstract_answered:
  assumes "mgr_ok ext {} m" "vars_ok ext m" "held ext m f" "held ext m c" "cube_of m c S"
  shows "answered ext m (quantify S (\<lambda>env. sem m env f)) (Cudd_bddExistAbstract f c m)"
    "answered ext m (quantify S (\<lambda>env. sem m env f)) (Cudd_bddExistAbstractLimit f c limit m)"
    "answered ext m (for_all S (\<lambda>env. sem m env f)) (Cudd_bddUnivAbstract f c m)"
proof -
  note o = on_cube_of(1) [OF assms(1,4,5)] and v = cube_vars_of [OF assms(5)]
  have own: "vars_ok ext m \<and> held ext m g \<and> held ext m c \<and> (\<exists>S. cube_of m c S)" if "held ext m g" for g
    using assms that by blast
  show "answered ext m (quantify S (\<lambda>env. sem m env f)) (Cudd_bddExistAbstract f c m)"
    "answered ext m (quantify S (\<lambda>env. sem m env f)) (Cudd_bddExistAbstractLimit f c limit m)"
    using exist.retry_delivered [OF assms(1), of "(f, c)"] exist.limit_delivered [OF assms(1), of "(f, c)" limit]
      own [OF assms(3)]
    by (simp_all add: Cudd_bddExistAbstract_def Cudd_bddExistAbstractLimit_def o exist_fun_def v)
  have "answered ext m (quantify S (\<lambda>env. \<not> sem m env f)) (retry_reordered (cuddBddExistAbstractRecur (Cudd_Not f) c) m)"
    using exist.retry_delivered [OF assms(1), of "(Cudd_Not f, c)"] own [of "Cudd_Not f"] assms(3)
      mgr_okD(5) [OF assms(1)] by (simp add: exist_fun_def v sem_Not)
  from not_answered [OF this]
  show "answered ext m (for_all S (\<lambda>env. sem m env f)) (Cudd_bddUnivAbstract f c m)"
    by (simp add: Cudd_bddUnivAbstract_def o for_all_not [abs_def])
qed

text \<open>
  Abstraction together with a conjunction or an exclusive or. \<open>Cudd_bddAndAbstract\<close> does not check
  that its operand is a cube.
\<close>

lemma Cudd_bddAndAbstract_answered:
  assumes "mgr_ok ext {} m" "vars_ok ext m" "held ext m f" "held ext m g" "held ext m c" "cube_of m c S"
  shows "answered ext m (quantify S (\<lambda>env. sem m env f \<and> sem m env g)) (Cudd_bddAndAbstract f g c m)"
    "answered ext m (quantify S (\<lambda>env. sem m env f \<and> sem m env g)) (Cudd_bddAndAbstractLimit f g c limit m)"
    "answered ext m (quantify S (\<lambda>env. sem m env f \<noteq> sem m env g)) (Cudd_bddXorExistAbstract f g c m)"
proof -
  have own: "vars_ok ext m \<and> held ext m f \<and> held ext m g \<and> held ext m c \<and> (\<exists>S. cube_of m c S)" using assms by blast
  note v = cube_vars_of [OF assms(6)]
  show "answered ext m (quantify S (\<lambda>env. sem m env f \<and> sem m env g)) (Cudd_bddAndAbstract f g c m)"
    "answered ext m (quantify S (\<lambda>env. sem m env f \<and> sem m env g)) (Cudd_bddAndAbstractLimit f g c limit m)"
    using and_exist.retry_delivered [OF assms(1), of "(f, g, c)"] and_exist.limit_delivered [OF assms(1), of "(f, g, c)" limit] own
    by (simp_all add: Cudd_bddAndAbstract_def Cudd_bddAndAbstractLimit_def bin_fun_def v)
  show "answered ext m (quantify S (\<lambda>env. sem m env f \<noteq> sem m env g)) (Cudd_bddXorExistAbstract f g c m)"
    using xor_exist.retry_delivered [OF assms(1), of "(f, g, c)"] own
    by (simp add: Cudd_bddXorExistAbstract_def on_cube_of(1) [OF assms(1,5,6)] bin_fun_def v)
qed

subsection \<open>The Boolean difference\<close>

text \<open>A function does not depend on a variable the manager does not have.\<close>

lemma sem_beyond:
  assumes "store_ok m" "e \<in> edges m" "dsize m \<le> i"
  shows "sem m (env(i := b)) e = sem m env e"
  using assms(1,2)
proof (induction rule: edge_induct)
  case (edge e)
  show ?case
  proof (cases "Cudd_Regular e = DD_ONE m")
    case True
    then show ?thesis using const_edges [OF True assms(1)] assms(1) by auto
  next
    case False
    let ?p = "Cudd_Regular e"
    have p: "?p \<in> tabnodes m" using False edge(1) by (auto simp: edges_def nodes_def)
    have "nidx m ?p \<noteq> i" using tabnode(2) [OF assms(1) p] assms(3) by simp
    moreover have "sem m (env(i := b)) (kT m ?p) = sem m env (kT m ?p)"
      "sem m (env(i := b)) (kE m ?p) = sem m env (kE m ?p)"
      using nodeD(10-13) [OF assms(1) p] by (intro edge(2); simp add: elev_def)+
    ultimately have "sem m (env(i := b)) ?p = sem m env ?p" by (simp add: sem_node [OF assms(1) p])
    then show ?thesis using sem_Regular by blast
  qed
qed

lemma Cudd_bddBooleanDiff_answered:
  assumes "mgr_ok ext {} m" "vars_ok ext m" "held ext m f"
  shows "answered ext m (diff_fun m x f) (Cudd_bddBooleanDiff f x m) \<or>
    dsize m \<le> x \<and> Cudd_bddBooleanDiff f x m = Some (Cudd_Not (DD_ONE m), m) \<and> (\<forall>env. \<not> diff_fun m x f env)"
proof (cases "x < dsize m")
  case True
  then have n: "nidx m (vars m ! x) = x" "nth_opt (vars m) x = Some (vars m ! x)"
    using assms(2) vars_get [OF assms(1) True] by (simp_all add: vars_ok_def proj_def)
  have "answered ext m (diff_fun m x f) (retry_reordered (cuddBddBooleanDiffRecur (Cudd_Regular f) (vars m ! x)) m)"
    using diff.retry_delivered [OF assms(1), of "(f, vars m ! x)"] assms(2,3) True n(1) by auto
  then show ?thesis using True n(2) by (simp add: Cudd_bddBooleanDiff_def)
next
  case False
  then have "\<not> diff_fun m x f env" for env
    using sem_beyond [OF mgr_okD(5) [OF assms(1)] heldD(1) [OF assms(3,1)]] by (simp add: diff_fun_def)
  then show ?thesis using False by (simp add: Cudd_bddBooleanDiff_def)
qed

lemma Cudd_bddBooleanDiff_kept:
  assumes "mgr_ok ext {} m" "vars_ok ext m" "held ext m f"
  shows "\<exists>r m'. Cudd_bddBooleanDiff f x m = Some (r, m') \<and>
    keep (set_mset ext) (m\<lparr>reordered := reordered m'\<rparr>) m' \<and>
    (r = NULL \<and> failed m' \<and> mgr_ok ext {} m' \<or>
     r \<in> edges m' \<and> mgr_ok ext {Cudd_Regular r} m' \<and> (\<forall>env. sem m' env r = diff_fun m x f env))"
  using Cudd_bddBooleanDiff_answered [OF assms, of x]
proof
  assume "answered ext m (diff_fun m x f) (Cudd_bddBooleanDiff f x m)"
  then obtain r m' where r: "Cudd_bddBooleanDiff f x m = Some (r, m')"
    "keep (set_mset ext) (m\<lparr>reordered := 0\<rparr>) m'"
    "r = NULL \<and> failed m' \<and> mgr_ok ext {} m' \<or>
      r \<in> edges m' \<and> mgr_ok ext {Cudd_Regular r} m' \<and> (\<forall>env. sem m' env r = diff_fun m x f env)"
    unfolding answered_def delivered_def by blast
  have "reordered m' = 0" using keepD(4) [OF r(2)] by simp
  then show ?thesis using r by (intro exI [of _ r] exI [of _ m']) simp
next
  assume z: "dsize m \<le> x \<and> Cudd_bddBooleanDiff f x m = Some (Cudd_Not (DD_ONE m), m) \<and>
    (\<forall>env. \<not> diff_fun m x f env)"
  note s = mgr_okD(5) [OF assms(1)]
  have "Cudd_Not (DD_ONE m) \<in> edges m \<and> mgr_ok ext {Cudd_Regular (Cudd_Not (DD_ONE m))} m"
    using heldD(1) [OF held_one assms(1)] unfloat_held [OF held_one] assms(1) by simp
  then show ?thesis using z keep_refl [OF assms(1)] s
    by (intro exI [of _ "Cudd_Not (DD_ONE m)"] exI [of _ m]) (simp add: sem_Not)
qed

lemma Cudd_bddVarIsDependent_var:
  assumes "mgr_ok ext {} m" "vars_ok ext m" "held ext m f" "x < dsize m"
  shows "tested ext m (dependent m x f) (Cudd_bddVarIsDependent f (vars m ! x) m)"
proof -
  have v: "vars m ! x \<in># ext" "proj m x (vars m ! x)" using assms(2,4) by (simp_all add: vars_ok_def)
  then have "held ext m (vars m ! x)" using proj_sem(2) [OF mgr_okD(5) [OF assms(1)] v(2)] by (simp add: heldI)
  from Cudd_bddVarIsDependent_ok [OF assms(1,3) this v(2)] show ?thesis .
qed

subsection \<open>What the entries of the computed table say\<close>

lemma entry2_results:
  assumes "entry2_ok m \<lparr>c_f = f, c_g = g, c_h = opr, c_data = r\<rparr>"
  shows "opr = fp_Cudd_bddAnd \<longrightarrow> (\<forall>env. sem m env r = (sem m env f \<and> sem m env g))"
    "opr = fp_Cudd_bddXor \<longrightarrow> (\<forall>env. sem m env r = (sem m env f \<noteq> sem m env g))"
    "opr = fp_Cudd_bddIntersect \<longrightarrow> (\<forall>env. sem m env r \<longrightarrow> sem m env f \<and> sem m env g) \<and>
        ((\<exists>env. sem m env f \<and> sem m env g) \<longrightarrow> (\<exists>env. sem m env r))"
    "opr = fp_Cudd_bddLeq \<longrightarrow> r = (if \<forall>env. sem m env f \<longrightarrow> sem m env g then DD_ONE m else Cudd_Not (DD_ONE m))"
    "opr = fp_Cudd_bddExistAbstract \<longrightarrow> (\<forall>S. cube_of m g S \<longrightarrow> (\<forall>env. sem m env r =
         (\<exists>env'. (\<forall>i. i \<notin> S \<longrightarrow> env' i = env i) \<and> sem m env' f)))"
    "opr = fp_cuddBddBooleanDiffRecur \<longrightarrow> (\<forall>i. is_var m g i \<longrightarrow>
         (\<forall>env. sem m env r = (sem m (env(i := True)) f \<noteq> sem m (env(i := False)) f)))"
    "opr = fp_Cudd_bddVarIsDependent \<longrightarrow> (\<forall>i. is_var m g i \<longrightarrow>
         r = (if \<exists>env. sem m (env(i := True)) f \<and> sem m (env(i := False)) f
              then Cudd_Not (DD_ONE m) else DD_ONE m))"
proof -
  have cond: "Cudd_NotCond p c = (if c then Cudd_Not p else p)" for p c by (cases c) simp_all
  have leq: "Cudd_NotCond (DD_ONE m) (\<exists>env. sem m env f \<and> \<not> sem m env g) =
    (if \<forall>env. sem m env f \<longrightarrow> sem m env g then DD_ONE m else Cudd_Not (DD_ONE m))"
    unfolding cond by auto
  note e = assms [unfolded entry2_ok_def, simplified]
  show "opr = fp_Cudd_bddAnd \<longrightarrow> (\<forall>env. sem m env r = (sem m env f \<and> sem m env g))"
    "opr = fp_Cudd_bddXor \<longrightarrow> (\<forall>env. sem m env r = (sem m env f \<noteq> sem m env g))"
    "opr = fp_Cudd_bddIntersect \<longrightarrow> (\<forall>env. sem m env r \<longrightarrow> sem m env f \<and> sem m env g) \<and>
        ((\<exists>env. sem m env f \<and> sem m env g) \<longrightarrow> (\<exists>env. sem m env r))"
    using e by simp_all
  show "opr = fp_Cudd_bddLeq \<longrightarrow> r = (if \<forall>env. sem m env f \<longrightarrow> sem m env g then DD_ONE m else Cudd_Not (DD_ONE m))"
    using e unfolding leq by blast
  show "opr = fp_Cudd_bddExistAbstract \<longrightarrow> (\<forall>S. cube_of m g S \<longrightarrow> (\<forall>env. sem m env r =
         (\<exists>env'. (\<forall>i. i \<notin> S \<longrightarrow> env' i = env i) \<and> sem m env' f)))"
    using e by (simp add: quantify_def)
  show "opr = fp_cuddBddBooleanDiffRecur \<longrightarrow> (\<forall>i. is_var m g i \<longrightarrow>
         (\<forall>env. sem m env r = (sem m (env(i := True)) f \<noteq> sem m (env(i := False)) f)))"
    using e by simp
  show "opr = fp_Cudd_bddVarIsDependent \<longrightarrow> (\<forall>i. is_var m g i \<longrightarrow>
         r = (if \<exists>env. sem m (env(i := True)) f \<and> sem m (env(i := False)) f
              then Cudd_Not (DD_ONE m) else DD_ONE m))"
    using e unfolding cond by blast
qed

end
