(* ===== verification/Spec2Isabelle.thy ===== *)
theory Spec2Isabelle
  imports CuddDemo CondSession StTable CuddAbstract
begin

text \<open>
  K-Miner searches the Linux kernel for memory-corruption bugs by data-flow analysis. The
  conditions under which a path is taken are binary decision diagrams, kept by a copy of the
  CUDD package in \<open>lib/SVF/CUDD\<close> and used through \<open>lib/SVF/Util/Conditions.cpp\<close>. This
  development models the part of the package that the analysis runs, with its memory
  management, and the client.

  The theories, from the bottom:

  \<^item> \<open>Prelude\<close>: pointers as 32-bit words, the complement bit of an edge (\<open>Cudd_Not\<close>,
    \<open>Cudd_Regular\<close>), checked access to lists.
  \<^item> \<open>CuddInt\<close>: \<open>cudd.h\<close> and \<open>cuddInt.h\<close>. A node is a record with index, reference count and
    children; the manager (\<open>DdManager\<close>) maps addresses to nodes and holds the subtables, one per
    level, the computed table, the free list, the death row, the variable order and the counters.
    A collision chain is the list of its nodes in order; a bucket array a list of chains.
  \<^item> \<open>CuddStore\<close>: what a table of nodes means. \<open>sem m env e\<close> is the Boolean function of the
    edge \<open>e\<close>; \<open>store_ok\<close> says that the nodes are ordered, reduced and unique, and its main
    consequence is canonicity.
  \<^item> \<open>CuddInv\<close>: the invariant \<open>mgr_ok ext F m\<close> of a manager between operations: \<open>ext\<close> is
    the multiset of references that the outside world owns, \<open>F\<close> the nodes that are just
    delivered and not yet referenced. Counts are exact up to saturation, the numbers of keys and
    dead nodes are exact, the free list and the blocks of memory are disjoint from the table, each
    entry of the computed table is a true statement.
  \<^item> \<open>CuddRef\<close>: \<open>cuddRef.c\<close>, references, iterative dereferencing and reclaiming with the
    manager's stack, the death row.
  \<^item> \<open>CuddCache\<close>: \<open>cuddCache.c\<close>, the computed table.
  \<^item> \<open>CuddTable\<close>: \<open>cuddTable.c\<close>, allocation, garbage collection, rehashing, find-or-create,
    growth of the number of variables. The proofs are in \<open>CuddGC\<close> (garbage collection),
    \<open>CuddGrow\<close> (allocation, rehashing), \<open>CuddUnique\<close> (\<open>cuddUniqueInter\<close>), \<open>CuddVars\<close> and
    \<open>CuddResize\<close> (new variables: \<open>vars_ok ext m\<close> says that \<open>vars\<close> holds their projection functions).
  \<^item> \<open>CuddInit\<close>: the making of a manager, \<open>Cudd_Init\<close> of \<open>cuddInit.c\<close> with \<open>cuddInitTable\<close>,
    \<open>cuddInitCache\<close> and the table of constants; it establishes \<open>mgr_ok\<close>.
  \<^item> \<open>CuddBddIte\<close>: \<open>cuddBddIte.c\<close>; \<open>CuddApply\<close> proves the recursive procedures for
    conjunction, exclusive or and if-then-else, \<open>CuddOps\<close> the operations that applications call.
    These wrap a recursive procedure in the same way: the locale \<open>bdd_procedure\<close> states the
    contract of a procedure and proves the wrappers once, for the three of them.
    \<open>CuddLeq\<close> proves the containment test and the intersection.
  \<^item> \<open>CuddBddAbs\<close>: \<open>cuddBddAbs.c\<close> and \<open>cuddAndAbs.c\<close>, quantification over the variables of a
    cube, the Boolean difference and the test for a dependent variable. \<open>CuddQuant\<close> relates the
    cubes of the code to sets of variables; \<open>CuddExist\<close>, \<open>CuddDiff\<close>, \<open>CuddAndAbs\<close> and
    \<open>CuddXorAbs\<close> prove the recursive procedures (\<open>CuddDelay\<close> the delayed release of references
    that one of them uses), and \<open>CuddAbstract\<close> the exported functions, with four more interpretations of
    \<open>bdd_procedure\<close>, and reads off what each entry of the computed table says.
  \<^item> \<open>BddCond\<close>: \<open>Conditions.cpp\<close>, \<open>AND\<close>, \<open>OR\<close>, \<open>NEG\<close> of path conditions with the limit on
    new nodes, the variables, and the support of a condition. \<open>CondSession\<close> runs the client: an
    inductive step relation for the calls of the analysis in any order, from the constructor, and
    the invariant of the reachable states. \<open>markForRelease\<close> is no step: its callers in
    \<open>ProgSlice.cpp\<close> are commented out.
  \<^item> \<open>StTable\<close>: \<open>st.c\<close>, the chained hash table of the package, with the locale \<open>st_keys\<close> for the
    comparison and hash functions, interpreted on the predefined ones for pointers and numbers.
    Its counters are \<open>int\<close>s of the code, and an overflow has no result: \<open>has_room\<close> and \<open>can_grow\<close>
    say of a table that its next insertion or growth stays in range.
  \<^item> \<open>CuddDemo\<close>: a concrete manager with two variables, to which the theorems are applied.

  Conventions. Stateful functions take the manager and return \<open>Some\<close> result with the new
  manager. \<open>None\<close> is what the program must not do: access to memory that is not there,
  \<open>abort\<close> in the check of reference counts, a loop that does not end, a call of the reordering
  procedure. So the theorems that a function returns exclude these. Recursive procedures and
  loops are \<open>partial_function\<close>, and their termination is part of each theorem; no fuel is used.
  A C function that returns a null pointer returns \<open>NULL\<close> in the model, with the manager as the
  code leaves it, so that running out of memory, of time or of the limit on nodes is covered, and
  the theorems say that the error code of the manager gives the reason.

  Out of memory. The package calls the handler \<open>MMoutOfMemory\<close> before it returns \<open>NULL\<close>; the one
  that is linked, of \<open>safe_mem.c\<close>, ends the process, and an application may install one that
  returns. The model goes on as the code does behind a handler that returns, and the field
  \<open>oom_called\<close> of the manager records the call: with the linked handler no state in which it holds
  is ever reached. The theorems cover both kinds.

  Sizes of arrays. The macro \<open>ALLOC\<close> multiplies in a 32-bit \<open>long\<close>. A computed table of \<open>2 ^ 27\<close>
  entries or more has no block (\<open>alloc_fits\<close>), and the model has no result for the overflow;
  \<open>Cudd_Init_correct\<close> asks for less, and the invariant keeps \<open>maxCacheHard\<close> and with it every
  resized table below. A subtable has at most \<open>2 ^ 27\<close> slots of 4 bytes. The traversal stack and the arrays
  over the variables have at most 65536 entries. Shrinking the death row is taken to
  succeed.

  Parameters. The answers of the operating system are lists in the manager: the addresses of
  blocks of memory (\<open>os_chunks\<close>), the success of other allocations (\<open>os_allocs\<close>), the times
  read from the clock and compared with the time limit (\<open>os_clock\<close>; the readings for the statistics of the time
  spent are left out). A list that is empty means failure. Statistics that are real numbers in C are
  integers or rationals here.

  Configuration. The build defines none of the size macros, so that the defaults of the
  headers hold: pointers have 4 bytes, nodes 16, reference counts are 16 bits wide and saturate, the
  index of constants is 65535. Hooks, local caches, the variable map and printing are absent.

  Not modelled: dynamic reordering (never enabled by the analysis), zero-suppressed and
  algebraic diagrams, the operations of the package outside the files above, file formats, and the
  analysis itself, which is C++ over the data structures of LLVM.
\<close>

section \<open>A run of the analysis\<close>

text \<open>
  C1. Over-approximation. In every run that starts with the constructor and goes on with new
  variables, constants, conjunctions, disjunctions and negations in any order, a condition
  is never stronger than the formula it was asked for, as long as negation was applied to formulas
  without conjunction and disjunction only; those are exact. So a path whose condition is the false
  one is infeasible.
\<close>

theorem conditions_over_approximate:
  assumes "reachable limit (b, cs)" "(d, F) \<in> set cs" "weakens F"
  shows "(\<forall>env. meaning F env \<longrightarrow> sem (m_bdd_mgr b) env d) \<and>
    (exact F \<longrightarrow> (\<forall>env. sem (m_bdd_mgr b) env d = meaning F env)) \<and>
    (d = getFalseCond (m_bdd_mgr b) \<longrightarrow> (\<forall>env. \<not> meaning F env))"
proof -
  from condition_stands [OF assms(1,2)] obtain ext where
    e: "mgr_ok ext {} (m_bdd_mgr b)" "stands ext (m_bdd_mgr b) (d, F)" by blast
  have "\<not> sem (m_bdd_mgr b) env (getFalseCond (m_bdd_mgr b))" for env by (rule cond_constants(4) [OF e(1)])
  then show ?thesis using e(2) assms(3) by (auto simp: stands_def)
qed

theorem conditions_over_approximate_witness:
  "\<exists>b cs d. reachable 100 (b, cs) \<and> (d, FNeg FTrue) \<in> set cs \<and> (\<forall>env. \<not> sem (m_bdd_mgr b) env d)"
proof -
  obtain b where r: "reachable 100 (b, [(cond_NEG (getTrueCond (m_bdd_mgr b)) (m_bdd_mgr b), FNeg FTrue),
    (getTrueCond (m_bdd_mgr b), FTrue)])" by (rule demo_run)
  have "\<not> sem (m_bdd_mgr b) env (cond_NEG (getTrueCond (m_bdd_mgr b)) (m_bdd_mgr b))" for env
    using conditions_over_approximate [OF r, of _ "FNeg FTrue"] by simp
  with r show ?thesis by (intro exI) (rule conjI, assumption, rule conjI, rule list.set_intros(1), simp)
qed

text \<open>
  C2. Stability. However a run goes on, through growth of the tables, garbage collection and
  new variables, each condition obtained before stays the diagram of the same function, and two
  exact conditions are the same pointer just when their formulas are equivalent.
\<close>

theorem conditions_stay:
  assumes "reachable limit s" "(cond_step limit)\<^sup>*\<^sup>* s s'" "(d, F) \<in> set (snd s)"
  shows "(d, F) \<in> set (snd s') \<and>
    (\<forall>env. sem (m_bdd_mgr (fst s')) env d = sem (m_bdd_mgr (fst s)) env d) \<and>
    (\<forall>e G. (e, G) \<in> set (snd s') \<and> exact F \<and> exact G \<longrightarrow>
       (d = e \<longleftrightarrow> (\<forall>env. meaning F env = meaning G env)))"
proof -
  obtain ext where "session_ok ext s" using reachable_ok [OF assms(1)] by blast
  from steps_keep [OF assms(2) this assms(3)] have k: "(d, F) \<in> set (snd s')"
    "\<forall>env. sem (m_bdd_mgr (fst s')) env d = sem (m_bdd_mgr (fst s)) env d" by simp_all
  have "reachable limit s'" using assms(2,1) by induction (auto intro: reachable.step)
  then obtain ext' where "session_ok ext' (fst s', snd s')" using reachable_ok by fastforce
  note o = session_okD [OF this]
  have "d = e \<longleftrightarrow> (\<forall>env. meaning F env = meaning G env)" if "(e, G) \<in> set (snd s')" "exact F" "exact G" for e G
    by (rule stands_equal [OF o(1) o(3) [OF k(1)] o(3) [OF that(1)] that(2,3)])
  then show ?thesis using k by blast
qed

theorem conditions_stay_witness:
  "\<exists>b s' d. cond_step 100 (b, [(d, FTrue)]) s' \<and> (d, FTrue) \<in> set (snd s') \<and>
    (\<forall>env. sem (m_bdd_mgr (fst s')) env d = sem (m_bdd_mgr b) env d)"
proof -
  obtain b where b: "reachable 100 (b, [])" using demo_starts by blast
  let ?t = "getTrueCond (m_bdd_mgr b)"
  have r: "reachable 100 (b, [(?t, FTrue)])" by (rule reachable.step [OF b cond_step.true])
  have c: "cond_step 100 (b, [(?t, FTrue)]) (b, [(cond_NEG ?t (m_bdd_mgr b), FNeg FTrue), (?t, FTrue)])"
    by (rule cond_step.neg) simp
  then have "(cond_step 100)\<^sup>*\<^sup>* (b, [(?t, FTrue)]) (b, [(cond_NEG ?t (m_bdd_mgr b), FNeg FTrue), (?t, FTrue)])" ..
  from conditions_stay [OF r this, of ?t FTrue] c show ?thesis
    by (intro exI [of _ b] exI [of _ "(b, [(cond_NEG ?t (m_bdd_mgr b), FNeg FTrue), (?t, FTrue)])"] exI [of _ ?t])
      simp
qed



text \<open>
  C4. The type of a condition. Every node below a condition of a run is an allocated, aligned
  record: either the constant one, or a node with the index of a variable of the manager, whose two
  children are different and allocated, the first without the complement bit.
\<close>

theorem conditions_well_typed:
  assumes "reachable limit (b, cs)" "(d, F) \<in> set cs" "p \<in> reach (m_bdd_mgr b) {Cudd_Regular d}"
  shows "well_typed (m_bdd_mgr b) p"
  using condition_stands [OF assms(1,2)] held_well_typed [OF _ _ assms(3)] by metis

theorem conditions_well_typed_witness:
  "\<exists>b. reachable 100 (b, [(getTrueCond (m_bdd_mgr b), FTrue)]) \<and>
    well_typed (m_bdd_mgr b) (Cudd_Regular (getTrueCond (m_bdd_mgr b)))"
proof -
  obtain b where b: "reachable 100 (b, [])" using demo_starts by blast
  let ?t = "getTrueCond (m_bdd_mgr b)"
  have r: "reachable 100 (b, [(?t, FTrue)])" by (rule reachable.step [OF b cond_step.true])
  have "Cudd_Regular ?t \<in> reach (m_bdd_mgr b) {Cudd_Regular ?t}" by (rule reach.base) simp
  from conditions_well_typed [OF r _ this, of FTrue] r show ?thesis by auto
qed



text \<open>
  C6. The initial number of slots is rounded up to a power of two by shifting a 32-bit number:
  for a request above \<open>2 ^ 31\<close> the number becomes zero and the loop does not end, as soon as
  the manager structure itself could be allocated. When it could not, \<open>NULL\<close> is returned first.
\<close>

theorem cuddInitTable_hangs:
  assumes "2 ^ 31 < unat numSlots"
  shows "cuddInitTable numVars numSlots loose e =
    (if \<exists>bs. env_allocs e = True # bs then None else Some None)"
  using round_slots_hangs [OF assms] by (auto simp: cuddInitTable_def split: list.splits bool.splits)

theorem cuddInitTable_hangs_witness: "cuddInitTable 0 0x80000001 0 demo_env = None"
proof -
  have "replicate 13 True = True # replicate 12 True" by (simp only: numeral_eq_Suc pred_numeral_simps replicate_Suc)
  then have "\<exists>bs. env_allocs demo_env = True # bs" by (simp add: demo_env_def)
  moreover have "2 ^ 31 < unat (0x80000001 :: uint32)" by simp
  ultimately show ?thesis using cuddInitTable_hangs [of "0x80000001" 0 0 demo_env] by meson
qed

text \<open>
  C7. A variable by its index. \<open>Cudd_bddIthVar\<close> returns; for an index that is not there yet
  it makes all variables up to it. It gives \<open>NULL\<close>, or the diagram of the variable, which the manager
  owns: the manager satisfies the invariant with the references it had and those to
  the new variables, and every diagram the caller holds is kept.
\<close>

theorem Cudd_bddIthVar_correct:
  assumes "mgr_ok ext {} m" "vars_ok ext m"
  shows "\<exists>v m'. Cudd_bddIthVar i m = Some (v, m') \<and> (v = NULL \<or> (\<exists>ext'. ext \<subseteq># ext' \<and>
    mgr_ok ext' {} m' \<and> vars_ok ext' m' \<and> i < dsize m' \<and> held ext' m' v \<and>
    (\<forall>env. sem m' env v = env i) \<and>
    (\<forall>e. held ext m e \<longrightarrow> held ext' m' e \<and> (\<forall>env. sem m' env e = sem m env e))))"
proof -
  obtain v m' where r: "Cudd_bddIthVar i m = Some (v, m')" "v = NULL \<or> (\<exists>ext'. ext \<subseteq># ext' \<and>
    mgr_ok ext' {} m' \<and> vars_ok ext' m' \<and> extends (set_mset ext) (dsize m) m m' \<and> i < dsize m' \<and>
    held ext' m' v \<and> (\<forall>env. sem m' env v = env i))" using Cudd_bddIthVar_ok [OF assms, of i] by blast
  show ?thesis
  proof (cases "v = NULL")
    case False
    then obtain ext' where e: "ext \<subseteq># ext'" "mgr_ok ext' {} m'" "vars_ok ext' m'"
      "extends (set_mset ext) (dsize m) m m'" "i < dsize m'" "held ext' m' v" "\<forall>env. sem m' env v = env i"
      using r(2) by blast
    note k = held_extends [OF assms(1) e(2,4,1)]
    then show ?thesis using r(1) e by (intro exI [of _ v] exI [of _ m'] conjI disjI2 exI [of _ ext']) simp_all
  qed (use r(1) in simp)
qed

theorem Cudd_bddIthVar_correct_witness:
  "\<exists>v m'. Cudd_bddIthVar 7 demo = Some (v, m') \<and> (v = NULL \<or> 7 < dsize m' \<and> (\<forall>env. sem m' env v = env 7))"
  using Cudd_bddIthVar_correct [OF demo_ok demo_vars, of 7] by blast

section \<open>The Boolean operations\<close>

text \<open>
  C8. Conjunction. For a consistent manager and operands that the caller holds,
  \<open>Cudd_bddAnd\<close> returns; every diagram the caller holds keeps its nodes and the variable order
  is the same; the result is \<open>NULL\<close> with the reason in the error code, a consistent manager and no
  reference left behind, or an edge for the conjunction whose node the caller may reference.
\<close>

theorem Cudd_bddAnd_correct:
  assumes "mgr_ok ext {} m" "held ext m f" "held ext m g"
  shows "\<exists>r m'. Cudd_bddAnd f g m = Some (r, m') \<and>
    keep (set_mset ext) (m\<lparr>reordered := 0\<rparr>) m' \<and>
    (r = NULL \<and> errorCode m' \<noteq> CUDD_NO_ERROR \<and> mgr_ok ext {} m' \<or>
     r \<in> edges m' \<and> mgr_ok ext {Cudd_Regular r} m' \<and>
       (\<forall>env. sem m' env r = (sem m env f \<and> sem m env g)))"
  using Cudd_bddAnd_answered(1) [OF assms] by (simp add: answered_def delivered_def)

theorem Cudd_bddAnd_correct_witness:
  "\<exists>r m'. Cudd_bddAnd demo_x (Cudd_Not demo_y) demo = Some (r, m') \<and>
    (r = NULL \<or> r \<in> edges m' \<and> (\<forall>env. sem m' env r = (env 0 \<and> \<not> env 1)))"
  using Cudd_bddAnd_correct [OF demo_ok demo_held(2), of "Cudd_Not demo_y"] demo_held(3)
  by (auto simp: demo_sem)

text \<open>
  C9. The path condition \<open>AND\<close> is sound. The condition returned holds wherever both
  operands hold, and only where the left one does. It is the exact conjunction, unless the call of
  \<open>Cudd_bddAndLimit\<close> gave up: it returned \<open>NULL\<close>, with the reason in the manager's error code
  (the limit on live nodes, memory or time); then it is the left operand. The caller holds the
  result, with the references it had or one more, and keeps every condition it held.
\<close>

theorem cond_AND_sound:
  assumes "mgr_ok ext {} m" "held ext m lhs" "held ext m rhs"
  shows "\<exists>r m' ext'. cond_AND limit lhs rhs m = Some (r, m') \<and> mgr_ok ext' {} m' \<and>
    (ext' = ext \<or> ext' = add_mset (Cudd_Regular r) ext) \<and> held ext' m' r \<and>
    keep (set_mset ext) (m\<lparr>reordered := reordered m'\<rparr>) m' \<and>
    (\<forall>env. sem m env lhs \<and> sem m env rhs \<longrightarrow> sem m' env r) \<and>
    (\<forall>env. sem m' env r \<longrightarrow> sem m env lhs) \<and>
    ((\<forall>env. sem m' env r = (sem m env lhs \<and> sem m env rhs)) \<or>
     Cudd_bddAndLimit lhs rhs limit m = Some (NULL, m') \<and> errorCode m' \<noteq> CUDD_NO_ERROR \<and>
       (\<forall>env. sem m' env r = sem m env lhs))"
proof -
  obtain r m' ext' where r: "cond_AND limit lhs rhs m = Some (r, m')" "mgr_ok ext' {} m'"
    "ext' = ext \<or> ext' = add_mset (Cudd_Regular r) ext" "held ext' m' r"
    "keep (set_mset ext) (m\<lparr>reordered := reordered m'\<rparr>) m'"
    "(\<forall>env. sem m' env r = (sem m env lhs \<and> sem m env rhs)) \<or>
     Cudd_bddAndLimit lhs rhs limit m = Some (NULL, m') \<and> errorCode m' \<noteq> CUDD_NO_ERROR \<and>
       (\<forall>env. sem m' env r = sem m env lhs)"
    using cond_AND_ok [OF assms, of limit] unfolding handed_def by blast
  then have "(\<forall>env. sem m env lhs \<and> sem m env rhs \<longrightarrow> sem m' env r) \<and> (\<forall>env. sem m' env r \<longrightarrow> sem m env lhs)"
    by blast
  then show ?thesis using r by blast
qed

theorem cond_AND_sound_witness:
  "\<exists>r m'. cond_AND maxBddSize demo_x demo_y demo = Some (r, m') \<and>
    (\<forall>env. env 0 \<and> env 1 \<longrightarrow> sem m' env r) \<and> (\<forall>env. sem m' env r \<longrightarrow> env 0)"
  using cond_AND_sound [OF demo_ok demo_held(2,3), of maxBddSize] by (auto simp: demo_sem)

text \<open>
  C10. The path condition \<open>OR\<close> is sound. The condition returned holds wherever one of the
  operands does. It is the exact disjunction, unless the call of \<open>Cudd_bddOrLimit\<close> gave up, with
  \<open>NULL\<close> and the reason in the manager's error code (the limit on live nodes, memory or time); then it is
  true. The caller holds the result and keeps every condition it held.
\<close>

theorem cond_OR_sound:
  assumes "mgr_ok ext {} m" "held ext m lhs" "held ext m rhs"
  shows "\<exists>r m' ext'. cond_OR limit lhs rhs m = Some (r, m') \<and> mgr_ok ext' {} m' \<and>
    (ext' = ext \<or> ext' = add_mset (Cudd_Regular r) ext) \<and> held ext' m' r \<and>
    keep (set_mset ext) (m\<lparr>reordered := reordered m'\<rparr>) m' \<and>
    (\<forall>env. sem m env lhs \<or> sem m env rhs \<longrightarrow> sem m' env r) \<and>
    ((\<forall>env. sem m' env r = (sem m env lhs \<or> sem m env rhs)) \<or>
     Cudd_bddOrLimit lhs rhs limit m = Some (NULL, m') \<and> errorCode m' \<noteq> CUDD_NO_ERROR \<and>
       (\<forall>env. sem m' env r))"
proof -
  obtain r m' ext' where r: "cond_OR limit lhs rhs m = Some (r, m')" "mgr_ok ext' {} m'"
    "ext' = ext \<or> ext' = add_mset (Cudd_Regular r) ext" "held ext' m' r"
    "keep (set_mset ext) (m\<lparr>reordered := reordered m'\<rparr>) m'"
    "(\<forall>env. sem m' env r = (sem m env lhs \<or> sem m env rhs)) \<or>
     Cudd_bddOrLimit lhs rhs limit m = Some (NULL, m') \<and> errorCode m' \<noteq> CUDD_NO_ERROR \<and>
       (\<forall>env. sem m' env r)"
    using cond_OR_ok [OF assms, of limit] unfolding handed_def by blast
  then have "\<forall>env. sem m env lhs \<or> sem m env rhs \<longrightarrow> sem m' env r" by blast
  then show ?thesis using r by blast
qed

theorem cond_OR_sound_witness:
  "\<exists>r m'. cond_OR maxBddSize demo_x demo_y demo = Some (r, m') \<and> (\<forall>env. env 0 \<or> env 1 \<longrightarrow> sem m' env r)"
  using cond_OR_sound [OF demo_ok demo_held(2,3), of maxBddSize] by (auto simp: demo_sem)

text \<open>
  C11. Find or create. For an index whose level is above two different held diagrams, the
  then one regular, \<open>cuddUniqueInter\<close> returns; it keeps every held diagram and gives \<open>NULL\<close>, or
  the one node of that level with these two children, which the caller may reference.
\<close>

theorem cuddUniqueInter_correct:
  assumes "mgr_ok ext {} m" "held ext m T" "held ext m E" "\<not> Cudd_IsComplement T" "T \<noteq> E"
    and "i < dsize m" "perm m ! i < elev m T" "perm m ! i < elev m E"
  shows "\<exists>r m'. cuddUniqueInter i T E m = Some (r, m') \<and> keep (set_mset ext) m m' \<and>
    (r = NULL \<and> mgr_ok ext {} m' \<or>
     mgr_ok ext {r} m' \<and> {p \<in> tabnodes m'. lev m' p = perm m ! i \<and> kT m' p = T \<and> kE m' p = E} = {r})"
proof -
  note s = mgr_okD(5) [OF assms(1)]
  have l: "perm m ! i < dsize m" "i = invperm m ! (perm m ! i)" using order_okD(8,9) [OF s assms(6)] by simp_all
  have "below ext m (perm m ! i) T E"
    using assms l(1) by (simp add: below_def held_def elev_def)
  from cuddUniqueInter_ok [OF assms(1) this l(2)] obtain r m' where
    r: "cuddUniqueInter i T E m = Some (r, m')" "keep (set_mset ext) m m'"
      "r = NULL \<and> failed m' \<and> mgr_ok ext {} m' \<or>
        r \<in> tabnodes m' \<and> lev m' r = perm m ! i \<and> kT m' r = T \<and> kE m' r = E \<and> mgr_ok ext {r} m'"
    unfolding made_def by blast
  have "p = r" if "r \<in> tabnodes m'" "p \<in> tabnodes m'" "lev m' p = lev m' r" "kT m' p = kT m' r"
    "kE m' p = kE m' r" "mgr_ok ext {r} m'" for p
  proof -
    note st = mgr_okD(5) [OF that(6)]
    have "nidx m' p = nidx m' r" using tabnode(6) [OF st] that(1-3) by metis
    then show ?thesis by (rule unique_node [OF st that(2,1) _ that(4,5)])
  qed
  then have "{p \<in> tabnodes m'. lev m' p = perm m ! i \<and> kT m' p = T \<and> kE m' p = E} = {r}"
    if "r \<in> tabnodes m' \<and> lev m' r = perm m ! i \<and> kT m' r = T \<and> kE m' r = E \<and> mgr_ok ext {r} m'"
    using that by auto
  then show ?thesis using r by blast
qed

theorem cuddUniqueInter_correct_witness:
  "\<exists>r m'. cuddUniqueInter 0 demo_one demo_y demo = Some (r, m') \<and>
    (r = NULL \<or> {p \<in> tabnodes m'. lev m' p = 0 \<and> kT m' p = demo_one \<and> kE m' p = demo_y} = {r})"
  using cuddUniqueInter_correct [OF demo_ok demo_held(1,3), of 0]
  by (auto simp: demo_ptrs demo_fields demo_lev elev_def)

text \<open>
  C12. If-then-else. \<open>Cudd_bddIte\<close> returns \<open>NULL\<close>, with the reason in the error code, or the diagram of the function that is \<open>g\<close>
  where \<open>f\<close> holds and \<open>h\<close> elsewhere, and keeps every held diagram.
\<close>

theorem Cudd_bddIte_correct:
  assumes "mgr_ok ext {} m" "held ext m f" "held ext m g" "held ext m h"
  shows "\<exists>r m'. Cudd_bddIte f g h m = Some (r, m') \<and>
    keep (set_mset ext) (m\<lparr>reordered := 0\<rparr>) m' \<and>
    (r = NULL \<and> errorCode m' \<noteq> CUDD_NO_ERROR \<and> mgr_ok ext {} m' \<or>
     r \<in> edges m' \<and> mgr_ok ext {Cudd_Regular r} m' \<and>
       (\<forall>env. sem m' env r = (if sem m env f then sem m env g else sem m env h)))"
  using Cudd_bddIte_answered(1) [OF assms] unfolding answered_def delivered_def ite_fun_def .

theorem Cudd_bddIte_correct_witness:
  "\<exists>r m'. Cudd_bddIte demo_x (Cudd_Not demo_y) demo_y demo = Some (r, m') \<and>
    (r = NULL \<or> r \<in> edges m' \<and> (\<forall>env. sem m' env r = (if env 0 then \<not> env 1 else env 1)))"
proof -
  have h: "held demo_ext demo (Cudd_Not demo_y)" using demo_held(3) by simp
  show ?thesis
    using Cudd_bddIte_correct [OF demo_ok demo_held(2) h demo_held(3)] by (auto simp: demo_sem cong: if_cong)
qed

text \<open>
  C13. Exclusive or and equivalence. \<open>Cudd_bddXor\<close> and \<open>Cudd_bddXnor\<close> return \<open>NULL\<close>, with the reason
  in the error code, or the diagrams of the two functions, and keep every held diagram.
\<close>

theorem Cudd_bddXor_correct:
  assumes "mgr_ok ext {} m" "held ext m f" "held ext m g"
  shows "(\<exists>r m'. Cudd_bddXor f g m = Some (r, m') \<and> keep (set_mset ext) (m\<lparr>reordered := 0\<rparr>) m' \<and>
      (r = NULL \<and> errorCode m' \<noteq> CUDD_NO_ERROR \<and> mgr_ok ext {} m' \<or> r \<in> edges m' \<and> mgr_ok ext {Cudd_Regular r} m' \<and>
        (\<forall>env. sem m' env r = (sem m env f \<noteq> sem m env g)))) \<and>
    (\<exists>r m'. Cudd_bddXnor f g m = Some (r, m') \<and> keep (set_mset ext) (m\<lparr>reordered := 0\<rparr>) m' \<and>
      (r = NULL \<and> errorCode m' \<noteq> CUDD_NO_ERROR \<and> mgr_ok ext {} m' \<or> r \<in> edges m' \<and> mgr_ok ext {Cudd_Regular r} m' \<and>
        (\<forall>env. sem m' env r = (sem m env f = sem m env g))))"
  using Cudd_bddXor_answered(1,2) [OF assms] by (simp add: answered_def delivered_def)

theorem Cudd_bddXor_correct_witness:
  "\<exists>r m'. Cudd_bddXor demo_x demo_y demo = Some (r, m') \<and>
    (r = NULL \<or> r \<in> edges m' \<and> (\<forall>env. sem m' env r = (env 0 \<noteq> env 1)))"
  using Cudd_bddXor_correct [OF demo_ok demo_held(2,3)] by (auto simp: demo_sem)

text \<open>
  C14. Disjunction, and the negated operations: \<open>Cudd_bddOr\<close>, \<open>Cudd_bddNor\<close> and
  \<open>Cudd_bddNand\<close> return \<open>NULL\<close>, with the reason in the error code, or the diagram of their function, and keep every held diagram.
\<close>

theorem Cudd_bddOr_correct:
  assumes "mgr_ok ext {} m" "held ext m f" "held ext m g"
    and "(op, P) \<in> {(Cudd_bddOr f g, \<lambda>x y. x \<or> y), (Cudd_bddNor f g, \<lambda>x y. \<not> (x \<or> y)),
      (Cudd_bddNand f g, \<lambda>x y. \<not> (x \<and> y))}"
  shows "\<exists>r m'. op m = Some (r, m') \<and> keep (set_mset ext) (m\<lparr>reordered := 0\<rparr>) m' \<and>
    (r = NULL \<and> errorCode m' \<noteq> CUDD_NO_ERROR \<and> mgr_ok ext {} m' \<or> r \<in> edges m' \<and> mgr_ok ext {Cudd_Regular r} m' \<and>
      (\<forall>env. sem m' env r = P (sem m env f) (sem m env g)))"
  using assms(4) Cudd_bddOr_answered(1,3) [OF assms(1-3)] Cudd_bddNand_answered [OF assms(1-3)]
  by (auto simp: answered_def delivered_def)

theorem Cudd_bddOr_correct_witness:
  "\<exists>r m'. Cudd_bddNor demo_x demo_y demo = Some (r, m') \<and>
    (r = NULL \<or> r \<in> edges m' \<and> (\<forall>env. sem m' env r = (\<not> (env 0 \<or> env 1))))"
  using Cudd_bddOr_correct [OF demo_ok demo_held(2,3), of "Cudd_bddNor demo_x demo_y" "\<lambda>x y. \<not> (x \<or> y)"]
  by (auto simp: demo_sem)

text \<open>
  C15. Containment and intersection. \<open>Cudd_bddLeq\<close> returns, and answers whether the first
  function implies the second one, with no reference left behind. \<open>Cudd_bddIntersect\<close> returns
  \<open>NULL\<close>, with the reason in the error code, or a diagram that implies both operands and is not false
  unless their conjunction is. Both keep every held diagram.
\<close>

theorem Cudd_bddLeq_correct:
  assumes "mgr_ok ext {} m" "held ext m f" "held ext m g"
  shows "(\<exists>m'. Cudd_bddLeq f g m = Some ((\<forall>env. sem m env f \<longrightarrow> sem m env g), m') \<and>
      keep (set_mset ext) m m' \<and> mgr_ok ext {} m') \<and>
    (\<exists>r m'. Cudd_bddIntersect f g m = Some (r, m') \<and> keep (set_mset ext) (m\<lparr>reordered := 0\<rparr>) m' \<and>
      (r = NULL \<and> errorCode m' \<noteq> CUDD_NO_ERROR \<and> mgr_ok ext {} m' \<or>
       r \<in> edges m' \<and> mgr_ok ext {Cudd_Regular r} m' \<and>
         (\<forall>env. sem m' env r \<longrightarrow> sem m env f \<and> sem m env g) \<and>
         ((\<exists>env. sem m env f \<and> sem m env g) \<longrightarrow> (\<exists>env. sem m' env r))))"
proof (rule conjI)
  show "\<exists>m'. Cudd_bddLeq f g m = Some ((\<forall>env. sem m env f \<longrightarrow> sem m env g), m') \<and>
    keep (set_mset ext) m m' \<and> mgr_ok ext {} m'"
    using Cudd_bddLeq_ok [OF assms] by (simp add: tested_def leq_def)
  obtain P where "meets m f g P" "answered ext m P (Cudd_bddIntersect f g m)"
    using Cudd_bddIntersect_answered [OF assms] by blast
  then show "\<exists>r m'. Cudd_bddIntersect f g m = Some (r, m') \<and> keep (set_mset ext) (m\<lparr>reordered := 0\<rparr>) m' \<and>
    (r = NULL \<and> errorCode m' \<noteq> CUDD_NO_ERROR \<and> mgr_ok ext {} m' \<or>
     r \<in> edges m' \<and> mgr_ok ext {Cudd_Regular r} m' \<and>
       (\<forall>env. sem m' env r \<longrightarrow> sem m env f \<and> sem m env g) \<and>
       ((\<exists>env. sem m env f \<and> sem m env g) \<longrightarrow> (\<exists>env. sem m' env r)))"
    by (auto simp: answered_def delivered_def meets_def)
qed

theorem Cudd_bddLeq_correct_witness:
  "(\<exists>m'. Cudd_bddLeq demo_x demo_y demo = Some (False, m')) \<and>
    (\<exists>r m'. Cudd_bddIntersect demo_x demo_y demo = Some (r, m') \<and>
      (r = NULL \<or> (\<forall>env. sem m' env r \<longrightarrow> env 0 \<and> env 1) \<and> (\<exists>env. sem m' env r)))"
proof -
  have n: "(\<forall>env. (env :: nat \<Rightarrow> bool) 0 \<longrightarrow> env 1) = False" by (auto intro: exI [of _ "\<lambda>i. i = 0"])
  have e: "\<exists>env. (env :: nat \<Rightarrow> bool) 0 \<and> env 1" by (rule exI [of _ "\<lambda>_. True"]) simp
  show ?thesis using Cudd_bddLeq_correct [OF demo_ok demo_held(2,3)] e unfolding demo_sem n by blast
qed

text \<open>
  C16. Quantification. When the second operand is the conjunction of the variables of a set
  \<open>S\<close>, \<open>Cudd_bddExistAbstract\<close> and \<open>Cudd_bddUnivAbstract\<close> return \<open>NULL\<close>, with the reason in the
  error code, or the diagrams of the function for some and for all values of these variables;
  every held diagram is kept. Any other second operand is refused: \<open>NULL\<close>, with the error
  \<open>CUDD_INVALID_ARG\<close> and nothing else changed.
\<close>

theorem Cudd_bddExistAbstract_correct:
  assumes "mgr_ok ext {} m" "vars_ok ext m" "held ext m f" "held ext m c"
  shows "(\<forall>S. cube_of m c S \<longrightarrow>
      (\<exists>r m'. Cudd_bddExistAbstract f c m = Some (r, m') \<and> keep (set_mset ext) (m\<lparr>reordered := 0\<rparr>) m' \<and>
        (r = NULL \<and> errorCode m' \<noteq> CUDD_NO_ERROR \<and> mgr_ok ext {} m' \<or>
         r \<in> edges m' \<and> mgr_ok ext {Cudd_Regular r} m' \<and>
           (\<forall>env. sem m' env r = (\<exists>env'. (\<forall>i. i \<notin> S \<longrightarrow> env' i = env i) \<and> sem m env' f)))) \<and>
      (\<exists>r m'. Cudd_bddUnivAbstract f c m = Some (r, m') \<and> keep (set_mset ext) (m\<lparr>reordered := 0\<rparr>) m' \<and>
        (r = NULL \<and> errorCode m' \<noteq> CUDD_NO_ERROR \<and> mgr_ok ext {} m' \<or>
         r \<in> edges m' \<and> mgr_ok ext {Cudd_Regular r} m' \<and>
           (\<forall>env. sem m' env r = (\<forall>env'. (\<forall>i. i \<notin> S \<longrightarrow> env' i = env i) \<longrightarrow> sem m env' f))))) \<and>
    ((\<nexists>S. cube_of m c S) \<longrightarrow>
      Cudd_bddExistAbstract f c m = Some (NULL, m\<lparr>errorCode := CUDD_INVALID_ARG\<rparr>) \<and>
      Cudd_bddUnivAbstract f c m = Some (NULL, m\<lparr>errorCode := CUDD_INVALID_ARG\<rparr>))"
  using Cudd_bddExistAbstract_answered(1,3) [OF assms]
    on_cube_of(2) [OF assms(1,4)]
  by (auto simp: answered_def delivered_def quantify_def for_all_def Cudd_bddExistAbstract_def Cudd_bddUnivAbstract_def)

theorem Cudd_bddExistAbstract_correct_witness:
  "\<exists>r m'. Cudd_bddExistAbstract demo_x demo_x demo = Some (r, m') \<and> (r = NULL \<or> (\<forall>env. sem m' env r))"
proof -
  have c: "cube_of demo demo_x {0}" by (simp add: cube_of_def demo_sem)
  have e: "\<exists>env'. (\<forall>i. i \<notin> {0} \<longrightarrow> env' i = env i) \<and> env' 0" for env :: "nat \<Rightarrow> bool"
    by (rule exI [of _ "env(0 := True)"]) simp
  from Cudd_bddExistAbstract_correct [OF demo_ok demo_vars demo_held(2,2), THEN conjunct1, rule_format, OF c, THEN conjunct1]
  show ?thesis using e by (auto simp: demo_sem)
qed

text \<open>
  C17. Abstraction at once with another operation. With the conjunction of the variables of \<open>S\<close>
  as the last operand, \<open>Cudd_bddAndAbstract\<close>, \<open>Cudd_bddAndAbstractLimit\<close> and \<open>Cudd_bddXorExistAbstract\<close>
  return \<open>NULL\<close>, with the reason in the error code, or the diagram that is true where, for some values of
  these variables, both operands are, or exactly one of them is; every held diagram is kept.
\<close>

theorem Cudd_bddAndAbstract_correct:
  assumes "mgr_ok ext {} m" "vars_ok ext m" "held ext m f" "held ext m g" "held ext m c" "cube_of m c S"
    and "(op, P) \<in> {(Cudd_bddAndAbstract f g c, (\<and>)), (Cudd_bddAndAbstractLimit f g c limit, (\<and>)),
      (Cudd_bddXorExistAbstract f g c, (\<noteq>))}"
  shows "\<exists>r m'. op m = Some (r, m') \<and> keep (set_mset ext) (m\<lparr>reordered := 0\<rparr>) m' \<and>
    (r = NULL \<and> errorCode m' \<noteq> CUDD_NO_ERROR \<and> mgr_ok ext {} m' \<or>
     r \<in> edges m' \<and> mgr_ok ext {Cudd_Regular r} m' \<and>
       (\<forall>env. sem m' env r = (\<exists>env'. (\<forall>i. i \<notin> S \<longrightarrow> env' i = env i) \<and> P (sem m env' f) (sem m env' g))))"
proof -
  have "answered ext m (quantify S (\<lambda>env. P (sem m env f) (sem m env g))) (op m)"
    using assms(7) Cudd_bddAndAbstract_answered [OF assms(1-6)] by auto
  then show ?thesis by (simp add: answered_def delivered_def quantify_def)
qed

theorem Cudd_bddAndAbstract_correct_witness:
  "\<exists>r m'. Cudd_bddAndAbstract demo_x demo_y demo_x demo = Some (r, m') \<and> (r = NULL \<or> (\<forall>env. sem m' env r = env 1))"
proof -
  have c: "cube_of demo demo_x {0}" by (simp add: cube_of_def demo_sem)
  have e: "(\<exists>env'. (\<forall>i. i \<notin> {0} \<longrightarrow> env' i = env i) \<and> env' 0 \<and> env' 1) = env 1" for env :: "nat \<Rightarrow> bool"
    by (auto intro: exI [of _ "env(0 := True)"])
  show ?thesis
    using Cudd_bddAndAbstract_correct [OF demo_ok demo_vars demo_held(2,3,2) c,
        of "Cudd_bddAndAbstract demo_x demo_y demo_x" "(\<and>)"] unfolding demo_sem e by blast
qed

text \<open>
  C18. One variable. \<open>Cudd_bddBooleanDiff\<close> returns \<open>NULL\<close>, with the reason in the error
  code, or the diagram of the function that says where the operand depends on the variable;
  \<open>Cudd_bddVarIsDependent\<close> answers whether no assignment of the others satisfies the operand for
  both values of the variable. Both keep every held diagram.
\<close>

theorem Cudd_bddBooleanDiff_correct:
  assumes "mgr_ok ext {} m" "vars_ok ext m" "held ext m f"
  shows "(\<exists>r m'. Cudd_bddBooleanDiff f x m = Some (r, m') \<and>
      keep (set_mset ext) (m\<lparr>reordered := reordered m'\<rparr>) m' \<and>
      (r = NULL \<and> errorCode m' \<noteq> CUDD_NO_ERROR \<and> mgr_ok ext {} m' \<or>
       r \<in> edges m' \<and> mgr_ok ext {Cudd_Regular r} m' \<and>
         (\<forall>env. sem m' env r = (sem m (env(x := True)) f \<noteq> sem m (env(x := False)) f)))) \<and>
    (x < dsize m \<longrightarrow> (\<exists>m'. Cudd_bddVarIsDependent f (vars m ! x) m =
        Some ((\<nexists>env. sem m (env(x := True)) f \<and> sem m (env(x := False)) f), m') \<and>
      keep (set_mset ext) m m' \<and> mgr_ok ext {} m'))"
  using Cudd_bddBooleanDiff_kept [OF assms, of x] Cudd_bddVarIsDependent_var [OF assms]
  by (auto simp: diff_fun_def tested_def dependent_def)

theorem Cudd_bddBooleanDiff_correct_witness:
  "\<exists>m'. Cudd_bddVarIsDependent demo_x (vars demo ! 0) demo = Some (True, m')"
  using Cudd_bddBooleanDiff_correct [OF demo_ok demo_vars demo_held(2), of 0]
  by (auto simp: demo_sem demo_fields)

text \<open>
  C19. Canonicity. In a consistent manager two edges are equal as soon as they denote the same
  function: a comparison of pointers decides equivalence, as the operations assume when they
  compare operands and results.
\<close>

theorem edges_canonical:
  assumes "mgr_ok ext F m" "e \<in> edges m" "e' \<in> edges m"
  shows "e = e' \<longleftrightarrow> (\<forall>env. sem m env e = sem m env e')"
  using canonical [OF mgr_okD(5) [OF assms(1)] assms(2,3)] by blast

theorem edges_canonical_witness: "demo_x \<noteq> demo_y \<longleftrightarrow> \<not> (\<forall>env. (env :: nat \<Rightarrow> bool) 0 = env 1)"
  using edges_canonical [OF demo_ok, of demo_x demo_y] by (simp add: demo_sem edges_def demo_ptrs demo_nodes)

section \<open>Memory\<close>

text \<open>
  C20. Garbage collection. \<open>cuddGarbageCollect\<close> on a consistent manager returns (its check of
  the counts never aborts), leaves a consistent manager, keeps every diagram the caller holds and
  the contents of every node that it keeps; when it collects, no dead node is left.
\<close>

theorem cuddGarbageCollect_correct:
  assumes "mgr_ok ext {} m"
  shows "\<exists>k m'. cuddGarbageCollect True m = Some (k, m') \<and> mgr_ok ext {} m' \<and> keep (set_mset ext) m m' \<and>
    tabnodes m' \<subseteq> tabnodes m \<and> (\<forall>p. cont m' p = cont m p) \<and>
    (garbageCollections m' = garbageCollections m \<longrightarrow> tabnodes m' = tabnodes m) \<and>
    (garbageCollections m' \<noteq> garbageCollections m \<longrightarrow> {p \<in> tabnodes m'. refc m' p = 0} = {}) \<and>
    (k \<noteq> 0 \<longrightarrow> nextFree m' \<noteq> [])"
proof -
  obtain k m' where r: "cuddGarbageCollect True m = Some (k, m')" "gc_result ext m m'" "k \<noteq> 0 \<longrightarrow> nextFree m' \<noteq> []"
    using cuddGarbageCollect_ok [OF assms] by blast
  then have "garbageCollections m' = garbageCollections m \<longrightarrow> tabnodes m' = tabnodes m"
    using store_cong(10) unfolding gc_result_def by blast
  then show ?thesis using r unfolding gc_result_def by (auto simp: dset_def)
qed

theorem cuddGarbageCollect_correct_witness:
  "\<exists>k m'. cuddGarbageCollect True demo = Some (k, m') \<and> demo_x \<in> nodes m' \<and> tabnodes m' \<subseteq> {demo_x, demo_y}"
proof -
  have "demo_x \<in> reach demo (set_mset demo_ext)" using demo_held(2) by (simp add: held_def demo_ptrs)
  then show ?thesis
    using cuddGarbageCollect_correct [OF demo_ok] by (auto simp: keep_def demo_nodes(1))
qed

text \<open>
  C21. Releasing a diagram. With one reference of the caller to give up,
  \<open>Cudd_IterDerefBdd\<close> and \<open>Cudd_RecursiveDeref\<close> return the same manager: consistent with that
  reference gone, the same nodes and diagrams, only counts changed.
\<close>

theorem Cudd_RecursiveDeref_correct:
  assumes "mgr_ok (add_mset (Cudd_Regular e) ext) {} m" "DD_ONE m \<in># ext"
  shows "\<exists>m'. Cudd_RecursiveDeref e m = Some m' \<and> Cudd_IterDerefBdd e m = Some m' \<and> mgr_ok ext {} m' \<and>
    store m' = store m \<and> (\<forall>env. sem m' env = sem m env)"
  using iterDeref_ok [OF assms] counts_only_store sem_cong_store by metis

theorem Cudd_RecursiveDeref_correct_witness:
  "\<exists>m'. Cudd_RecursiveDeref (Cudd_Not demo_y) demo = Some m' \<and> mgr_ok {# demo_one, demo_x #} {} m'"
proof -
  have e: "add_mset (Cudd_Regular (Cudd_Not demo_y)) {# demo_one, demo_x #} = demo_ext"
    by (simp add: demo_ext_def demo_ptrs)
  show ?thesis
    using Cudd_RecursiveDeref_correct [of "Cudd_Not demo_y" "{# demo_one, demo_x #}" demo, unfolded e, OF demo_ok]
    by (auto simp: demo_fields)
qed

text \<open>
  C22. Taking and giving back a reference. On a node that is held or was just delivered,
  \<open>Cudd_Ref\<close> returns and gives the caller one more reference; \<open>Cudd_RecursiveDeref\<close> after it
  brings back a manager consistent with the references the caller had.
\<close>

theorem Cudd_Ref_Deref_roundtrip:
  assumes "mgr_ok ext {Cudd_Regular e} m" "e \<in> edges m"
  shows "\<exists>m' m''. Cudd_Ref e m = Some m' \<and> mgr_ok (add_mset (Cudd_Regular e) ext) {} m' \<and>
    Cudd_RecursiveDeref e m' = Some m'' \<and> mgr_ok ext {} m'' \<and> store m'' = store m"
proof -
  have n: "Cudd_Regular e \<in> nodes m" "Cudd_Regular e \<notin> dset {Cudd_Regular e} m"
    using assms(2) by (simp_all add: edges_def dset_iff)
  obtain m1 where m1: "Cudd_Ref e m = Some m1" "mgr_ok (add_mset (Cudd_Regular e) ext) {} m1" "counts_only m m1"
    using cuddRef_ok [OF assms(1) n] by (auto simp: Cudd_Ref_eq)
  have "DD_ONE m1 \<in># ext"
    using mgr_okD(2) [OF assms(1)] store_cong(7) [OF counts_only_store [OF m1(3)]] by simp
  then obtain m2 where "Cudd_RecursiveDeref e m1 = Some m2" "mgr_ok ext {} m2" "counts_only m1 m2"
    using iterDeref_ok [OF m1(2)] by blast
  then show ?thesis
    using m1 counts_only_store [OF counts_only_trans [OF m1(3)]] by blast
qed

theorem Cudd_Ref_Deref_roundtrip_witness:
  "\<exists>m' m''. Cudd_Ref demo_x demo = Some m' \<and> Cudd_RecursiveDeref demo_x m' = Some m'' \<and>
    mgr_ok demo_ext {} m'' \<and> store m'' = store demo"
proof -
  have "mgr_ok demo_ext {demo_x} demo"
    using unfloat_held [OF demo_held(2) demo_ok] by (simp add: demo_ptrs)
  then show ?thesis
    using Cudd_Ref_Deref_roundtrip [of demo_ext demo_x demo] by (auto simp: demo_ptrs edges_def demo_nodes)
qed

text \<open>
  C23. Reclaiming. A dead node that is found again is brought back with the nodes below it:
  \<open>cuddReclaim\<close> returns and leaves a consistent manager in which the caller may take a
  reference to the node; the diagrams are the same.
\<close>

theorem cuddReclaim_correct:
  assumes "mgr_ok ext {} m" "e \<in> edges m"
  shows "\<exists>m'. cuddReclaim e m = Some m' \<and> mgr_ok ext {Cudd_Regular e} m' \<and> store m' = store m"
  using cuddReclaim_ok [OF assms(1), of e] assms(2) counts_only_store by (auto simp: edges_def)

theorem cuddReclaim_correct_witness: "\<exists>m'. cuddReclaim demo_y demo = Some m' \<and> mgr_ok demo_ext {demo_y} m'"
  using cuddReclaim_correct [OF demo_ok, of demo_y] by (auto simp: edges_def demo_nodes demo_ptrs)

text \<open>
  C24. The death row. Clearing it returns a consistent manager with an empty row, in which the
  postponed dereferences are done; shrinking it keeps the manager consistent. Neither changes a
  diagram.
\<close>

theorem death_row_correct:
  assumes "mgr_ok ext {} m"
  shows "(\<exists>m'. cuddClearDeathRow m = Some m' \<and> mgr_ok ext {} m' \<and> store m' = store m \<and>
      (\<forall>p \<in> set (deathRow m'). p = NULL)) \<and>
    (\<exists>m'. cuddShrinkDeathRow m = Some m' \<and> mgr_ok ext {} m' \<and> store m' = store m)"
  using cuddClearDeathRow_ok [OF assms] cuddShrinkDeathRow_ok [OF assms] row_only_fields(1) by meson

theorem death_row_correct_witness:
  "(\<exists>m'. cuddClearDeathRow demo = Some m' \<and> (\<forall>p \<in> set (deathRow m'). p = NULL)) \<and>
    (\<exists>m'. cuddShrinkDeathRow demo = Some m' \<and> store m' = store demo)"
  using death_row_correct [OF demo_ok] by blast

text \<open>
  C25. Allocation. \<open>cuddAllocNode\<close> returns \<open>NULL\<close> or the address of a node that is in no
  table and no longer free; it may collect garbage, take a new block of memory from the system or
  fail, and in each case leaves a consistent manager with the caller's diagrams.
\<close>

theorem cuddAllocNode_correct:
  assumes "mgr_ok ext {} m"
  shows "\<exists>r m'. cuddAllocNode m = Some (r, m') \<and> mgr_ok ext {} m' \<and> keep (set_mset ext) m m' \<and>
    tabnodes m' \<subseteq> tabnodes m \<and> (r = NULL \<or> r \<notin> tabnodes m' \<and> r \<notin> set (nextFree m') \<and> r \<in> set (pool m'))"
  using cuddAllocNode_ok [OF assms] unfolding alloc_result_def shrinks_def fresh_in_def by metis

theorem cuddAllocNode_correct_witness:
  "\<exists>r m'. cuddAllocNode demo = Some (r, m') \<and> (r = NULL \<or> r \<notin> tabnodes m' \<and> r \<notin> set (nextFree m'))"
  using cuddAllocNode_correct [OF demo_ok] by blast

text \<open>
  C26. Growing the unique table. Before an insertion \<open>make_room\<close> collects garbage or
  rehashes a subtable that is too full. It returns a consistent manager (each node in the bucket
  of its hash value, the chains ordered), keeps the caller's diagrams and adds no node.
\<close>

theorem make_room_correct:
  assumes "mgr_ok ext {} m" "l < dsize m"
  shows "\<exists>ok m'. make_room l m = Some (ok, m') \<and> mgr_ok ext {} m' \<and> keep (set_mset ext) m m' \<and>
    tabnodes m' \<subseteq> tabnodes m \<and> (\<forall>p \<in> tabnodes m'. cont m' p = cont m p)"
proof -
  obtain ok m' where "make_room l m = Some (ok, m')" "shrinks ext m m'"
    using make_room_ok [OF assms] by blast
  then show ?thesis by (auto simp: shrinks_def nodes_def)
qed

theorem make_room_correct_witness:
  "\<exists>ok m'. make_room 1 demo = Some (ok, m') \<and> mgr_ok demo_ext {} m'"
  using make_room_correct [OF demo_ok, of 1] by (auto simp: demo_fields)

section \<open>The computed table\<close>

text \<open>
  C27. A lookup is sound. For operands in the table \<open>cuddCacheLookup2\<close> returns \<open>NULL\<close>,
  or a diagram, which the caller may reference even if it was dead, that is the result of the
  operator on the operands, for each of the operators whose results the modelled procedures record:
  conjunction, exclusive or, intersection, containment, existential abstraction, Boolean difference
  and dependence.
\<close>

theorem cuddCacheLookup2_sound:
  assumes "mgr_ok ext {} m" "f \<in> edges m"
  shows "\<exists>r m'. cuddCacheLookup2 opr f g m = Some (r, m') \<and> store m' = store m \<and>
    (r = NULL \<and> mgr_ok ext {} m' \<or> r \<in> edges m \<and> mgr_ok ext {Cudd_Regular r} m' \<and>
      (opr = fp_Cudd_bddAnd \<longrightarrow> (\<forall>env. sem m env r = (sem m env f \<and> sem m env g))) \<and>
      (opr = fp_Cudd_bddXor \<longrightarrow> (\<forall>env. sem m env r = (sem m env f \<noteq> sem m env g))) \<and>
      (opr = fp_Cudd_bddIntersect \<longrightarrow> (\<forall>env. sem m env r \<longrightarrow> sem m env f \<and> sem m env g) \<and>
        ((\<exists>env. sem m env f \<and> sem m env g) \<longrightarrow> (\<exists>env. sem m env r))) \<and>
      (opr = fp_Cudd_bddLeq \<longrightarrow> r = (if \<forall>env. sem m env f \<longrightarrow> sem m env g then DD_ONE m else Cudd_Not (DD_ONE m))) \<and>
      (opr = fp_Cudd_bddExistAbstract \<longrightarrow> (\<forall>S. cube_of m g S \<longrightarrow> (\<forall>env. sem m env r =
         (\<exists>env'. (\<forall>i. i \<notin> S \<longrightarrow> env' i = env i) \<and> sem m env' f)))) \<and>
      (opr = fp_cuddBddBooleanDiffRecur \<longrightarrow> (\<forall>i. is_var m g i \<longrightarrow>
         (\<forall>env. sem m env r = (sem m (env(i := True)) f \<noteq> sem m (env(i := False)) f)))) \<and>
      (opr = fp_Cudd_bddVarIsDependent \<longrightarrow> (\<forall>i. is_var m g i \<longrightarrow>
         r = (if \<exists>env. sem m (env(i := True)) f \<and> sem m (env(i := False)) f
              then Cudd_Not (DD_ONE m) else DD_ONE m))))"
proof -
  obtain r m' where r: "cuddCacheLookup2 opr f g m = Some (r, m')" "store m' = store m"
    "r = NULL \<and> mgr_ok ext {} m' \<or>
      r \<in> edges m \<and> entry2_ok m \<lparr>c_f = f, c_g = g, c_h = opr, c_data = r\<rparr> \<and> mgr_ok ext {Cudd_Regular r} m'"
    using cuddCacheLookup2_ok [OF assms, of g opr] unfolding looked_up_def by blast
  note e = entry2_results [where m = m and f = f and g = g and opr = opr and r = r]
  show ?thesis
    using r(3)
  proof
    assume "r = NULL \<and> mgr_ok ext {} m'"
    then show ?thesis using r(1,2) by blast
  next
    assume h: "r \<in> edges m \<and> entry2_ok m \<lparr>c_f = f, c_g = g, c_h = opr, c_data = r\<rparr> \<and> mgr_ok ext {Cudd_Regular r} m'"
    then show ?thesis by (intro exI [of _ r] exI [of _ m'] conjI r(1,2) disjI2 e) simp_all
  qed
qed

theorem cuddCacheLookup2_sound_witness:
  "\<exists>r m'. cuddCacheLookup2 fp_Cudd_bddAnd demo_x demo_y demo = Some (r, m') \<and>
    (r = NULL \<or> (\<forall>env. sem demo env r = (env 0 \<and> env 1)))"
  using cuddCacheLookup2_sound [OF demo_ok, of demo_x fp_Cudd_bddAnd demo_y]
  by (auto simp: demo_sem edges_def demo_ptrs demo_nodes)

text \<open>
  C28. Insert, then look up. A result of \<open>Cudd_bddAnd\<close> recorded by \<open>cuddCacheInsert2\<close> is
  found again by the next lookup of the same operands, and the manager stays consistent.
\<close>

theorem cuddCache_roundtrip:
  assumes "mgr_ok ext {} m" "f \<in> edges m" "g \<in> edges m" "r \<in> edges m"
    and "\<forall>env. sem m env r = (sem m env f \<and> sem m env g)"
  shows "\<exists>m' m''. cuddCacheInsert2 fp_Cudd_bddAnd f g r m = Some m' \<and> mgr_ok ext {} m' \<and>
    cuddCacheLookup2 fp_Cudd_bddAnd f g m' = Some (r, m'') \<and> mgr_ok ext {Cudd_Regular r} m''"
proof -
  have c: "cache_ok m" using mgr_cache [OF assms(1)] .
  have e: "entry2_ok m \<lparr>c_f = f, c_g = g, c_h = fp_Cudd_bddAnd, c_data = r\<rparr>"
    using assms(2-5)
    by (simp add: entry2_ok_def fp_defs)
  obtain m1 where m1: "cuddCacheInsert2 fp_Cudd_bddAnd f g r m = Some m1" "core m1 = core m" "mgr_ok ext {} m1"
    using cuddCacheInsert2_ok [OF assms(1)] e unfolding entry_ok_def by blast
  have at: "cache m1 ! ddCHash2 fp_Cudd_bddAnd f g (cacheShift m1) =
      \<lparr>c_f = f, c_g = g, c_h = fp_Cudd_bddAnd, c_data = r\<rparr>"
    using m1(1) cache_okD(1) [OF c] by (auto simp: cuddCacheInsert2_def cache_put_def Let_def)
  have "r \<in> edges m1" using assms(4) store_cong(12) [OF core_fields(1) [OF m1(2)]] by simp
  then obtain m2 where m2: "cache_hit cuddReclaim r m1 = Some (r, m2)" "mgr_ok ext {Cudd_Regular r} m2"
    using cache_hit_ok [OF m1(3)] by blast
  have "r \<noteq> NULL" using edges_nonnull [OF mgr_okD(5) [OF assms(1)] assms(4)] .
  then have "cuddCacheLookup2 fp_Cudd_bddAnd f g m1 = Some (r, m2)"
    using m2(1) cache_okD(1) [OF mgr_cache [OF m1(3)]] at by (simp add: cuddCacheLookup2_def)
  then show ?thesis using m1 m2(2) by blast
qed

theorem cuddCache_roundtrip_witness:
  "\<exists>m' m''. cuddCacheInsert2 fp_Cudd_bddAnd demo_x demo_one demo_x demo = Some m' \<and>
    cuddCacheLookup2 fp_Cudd_bddAnd demo_x demo_one m' = Some (demo_x, m'')"
  using cuddCache_roundtrip [OF demo_ok, of demo_x demo_one demo_x]
  by (auto simp: demo_sem edges_def demo_ptrs demo_nodes)

text \<open>
  C29. Resizing the computed table. With slack left, \<open>cuddCacheResize\<close> returns; whether
  or not memory was there, every entry is still sound, the positions of the hash function are
  within the new table and the diagrams are untouched.
\<close>

theorem cuddCacheResize_correct:
  assumes "mgr_ok ext F m" "0 \<le> cacheSlack m"
  shows "\<exists>m'. cuddCacheResize m = Some m' \<and> mgr_ok ext F m' \<and> store m' = store m \<and>
    (\<forall>opr f g. ddCHash2 opr f g (cacheShift m') < length (cache m'))"
proof -
  obtain m' where m': "cuddCacheResize m = Some m'" "core m' = core m" "cache_ok m'"
    using cuddCacheResize_ok [OF mgr_cache [OF assms(1)] assms(2)] by blast
  then show ?thesis
    using core_ok(3) [OF m'(2) assms(1)] core_fields(1) [OF m'(2)] cache_okD(1) [OF m'(3)] by blast
qed

theorem cuddCacheResize_correct_witness: "\<exists>m'. cuddCacheResize demo = Some m' \<and> mgr_ok demo_ext {} m'"
  using cuddCacheResize_correct [OF demo_ok] by (auto simp: demo_def)

text \<open>
  C30. Flushing empties the computed table and leaves the manager consistent.
\<close>

theorem cuddCacheFlush_correct:
  assumes "mgr_ok ext F m"
  shows "mgr_ok ext F (cuddCacheFlush m) \<and> store (cuddCacheFlush m) = store m \<and>
    (\<forall>c \<in> set (cache (cuddCacheFlush m)). c_data c = NULL)"
  using cuddCacheFlush_ok [OF assms] core_fields(1) by blast

theorem cuddCacheFlush_correct_witness: "mgr_ok demo_ext {} (cuddCacheFlush demo)"
  using cuddCacheFlush_correct [OF demo_ok] by blast

text \<open>
  C31. The logarithm. For a positive value \<open>cuddComputeFloorLog2\<close> is the exponent of
  the largest power of two that is not greater.
\<close>

theorem cuddComputeFloorLog2_correct:
  assumes "0 < value"
  shows "2 ^ cuddComputeFloorLog2 value \<le> value \<and> value < 2 * 2 ^ cuddComputeFloorLog2 value"
  using floorLog2_loop_bounds [OF assms, of 0] by (auto simp: cuddComputeFloorLog2_def)

theorem cuddComputeFloorLog2_correct_witness:
  "2 ^ cuddComputeFloorLog2 1000 \<le> (1000 :: nat) \<and> 1000 < 2 * (2 :: nat) ^ cuddComputeFloorLog2 1000"
  using cuddComputeFloorLog2_correct [of 1000] by simp

section \<open>Path conditions\<close>

text \<open>
  C32. The support. \<open>BddSupport\<close> adds to the set exactly the indices of the variables
  that the condition depends on, and the marks it leaves on the nodes while walking are all gone
  at the end.
\<close>

theorem BddSupport_correct:
  assumes "mgr_ok ext F m" "f \<in> edges m"
  shows "BddSupport m f ({}, S) = Some ({}, S \<union> {i. unat i < dsize m \<and>
    (\<exists>env. sem m (env(unat i := True)) f \<noteq> sem m (env(unat i := False)) f)})"
  using BddSupport_ok [OF mgr_okD(5) [OF assms(1)] assms(2)] by (simp add: support_of_def depends_def)

theorem BddSupport_correct_witness:
  "BddSupport demo (Cudd_Not demo_y) ({}, {}) = Some ({}, {1})"
proof -
  have "unat i < 2 \<and> (\<exists>env :: nat \<Rightarrow> bool. (env(unat i := True)) 1 \<noteq> (env(unat i := False)) 1) \<longleftrightarrow> i = 1"
    for i :: DdHalfWord by (auto simp: word_unat_eq_iff)
  then show ?thesis
    using BddSupport_correct [OF demo_ok, of "Cudd_Not demo_y" "{}"]
    by (simp add: demo_sem edges_def demo_ptrs demo_nodes demo_fields)
qed

text \<open>
  C33. Negation of a condition is the complement, costs no node, and is an involution.
\<close>

theorem cond_NEG_correct:
  assumes "mgr_ok ext {} m" "held ext m lhs"
  shows "held ext m (cond_NEG lhs m) \<and> (\<forall>env. sem m env (cond_NEG lhs m) = (\<not> sem m env lhs)) \<and>
    cond_NEG (cond_NEG lhs m) m = lhs"
  using cond_NEG_ok [OF assms] cond_NEG_ok(3) [OF assms(1)] by fastforce

theorem cond_NEG_correct_witness: "cond_NEG (cond_NEG demo_x demo) demo = demo_x"
  using cond_NEG_correct [OF demo_ok demo_held(2)] by blast

section \<open>The hash table\<close>

text \<open>
  C34. Lookup in a table of pointers. \<open>st_lookup\<close> gives the record that the table's
  map has for the key, or that there is none; the table keeps its map, also when the entry is moved
  to the head of its bin.
\<close>

theorem st_lookup_correct:
  assumes "st_valid st_ptrcmp st_ptrhash t"
  shows "\<exists>t'. st_lookup t k = Some (st_map t k, t') \<and> st_valid st_ptrcmp st_ptrhash t' \<and> st_map t' = st_map t"
  using ptr_keys.lookup_ok [OF assms] .

theorem st_lookup_correct_witness: "\<exists>t'. st_lookup st_demo 0x1010 = Some (None, t') \<and> st_map t' = Map.empty"
  using st_lookup_correct [OF st_demo_ok(1)] st_demo_ok(2) by auto



text \<open>
  C36. Deletion. In a table without the reorder flag \<open>st_delete\<close> removes the key from
  the map and returns the entry it had, if any.
\<close>

theorem st_delete_correct:
  assumes "st_valid st_ptrcmp st_ptrhash t" "\<not> reorder_flag t"
  shows "\<exists>res t'. st_delete t k = Some (res, t') \<and> st_valid st_ptrcmp st_ptrhash t' \<and>
    map_option snd res = st_map t k \<and> st_map t' = (st_map t)(k := None)"
proof -
  have "(\<lambda>x. if x = k then None else st_map t x) = (st_map t)(k := None)" by auto
  then show ?thesis using ptr_keys.delete_ok [OF assms, of k] by simp
qed

theorem st_delete_correct_witness:
  "\<exists>res t'. st_delete st_demo 0x1010 = Some (res, t') \<and> res = None \<and> st_map t' = Map.empty"
  using st_delete_correct [OF st_demo_ok(1,3), of "0x1010"] by (auto simp: st_demo_ok(2))



text \<open>
  C38. When the next number of bins can be allocated, growing the table moves every entry to the bin of its key in the new table and
  loses none: the map is the same, and without memory the table is.
\<close>

theorem rehash_correct:
  assumes "st_valid st_ptrcmp st_ptrhash t" "can_grow t" "num_entries t < 2 ^ 31"
  shows "\<exists>rc t' mem'. rehash t mem = Some (rc, t', mem') \<and> st_valid st_ptrcmp st_ptrhash t' \<and>
    mset (concat (bins t')) = mset (concat (bins t)) \<and> st_map t' = st_map t \<and>
    (rc = ST_OUT_OF_MEM \<and> t' = t \<or> rc = 1)"
proof -
  obtain rc t' mem' where r: "rehash t mem = Some (rc, t', mem')" "st_valid st_ptrcmp st_ptrhash t'"
    "entries t' = entries t" "rc = ST_OUT_OF_MEM \<and> t' = t \<or> rc = 1"
    using ptr_keys.rehash_ok [OF assms, of mem] by blast
  have "st_map t' = st_map t"
    using st_map_cong [of t t'] st_validD [OF r(2)] st_validD [OF assms(1)] r(3) by simp
  then show ?thesis using r by (auto simp: entries_def)
qed

theorem rehash_correct_witness:
  "\<exists>rc t' mem'. rehash st_demo [True] = Some (rc, t', mem') \<and> st_map t' = Map.empty"
  using rehash_correct [OF st_demo_ok(1) st_demo_room(2,3), of "[True]"] unfolding st_demo_ok(2) by meson

text \<open>
  C39. A copy, when there is memory for it, has the same map; iterating over a table
  with \<open>st_foreach\<close> keeps its invariant, whatever the function returns, and only removes entries.
\<close>

theorem st_copy_foreach_correct:
  assumes "st_valid st_ptrcmp st_ptrhash t"
  shows "(\<forall>t'. fst (st_copy t mem) = Some t' \<longrightarrow> st_valid st_ptrcmp st_ptrhash t' \<and> st_map t' = st_map t) \<and>
    (\<forall>go t' arg'. st_foreach t func arg = (go, t', arg') \<longrightarrow>
      st_valid st_ptrcmp st_ptrhash t' \<and> mset (concat (bins t')) \<subseteq># mset (concat (bins t)))"
  using ptr_keys.copy_ok [OF assms, of mem] foreach_ok [OF assms]
  by (auto simp: entries_def split: prod.splits)

theorem st_copy_foreach_correct_witness:
  "\<exists>t'. fst (st_copy st_demo [True, True]) = Some t' \<and> st_map t' = Map.empty"
proof -
  have "fst (st_copy st_demo [True, True]) = Some (st_demo\<lparr>bins := map rev (bins st_demo)\<rparr>)"
    by (simp add: st_copy_def alloc_def st_demo_def numeral_2_eq_2)
  then show ?thesis using st_copy_foreach_correct [OF st_demo_ok(1), of "[True, True]", THEN conjunct1]
    unfolding st_demo_ok(2) by blast
qed

text \<open>
  C40. A generator, which \<open>st_init_gen\<close> makes when there is memory for it, enumerates the
  table: the first calls of \<open>st_gen\<close> give each entry
  once, in the order of the bins, and the later ones say that there is no more.
\<close>

theorem st_gen_enumerates:
  "\<exists>g. fst (st_init_gen t mem) = (if fst (alloc mem) then Some g else None) \<and>
    gen_items (length (concat (bins t)) + n) g = map Some (concat (bins t)) @ replicate n None"
proof -
  let ?g = "\<lparr>gen_table = t, entry = [], gen_index = 0\<rparr>"
  have "gen_rest ?g = concat (bins t)" by (simp add: gen_rest_def)
  then have "gen_items (length (concat (bins t)) + n) ?g = map Some (concat (bins t)) @ replicate n None"
    using gen_items_rest [of ?g n] by simp
  then show ?thesis by (intro exI [of _ ?g]) (simp add: st_init_gen_def split: prod.splits)
qed

end
